(* ===== verification/Dpos_Prelude.thy ===== *)
theory Dpos_Prelude
  imports Main "HOL-Library.List_Lexorder" "HOL-Library.Char_ord"
begin

text \<open>
  Shared vocabulary of the development: Go's machine integers, byte strings, outcomes of
  calls (a value, a returned error, a panic), the error values of \<^verbatim>\<open>types/error.go\<close>, and
  the sequencing of stateful calls that may fail.
\<close>

section \<open>Machine integers\<close>

text \<open>
  Go's \<open>int64\<close> and \<open>int32\<close> are integers with the wrap-around written out: every
  arithmetic result of the source is passed through \<open>i64\<close> (or \<open>i32\<close>), which is
  the identity on values in range.
\<close>

named_theorems int_width \<comment> \<open>facts that unfold the range predicates\<close>

definition i64 :: "int \<Rightarrow> int" where
  "i64 x = (x + 2 ^ 63) mod 2 ^ 64 - 2 ^ 63"

definition i32 :: "int \<Rightarrow> int" where
  "i32 x = (x + 2 ^ 31) mod 2 ^ 32 - 2 ^ 31"

definition in_i64 :: "int \<Rightarrow> bool" where
  [int_width]: "in_i64 x \<longleftrightarrow> - (2 ^ 63) \<le> x \<and> x < 2 ^ 63"

definition in_i32 :: "int \<Rightarrow> bool" where
  [int_width]: "in_i32 x \<longleftrightarrow> - (2 ^ 31) \<le> x \<and> x < 2 ^ 31"

lemma i64_id [simp]: "in_i64 x \<Longrightarrow> i64 x = x"
  by (simp add: i64_def in_i64_def)

lemma i32_id [simp]: "in_i32 x \<Longrightarrow> i32 x = x"
  by (simp add: i32_def in_i32_def)

lemma in_i64_i64 [simp]: "in_i64 (i64 x)"
  using pos_mod_bound [of "2 ^ 64" "x + 2 ^ 63"] pos_mod_sign [of "2 ^ 64" "x + 2 ^ 63"]
  by (simp add: i64_def in_i64_def)

lemma in_i32_i32 [simp]: "in_i32 (i32 x)"
  using pos_mod_bound [of "2 ^ 32" "x + 2 ^ 31"] pos_mod_sign [of "2 ^ 32" "x + 2 ^ 31"]
  by (simp add: i32_def in_i32_def)

lemma in_i64_between: "in_i64 a \<Longrightarrow> in_i64 b \<Longrightarrow> a \<le> x \<Longrightarrow> x \<le> b \<Longrightarrow> in_i64 x"
  by (simp add: in_i64_def)

section \<open>Byte strings\<close>

text \<open>
  A Go \<open>[]byte\<close> and a Go \<open>string\<close> are both a HOL \<open>string\<close> (a list of 8-bit
  characters), so the conversions between the two are the identity. \<open>bytes.Compare\<close>
  is the lexicographic order of the library (\<open>List_Lexorder\<close> over \<open>Char_ord\<close>).
  Where the code distinguishes a nil slice from an empty one, the slice is an \<open>option\<close>.
\<close>

type_synonym bytes = string

section \<open>Errors and outcomes\<close>

text \<open>
  The error values of \<^verbatim>\<open>types/error.go\<close> that the modelled code returns. The Go
  variables are distinct pointers, compared by identity, as the constructors are.
\<close>

datatype err =
    ErrNotFound | ErrAmount | ErrNoBalance | ErrSendSameToRecv | ErrNotAllowDeposit
  | ErrExecNameNotAllow | ErrSymbolNameNotAllow
  | ErrTxExist | ErrMemFull | ErrManyTx
  | ErrDisableRead | ErrDisableWrite | ErrPointerNotFound | ErrNotSetInTransaction
  | ErrTxGroupCountLessThanTwo | ErrTxGroupEmpty | ErrTxGroupParaCount | ErrTxGroupParaMainMixed
  | ErrTxGroupFeeNotZero | ErrTxGroupHeader | ErrTxGroupCountBigThanMaxSize | ErrTxGroupCount
  | ErrTxGroupNext | ErrNomalTx | ErrTxMsgSizeTooBig | ErrTxFeeTooLow | ErrTxFeeTooHigh | ErrIndex
  | ErrHeaderNotSet | ErrTxExpire | ErrInvalidAddress | ErrEmptyTx | ErrDupTx | ErrNotSync | ErrSize
  | ErrSign
  | ErrBlockExec | ErrCheckTxHash | ErrCheckStateHash | ErrTxDup | ErrIsClosed | ErrBlockHashNoMatch
  | ErrNotSupport | ErrBlockExist | ErrParentBlockNoExist | ErrBlockHeightNoMatch | ErrParentTdNoExist
  | ErrHashNotExist | ErrHeightNotExist | ErrFutureBlock
  | ErrActionNotSupport | ErrNodeNotExist | ErrHashNotFound | ErrDataBaseDamage | ErrUnmarshal
  | ErrOther nat \<comment> \<open>an error of code outside the repository, by an arbitrary tag\<close>

text \<open>
  A call either returns a value (\<open>Ok\<close>), returns an error value (\<open>Fail\<close>) or
  panics (\<open>Panic\<close>).
\<close>

datatype 'a outcome = Ok 'a | Fail err | Panic

text \<open>
  A stateful call takes the state and returns the outcome together with the new state, so
  that what a failing call has already written stays visible. \<open>andThen\<close> is Go's
  \<^verbatim>\<open>x, err := m(); if err != nil { return nil, err }\<close> with a panic passed on.
\<close>

type_synonym ('s, 'a) op = "'s \<Rightarrow> 'a outcome \<times> 's"

definition returnO :: "'a \<Rightarrow> ('s, 'a) op" where
  "returnO x = (\<lambda>s. (Ok x, s))"

definition failO :: "err \<Rightarrow> ('s, 'a) op" where
  "failO e = (\<lambda>s. (Fail e, s))"

definition panicO :: "('s, 'a) op" where
  "panicO = (\<lambda>s. (Panic, s))"

definition andThen :: "('s, 'a) op \<Rightarrow> ('a \<Rightarrow> ('s, 'b) op) \<Rightarrow> ('s, 'b) op" where
  "andThen m f = (\<lambda>s. case m s of
     (Ok x, s') \<Rightarrow> f x s'
   | (Fail e, s') \<Rightarrow> (Fail e, s')
   | (Panic, s') \<Rightarrow> (Panic, s'))"

text \<open>\<^verbatim>\<open>if err != nil { panic(err) }\<close>: an error of the call becomes a panic.\<close>

definition mustO :: "('s, 'a) op \<Rightarrow> ('s, 'a) op" where
  "mustO m = (\<lambda>s. case m s of
     (Ok x, s') \<Rightarrow> (Ok x, s')
   | (Fail e, s') \<Rightarrow> (Panic, s')
   | (Panic, s') \<Rightarrow> (Panic, s'))"

lemmas op_defs = returnO_def failO_def panicO_def andThen_def mustO_def

lemma returnO_apply [simp]: "returnO x s = (Ok x, s)"
  by (simp add: returnO_def)

lemma failO_apply [simp]: "failO e s = (Fail e, s)"
  by (simp add: failO_def)

lemma panicO_apply [simp]: "panicO s = (Panic, s)"
  by (simp add: panicO_def)

lemma andThen_Ok [simp]: "m s = (Ok x, s') \<Longrightarrow> andThen m f s = f x s'"
  by (simp add: andThen_def)

lemma andThen_Fail [simp]: "m s = (Fail e, s') \<Longrightarrow> andThen m f s = (Fail e, s')"
  by (simp add: andThen_def)

lemma andThen_Panic [simp]: "m s = (Panic, s') \<Longrightarrow> andThen m f s = (Panic, s')"
  by (simp add: andThen_def)

lemma mustO_Ok [simp]: "m s = (Ok x, s') \<Longrightarrow> mustO m s = (Ok x, s')"
  by (simp add: mustO_def)

lemma andThen_Ok_iff: "andThen m f s = (Ok y, s') \<longleftrightarrow> (\<exists>x s1. m s = (Ok x, s1) \<and> f x s1 = (Ok y, s'))"
  by (auto simp: andThen_def split: prod.splits outcome.splits)

lemma andThen_cong [fundef_cong]:
  "m s = m' s' \<Longrightarrow> s = s' \<Longrightarrow> (\<And>x s''. m' s' = (Ok x, s'') \<Longrightarrow> f x s'' = f' x s'')
    \<Longrightarrow> andThen m f s = andThen m' f' s'"
  by (auto simp: andThen_def split: prod.split outcome.split)

lemma mustO_Fail [simp]: "m s = (Fail e, s') \<Longrightarrow> mustO m s = (Panic, s')"
  by (simp add: mustO_def)

end
