(* ===== verification/KV_Interface.thy ===== *)
theory KV_Interface
  imports Dpos_Prelude
begin

text \<open>
  The key-value interface \<^verbatim>\<open>KV\<close> of \<^verbatim>\<open>common/db/db.go\<close>. A Go interface value is a
  table of methods over a concrete state; the model keeps the table as a record of
  functions and the state as a separate value. The contract that clients rely on is a
  locale: \<open>view\<close> is what a reader observes, \<open>inv\<close> is what every operation keeps.
\<close>

section \<open>The interface\<close>

text \<open>
  \<open>Get\<close> may update the state (implementations cache what they read). A value passed to
  \<open>Set\<close> is an option because the code passes nil slices.
\<close>

record ('d, 'v) kv_ops =
  kv_Get :: "bytes \<Rightarrow> ('d, 'v) op"
  kv_Set :: "bytes \<Rightarrow> 'v option \<Rightarrow> ('d, unit) op"
  kv_Begin :: "('d, unit) op"
  kv_Commit :: "('d, unit) op"
  kv_Rollback :: "'d \<Rightarrow> 'd"

text \<open>What a read returns, given what the reader observes at the key.\<close>

definition get_result :: "'v option \<Rightarrow> 'v outcome" where
  "get_result r = (case r of Some v \<Rightarrow> Ok v | None \<Rightarrow> Fail ErrNotFound)"

lemma get_result_simps [simp]:
  "get_result (Some v) = Ok v"
  "get_result None = Fail ErrNotFound"
  by (simp_all add: get_result_def)

section \<open>The contract\<close>

locale kv_store =
  fixes ops :: "('d, 'v) kv_ops"
    and view :: "'d \<Rightarrow> bytes \<rightharpoonup> 'v"
    and inv :: "'d \<Rightarrow> bool"
  assumes get_value: "inv d \<Longrightarrow> fst (kv_Get ops k d) = get_result (view d k)"
    and get_view: "inv d \<Longrightarrow> view (snd (kv_Get ops k d)) = view d"
    and get_inv: "inv d \<Longrightarrow> inv (snd (kv_Get ops k d))"
    and set_value: "inv d \<Longrightarrow> fst (kv_Set ops k (Some v) d) = Ok ()"
    and set_view: "inv d \<Longrightarrow> view (snd (kv_Set ops k (Some v) d)) = (view d)(k \<mapsto> v)"
    and set_inv: "inv d \<Longrightarrow> inv (snd (kv_Set ops k (Some v) d))"
begin

lemma get_cases:
  assumes "inv d"
  obtains d' where "kv_Get ops k d = (get_result (view d k), d')"
    and "view d' = view d" and "inv d'"
  using get_value [OF assms, of k] get_view [OF assms, of k] get_inv [OF assms, of k]
  by (cases "kv_Get ops k d") simp

lemma set_cases:
  assumes "inv d"
  obtains d' where "kv_Set ops k (Some v) d = (Ok (), d')"
    and "view d' = (view d)(k \<mapsto> v)" and "inv d'"
  using set_value [OF assms, of k v] set_view [OF assms, of k v] set_inv [OF assms, of k v]
  by (cases "kv_Set ops k (Some v) d") simp

end

text \<open>
  With transactions: between \<open>Begin\<close> and \<open>Rollback\<close> the writes of the transaction
  are observed, after \<open>Rollback\<close> the view is the one before \<open>Begin\<close>, and
  \<open>Commit\<close> keeps what the transaction observed. \<open>base\<close> is the view outside the
  transaction.
\<close>

locale kv_tx_store = kv_store ops view inv
  for ops :: "('d, 'v) kv_ops" and view :: "'d \<Rightarrow> bytes \<rightharpoonup> 'v" and inv :: "'d \<Rightarrow> bool" +
  fixes base :: "'d \<Rightarrow> bytes \<rightharpoonup> 'v"
    and idle :: "'d \<Rightarrow> bool"
  assumes idle_base: "inv d \<Longrightarrow> idle d \<Longrightarrow> view d = base d"
    and begin_value: "inv d \<Longrightarrow> idle d \<Longrightarrow> fst (kv_Begin ops d) = Ok ()"
    and begin_inv: "inv d \<Longrightarrow> idle d \<Longrightarrow> inv (snd (kv_Begin ops d))"
    and begin_view: "inv d \<Longrightarrow> idle d \<Longrightarrow> view (snd (kv_Begin ops d)) = view d"
    and begin_base: "inv d \<Longrightarrow> idle d \<Longrightarrow> base (snd (kv_Begin ops d)) = view d"
    and begin_open: "inv d \<Longrightarrow> idle d \<Longrightarrow> \<not> idle (snd (kv_Begin ops d))"
    and get_base: "inv d \<Longrightarrow> base (snd (kv_Get ops k d)) = base d"
    and get_idle: "inv d \<Longrightarrow> idle (snd (kv_Get ops k d)) = idle d"
    and set_base: "inv d \<Longrightarrow> \<not> idle d \<Longrightarrow> base (snd (kv_Set ops k (Some v) d)) = base d"
    and set_idle: "inv d \<Longrightarrow> idle (snd (kv_Set ops k (Some v) d)) = idle d"
    and rollback_inv: "inv d \<Longrightarrow> inv (kv_Rollback ops d)"
    and rollback_view: "inv d \<Longrightarrow> view (kv_Rollback ops d) = base d"
    and rollback_idle: "inv d \<Longrightarrow> idle (kv_Rollback ops d)"
    and commit_value: "inv d \<Longrightarrow> fst (kv_Commit ops d) = Ok ()"
    and commit_inv: "inv d \<Longrightarrow> inv (snd (kv_Commit ops d))"
    and commit_view: "inv d \<Longrightarrow> \<not> idle d \<Longrightarrow> view (snd (kv_Commit ops d)) = view d"
    and commit_idle: "inv d \<Longrightarrow> idle (snd (kv_Commit ops d))"

section \<open>A run of operations inside a transaction\<close>

text \<open>The calls an executor makes while a transaction is executed.\<close>

datatype 'v kv_call = CGet bytes | CSet bytes 'v

fun run_call :: "('d, 'v) kv_ops \<Rightarrow> 'v kv_call \<Rightarrow> 'd \<Rightarrow> 'd" where
  "run_call ops (CGet k) d = snd (kv_Get ops k d)"
| "run_call ops (CSet k v) d = snd (kv_Set ops k (Some v) d)"

fun write_call :: "'v kv_call \<Rightarrow> (bytes \<rightharpoonup> 'v) \<Rightarrow> (bytes \<rightharpoonup> 'v)" where
  "write_call (CGet k) m = m"
| "write_call (CSet k v) m = m(k \<mapsto> v)"

definition run_calls :: "('d, 'v) kv_ops \<Rightarrow> 'v kv_call list \<Rightarrow> 'd \<Rightarrow> 'd" where
  "run_calls ops = fold (run_call ops)"

definition write_calls :: "'v kv_call list \<Rightarrow> (bytes \<rightharpoonup> 'v) \<Rightarrow> (bytes \<rightharpoonup> 'v)" where
  "write_calls = fold write_call"

context kv_store
begin

lemma run_call_inv: "inv d \<Longrightarrow> inv (run_call ops c d)"
  by (cases c) (simp_all add: get_inv set_inv)

lemma run_call_view: "inv d \<Longrightarrow> view (run_call ops c d) = write_call c (view d)"
  by (cases c) (simp_all add: get_view set_view)

lemma run_calls_inv: "inv d \<Longrightarrow> inv (run_calls ops cs d)"
  unfolding run_calls_def by (induction cs arbitrary: d) (simp_all add: run_call_inv)

lemma run_calls_view: "inv d \<Longrightarrow> view (run_calls ops cs d) = write_calls cs (view d)"
  unfolding run_calls_def write_calls_def
  by (induction cs arbitrary: d) (simp_all add: run_call_inv run_call_view)

end

context kv_tx_store
begin

lemma run_call_base: "inv d \<Longrightarrow> \<not> idle d \<Longrightarrow> base (run_call ops c d) = base d"
  by (cases c) (simp_all add: get_base set_base)

lemma run_call_idle: "inv d \<Longrightarrow> idle (run_call ops c d) = idle d"
  by (cases c) (simp_all add: get_idle set_idle)

lemma run_calls_base:
  "inv d \<Longrightarrow> \<not> idle d \<Longrightarrow> base (run_calls ops cs d) = base d \<and> \<not> idle (run_calls ops cs d)"
  unfolding run_calls_def
  by (induction cs arbitrary: d) (simp_all add: run_call_inv run_call_base run_call_idle)

lemma rollback_restores:
  assumes "inv d" and "idle d"
  shows "view (kv_Rollback ops (run_calls ops cs (snd (kv_Begin ops d)))) = view d"
  using assms by (simp add: rollback_view run_calls_inv run_calls_base begin_inv begin_open begin_base)

lemma commit_keeps:
  assumes "inv d" and "idle d"
  shows "view (snd (kv_Commit ops (run_calls ops cs (snd (kv_Begin ops d))))) = write_calls cs (view d)"
  using assms
  by (simp add: commit_view run_calls_inv run_calls_base run_calls_view begin_inv begin_open begin_view)

end

end
