(* ===== verification/Account.thy ===== *)
theory Account
  imports KV_Interface
begin

text \<open>
  The account database of \<^verbatim>\<open>account/account.go\<close> and \<^verbatim>\<open>account/genesis.go\<close>: balances kept as
  encoded records under string keys of a \<^verbatim>\<open>KV\<close> store, moved by transfers, mints, burns,
  deposits and the genesis allocation. Every operation is a stateful call over the
  database value: it returns its outcome and the new state.
\<close>

section \<open>Data\<close>

text \<open>\<^verbatim>\<open>types.Account\<close>.\<close>

record account =
  Currency :: int
  Balance :: int
  Frozen :: int
  Addr :: string

definition new_account :: "string \<Rightarrow> account" where
  "new_account addr = \<lparr>Currency = 0, Balance = 0, Frozen = 0, Addr = addr\<rparr>"

text \<open>
  The messages the account code encodes. Encoding is the protobuf library's, so it is a
  parameter: \<open>Encode\<close> of any message, \<open>Decode\<close> into an account.
\<close>

datatype pmsg =
    PAccount account
  | PReceiptAccountTransfer account account
  | PReceiptExecAccountTransfer string account account
  | PReceiptAccountMint account account
  | PReceiptAccountBurn account account

record 'v codec =
  Encode :: "pmsg \<Rightarrow> 'v"
  Decode :: "'v \<Rightarrow> account option"

text \<open>What the code relies on: an encoded account decodes to itself.\<close>

definition codec_ok :: "'v codec \<Rightarrow> bool" where
  "codec_ok c \<longleftrightarrow> (\<forall>a. Decode c (Encode c (PAccount a)) = Some a)"

record 'v KeyValue =
  Key :: bytes
  Value :: 'v

record 'v ReceiptLog =
  LogTy :: int
  Log :: 'v

record 'v Receipt =
  Ty :: int
  KV :: "'v KeyValue list"
  Logs :: "'v ReceiptLog list"

text \<open>Constants of \<^verbatim>\<open>types/config.go\<close> and \<^verbatim>\<open>types/const.go\<close>.\<close>

definition MaxCoin :: int where "MaxCoin = 10 ^ 17"
definition MaxTokenBalance :: int where "MaxTokenBalance = 900 * 10 ^ 8 * 10 ^ 8"
definition TyLogTransfer :: int where "TyLogTransfer = 3"
definition TyLogDeposit :: int where "TyLogDeposit = 5"
definition TyLogExecTransfer :: int where "TyLogExecTransfer = 6"
definition TyLogExecWithdraw :: int where "TyLogExecWithdraw = 7"
definition TyLogExecDeposit :: int where "TyLogExecDeposit = 8"
definition TyLogExecFrozen :: int where "TyLogExecFrozen = 9"
definition TyLogExecActive :: int where "TyLogExecActive = 10"
definition TyLogGenesisTransfer :: int where "TyLogGenesisTransfer = 11"
definition TyLogGenesisDeposit :: int where "TyLogGenesisDeposit = 12"
definition TyLogMint :: int where "TyLogMint = 14"
definition TyLogBurn :: int where "TyLogBurn = 15"
definition ExecOk :: int where "ExecOk = 2"

text \<open>The parts of \<^verbatim>\<open>types.DplatformOSConfig\<close> the account code reads.\<close>

record acc_cfg =
  coinSymbol :: string
  minerExecs :: "string list"
  fundAddr :: string
  cfgTitle :: string
  execAddress :: "string \<Rightarrow> string" \<comment> \<open>\<^verbatim>\<open>address.ExecAddress\<close>, a hash of the name\<close>

text \<open>
  \<^verbatim>\<open>account.DB\<close>. The field \<open>adb\<close> is the interface value \<^verbatim>\<open>db dbm.KV\<close>: nil, or a method
  table with its state.
\<close>

record ('d, 'v) accdb =
  adb :: "(('d, 'v) kv_ops \<times> 'd) option"
  adb_codec :: "'v codec"
  accountKeyPerfix :: bytes
  execAccountKeyPerfix :: bytes
  adb_execer :: string
  adb_symbol :: string
  accountKeyBuffer :: bytes
  adb_cfg :: acc_cfg

type_synonym ('d, 'v, 'a) acc_op = "(('d, 'v) accdb, 'a) op"

section \<open>Construction and keys\<close>

definition newAccountDB :: "acc_cfg \<Rightarrow> 'v codec \<Rightarrow> string \<Rightarrow> ('d, 'v) accdb" where
  "newAccountDB cfg cdc prefix =
     \<lparr>adb = None, adb_codec = cdc, accountKeyPerfix = prefix,
      execAccountKeyPerfix = prefix @ ''exec-'', adb_execer = '''', adb_symbol = '''',
      accountKeyBuffer = prefix, adb_cfg = cfg\<rparr>"

definition NewCoinsAccount :: "acc_cfg \<Rightarrow> 'v codec \<Rightarrow> ('d, 'v) accdb" where
  "NewCoinsAccount cfg cdc = newAccountDB cfg cdc (''mavl-coins-'' @ coinSymbol cfg @ ''-'')"

definition SetDB :: "(('d, 'v) kv_ops \<times> 'd) option \<Rightarrow> ('d, 'v) accdb \<Rightarrow> ('d, 'v) accdb" where
  "SetDB d acc = acc\<lparr>adb := d\<rparr>"

definition symbolPrefix :: "string \<Rightarrow> string \<Rightarrow> string" where
  "symbolPrefix execer symbol = ''mavl-'' @ execer @ ''-'' @ symbol @ ''-''"

definition symbolExecPrefix :: "string \<Rightarrow> string \<Rightarrow> string" where
  "symbolExecPrefix execer symbol = ''mavl-'' @ execer @ ''-'' @ symbol @ ''-exec''"

definition NewAccountDB ::
  "acc_cfg \<Rightarrow> 'v codec \<Rightarrow> string \<Rightarrow> string \<Rightarrow> (('d, 'v) kv_ops \<times> 'd) option \<Rightarrow>
   ('d, 'v) accdb outcome" where
  "NewAccountDB cfg cdc execer symbol d =
     (if CHR ''-'' \<in> set execer then Fail ErrExecNameNotAllow
      else if CHR ''-'' \<in> set symbol then Fail ErrSymbolNameNotAllow
      else Ok (SetDB d ((newAccountDB cfg cdc (symbolPrefix execer symbol))
                         \<lparr>adb_execer := execer, adb_symbol := symbol\<rparr>)))"

definition AccountKey :: "('d, 'v) accdb \<Rightarrow> string \<Rightarrow> bytes" where
  "AccountKey acc address = accountKeyPerfix acc @ address"

definition accountReadKey :: "string \<Rightarrow> ('d, 'v, bytes) acc_op" where
  "accountReadKey addr acc =
     (let buf = take (length (accountKeyPerfix acc)) (accountKeyBuffer acc) @ addr in
      (Ok buf, acc\<lparr>accountKeyBuffer := buf\<rparr>))"

section \<open>Reading and writing accounts\<close>

text \<open>Calls through the interface value; a nil interface panics.\<close>

definition adb_Get :: "bytes \<Rightarrow> ('d, 'v, 'v) acc_op" where
  "adb_Get key acc = (case adb acc of
       None \<Rightarrow> (Panic, acc)
     | Some (ops, d) \<Rightarrow> (case kv_Get ops key d of (r, d') \<Rightarrow> (r, acc\<lparr>adb := Some (ops, d')\<rparr>)))"

definition adb_Set :: "bytes \<Rightarrow> 'v \<Rightarrow> ('d, 'v, unit) acc_op" where
  "adb_Set key value acc = (case adb acc of
       None \<Rightarrow> (Panic, acc)
     | Some (ops, d) \<Rightarrow>
         (case kv_Set ops key (Some value) d of (r, d') \<Rightarrow> (r, acc\<lparr>adb := Some (ops, d')\<rparr>)))"

text \<open>
  Loading decodes what is stored; any error of the read gives a fresh account, an
  undecodable value panics.
\<close>

definition load_at :: "bytes \<Rightarrow> string \<Rightarrow> ('d, 'v, account) acc_op" where
  "load_at key addr acc = (case adb_Get key acc of
       (Panic, acc1) \<Rightarrow> (Panic, acc1)
     | (Fail e, acc1) \<Rightarrow> (Ok (new_account addr), acc1)
     | (Ok value, acc1) \<Rightarrow>
         (case Decode (adb_codec acc) value of
            None \<Rightarrow> (Panic, acc1)
          | Some a \<Rightarrow> (Ok a, acc1)))"

definition LoadAccount :: "string \<Rightarrow> ('d, 'v, account) acc_op" where
  "LoadAccount addr = andThen (accountReadKey addr) (\<lambda>key. load_at key addr)"

definition GetKVSet :: "('d, 'v) accdb \<Rightarrow> account \<Rightarrow> 'v KeyValue list" where
  "GetKVSet acc acc1 =
     [\<lparr>Key = AccountKey acc (Addr acc1), Value = Encode (adb_codec acc) (PAccount acc1)\<rparr>]"

fun SaveKVSet :: "'v KeyValue list \<Rightarrow> ('d, 'v, unit) acc_op" where
  "SaveKVSet [] = returnO ()"
| "SaveKVSet (kv # kvs) = andThen (mustO (adb_Set (Key kv) (Value kv))) (\<lambda>_. SaveKVSet kvs)"

definition SaveAccount :: "account \<Rightarrow> ('d, 'v, unit) acc_op" where
  "SaveAccount acc1 acc = SaveKVSet (GetKVSet acc acc1) acc"

fun LoadAccountsDB :: "string list \<Rightarrow> ('d, 'v, account list) acc_op" where
  "LoadAccountsDB [] = returnO []"
| "LoadAccountsDB (a # as) =
     andThen (LoadAccount a) (\<lambda>acc1. andThen (LoadAccountsDB as) (\<lambda>accs. returnO (acc1 # accs)))"

section \<open>Transfers\<close>

definition CheckAmount :: "int \<Rightarrow> bool" where
  "CheckAmount amount = (\<not> (amount \<le> 0 \<or> amount \<ge> MaxCoin))"

definition CheckTransfer :: "string \<Rightarrow> string \<Rightarrow> int \<Rightarrow> ('d, 'v, unit) acc_op" where
  "CheckTransfer from to amount =
     (if \<not> CheckAmount amount then failO ErrAmount
      else andThen (LoadAccount from) (\<lambda>accFrom.
        let b = i64 (Balance accFrom - amount) in
        if b < 0 then failO ErrNoBalance else returnO ()))"

definition transferReceipt ::
  "'v codec \<Rightarrow> 'v KeyValue list \<Rightarrow> 'v KeyValue list \<Rightarrow> pmsg \<Rightarrow> pmsg \<Rightarrow> 'v Receipt" where
  "transferReceipt cdc fromkv tokv receiptFrom receiptTo =
     \<lparr>Ty = ExecOk, KV = fromkv @ tokv,
      Logs = [\<lparr>LogTy = TyLogTransfer, Log = Encode cdc receiptFrom\<rparr>,
              \<lparr>LogTy = TyLogTransfer, Log = Encode cdc receiptTo\<rparr>]\<rparr>"

definition Transfer :: "string \<Rightarrow> string \<Rightarrow> int \<Rightarrow> ('d, 'v, 'v Receipt) acc_op" where
  "Transfer from to amount =
     (if \<not> CheckAmount amount then failO ErrAmount
      else andThen (LoadAccount from) (\<lambda>accFrom. andThen (LoadAccount to) (\<lambda>accTo.
        if Addr accFrom = Addr accTo then failO ErrSendSameToRecv
        else if i64 (Balance accFrom - amount) \<ge> 0 then
          (\<lambda>acc.
             let accFrom' = accFrom\<lparr>Balance := i64 (Balance accFrom - amount)\<rparr>;
                 accTo' = accTo\<lparr>Balance := i64 (Balance accTo + amount)\<rparr>;
                 fromkv = GetKVSet acc accFrom';
                 tokv = GetKVSet acc accTo'
             in andThen (SaveKVSet fromkv) (\<lambda>_. andThen (SaveKVSet tokv) (\<lambda>_.
                  returnO (transferReceipt (adb_codec acc) fromkv tokv
                    (PReceiptAccountTransfer accFrom accFrom')
                    (PReceiptAccountTransfer accTo accTo')))) acc)
        else failO ErrNoBalance)))"

definition depositBalance :: "string \<Rightarrow> int \<Rightarrow> ('d, 'v, 'v Receipt) acc_op" where
  "depositBalance execaddr amount =
     (if \<not> CheckAmount amount then failO ErrAmount
      else andThen (LoadAccount execaddr) (\<lambda>acc1 acc.
        let acc1' = acc1\<lparr>Balance := i64 (Balance acc1 + amount)\<rparr>;
            kv = GetKVSet acc acc1'
        in andThen (SaveKVSet kv) (\<lambda>_.
             returnO \<lparr>Ty = ExecOk, KV = kv,
               Logs = [\<lparr>LogTy = TyLogDeposit,
                        Log = Encode (adb_codec acc) (PReceiptAccountTransfer acc1 acc1')\<rparr>]\<rparr>) acc))"

section \<open>Minting, burning, genesis\<close>

definition safeAdd :: "int \<Rightarrow> int \<Rightarrow> int outcome" where
  "safeAdd balance amount =
     (if i64 (balance + amount) < amount \<or> i64 (balance + amount) > MaxTokenBalance
      then Fail ErrAmount else Ok (i64 (balance + amount)))"

definition mintReceipt :: "'v codec \<Rightarrow> 'v KeyValue list \<Rightarrow> pmsg \<Rightarrow> 'v Receipt" where
  "mintReceipt cdc kv receipt =
     \<lparr>Ty = ExecOk, KV = kv, Logs = [\<lparr>LogTy = TyLogMint, Log = Encode cdc receipt\<rparr>]\<rparr>"

definition Mint :: "string \<Rightarrow> int \<Rightarrow> ('d, 'v, 'v Receipt) acc_op" where
  "Mint addr amount =
     (if \<not> CheckAmount amount then failO ErrAmount
      else andThen (LoadAccount addr) (\<lambda>accTo.
        case safeAdd (Balance accTo) amount of
          Ok balance \<Rightarrow> (\<lambda>acc.
            let accTo' = accTo\<lparr>Balance := balance\<rparr>; kv = GetKVSet acc accTo'
            in andThen (SaveKVSet kv) (\<lambda>_. returnO (mintReceipt (adb_codec acc) kv
                 (PReceiptAccountMint accTo accTo'))) acc)
        | Fail e \<Rightarrow> failO e
        | Panic \<Rightarrow> panicO))"

definition burnReceipt :: "'v codec \<Rightarrow> 'v KeyValue list \<Rightarrow> pmsg \<Rightarrow> 'v Receipt" where
  "burnReceipt cdc kv receipt =
     \<lparr>Ty = ExecOk, KV = kv, Logs = [\<lparr>LogTy = TyLogBurn, Log = Encode cdc receipt\<rparr>]\<rparr>"

definition Burn :: "string \<Rightarrow> int \<Rightarrow> ('d, 'v, 'v Receipt) acc_op" where
  "Burn addr amount =
     (if \<not> CheckAmount amount then failO ErrAmount
      else andThen (LoadAccount addr) (\<lambda>accTo.
        if Balance accTo < amount then failO ErrNoBalance
        else (\<lambda>acc.
          let accTo' = accTo\<lparr>Balance := i64 (Balance accTo - amount)\<rparr>; kv = GetKVSet acc accTo'
          in andThen (SaveKVSet kv) (\<lambda>_. returnO (burnReceipt (adb_codec acc) kv
               (PReceiptAccountBurn accTo accTo'))) acc)))"

definition genesisReceipt :: "('d, 'v) accdb \<Rightarrow> account \<Rightarrow> pmsg \<Rightarrow> 'v Receipt" where
  "genesisReceipt acc accTo receiptTo =
     \<lparr>Ty = ExecOk, KV = GetKVSet acc accTo,
      Logs = [\<lparr>LogTy = TyLogGenesisTransfer, Log = Encode (adb_codec acc) receiptTo\<rparr>]\<rparr>"

definition GenesisInit :: "string \<Rightarrow> int \<Rightarrow> ('d, 'v, 'v Receipt) acc_op" where
  "GenesisInit addr amount =
     andThen (LoadAccount addr) (\<lambda>accTo.
       case safeAdd (Balance accTo) amount of
         Ok balance \<Rightarrow> (\<lambda>acc.
           let accTo' = accTo\<lparr>Balance := balance\<rparr>
           in andThen (SaveAccount accTo') (\<lambda>_.
                returnO (genesisReceipt acc accTo' (PReceiptAccountTransfer accTo accTo'))) acc)
       | Fail e \<Rightarrow> failO e
       | Panic \<Rightarrow> panicO)"

end
