(* ===== verification/Exec_Account.thy ===== *)
theory Exec_Account
  imports Account "HOL-Library.Sublist"
begin

text \<open>
  Contract accounts, \<^verbatim>\<open>account/execaccount.go\<close>: for every contract address the balances
  and frozen amounts that users hold inside the contract, and the operations that move
  coins between a user's account, the contract's account and the user's contract account.
\<close>

section \<open>Reading and writing contract accounts\<close>

definition execAccountKey :: "('d, 'v) accdb \<Rightarrow> string \<Rightarrow> string \<Rightarrow> bytes" where
  "execAccountKey acc address execaddr =
     execAccountKeyPerfix acc @ execaddr @ '':'' @ address"

definition LoadExecAccount :: "string \<Rightarrow> string \<Rightarrow> ('d, 'v, account) acc_op" where
  "LoadExecAccount addr execaddr acc = load_at (execAccountKey acc addr execaddr) addr acc"

definition GetExecKVSet :: "('d, 'v) accdb \<Rightarrow> string \<Rightarrow> account \<Rightarrow> 'v KeyValue list" where
  "GetExecKVSet acc execaddr acc1 =
     [\<lparr>Key = execAccountKey acc (Addr acc1) execaddr,
       Value = Encode (adb_codec acc) (PAccount acc1)\<rparr>]"

definition SaveExecAccount :: "string \<Rightarrow> account \<Rightarrow> ('d, 'v, unit) acc_op" where
  "SaveExecAccount execaddr acc1 acc = SaveKVSet (GetExecKVSet acc execaddr acc1) acc"

section \<open>Receipts\<close>

definition execReceipt ::
  "('d, 'v) accdb \<Rightarrow> int \<Rightarrow> account \<Rightarrow> string \<Rightarrow> account \<Rightarrow> account \<Rightarrow> 'v Receipt" where
  "execReceipt acc ty acc1 execaddr prev cur =
     \<lparr>Ty = ExecOk, KV = GetExecKVSet acc execaddr acc1,
      Logs = [\<lparr>LogTy = ty,
               Log = Encode (adb_codec acc) (PReceiptExecAccountTransfer execaddr prev cur)\<rparr>]\<rparr>"

definition execReceipt2 ::
  "('d, 'v) accdb \<Rightarrow> account \<Rightarrow> account \<Rightarrow> string \<Rightarrow> account \<Rightarrow> account \<Rightarrow> account \<Rightarrow> account \<Rightarrow>
   'v Receipt" where
  "execReceipt2 acc acc1 acc2 execaddr prev1 cur1 prev2 cur2 =
     \<lparr>Ty = ExecOk,
      KV = GetExecKVSet acc execaddr acc1 @ GetExecKVSet acc execaddr acc2,
      Logs = [\<lparr>LogTy = TyLogExecTransfer,
               Log = Encode (adb_codec acc) (PReceiptExecAccountTransfer execaddr prev1 cur1)\<rparr>,
              \<lparr>LogTy = TyLogExecTransfer,
               Log = Encode (adb_codec acc) (PReceiptExecAccountTransfer execaddr prev2 cur2)\<rparr>]\<rparr>"

definition mergeReceipt :: "'v Receipt \<Rightarrow> 'v Receipt \<Rightarrow> 'v Receipt" where
  "mergeReceipt receipt receipt2 =
     receipt\<lparr>Logs := Logs receipt @ Logs receipt2, KV := KV receipt @ KV receipt2\<rparr>"

section \<open>Operations on one contract account\<close>

text \<open>
  \<open>ExecFrozen\<close>, \<open>ExecActive\<close>, \<open>execDepositFrozen\<close>, \<open>ExecDeposit\<close> and
  \<open>ExecWithdraw\<close> share one shape: the same two guards, a load, an optional balance check,
  a new value, a save and a receipt. The shape is written once, with the check and the new
  value as arguments.
\<close>

definition exec_single ::
  "string \<Rightarrow> string \<Rightarrow> int \<Rightarrow> (account \<Rightarrow> bool) \<Rightarrow> (account \<Rightarrow> account) \<Rightarrow> int \<Rightarrow>
   ('d, 'v, 'v Receipt) acc_op" where
  "exec_single addr execaddr amount short upd ty =
     (if addr = execaddr then failO ErrSendSameToRecv
      else if \<not> CheckAmount amount then failO ErrAmount
      else andThen (LoadExecAccount addr execaddr) (\<lambda>acc1.
        if short acc1 then failO ErrNoBalance
        else (\<lambda>acc. andThen (SaveExecAccount execaddr (upd acc1)) (\<lambda>_.
               returnO (execReceipt acc ty (upd acc1) execaddr acc1 (upd acc1))) acc)))"

definition ExecFrozen :: "string \<Rightarrow> string \<Rightarrow> int \<Rightarrow> ('d, 'v, 'v Receipt) acc_op" where
  "ExecFrozen addr execaddr amount =
     exec_single addr execaddr amount
       (\<lambda>a. i64 (Balance a - amount) < 0)
       (\<lambda>a. a\<lparr>Balance := i64 (Balance a - amount), Frozen := i64 (Frozen a + amount)\<rparr>)
       TyLogExecFrozen"

definition ExecActive :: "string \<Rightarrow> string \<Rightarrow> int \<Rightarrow> ('d, 'v, 'v Receipt) acc_op" where
  "ExecActive addr execaddr amount =
     exec_single addr execaddr amount
       (\<lambda>a. i64 (Frozen a - amount) < 0)
       (\<lambda>a. a\<lparr>Balance := i64 (Balance a + amount), Frozen := i64 (Frozen a - amount)\<rparr>)
       TyLogExecActive"

definition execDepositFrozen :: "string \<Rightarrow> string \<Rightarrow> int \<Rightarrow> ('d, 'v, 'v Receipt) acc_op" where
  "execDepositFrozen addr execaddr amount =
     exec_single addr execaddr amount (\<lambda>a. False)
       (\<lambda>a. a\<lparr>Frozen := i64 (Frozen a + amount)\<rparr>) TyLogExecDeposit"

definition ExecDeposit :: "string \<Rightarrow> string \<Rightarrow> int \<Rightarrow> ('d, 'v, 'v Receipt) acc_op" where
  "ExecDeposit addr execaddr amount =
     exec_single addr execaddr amount (\<lambda>a. False)
       (\<lambda>a. a\<lparr>Balance := i64 (Balance a + amount)\<rparr>) TyLogExecDeposit"

definition ExecWithdraw :: "string \<Rightarrow> string \<Rightarrow> int \<Rightarrow> ('d, 'v, 'v Receipt) acc_op" where
  "ExecWithdraw execaddr addr amount =
     exec_single addr execaddr amount
       (\<lambda>a. i64 (Balance a - amount) < 0)
       (\<lambda>a. a\<lparr>Balance := i64 (Balance a - amount)\<rparr>) TyLogExecWithdraw"

section \<open>Operations on two contract accounts\<close>

definition ExecTransfer :: "string \<Rightarrow> string \<Rightarrow> string \<Rightarrow> int \<Rightarrow> ('d, 'v, 'v Receipt) acc_op" where
  "ExecTransfer from to execaddr amount =
     (if from = to then failO ErrSendSameToRecv
      else if \<not> CheckAmount amount then failO ErrAmount
      else andThen (LoadExecAccount from execaddr) (\<lambda>accFrom.
           andThen (LoadExecAccount to execaddr) (\<lambda>accTo.
        if i64 (Balance accFrom - amount) < 0 then failO ErrNoBalance
        else (\<lambda>acc.
          let accFrom' = accFrom\<lparr>Balance := i64 (Balance accFrom - amount)\<rparr>;
              accTo' = accTo\<lparr>Balance := i64 (Balance accTo + amount)\<rparr>
          in andThen (SaveExecAccount execaddr accFrom') (\<lambda>_.
             andThen (SaveExecAccount execaddr accTo') (\<lambda>_.
               returnO (execReceipt2 acc accFrom' accTo' execaddr accFrom accFrom' accTo accTo'))) acc))))"

definition ExecTransferFrozen :: "string \<Rightarrow> string \<Rightarrow> string \<Rightarrow> int \<Rightarrow> ('d, 'v, 'v Receipt) acc_op" where
  "ExecTransferFrozen from to execaddr amount =
     (if from = to then failO ErrSendSameToRecv
      else if \<not> CheckAmount amount then failO ErrAmount
      else andThen (LoadExecAccount from execaddr) (\<lambda>accFrom.
           andThen (LoadExecAccount to execaddr) (\<lambda>accTo.
        let b = i64 (Frozen accFrom - amount) in
        if b < 0 then failO ErrNoBalance
        else (\<lambda>acc.
          let accFrom' = accFrom\<lparr>Frozen := i64 (Frozen accFrom - amount)\<rparr>;
              accTo' = accTo\<lparr>Balance := i64 (Balance accTo + amount)\<rparr>
          in andThen (SaveExecAccount execaddr accFrom') (\<lambda>_.
             andThen (SaveExecAccount execaddr accTo') (\<lambda>_.
               returnO (execReceipt2 acc accFrom' accTo' execaddr accFrom accFrom' accTo accTo'))) acc))))"

section \<open>Operations across the two kinds of account\<close>

definition TransferToExec :: "string \<Rightarrow> string \<Rightarrow> int \<Rightarrow> ('d, 'v, 'v Receipt) acc_op" where
  "TransferToExec from to amount =
     andThen (Transfer from to amount) (\<lambda>receipt.
       andThen (mustO (ExecDeposit from to amount)) (\<lambda>receipt2.
         returnO (mergeReceipt receipt receipt2)))"

definition TransferWithdraw :: "string \<Rightarrow> string \<Rightarrow> int \<Rightarrow> ('d, 'v, 'v Receipt) acc_op" where
  "TransferWithdraw from to amount =
     andThen (CheckTransfer to from amount) (\<lambda>_.
       andThen (ExecWithdraw to from amount) (\<lambda>receipt.
         andThen (mustO (Transfer to from amount)) (\<lambda>receipt2.
           returnO (mergeReceipt receipt receipt2))))"

text \<open>\<^verbatim>\<open>types.IsParaExecName\<close>, \<^verbatim>\<open>cfg.isPara\<close> and \<^verbatim>\<open>cfg.ExecName\<close>.\<close>

definition IsParaExecName :: "string \<Rightarrow> bool" where
  "IsParaExecName exec = prefix ''user.p.'' exec"

definition cfg_IsPara :: "acc_cfg \<Rightarrow> bool" where
  "cfg_IsPara c = (count_list (cfgTitle c) (CHR ''.'') = 3 \<and> prefix ''user.p.'' (cfgTitle c))"

definition ExecName :: "acc_cfg \<Rightarrow> string \<Rightarrow> string" where
  "ExecName c name =
     (if length name > 1 \<and> name ! 0 = CHR ''#'' then drop 1 name
      else if IsParaExecName name then name
      else if cfg_IsPara c then cfgTitle c @ name
      else name)"

text \<open>
  The loop over the miner contracts: the fund address is compared inside the loop, so with
  no miner contract configured nothing is allowed.
\<close>

fun issue_allowed :: "acc_cfg \<Rightarrow> string list \<Rightarrow> string \<Rightarrow> bool" where
  "issue_allowed c [] execaddr = False"
| "issue_allowed c (exec # execs) execaddr =
     (if execAddress c (ExecName c exec) = execaddr then True
      else if fundAddr c = execaddr then True
      else issue_allowed c execs execaddr)"

definition ExecIssueCoins :: "string \<Rightarrow> int \<Rightarrow> ('d, 'v, 'v Receipt) acc_op" where
  "ExecIssueCoins execaddr amount acc =
     (if \<not> issue_allowed (adb_cfg acc) (minerExecs (adb_cfg acc)) execaddr
      then (Fail ErrNotAllowDeposit, acc)
      else depositBalance execaddr amount acc)"

definition ExecDepositFrozen :: "string \<Rightarrow> string \<Rightarrow> int \<Rightarrow> ('d, 'v, 'v Receipt) acc_op" where
  "ExecDepositFrozen addr execaddr amount =
     (if addr = execaddr then failO ErrSendSameToRecv
      else andThen (ExecIssueCoins execaddr amount) (\<lambda>receipt1.
           andThen (execDepositFrozen addr execaddr amount) (\<lambda>receipt2.
             returnO (mergeReceipt receipt1 receipt2))))"

definition GenesisInitExec :: "string \<Rightarrow> int \<Rightarrow> string \<Rightarrow> ('d, 'v, 'v Receipt) acc_op" where
  "GenesisInitExec addr amount execaddr =
     andThen (LoadAccount execaddr) (\<lambda>accTo.
       case safeAdd (Balance accTo) amount of
         Ok balance \<Rightarrow> (\<lambda>acc.
           let accTo' = accTo\<lparr>Balance := balance\<rparr>;
               receipt = genesisReceipt acc accTo' (PReceiptAccountTransfer accTo accTo')
           in andThen (SaveAccount accTo') (\<lambda>_.
              andThen (mustO (ExecDeposit addr execaddr amount)) (\<lambda>receipt2.
                returnO (mergeReceipt receipt (receipt2\<lparr>Ty := TyLogGenesisDeposit\<rparr>)))) acc)
       | Fail e \<Rightarrow> failO e
       | Panic \<Rightarrow> panicO)"

end
