(* ===== verification/State_DB.thy ===== *)
theory State_DB
  imports KV_Interface
begin

text \<open>
  The state database of the executor, \<^verbatim>\<open>executor/statedb.go\<close>: two write caches (one per
  transaction, one per block) over the store module. It is the provider of the
  \<^verbatim>\<open>KV\<close> interface on which transactions are executed.
\<close>

section \<open>State\<close>

text \<open>
  What the store module answers to \<^verbatim>\<open>EventStoreGet\<close> for one key: the send fails, the
  wait fails (the code panics), the reply has no \<open>Values\<close>, or its first value, nil or not.
\<close>

datatype 'v store_reply = SendErr err | WaitErr | NoValues | Values0 "'v option"

text \<open>
  \<^verbatim>\<open>StateDB\<close>. The fields of other modules are functions: \<open>sd_client\<close> is the store
  behind the message queue (nil client: \<open>None\<close>), \<open>sd_GetV\<close> and \<open>sd_GetVersion\<close>
  are the two methods of \<open>local\<close> (\<^verbatim>\<open>db.SimpleMVCC\<close>) that are called, and
  \<open>sd_forkRollback\<close> is \<^verbatim>\<open>cfg.IsFork(height, "ForkExecRollback")\<close>. A map that may be
  nil is an option.
\<close>

record 'v StateDB =
  sd_cache :: "bytes \<rightharpoonup> 'v"
  sd_txcache :: "(bytes \<rightharpoonup> 'v) option"
  sd_keys :: "bytes list"
  sd_intx :: bool
  sd_client :: "(bytes \<Rightarrow> bytes \<Rightarrow> 'v store_reply) option"
  sd_stateHash :: bytes
  sd_version :: int
  sd_height :: int
  sd_GetV :: "bytes \<Rightarrow> int \<Rightarrow> 'v outcome"
  sd_GetVersion :: "bytes \<Rightarrow> int outcome"
  sd_EnableMVCC :: bool
  sd_forkRollback :: "int \<Rightarrow> bool"

section \<open>Operations\<close>

definition NewStateDB ::
  "(bytes \<Rightarrow> bytes \<Rightarrow> 'v store_reply) option \<Rightarrow> bytes \<Rightarrow> (bytes \<Rightarrow> int \<Rightarrow> 'v outcome) \<Rightarrow>
   (bytes \<Rightarrow> int outcome) \<Rightarrow> (bool \<times> int) option \<Rightarrow> (int \<Rightarrow> bool) \<Rightarrow> 'v StateDB" where
  "NewStateDB client stateHash getV getVersion opt isFork =
     (let (mvcc, h) = (case opt of None \<Rightarrow> (False, 0) | Some o1 \<Rightarrow> o1) in
      \<lparr>sd_cache = Map.empty, sd_txcache = Some Map.empty, sd_keys = [], sd_intx = False,
       sd_client = client, sd_stateHash = stateHash, sd_version = -1, sd_height = h,
       sd_GetV = getV, sd_GetVersion = getVersion, sd_EnableMVCC = mvcc,
       sd_forkRollback = isFork\<rparr>)"

definition enableMVCC :: "bytes option \<Rightarrow> ('v StateDB, unit) op" where
  "enableMVCC hash s =
     (if sd_EnableMVCC s then
        (let h = (case hash of None \<Rightarrow> sd_stateHash s | Some h \<Rightarrow> h) in
         case sd_GetVersion s h of
           Panic \<Rightarrow> (Panic, s)
         | Ok v \<Rightarrow> if v \<ge> 0 then (Ok (), s\<lparr>sd_version := v\<rparr>)
                   else if sd_height s > 0 then (Panic, s) else (Ok (), s)
         | Fail e \<Rightarrow> if sd_height s > 0 then (Panic, s) else (Ok (), s))
      else (Ok (), s))"

definition sd_resetTx :: "'v StateDB \<Rightarrow> 'v StateDB" where
  "sd_resetTx s = s\<lparr>sd_intx := False, sd_txcache := None, sd_keys := []\<rparr>"

definition sd_Begin :: "('v StateDB, unit) op" where
  "sd_Begin s =
     (let s1 = s\<lparr>sd_intx := True, sd_keys := []\<rparr> in
      if sd_client s = None then (Panic, s1)
      else (Ok (), if sd_forkRollback s (sd_height s) then s1\<lparr>sd_txcache := None\<rparr> else s1))"

definition sd_Rollback :: "'v StateDB \<Rightarrow> 'v StateDB" where
  "sd_Rollback s = sd_resetTx s"

definition sd_Commit :: "('v StateDB, unit) op" where
  "sd_Commit s =
     (let merged = (case sd_txcache s of None \<Rightarrow> sd_cache s | Some m \<Rightarrow> sd_cache s ++ m);
          s1 = s\<lparr>sd_cache := merged, sd_intx := False, sd_keys := []\<rparr> in
      if sd_client s = None then (Panic, s1)
      else (Ok (), if sd_forkRollback s (sd_height s) then sd_resetTx s1 else s1))"

definition setmap :: "(bytes \<rightharpoonup> 'v) \<Rightarrow> bytes \<Rightarrow> 'v option \<Rightarrow> (bytes \<rightharpoonup> 'v)" where
  "setmap data key value = (case value of None \<Rightarrow> data(key := None) | Some v \<Rightarrow> data(key \<mapsto> v))"

definition sd_Get :: "bytes \<Rightarrow> ('v StateDB, 'v) op" where
  "sd_Get key s =
     (case (if sd_intx s then Option.bind (sd_txcache s) (\<lambda>m. m key) else None) of
        Some value \<Rightarrow> (Ok value, s)
      | None \<Rightarrow>
          (case sd_cache s key of
             Some value \<Rightarrow> (Ok value, s)
           | None \<Rightarrow>
               if sd_version s \<ge> 0 then (sd_GetV s key (sd_version s), s)
               else (case sd_client s of
                  None \<Rightarrow> (Fail ErrNotFound, s)
                | Some store \<Rightarrow>
                    (case store (sd_stateHash s) key of
                       SendErr e \<Rightarrow> (Fail e, s)
                     | WaitErr \<Rightarrow> (Panic, s)
                     | NoValues \<Rightarrow> (Fail ErrNotFound, s)
                     | Values0 None \<Rightarrow> (Fail ErrNotFound, s)
                     | Values0 (Some value) \<Rightarrow>
                         (Ok value, s\<lparr>sd_cache := (sd_cache s)(key \<mapsto> value)\<rparr>)))))"

definition sd_Set :: "bytes \<Rightarrow> 'v option \<Rightarrow> ('v StateDB, unit) op" where
  "sd_Set key value s =
     (if sd_intx s then
        (let m = (case sd_txcache s of None \<Rightarrow> Map.empty | Some m \<Rightarrow> m) in
         (Ok (), s\<lparr>sd_keys := sd_keys s @ [key], sd_txcache := Some (setmap m key value)\<rparr>))
      else (Ok (), s\<lparr>sd_cache := setmap (sd_cache s) key value\<rparr>))"

definition sd_StartTx :: "'v StateDB \<Rightarrow> 'v StateDB" where
  "sd_StartTx s = s\<lparr>sd_keys := []\<rparr>"

definition sd_GetSetKeys :: "'v StateDB \<Rightarrow> bytes list" where
  "sd_GetSetKeys s = sd_keys s"

fun sd_BatchGet :: "bytes list \<Rightarrow> ('v StateDB, 'v option list) op" where
  "sd_BatchGet [] s = (Ok [], s)"
| "sd_BatchGet (key # ks) s =
     (case sd_Get key s of
        (Panic, s1) \<Rightarrow> (Panic, s1)
      | (Fail e, s1) \<Rightarrow>
          (if e \<noteq> ErrNotFound then (Fail e, s1)
           else andThen (sd_BatchGet ks) (\<lambda>vs. returnO (None # vs)) s1)
      | (Ok v, s1) \<Rightarrow> andThen (sd_BatchGet ks) (\<lambda>vs. returnO (Some v # vs)) s1)"

text \<open>The method table of \<^verbatim>\<open>*StateDB\<close> as a \<^verbatim>\<open>db.KV\<close>.\<close>

definition statedb_ops :: "('v StateDB, 'v) kv_ops" where
  "statedb_ops = \<lparr>kv_Get = sd_Get, kv_Set = sd_Set, kv_Begin = sd_Begin,
     kv_Commit = sd_Commit, kv_Rollback = sd_Rollback\<rparr>"

lemma statedb_ops_simps [simp]:
  "kv_Get statedb_ops = sd_Get" "kv_Set statedb_ops = sd_Set"
  "kv_Begin statedb_ops = sd_Begin" "kv_Commit statedb_ops = sd_Commit"
  "kv_Rollback statedb_ops = sd_Rollback"
  by (simp_all add: statedb_ops_def)

section \<open>What a reader observes\<close>

text \<open>The answer of the modules below the two caches.\<close>

definition sd_backing :: "'v StateDB \<Rightarrow> bytes \<Rightarrow> 'v outcome" where
  "sd_backing s key =
     (if sd_version s \<ge> 0 then sd_GetV s key (sd_version s)
      else case sd_client s of
        None \<Rightarrow> Fail ErrNotFound
      | Some store \<Rightarrow>
          (case store (sd_stateHash s) key of
             SendErr e \<Rightarrow> Fail e
           | WaitErr \<Rightarrow> Panic
           | NoValues \<Rightarrow> Fail ErrNotFound
           | Values0 r \<Rightarrow> get_result r))"

text \<open>
  The modules below answer every read with a value or with \<open>ErrNotFound\<close>: the store is
  reachable and, with MVCC, versions are readable.
\<close>

definition sd_backed :: "'v StateDB \<Rightarrow> bool" where
  "sd_backed s \<longleftrightarrow> (\<forall>k. (\<exists>v. sd_backing s k = Ok v) \<or> sd_backing s k = Fail ErrNotFound)"

definition outcome_value :: "'a outcome \<Rightarrow> 'a option" where
  "outcome_value r = (case r of Ok v \<Rightarrow> Some v | _ \<Rightarrow> None)"

definition sd_base :: "'v StateDB \<Rightarrow> bytes \<rightharpoonup> 'v" where
  "sd_base s = (\<lambda>k. outcome_value (sd_backing s k)) ++ sd_cache s"

definition sd_view :: "'v StateDB \<Rightarrow> bytes \<rightharpoonup> 'v" where
  "sd_view s = (if sd_intx s then sd_base s ++ (case sd_txcache s of None \<Rightarrow> Map.empty | Some m \<Rightarrow> m)
                else sd_base s)"

definition sd_idle :: "'v StateDB \<Rightarrow> bool" where
  "sd_idle s \<longleftrightarrow> \<not> sd_intx s"

text \<open>
  The invariant of the contract: there is a client (its configuration is asserted by
  \<open>Begin\<close> and \<open>Commit\<close>), the modules below answer, and the height is past the fork
  from which \<open>Begin\<close> and \<open>Commit\<close> drop the transaction cache.
\<close>

definition sd_inv :: "'v StateDB \<Rightarrow> bool" where
  "sd_inv s \<longleftrightarrow> sd_client s \<noteq> None \<and> sd_backed s \<and> sd_forkRollback s (sd_height s)"

section \<open>The contract holds\<close>

lemma outcome_value_simps [simp]:
  "outcome_value (Ok v) = Some v" "outcome_value (Fail e) = None" "outcome_value Panic = None"
  by (simp_all add: outcome_value_def)

text \<open>Neither cache nor the transaction flag changes what the modules below answer.\<close>

lemma sd_backing_update [simp]:
  "sd_backing (s\<lparr>sd_cache := c\<rparr>) = sd_backing s"
  "sd_backing (s\<lparr>sd_txcache := t\<rparr>) = sd_backing s"
  "sd_backing (s\<lparr>sd_keys := ks\<rparr>) = sd_backing s"
  "sd_backing (s\<lparr>sd_intx := b\<rparr>) = sd_backing s"
  by (auto simp: sd_backing_def fun_eq_iff split: option.splits)

lemma sd_inv_update [simp]:
  "sd_inv (s\<lparr>sd_cache := c\<rparr>) = sd_inv s"
  "sd_inv (s\<lparr>sd_txcache := t\<rparr>) = sd_inv s"
  "sd_inv (s\<lparr>sd_keys := ks\<rparr>) = sd_inv s"
  "sd_inv (s\<lparr>sd_intx := b\<rparr>) = sd_inv s"
  by (simp_all add: sd_inv_def sd_backed_def)

lemma sd_base_update [simp]:
  "sd_base (s\<lparr>sd_txcache := t\<rparr>) = sd_base s"
  "sd_base (s\<lparr>sd_keys := ks\<rparr>) = sd_base s"
  "sd_base (s\<lparr>sd_intx := b\<rparr>) = sd_base s"
  by (simp_all add: sd_base_def)

text \<open>A read goes through the caches in order and leaves the view alone.\<close>

definition sd_txhit :: "'v StateDB \<Rightarrow> bytes \<Rightarrow> 'v option" where
  "sd_txhit s key = (if sd_intx s then Option.bind (sd_txcache s) (\<lambda>m. m key) else None)"

lemma sd_view_hits:
  "sd_view s k = (case sd_txhit s k of Some v \<Rightarrow> Some v
     | None \<Rightarrow> (case sd_cache s k of Some v \<Rightarrow> Some v | None \<Rightarrow> outcome_value (sd_backing s k)))"
  by (auto simp: sd_view_def sd_base_def sd_txhit_def map_add_def split: option.splits bind_splits)

text \<open>
  A read below the caches, in two shapes: the value is cached, or the state is unchanged.
\<close>

lemma sd_Get_miss:
  assumes "sd_txhit s k = None" and "sd_cache s k = None"
  shows "fst (sd_Get k s) = sd_backing s k"
    and "snd (sd_Get k s) = s \<or>
         (\<exists>v. sd_backing s k = Ok v \<and> snd (sd_Get k s) = s\<lparr>sd_cache := (sd_cache s)(k \<mapsto> v)\<rparr>)"
  using assms
  by (auto simp: sd_Get_def sd_backing_def sd_txhit_def split: option.splits store_reply.splits)

lemma sd_Get_hit:
  assumes "sd_txhit s k = Some v \<or> (sd_txhit s k = None \<and> sd_cache s k = Some v)"
  shows "sd_Get k s = (Ok v, s)"
  using assms by (auto simp: sd_Get_def sd_txhit_def)

lemma sd_Get_state:
  "snd (sd_Get k s) = s \<or>
   (\<exists>v. sd_cache s k = None \<and> sd_backing s k = Ok v \<and>
        snd (sd_Get k s) = s\<lparr>sd_cache := (sd_cache s)(k \<mapsto> v)\<rparr>)"
proof (cases "sd_txhit s k = None \<and> sd_cache s k = None")
  case True
  then show ?thesis using sd_Get_miss(2) [of s k] by blast
next
  case False
  then obtain v where "sd_Get k s = (Ok v, s)"
    using sd_Get_hit [of s k] by (metis not_None_eq)
  then show ?thesis by simp
qed

lemma sd_base_fill:
  assumes "sd_cache s k = None" and "sd_backing s k = Ok v"
  shows "sd_base (s\<lparr>sd_cache := (sd_cache s)(k \<mapsto> v)\<rparr>) = sd_base s"
  using assms by (auto simp: sd_base_def map_add_def fun_eq_iff split: option.splits)

lemma sd_Get_base: "sd_base (snd (sd_Get k s)) = sd_base s"
  using sd_Get_state [of k s] by (auto simp: sd_base_fill)

lemma sd_Get_intx: "sd_intx (snd (sd_Get k s)) = sd_intx s"
  and sd_Get_txcache: "sd_txcache (snd (sd_Get k s)) = sd_txcache s"
  and sd_Get_inv: "sd_inv (snd (sd_Get k s)) = sd_inv s"
  using sd_Get_state [of k s] by auto

lemma sd_Get_view: "sd_view (snd (sd_Get k s)) = sd_view s"
  by (simp add: sd_view_def sd_Get_base sd_Get_intx sd_Get_txcache)

lemma sd_Get_value: "sd_inv s \<Longrightarrow> fst (sd_Get k s) = get_result (sd_view s k)"
proof (cases "sd_txhit s k = None \<and> sd_cache s k = None")
  case True
  assume "sd_inv s"
  then have "(\<exists>v. sd_backing s k = Ok v) \<or> sd_backing s k = Fail ErrNotFound"
    by (simp add: sd_inv_def sd_backed_def)
  with True show ?thesis
    using sd_Get_miss(1) [of s k] by (auto simp: sd_view_hits)
next
  case False
  then show ?thesis
    using sd_Get_hit [of s k] by (auto simp: sd_view_hits split: option.splits)
qed

text \<open>A write is observed at its key and nowhere else.\<close>

lemma sd_Set_view: "sd_view (snd (sd_Set k (Some v) s)) = (sd_view s)(k \<mapsto> v)"
  by (auto simp: sd_Set_def sd_view_def sd_base_def setmap_def map_add_def fun_eq_iff Let_def
      split: option.splits)

lemma sd_Set_base: "sd_intx s \<Longrightarrow> sd_base (snd (sd_Set k v s)) = sd_base s"
  by (simp add: sd_Set_def Let_def)

lemma sd_Set_misc:
  "fst (sd_Set k v s) = Ok ()" "sd_intx (snd (sd_Set k v s)) = sd_intx s"
  "sd_inv (snd (sd_Set k v s)) = sd_inv s"
  by (simp_all add: sd_Set_def Let_def)

lemma sd_Commit_view:
  assumes "sd_inv s" and "sd_intx s"
  shows "sd_view (snd (sd_Commit s)) = sd_view s"
  using assms
  by (auto simp: sd_Commit_def sd_view_def sd_base_def sd_resetTx_def sd_inv_def Let_def
      split: option.splits)

lemma sd_Begin_views:
  assumes "sd_inv s" and "\<not> sd_intx s"
  shows "sd_view (snd (sd_Begin s)) = sd_view s" and "sd_base (snd (sd_Begin s)) = sd_view s"
    and "sd_intx (snd (sd_Begin s))" and "sd_inv (snd (sd_Begin s))" and "fst (sd_Begin s) = Ok ()"
proof -
  obtain client where "sd_forkRollback s (sd_height s)" "sd_client s = Some client"
    using assms(1) by (auto simp: sd_inv_def)
  with assms show "sd_view (snd (sd_Begin s)) = sd_view s" "sd_base (snd (sd_Begin s)) = sd_view s"
    "sd_intx (snd (sd_Begin s))" "sd_inv (snd (sd_Begin s))" "fst (sd_Begin s) = Ok ()"
    by (simp_all add: sd_Begin_def sd_view_def Let_def)
qed

lemma sd_Rollback_views:
  "sd_view (sd_Rollback s) = sd_base s" "\<not> sd_intx (sd_Rollback s)"
  "sd_inv (sd_Rollback s) = sd_inv s"
  by (simp_all add: sd_Rollback_def sd_resetTx_def sd_view_def)

lemma sd_Commit_misc:
  assumes "sd_inv s"
  shows "fst (sd_Commit s) = Ok ()" "\<not> sd_intx (snd (sd_Commit s))" "sd_inv (snd (sd_Commit s))"
proof -
  obtain client where "sd_client s = Some client"
    using assms by (auto simp: sd_inv_def)
  with assms show "fst (sd_Commit s) = Ok ()" "\<not> sd_intx (snd (sd_Commit s))" "sd_inv (snd (sd_Commit s))"
    by (simp_all add: sd_Commit_def sd_resetTx_def Let_def)
qed

lemma sd_idle_view: "\<not> sd_intx s \<Longrightarrow> sd_view s = sd_base s"
  by (simp add: sd_view_def)

lemma sd_Commit_base:
  "sd_inv s \<Longrightarrow> sd_intx s \<Longrightarrow> sd_base (snd (sd_Commit s)) = sd_view s"
  using sd_Commit_view [of s] sd_Commit_misc(2) [of s] sd_idle_view by metis

lemmas sd_contract =
  sd_Get_value sd_Get_view sd_Get_inv sd_Get_base sd_Get_intx sd_Set_misc sd_Set_view sd_Set_base
  sd_Begin_views sd_Rollback_views sd_Commit_view sd_Commit_base sd_Commit_misc

interpretation sdb: kv_tx_store statedb_ops sd_view sd_inv sd_base sd_idle
  by unfold_locales (simp_all add: sd_idle_def sd_contract sd_idle_view)

end
