(* ===== verification/Ledger.thy ===== *)
theory Ledger
  imports Exec_Account State_DB
begin

text \<open>
  What the account database means: an abstract ledger of cells (a user's or contract's own
  account, and a user's account inside a contract), and the refinement between the calls of
  \<open>Account\<close> and \<open>Exec_Account\<close> over any store that satisfies the \<^verbatim>\<open>KV\<close> contract and
  calls on that ledger.
\<close>

section \<open>Cells and their keys\<close>

datatype cell = Main string | Held string string \<comment> \<open>\<open>Held execaddr addr\<close>\<close>

type_synonym ledger = "cell \<Rightarrow> account"

fun cell_addr :: "cell \<Rightarrow> string" where
  "cell_addr (Main a) = a"
| "cell_addr (Held e a) = a"

fun cell_key :: "('d, 'v) accdb \<Rightarrow> cell \<Rightarrow> bytes" where
  "cell_key acc (Main a) = AccountKey acc a"
| "cell_key acc (Held e a) = execAccountKey acc a e"

text \<open>
  Addresses are Base58 strings, so they hold neither of the two separators of the keys.
\<close>

definition valid_addr :: "string \<Rightarrow> bool" where
  "valid_addr a \<longleftrightarrow> CHR ''-'' \<notin> set a \<and> CHR '':'' \<notin> set a"

fun cell_ok :: "cell \<Rightarrow> bool" where
  "cell_ok (Main a) = valid_addr a"
| "cell_ok (Held e a) = (valid_addr e \<and> valid_addr a)"

lemma separator_inj:
  "x \<notin> set as \<Longrightarrow> x \<notin> set bs \<Longrightarrow> as @ x # cs = bs @ x # ds \<longleftrightarrow> as = bs \<and> cs = ds"
proof (induction as arbitrary: bs)
  case Nil
  then show ?case by (cases bs) auto
next
  case (Cons a as)
  then show ?case by (cases bs) auto
qed

lemma cell_key_inj:
  assumes prefix: "execAccountKeyPerfix acc = accountKeyPerfix acc @ ''exec-''"
    and ok: "cell_ok c" "cell_ok c'"
  shows "cell_key acc c = cell_key acc c' \<longleftrightarrow> c = c'"
proof -
  have main: "AccountKey acc a \<noteq> execAccountKey acc b e" if "valid_addr a" for a b e
    using that by (auto simp: AccountKey_def execAccountKey_def prefix valid_addr_def)
  have own: "AccountKey acc a = AccountKey acc b \<longleftrightarrow> a = b" for a b
    by (simp add: AccountKey_def)
  have held: "execAccountKey acc b e = execAccountKey acc b' e' \<longleftrightarrow> e = e' \<and> b = b'"
    if "valid_addr e" "valid_addr e'" for b e b' e'
    using that by (auto simp: execAccountKey_def valid_addr_def separator_inj)
  show ?thesis
    using ok main main [symmetric] by (cases c; cases c') (auto simp: held own)
qed

section \<open>The ledger of a database\<close>

definition decode_cell :: "'v codec \<Rightarrow> cell \<Rightarrow> 'v option \<Rightarrow> account" where
  "decode_cell cdc c r =
     (case Option.bind r (Decode cdc) of None \<Rightarrow> new_account (cell_addr c) | Some a \<Rightarrow> a)"

definition cells :: "('d \<Rightarrow> bytes \<rightharpoonup> 'v) \<Rightarrow> ('d, 'v) accdb \<Rightarrow> ledger" where
  "cells view acc c =
     decode_cell (adb_codec acc) c
       (Option.bind (adb acc) (\<lambda>(ops, d). view d (cell_key acc c)))"

text \<open>
  A database is well formed over a store: the interface value is that store, keys are built
  from the prefixes set at construction, and what is stored under the key of a cell decodes
  to an account of that cell's address.
\<close>

definition stored_ok :: "'v codec \<Rightarrow> cell \<Rightarrow> 'v option \<Rightarrow> bool" where
  "stored_ok cdc c r \<longleftrightarrow>
     (case r of None \<Rightarrow> True
      | Some v \<Rightarrow> (case Decode cdc v of None \<Rightarrow> False
          | Some a \<Rightarrow> Addr a = cell_addr c \<and> in_i64 (Balance a) \<and> in_i64 (Frozen a)))"

definition acc_wf ::
  "('d, 'v) kv_ops \<Rightarrow> ('d \<Rightarrow> bytes \<rightharpoonup> 'v) \<Rightarrow> ('d \<Rightarrow> bool) \<Rightarrow> ('d, 'v) accdb \<Rightarrow> bool" where
  "acc_wf ops view I acc \<longleftrightarrow>
     codec_ok (adb_codec acc) \<and>
     execAccountKeyPerfix acc = accountKeyPerfix acc @ ''exec-'' \<and>
     take (length (accountKeyPerfix acc)) (accountKeyBuffer acc) = accountKeyPerfix acc \<and>
     (\<exists>d. adb acc = Some (ops, d) \<and> I d \<and>
          (\<forall>c. cell_ok c \<longrightarrow> stored_ok (adb_codec acc) c (view d (cell_key acc c))))"

text \<open>What no operation changes.\<close>

definition same_env :: "('d, 'v) accdb \<Rightarrow> ('d, 'v) accdb \<Rightarrow> bool" where
  "same_env acc acc' \<longleftrightarrow>
     adb_codec acc' = adb_codec acc \<and> accountKeyPerfix acc' = accountKeyPerfix acc \<and>
     execAccountKeyPerfix acc' = execAccountKeyPerfix acc \<and> adb_cfg acc' = adb_cfg acc"

lemma same_env_refl [simp]: "same_env acc acc"
  by (simp add: same_env_def)

lemma same_env_trans: "same_env a b \<Longrightarrow> same_env b c \<Longrightarrow> same_env a c"
  by (simp add: same_env_def)

lemma same_env_key: "same_env acc acc' \<Longrightarrow> cell_key acc' c = cell_key acc c"
  by (cases c) (simp_all add: same_env_def AccountKey_def execAccountKey_def)

text \<open>Ledgers are compared on the cells that addresses can name.\<close>

definition agree :: "ledger \<Rightarrow> ledger \<Rightarrow> bool" where
  "agree L M \<longleftrightarrow> (\<forall>c. cell_ok c \<longrightarrow> L c = M c)"

section \<open>Outcomes of calls on the ledger\<close>

text \<open>The store behind a database, and the effect of a receipt's key-value list on it.\<close>

definition stored :: "('d \<Rightarrow> bytes \<rightharpoonup> 'v) \<Rightarrow> ('d, 'v) accdb \<Rightarrow> bytes \<rightharpoonup> 'v" where
  "stored view acc = (case adb acc of None \<Rightarrow> Map.empty | Some (ops, d) \<Rightarrow> view d)"

definition apply_kvs :: "'v KeyValue list \<Rightarrow> (bytes \<rightharpoonup> 'v) \<Rightarrow> bytes \<rightharpoonup> 'v" where
  "apply_kvs kvs m = foldl (\<lambda>m kv. m(Key kv \<mapsto> Value kv)) m kvs"

lemma apply_kvs_simps [simp]:
  "apply_kvs [] m = m"
  "apply_kvs (kv # kvs) m = apply_kvs kvs (m(Key kv \<mapsto> Value kv))"
  "apply_kvs (kvs @ kvs') m = apply_kvs kvs' (apply_kvs kvs m)"
  by (simp_all add: apply_kvs_def)

text \<open>
  \<open>yields v m acc (r, L)\<close>: the call \<open>m\<close> has the outcome \<open>r\<close> on the database \<open>acc\<close> and leaves
  the ledger \<open>L\<close>; a receipt it returns lists exactly what has been written since the store was
  \<open>v\<close>, and an error means that nothing has.
\<close>

definition reported ::
  "(bytes \<rightharpoonup> 'v) \<Rightarrow> 'v Receipt outcome \<Rightarrow> unit outcome \<Rightarrow> (bytes \<rightharpoonup> 'v) \<Rightarrow> bool" where
  "reported v r r' v' \<longleftrightarrow>
     (case r of
        Ok receipt \<Rightarrow> r' = Ok () \<and> v' = apply_kvs (KV receipt) v
      | Fail e \<Rightarrow> r' = Fail e \<and> v' = v
      | Panic \<Rightarrow> r' = Panic)"

definition models ::
  "('d, 'v) kv_ops \<Rightarrow> ('d \<Rightarrow> bytes \<rightharpoonup> 'v) \<Rightarrow> ('d \<Rightarrow> bool) \<Rightarrow> ('d, 'v) accdb \<Rightarrow> ledger \<Rightarrow> bool" where
  "models ops view I acc L \<longleftrightarrow> acc_wf ops view I acc \<and> agree L (cells view acc)"

definition yields ::
  "('d, 'v) kv_ops \<Rightarrow> ('d \<Rightarrow> bytes \<rightharpoonup> 'v) \<Rightarrow> ('d \<Rightarrow> bool) \<Rightarrow> (bytes \<rightharpoonup> 'v) \<Rightarrow>
   ('d, 'v, 'v Receipt) acc_op \<Rightarrow> ('d, 'v) accdb \<Rightarrow> unit outcome \<times> ledger \<Rightarrow> bool" where
  "yields ops view I v m acc res \<longleftrightarrow>
     (case m acc of (r, acc') \<Rightarrow>
        reported v r (fst res) (stored view acc') \<and> models ops view I acc' (snd res) \<and>
        same_env acc acc')"

context kv_store
begin

abbreviation wf where "wf \<equiv> acc_wf ops view inv"

abbreviation db_models where "db_models \<equiv> models ops view inv"

abbreviation gives where "gives \<equiv> yields ops view inv"

lemma gives_step:
  assumes "m acc = (Ok x, acc')" and "same_env acc acc'" and "gives v (k x) acc' res"
  shows "gives v (andThen m k) acc res"
  using assms by (auto simp: yields_def intro: same_env_trans split: prod.splits)

lemma gives_bind:
  assumes m: "gives v m acc (Ok (), L)"
    and k: "\<And>receipt acc'. db_models acc' L \<Longrightarrow> same_env acc acc' \<Longrightarrow>
      stored view acc' = apply_kvs (KV receipt) v \<Longrightarrow> gives w (k receipt) acc' res"
  shows "gives w (andThen m k) acc res"
proof -
  from m obtain receipt acc' where "m acc = (Ok receipt, acc')" "db_models acc' L" "same_env acc acc'"
    "stored view acc' = apply_kvs (KV receipt) v"
    by (auto simp: yields_def reported_def split: prod.splits outcome.splits)
  with k show ?thesis by (intro gives_step)
qed

lemma gives_bind_fail:
  "gives v m acc (Fail e, L) \<Longrightarrow> gives v (andThen m k) acc (Fail e, L)"
  by (auto simp: yields_def reported_def andThen_def split: prod.splits outcome.splits)

lemma gives_bind_panic:
  "gives v m acc (Panic, L) \<Longrightarrow> gives w (andThen m k) acc (Panic, L)"
  by (auto simp: yields_def reported_def andThen_def split: prod.splits outcome.splits)

lemma gives_must:
  "gives v m acc (Ok (), L) \<Longrightarrow> gives v (mustO m) acc (Ok (), L)"
  by (auto simp: yields_def reported_def mustO_def split: prod.splits outcome.splits)

lemma gives_must_fail:
  "gives v m acc (Fail e, L) \<Longrightarrow> gives v (mustO m) acc (Panic, L)"
  by (auto simp: yields_def reported_def mustO_def split: prod.splits outcome.splits)

text \<open>Loading a cell.\<close>

lemma load_at_cell:
  assumes M: "db_models acc L" and c: "cell_ok c"
  obtains acc' where "load_at (cell_key acc c) (cell_addr c) acc = (Ok (L c), acc')"
    "db_models acc' L" "same_env acc acc'" "stored view acc' = stored view acc"
    "Addr (L c) = cell_addr c" "in_i64 (Balance (L c))" "in_i64 (Frozen (L c))"
proof -
  from M have wf: "wf acc" and L: "agree L (cells view acc)"
    by (simp_all add: models_def)
  from wf obtain d where d: "adb acc = Some (ops, d)" "inv d"
    and st: "\<And>c. cell_ok c \<Longrightarrow> stored_ok (adb_codec acc) c (view d (cell_key acc c))"
    by (auto simp: acc_wf_def)
  obtain d' where d': "kv_Get ops (cell_key acc c) d = (get_result (view d (cell_key acc c)), d')"
    "view d' = view d" "inv d'"
    using get_cases [OF d(2)] by blast
  let ?acc' = "acc\<lparr>adb := Some (ops, d')\<rparr>"
  have key: "cell_key ?acc' c' = cell_key acc c'" for c'
    by (cases c') (simp_all add: AccountKey_def execAccountKey_def)
  have cells: "cells view ?acc' = cells view acc"
    by (simp add: cells_def fun_eq_iff key d d')
  have wf': "wf ?acc'"
    using wf by (auto simp: acc_wf_def key d d')
  have Lc: "L c = cells view acc c"
    using L c by (simp add: agree_def)
  have val: "load_at (cell_key acc c) (cell_addr c) acc = (Ok (L c), ?acc')"
    using st [OF c] by (auto simp: Lc load_at_def adb_Get_def d d' cells_def decode_cell_def
        stored_ok_def split: option.splits)
  have "Addr (L c) = cell_addr c \<and> in_i64 (Balance (L c)) \<and> in_i64 (Frozen (L c))"
    using st [OF c] by (auto simp: Lc cells_def decode_cell_def stored_ok_def d
        new_account_def in_i64_def split: option.splits)
  then show ?thesis
    using that [OF val] L wf' by (simp add: models_def cells same_env_def stored_def d d')
qed

lemma LoadAccount_cell:
  assumes M: "db_models acc L" and a: "valid_addr a"
  obtains acc' where "LoadAccount a acc = (Ok (L (Main a)), acc')"
    "db_models acc' L" "same_env acc acc'" "stored view acc' = stored view acc"
    "Addr (L (Main a)) = a" "in_i64 (Balance (L (Main a)))" "in_i64 (Frozen (L (Main a)))"
proof -
  let ?acc' = "acc\<lparr>accountKeyBuffer := AccountKey acc a\<rparr>"
  have key: "cell_key (acc\<lparr>accountKeyBuffer := b\<rparr>) c = cell_key acc c" for b c
    by (cases c) (simp_all add: AccountKey_def execAccountKey_def)
  have read: "accountReadKey a acc = (Ok (AccountKey acc a), ?acc')"
    using M by (simp add: accountReadKey_def AccountKey_def acc_wf_def models_def Let_def)
  have "wf ?acc'" and cells: "cells view ?acc' = cells view acc"
    using M by (auto simp: acc_wf_def models_def key cells_def fun_eq_iff AccountKey_def)
  then have "db_models ?acc' L"
    using M by (simp add: models_def)
  then obtain acc'' where ld: "load_at (cell_key ?acc' (Main a)) a ?acc' = (Ok (L (Main a)), acc'')"
    and *: "db_models acc'' L" "same_env ?acc' acc''" "stored view acc'' = stored view ?acc'"
      "Addr (L (Main a)) = a" "in_i64 (Balance (L (Main a)))" "in_i64 (Frozen (L (Main a)))"
    using load_at_cell [of ?acc' L "Main a"] a by (metis cell_addr.simps(1) cell_ok.simps(1))
  have "LoadAccount a acc = (Ok (L (Main a)), acc'')"
    using ld by (simp add: LoadAccount_def read key del: cell_key.simps) (simp add: AccountKey_def)
  with * show ?thesis
    by (intro that [of acc'']) (simp_all add: same_env_def stored_def)
qed

lemma LoadExecAccount_cell:
  assumes M: "db_models acc L" and "valid_addr e" "valid_addr a"
  obtains acc' where "LoadExecAccount a e acc = (Ok (L (Held e a)), acc')"
    "db_models acc' L" "same_env acc acc'" "stored view acc' = stored view acc"
    "Addr (L (Held e a)) = a" "in_i64 (Balance (L (Held e a)))" "in_i64 (Frozen (L (Held e a)))"
  using load_at_cell [OF M, of "Held e a"] assms by (auto simp: LoadExecAccount_def)

text \<open>Storing a cell.\<close>

lemma save_cell:
  assumes M: "db_models acc L" and c: "cell_ok c"
    and a: "Addr a = cell_addr c" "in_i64 (Balance a)" "in_i64 (Frozen a)"
    and kv: "kvs = [\<lparr>Key = cell_key acc c, Value = Encode (adb_codec acc) (PAccount a)\<rparr>]"
  obtains acc' where "SaveKVSet kvs acc = (Ok (), acc')" "db_models acc' (L(c := a))"
    "same_env acc acc'" "stored view acc' = apply_kvs kvs (stored view acc)"
proof -
  let ?k = "cell_key acc c" and ?v = "Encode (adb_codec acc) (PAccount a)"
  from M have wf: "wf acc" and L: "agree L (cells view acc)"
    by (simp_all add: models_def)
  from wf obtain d where d: "adb acc = Some (ops, d)" "inv d"
    and st: "\<And>c. cell_ok c \<Longrightarrow> stored_ok (adb_codec acc) c (view d (cell_key acc c))"
    and dec: "Decode (adb_codec acc) ?v = Some a"
    and pre: "execAccountKeyPerfix acc = accountKeyPerfix acc @ ''exec-''"
    by (auto simp: acc_wf_def codec_ok_def)
  obtain d' where d': "kv_Set ops ?k (Some ?v) d = (Ok (), d')"
    "view d' = (view d)(?k \<mapsto> ?v)" "inv d'"
    using set_cases [OF d(2)] by blast
  let ?acc' = "acc\<lparr>adb := Some (ops, d')\<rparr>"
  have key: "cell_key ?acc' c' = cell_key acc c'" for c'
    by (cases c') (simp_all add: AccountKey_def execAccountKey_def)
  have view': "view d' (cell_key acc c') = (if c' = c then Some ?v else view d (cell_key acc c'))"
    if "cell_ok c'" for c'
    using cell_key_inj [OF pre that c] by (simp add: d')
  have "wf ?acc'"
    using wf a st dec by (auto simp: acc_wf_def key d d'(3) view' stored_ok_def)
  moreover have "agree (L(c := a)) (cells view ?acc')"
    using L dec by (simp add: agree_def cells_def key d view' decode_cell_def)
  moreover have "SaveKVSet kvs acc = (Ok (), ?acc')"
    by (simp add: kv adb_Set_def d d' mustO_def andThen_def)
  moreover have "same_env acc ?acc'" "stored view ?acc' = apply_kvs kvs (stored view acc)"
    by (simp_all add: same_env_def stored_def d d' kv)
  ultimately show ?thesis
    using that [of ?acc'] by (simp only: models_def simp_thms)
qed

lemma save_main:
  assumes M: "db_models acc L" and a: "Addr y = a" "valid_addr a" "in_i64 (Balance y)" "in_i64 (Frozen y)"
    and env: "same_env acc0 acc"
  obtains acc' where "SaveKVSet (GetKVSet acc0 y) acc = (Ok (), acc')"
    "db_models acc' (L(Main a := y))" "same_env acc acc'"
    "stored view acc' = apply_kvs (GetKVSet acc0 y) (stored view acc)"
proof (rule save_cell [OF M, of "Main a" y "GetKVSet acc0 y"])
  show "GetKVSet acc0 y = [\<lparr>Key = cell_key acc (Main a), Value = Encode (adb_codec acc) (PAccount y)\<rparr>]"
    using env a by (simp add: GetKVSet_def same_env_def AccountKey_def)
qed (use a that in simp_all)

lemma save_exec:
  assumes M: "db_models acc L" and a: "Addr y = a" "valid_addr a" "in_i64 (Balance y)" "in_i64 (Frozen y)"
    and e: "valid_addr e" and env: "same_env acc0 acc"
  obtains acc' where "SaveExecAccount e y acc = (Ok (), acc')"
    "db_models acc' (L(Held e a := y))" "same_env acc acc'"
    "stored view acc' = apply_kvs (GetExecKVSet acc0 e y) (stored view acc)"
proof (rule save_cell [OF M, of "Held e a" y "GetExecKVSet acc0 e y"])
  show kv: "GetExecKVSet acc0 e y = [\<lparr>Key = cell_key acc (Held e a), Value = Encode (adb_codec acc) (PAccount y)\<rparr>]"
    using env a by (simp add: GetExecKVSet_def same_env_def execAccountKey_def)
  fix acc' assume *: "SaveKVSet (GetExecKVSet acc0 e y) acc = (Ok (), acc')"
    "db_models acc' (L(Held e a := y))" "same_env acc acc'"
    "stored view acc' = apply_kvs (GetExecKVSet acc0 e y) (stored view acc)"
  have "GetExecKVSet acc e y = GetExecKVSet acc0 e y"
    using env by (simp add: GetExecKVSet_def same_env_def execAccountKey_def)
  with * show thesis by (intro that [of acc']) (simp_all add: SaveExecAccount_def)
qed (use a e in simp_all)

end

end
