(* ===== verification/Ledger_Calls.thy ===== *)
theory Ledger_Calls
  imports Ledger
begin

text \<open>
  The public calls of the account database as one datatype, what each of them does to the
  abstract ledger (a guard and a list of moves between cells), and the proof that the calls of
  \<open>Account\<close> and \<open>Exec_Account\<close> implement it over every store with the \<^verbatim>\<open>KV\<close> contract.
\<close>

section \<open>The calls\<close>

datatype acc_call =
    CTransfer string string int
  | CTransferToExec string string int
  | CTransferWithdraw string string int
  | CExecFrozen string string int
  | CExecActive string string int
  | CExecDeposit string string int
  | CExecWithdraw string string int
  | CExecTransfer string string string int
  | CExecTransferFrozen string string string int
  | CExecIssueCoins string int
  | CExecDepositFrozen string string int
  | CMint string int
  | CBurn string int
  | CGenesisInit string int
  | CGenesisInitExec string int string

fun run_acc :: "acc_call \<Rightarrow> ('d, 'v, 'v Receipt) acc_op" where
  "run_acc (CTransfer from to x) = Transfer from to x"
| "run_acc (CTransferToExec from to x) = TransferToExec from to x"
| "run_acc (CTransferWithdraw from to x) = TransferWithdraw from to x"
| "run_acc (CExecFrozen a e x) = ExecFrozen a e x"
| "run_acc (CExecActive a e x) = ExecActive a e x"
| "run_acc (CExecDeposit a e x) = ExecDeposit a e x"
| "run_acc (CExecWithdraw e a x) = ExecWithdraw e a x"
| "run_acc (CExecTransfer from to e x) = ExecTransfer from to e x"
| "run_acc (CExecTransferFrozen from to e x) = ExecTransferFrozen from to e x"
| "run_acc (CExecIssueCoins e x) = ExecIssueCoins e x"
| "run_acc (CExecDepositFrozen a e x) = ExecDepositFrozen a e x"
| "run_acc (CMint a x) = Mint a x"
| "run_acc (CBurn a x) = Burn a x"
| "run_acc (CGenesisInit a x) = GenesisInit a x"
| "run_acc (CGenesisInitExec a x e) = GenesisInitExec a x e"

text \<open>The addresses a call names.\<close>

fun addrs :: "acc_call \<Rightarrow> string set" where
  "addrs (CTransfer from to x) = {from, to}"
| "addrs (CTransferToExec from to x) = {from, to}"
| "addrs (CTransferWithdraw from to x) = {from, to}"
| "addrs (CExecFrozen a e x) = {a, e}"
| "addrs (CExecActive a e x) = {a, e}"
| "addrs (CExecDeposit a e x) = {a, e}"
| "addrs (CExecWithdraw e a x) = {a, e}"
| "addrs (CExecTransfer from to e x) = {from, to, e}"
| "addrs (CExecTransferFrozen from to e x) = {from, to, e}"
| "addrs (CExecIssueCoins e x) = {e}"
| "addrs (CExecDepositFrozen a e x) = {a, e}"
| "addrs (CMint a x) = {a}"
| "addrs (CBurn a x) = {a}"
| "addrs (CGenesisInit a x) = {a}"
| "addrs (CGenesisInitExec a x e) = {a, e}"

definition named_ok :: "acc_call \<Rightarrow> bool" where
  "named_ok c \<longleftrightarrow> (\<forall>a\<in>addrs c. valid_addr a)"

section \<open>What a call does to the ledger\<close>

text \<open>
  A move adds to the balance and to the frozen amount of one cell, at the width of the code.
\<close>

type_synonym move = "cell \<times> int \<times> int"

fun do_move :: "move \<Rightarrow> ledger \<Rightarrow> ledger" where
  "do_move (c, b, f) L =
     L(c := (L c)\<lparr>Balance := i64 (Balance (L c) + b), Frozen := i64 (Frozen (L c) + f)\<rparr>)"

fun moves :: "acc_call \<Rightarrow> move list" where
  "moves (CTransfer from to x) = [(Main from, - x, 0), (Main to, x, 0)]"
| "moves (CTransferToExec from to x) = [(Main from, - x, 0), (Main to, x, 0), (Held to from, x, 0)]"
| "moves (CTransferWithdraw from to x) = [(Held to from, - x, 0), (Main to, - x, 0), (Main from, x, 0)]"
| "moves (CExecFrozen a e x) = [(Held e a, - x, x)]"
| "moves (CExecActive a e x) = [(Held e a, x, - x)]"
| "moves (CExecDeposit a e x) = [(Held e a, x, 0)]"
| "moves (CExecWithdraw e a x) = [(Held e a, - x, 0)]"
| "moves (CExecTransfer from to e x) = [(Held e from, - x, 0), (Held e to, x, 0)]"
| "moves (CExecTransferFrozen from to e x) = [(Held e from, 0, - x), (Held e to, x, 0)]"
| "moves (CExecIssueCoins e x) = [(Main e, x, 0)]"
| "moves (CExecDepositFrozen a e x) = [(Main e, x, 0), (Held e a, 0, x)]"
| "moves (CMint a x) = [(Main a, x, 0)]"
| "moves (CBurn a x) = [(Main a, - x, 0)]"
| "moves (CGenesisInit a x) = [(Main a, x, 0)]"
| "moves (CGenesisInitExec a x e) = [(Main e, x, 0), (Held e a, x, 0)]"

text \<open>The checks of a call, in the order the code makes them.\<close>

fun first_failure :: "(bool \<times> err) list \<Rightarrow> unit outcome" where
  "first_failure [] = Ok ()"
| "first_failure ((b, e) # cs) = (if b then Fail e else first_failure cs)"

fun checks :: "acc_cfg \<Rightarrow> acc_call \<Rightarrow> ledger \<Rightarrow> (bool \<times> err) list" where
  "checks cfg (CTransfer from to x) L =
     [(\<not> CheckAmount x, ErrAmount), (from = to, ErrSendSameToRecv),
      (i64 (Balance (L (Main from)) - x) < 0, ErrNoBalance)]"
| "checks cfg (CTransferToExec from to x) L =
     [(\<not> CheckAmount x, ErrAmount), (from = to, ErrSendSameToRecv),
      (i64 (Balance (L (Main from)) - x) < 0, ErrNoBalance)]"
| "checks cfg (CTransferWithdraw from to x) L =
     [(\<not> CheckAmount x, ErrAmount), (i64 (Balance (L (Main to)) - x) < 0, ErrNoBalance),
      (from = to, ErrSendSameToRecv), (i64 (Balance (L (Held to from)) - x) < 0, ErrNoBalance)]"
| "checks cfg (CExecFrozen a e x) L =
     [(a = e, ErrSendSameToRecv), (\<not> CheckAmount x, ErrAmount),
      (i64 (Balance (L (Held e a)) - x) < 0, ErrNoBalance)]"
| "checks cfg (CExecActive a e x) L =
     [(a = e, ErrSendSameToRecv), (\<not> CheckAmount x, ErrAmount),
      (i64 (Frozen (L (Held e a)) - x) < 0, ErrNoBalance)]"
| "checks cfg (CExecDeposit a e x) L =
     [(a = e, ErrSendSameToRecv), (\<not> CheckAmount x, ErrAmount)]"
| "checks cfg (CExecWithdraw e a x) L =
     [(a = e, ErrSendSameToRecv), (\<not> CheckAmount x, ErrAmount),
      (i64 (Balance (L (Held e a)) - x) < 0, ErrNoBalance)]"
| "checks cfg (CExecTransfer from to e x) L =
     [(from = to, ErrSendSameToRecv), (\<not> CheckAmount x, ErrAmount),
      (i64 (Balance (L (Held e from)) - x) < 0, ErrNoBalance)]"
| "checks cfg (CExecTransferFrozen from to e x) L =
     [(from = to, ErrSendSameToRecv), (\<not> CheckAmount x, ErrAmount),
      (i64 (Frozen (L (Held e from)) - x) < 0, ErrNoBalance)]"
| "checks cfg (CExecIssueCoins e x) L =
     [(\<not> issue_allowed cfg (minerExecs cfg) e, ErrNotAllowDeposit), (\<not> CheckAmount x, ErrAmount)]"
| "checks cfg (CExecDepositFrozen a e x) L =
     [(a = e, ErrSendSameToRecv),
      (\<not> issue_allowed cfg (minerExecs cfg) e, ErrNotAllowDeposit), (\<not> CheckAmount x, ErrAmount)]"
| "checks cfg (CMint a x) L =
     [(\<not> CheckAmount x, ErrAmount),
      (i64 (Balance (L (Main a)) + x) < x \<or> i64 (Balance (L (Main a)) + x) > MaxTokenBalance,
       ErrAmount)]"
| "checks cfg (CBurn a x) L =
     [(\<not> CheckAmount x, ErrAmount), (Balance (L (Main a)) < x, ErrNoBalance)]"
| "checks cfg (CGenesisInit a x) L =
     [(i64 (Balance (L (Main a)) + x) < x \<or> i64 (Balance (L (Main a)) + x) > MaxTokenBalance,
       ErrAmount)]"
| "checks cfg (CGenesisInitExec a x e) L =
     [(i64 (Balance (L (Main e)) + x) < x \<or> i64 (Balance (L (Main e)) + x) > MaxTokenBalance,
       ErrAmount)]"

text \<open>
  The genesis call of a contract is the only one that can panic: it has credited the contract
  when the deposit refuses its arguments.
\<close>

fun panics :: "acc_call \<Rightarrow> bool" where
  "panics (CGenesisInitExec a x e) = (a = e \<or> \<not> CheckAmount x)"
| "panics _ = False"

definition spec_acc :: "acc_cfg \<Rightarrow> acc_call \<Rightarrow> ledger \<Rightarrow> unit outcome \<times> ledger" where
  "spec_acc cfg c L =
     (case first_failure (checks cfg c L) of
        Ok _ \<Rightarrow>
          if panics c then (Panic, do_move (hd (moves c)) L)
          else (Ok (), fold do_move (moves c) L)
      | r \<Rightarrow> (r, L))"

section \<open>The calls implement the specification\<close>

context kv_store
begin

lemma exec_single_gives:
  assumes M: "db_models acc L" and a: "valid_addr a" and e: "valid_addr e"
    and upd: "\<And>y. Addr (upd y) = Addr y" "\<And>y. in_i64 (Balance y) \<Longrightarrow> in_i64 (Balance (upd y))"
      "\<And>y. in_i64 (Frozen y) \<Longrightarrow> in_i64 (Frozen (upd y))"
  shows "gives (stored view acc) (exec_single a e x short upd ty) acc
    (case first_failure [(a = e, ErrSendSameToRecv), (\<not> CheckAmount x, ErrAmount),
        (short (L (Held e a)), ErrNoBalance)] of
       Ok _ \<Rightarrow> (Ok (), L(Held e a := upd (L (Held e a)))) | r \<Rightarrow> (r, L))"
proof -
  obtain acc1 where 1: "LoadExecAccount a e acc = (Ok (L (Held e a)), acc1)"
    "db_models acc1 L" "same_env acc acc1" "stored view acc1 = stored view acc"
    "Addr (L (Held e a)) = a" "in_i64 (Balance (L (Held e a)))" "in_i64 (Frozen (L (Held e a)))"
    using LoadExecAccount_cell [OF M e a] .
  obtain acc2 where 2: "SaveExecAccount e (upd (L (Held e a))) acc1 = (Ok (), acc2)"
    "db_models acc2 (L(Held e a := upd (L (Held e a))))" "same_env acc1 acc2"
    "stored view acc2 = apply_kvs (GetExecKVSet acc1 e (upd (L (Held e a)))) (stored view acc1)"
    by (rule save_exec [OF 1(2), of "upd (L (Held e a))" a e acc1]) (use 1 upd a e in simp_all)
  show ?thesis
    using M 1 2 same_env_trans [OF 1(3) 2(3)]
    by (simp add: yields_def reported_def exec_single_def execReceipt_def)
qed

lemma Transfer_gives:
  assumes M: "db_models acc L" and a: "valid_addr a" and b: "valid_addr b"
  shows "gives (stored view acc) (Transfer a b x) acc (spec_acc cfg (CTransfer a b x) L)"
proof -
  let ?y = "L (Main a)" and ?z = "L (Main b)"
  let ?y' = "?y\<lparr>Balance := i64 (Balance ?y - x)\<rparr>" and ?z' = "?z\<lparr>Balance := i64 (Balance ?z + x)\<rparr>"
  obtain acc1 where 1: "LoadAccount a acc = (Ok ?y, acc1)"
    "db_models acc1 L" "same_env acc acc1" "stored view acc1 = stored view acc"
    "Addr ?y = a" "in_i64 (Balance ?y)" "in_i64 (Frozen ?y)"
    using LoadAccount_cell [OF M a] .
  obtain acc2 where 2: "LoadAccount b acc1 = (Ok ?z, acc2)"
    "db_models acc2 L" "same_env acc1 acc2" "stored view acc2 = stored view acc1"
    "Addr ?z = b" "in_i64 (Balance ?z)" "in_i64 (Frozen ?z)"
    using LoadAccount_cell [OF 1(2) b] .
  obtain acc3 where 3: "SaveKVSet (GetKVSet acc2 ?y') acc2 = (Ok (), acc3)"
    "db_models acc3 (L(Main a := ?y'))" "same_env acc2 acc3"
    "stored view acc3 = apply_kvs (GetKVSet acc2 ?y') (stored view acc2)"
    by (rule save_main [OF 2(2), of ?y' a acc2]) (use 1 a in simp_all)
  obtain acc4 where 4: "SaveKVSet (GetKVSet acc2 ?z') acc3 = (Ok (), acc4)"
    "db_models acc4 (L(Main a := ?y', Main b := ?z'))" "same_env acc3 acc4"
    "stored view acc4 = apply_kvs (GetKVSet acc2 ?z') (stored view acc3)"
    by (rule save_main [OF 3(2), of ?z' b acc2]) (use 2 3 b in simp_all)
  have env: "same_env acc acc2" "same_env acc acc4"
    using 1 2 3 4 by (blast intro: same_env_trans)+
  show ?thesis
    using M 1 2 3 4 env
    by (simp add: yields_def reported_def Transfer_def transferReceipt_def spec_acc_def Let_def)
qed

lemma gives_cong: "gives v m acc res \<Longrightarrow> res = res' \<Longrightarrow> gives v m acc res'"
  by simp

lemma cell_range:
  assumes M: "db_models acc L" and c: "cell_ok c"
  shows "in_i64 (Balance (L c))" and "in_i64 (Frozen (L c))"
  by (rule load_at_cell [OF M c]; assumption)+

lemma exec_single_calls_give:
  assumes M: "db_models acc L" and a: "valid_addr a" and e: "valid_addr e"
  shows "gives (stored view acc) (ExecFrozen a e x) acc (spec_acc cfg (CExecFrozen a e x) L)"
    and "gives (stored view acc) (ExecActive a e x) acc (spec_acc cfg (CExecActive a e x) L)"
    and "gives (stored view acc) (ExecDeposit a e x) acc (spec_acc cfg (CExecDeposit a e x) L)"
    and "gives (stored view acc) (ExecWithdraw e a x) acc (spec_acc cfg (CExecWithdraw e a x) L)"
    and "gives (stored view acc) (execDepositFrozen a e x) acc
      (case first_failure [(a = e, ErrSendSameToRecv), (\<not> CheckAmount x, ErrAmount)] of
         Ok _ \<Rightarrow> (Ok (), do_move (Held e a, 0, x) L) | r \<Rightarrow> (r, L))"
proof -
  have r: "in_i64 (Balance (L (Held e a)))" "in_i64 (Frozen (L (Held e a)))"
    using cell_range [OF M, of "Held e a"] a e by simp_all
  note single = exec_single_gives [OF M a e]
  show "gives (stored view acc) (ExecFrozen a e x) acc (spec_acc cfg (CExecFrozen a e x) L)"
    unfolding ExecFrozen_def
    by (rule gives_cong [OF single]) (simp_all add: spec_acc_def)
  show "gives (stored view acc) (ExecActive a e x) acc (spec_acc cfg (CExecActive a e x) L)"
    unfolding ExecActive_def
    by (rule gives_cong [OF single]) (simp_all add: spec_acc_def)
  show "gives (stored view acc) (ExecDeposit a e x) acc (spec_acc cfg (CExecDeposit a e x) L)"
    unfolding ExecDeposit_def
    by (rule gives_cong [OF single]) (simp_all add: spec_acc_def r)
  show "gives (stored view acc) (ExecWithdraw e a x) acc (spec_acc cfg (CExecWithdraw e a x) L)"
    unfolding ExecWithdraw_def
    by (rule gives_cong [OF single]) (simp_all add: spec_acc_def r)
  show "gives (stored view acc) (execDepositFrozen a e x) acc
      (case first_failure [(a = e, ErrSendSameToRecv), (\<not> CheckAmount x, ErrAmount)] of
         Ok _ \<Rightarrow> (Ok (), do_move (Held e a, 0, x) L) | r \<Rightarrow> (r, L))"
    unfolding execDepositFrozen_def
    by (rule gives_cong [OF single]) (simp_all add: r)
qed

lemma two_held:
  assumes M: "db_models acc L" and e: "valid_addr e"
    and y: "Addr y = a" "valid_addr a" "in_i64 (Balance y)" "in_i64 (Frozen y)"
    and z: "Addr z = b" "valid_addr b" "in_i64 (Balance z)" "in_i64 (Frozen z)"
  obtains acc1 acc2 where "SaveExecAccount e y acc = (Ok (), acc1)"
    "SaveExecAccount e z acc1 = (Ok (), acc2)"
    "db_models acc2 (L(Held e a := y, Held e b := z))" "same_env acc acc2"
    "stored view acc2 = apply_kvs (GetExecKVSet acc e y @ GetExecKVSet acc e z) (stored view acc)"
proof -
  obtain acc1 where 1: "SaveExecAccount e y acc = (Ok (), acc1)"
    "db_models acc1 (L(Held e a := y))" "same_env acc acc1"
    "stored view acc1 = apply_kvs (GetExecKVSet acc e y) (stored view acc)"
    using save_exec [OF M y e same_env_refl] .
  obtain acc2 where 2: "SaveExecAccount e z acc1 = (Ok (), acc2)"
    "db_models acc2 (L(Held e a := y, Held e b := z))" "same_env acc1 acc2"
    "stored view acc2 = apply_kvs (GetExecKVSet acc e z) (stored view acc1)"
    using save_exec [OF 1(2) z e 1(3)] .
  show ?thesis
    using that [OF 1(1) 2(1,2) same_env_trans [OF 1(3) 2(3)]] 1(4) 2(4) by simp
qed

lemma ExecTransfer_gives:
  assumes M: "db_models acc L" and a: "valid_addr a" and b: "valid_addr b" and e: "valid_addr e"
  shows "gives (stored view acc) (ExecTransfer a b e x) acc (spec_acc cfg (CExecTransfer a b e x) L)"
    and "gives (stored view acc) (ExecTransferFrozen a b e x) acc
      (spec_acc cfg (CExecTransferFrozen a b e x) L)"
proof -
  let ?y = "L (Held e a)" and ?z = "L (Held e b)"
  let ?y' = "?y\<lparr>Balance := i64 (Balance ?y - x)\<rparr>" and ?z' = "?z\<lparr>Balance := i64 (Balance ?z + x)\<rparr>"
  let ?w' = "?y\<lparr>Frozen := i64 (Frozen ?y - x)\<rparr>"
  obtain acc1 where 1: "LoadExecAccount a e acc = (Ok ?y, acc1)"
    "db_models acc1 L" "same_env acc acc1" "stored view acc1 = stored view acc"
    "Addr ?y = a" "in_i64 (Balance ?y)" "in_i64 (Frozen ?y)"
    using LoadExecAccount_cell [OF M e a] .
  obtain acc2 where 2: "LoadExecAccount b e acc1 = (Ok ?z, acc2)"
    "db_models acc2 L" "same_env acc1 acc2" "stored view acc2 = stored view acc1"
    "Addr ?z = b" "in_i64 (Balance ?z)" "in_i64 (Frozen ?z)"
    using LoadExecAccount_cell [OF 1(2) e b] .
  note env2 = same_env_trans [OF 1(3) 2(3)]
  obtain acc3 acc4 where 3: "SaveExecAccount e ?y' acc2 = (Ok (), acc3)"
    "SaveExecAccount e ?z' acc3 = (Ok (), acc4)"
    "db_models acc4 (L(Held e a := ?y', Held e b := ?z'))" "same_env acc2 acc4"
    "stored view acc4 = apply_kvs (GetExecKVSet acc2 e ?y' @ GetExecKVSet acc2 e ?z') (stored view acc2)"
    by (rule two_held [OF 2(2) e, of ?y' a ?z' b]) (use 1 2 a b in simp_all)
  show "gives (stored view acc) (ExecTransfer a b e x) acc (spec_acc cfg (CExecTransfer a b e x) L)"
    using M 1 2 3 env2 same_env_trans [OF env2 3(4)]
    by (simp add: yields_def reported_def ExecTransfer_def execReceipt2_def spec_acc_def Let_def)
  obtain acc5 acc6 where 5: "SaveExecAccount e ?w' acc2 = (Ok (), acc5)"
    "SaveExecAccount e ?z' acc5 = (Ok (), acc6)"
    "db_models acc6 (L(Held e a := ?w', Held e b := ?z'))" "same_env acc2 acc6"
    "stored view acc6 = apply_kvs (GetExecKVSet acc2 e ?w' @ GetExecKVSet acc2 e ?z') (stored view acc2)"
    by (rule two_held [OF 2(2) e, of ?w' a ?z' b]) (use 1 2 a b in simp_all)
  show "gives (stored view acc) (ExecTransferFrozen a b e x) acc
      (spec_acc cfg (CExecTransferFrozen a b e x) L)"
    using M 1 2 5 env2 same_env_trans [OF env2 5(4)]
    by (simp add: yields_def reported_def ExecTransferFrozen_def execReceipt2_def spec_acc_def Let_def)
qed

lemma load_save_main:
  assumes M: "db_models acc L" and a: "valid_addr a"
  obtains acc1 where "LoadAccount a acc = (Ok (L (Main a)), acc1)"
    "db_models acc1 L" "same_env acc acc1" "stored view acc1 = stored view acc"
    "Addr (L (Main a)) = a" "in_i64 (Balance (L (Main a)))" "in_i64 (Frozen (L (Main a)))"
    "\<forall>n. \<exists>acc2. SaveKVSet (GetKVSet acc1 ((L (Main a))\<lparr>Balance := i64 n\<rparr>)) acc1 = (Ok (), acc2) \<and>
       db_models acc2 (L(Main a := (L (Main a))\<lparr>Balance := i64 n\<rparr>)) \<and> same_env acc acc2 \<and>
       stored view acc2 = apply_kvs (GetKVSet acc1 ((L (Main a))\<lparr>Balance := i64 n\<rparr>)) (stored view acc)"
proof -
  obtain acc1 where 1: "LoadAccount a acc = (Ok (L (Main a)), acc1)"
    "db_models acc1 L" "same_env acc acc1" "stored view acc1 = stored view acc"
    "Addr (L (Main a)) = a" "in_i64 (Balance (L (Main a)))" "in_i64 (Frozen (L (Main a)))"
    using LoadAccount_cell [OF M a] .
  have "\<exists>acc2. SaveKVSet (GetKVSet acc1 ((L (Main a))\<lparr>Balance := i64 n\<rparr>)) acc1 = (Ok (), acc2) \<and>
       db_models acc2 (L(Main a := (L (Main a))\<lparr>Balance := i64 n\<rparr>)) \<and> same_env acc acc2 \<and>
       stored view acc2 = apply_kvs (GetKVSet acc1 ((L (Main a))\<lparr>Balance := i64 n\<rparr>)) (stored view acc)" for n
    by (rule save_main [OF 1(2), of "(L (Main a))\<lparr>Balance := i64 n\<rparr>" a acc1])
      (use 1 a same_env_trans in \<open>auto\<close>)
  with 1 that show ?thesis by blast
qed

lemma main_calls_give:
  assumes M: "db_models acc L" and a: "valid_addr a"
  shows "gives (stored view acc) (depositBalance a x) acc
      (if CheckAmount x then (Ok (), do_move (Main a, x, 0) L) else (Fail ErrAmount, L))"
    and "gives (stored view acc) (Mint a x) acc (spec_acc cfg (CMint a x) L)"
    and "gives (stored view acc) (Burn a x) acc (spec_acc cfg (CBurn a x) L)"
    and "gives (stored view acc) (GenesisInit a x) acc (spec_acc cfg (CGenesisInit a x) L)"
proof -
  obtain acc1 where 1: "LoadAccount a acc = (Ok (L (Main a)), acc1)"
    "db_models acc1 L" "same_env acc acc1" "stored view acc1 = stored view acc"
    "Addr (L (Main a)) = a" "in_i64 (Balance (L (Main a)))" "in_i64 (Frozen (L (Main a)))"
    and save: "\<forall>n. \<exists>acc2. SaveKVSet (GetKVSet acc1 ((L (Main a))\<lparr>Balance := i64 n\<rparr>)) acc1 = (Ok (), acc2) \<and>
       db_models acc2 (L(Main a := (L (Main a))\<lparr>Balance := i64 n\<rparr>)) \<and> same_env acc acc2 \<and>
       stored view acc2 = apply_kvs (GetKVSet acc1 ((L (Main a))\<lparr>Balance := i64 n\<rparr>)) (stored view acc)"
    using load_save_main [OF M a] .
  note defs = yields_def reported_def spec_acc_def Let_def
  show "gives (stored view acc) (depositBalance a x) acc
      (if CheckAmount x then (Ok (), do_move (Main a, x, 0) L) else (Fail ErrAmount, L))"
    using M 1 spec [OF save, of "Balance (L (Main a)) + x"] by (auto simp: defs depositBalance_def)
  show "gives (stored view acc) (Mint a x) acc (spec_acc cfg (CMint a x) L)"
    using M 1 spec [OF save, of "Balance (L (Main a)) + x"]
    by (auto simp: defs Mint_def safeAdd_def mintReceipt_def)
  show "gives (stored view acc) (Burn a x) acc (spec_acc cfg (CBurn a x) L)"
    using M 1 spec [OF save, of "Balance (L (Main a)) - x"] by (auto simp: defs Burn_def burnReceipt_def)
  show "gives (stored view acc) (GenesisInit a x) acc (spec_acc cfg (CGenesisInit a x) L)"
    using M 1 spec [OF save, of "Balance (L (Main a)) + x"]
    by (auto simp: defs GenesisInit_def safeAdd_def genesisReceipt_def SaveAccount_def)
qed

lemma ExecIssueCoins_gives:
  assumes M: "db_models acc L" and e: "valid_addr e"
  shows "gives (stored view acc) (ExecIssueCoins e x) acc (spec_acc (adb_cfg acc) (CExecIssueCoins e x) L)"
proof (cases "issue_allowed (adb_cfg acc) (minerExecs (adb_cfg acc)) e")
  case True
  then show ?thesis
    using main_calls_give(1) [OF M e, of x]
    by (simp add: yields_def ExecIssueCoins_def spec_acc_def split: if_splits)
qed (use M in \<open>simp add: yields_def reported_def ExecIssueCoins_def spec_acc_def\<close>)

lemma gives_Ok:
  assumes "gives v m acc (Ok (), L)"
  obtains receipt acc' where "m acc = (Ok receipt, acc')" "db_models acc' L" "same_env acc acc'"
    "stored view acc' = apply_kvs (KV receipt) v"
  using assms by (auto simp: yields_def reported_def split: prod.splits outcome.splits)

lemma gives_Fail:
  assumes "gives v m acc (Fail e, L)"
  obtains acc' where "m acc = (Fail e, acc')" "db_models acc' L" "same_env acc acc'"
    "stored view acc' = v"
  using assms by (auto simp: yields_def reported_def split: prod.splits outcome.splits)

lemma gives_merge:
  assumes m: "gives (stored view acc) m acc (Ok (), L)"
    and m': "\<And>acc'. db_models acc' L \<Longrightarrow> same_env acc acc' \<Longrightarrow>
      gives (stored view acc') m' acc' (Ok (), L')"
    and upd: "\<And>r. KV (upd r) = KV r"
  shows "gives (stored view acc)
    (andThen m (\<lambda>r. andThen (mustO m') (\<lambda>r'. returnO (mergeReceipt r (upd r'))))) acc (Ok (), L')"
    and "gives (stored view acc)
    (andThen m (\<lambda>r. andThen m' (\<lambda>r'. returnO (mergeReceipt r (upd r'))))) acc (Ok (), L')"
proof -
  obtain r acc1 where 1: "m acc = (Ok r, acc1)" "db_models acc1 L" "same_env acc acc1"
    "stored view acc1 = apply_kvs (KV r) (stored view acc)"
    using gives_Ok [OF m] .
  obtain r' acc2 where 2: "m' acc1 = (Ok r', acc2)" "db_models acc2 L'" "same_env acc1 acc2"
    "stored view acc2 = apply_kvs (KV r') (stored view acc1)"
    using gives_Ok [OF m' [OF 1(2,3)]] .
  show "gives (stored view acc)
    (andThen m (\<lambda>r. andThen (mustO m') (\<lambda>r'. returnO (mergeReceipt r (upd r'))))) acc (Ok (), L')"
    and "gives (stored view acc)
    (andThen m (\<lambda>r. andThen m' (\<lambda>r'. returnO (mergeReceipt r (upd r'))))) acc (Ok (), L')"
    using 1 2 same_env_trans [OF 1(3) 2(3)] upd
    by (simp_all add: yields_def reported_def mergeReceipt_def)
qed

lemma TransferToExec_gives:
  assumes M: "db_models acc L" and a: "valid_addr a" and e: "valid_addr e"
  shows "gives (stored view acc) (TransferToExec a e x) acc (spec_acc cfg (CTransferToExec a e x) L)"
proof (cases "first_failure (checks cfg (CTransfer a e x) L) = Ok ()")
  case True
  let ?L = "fold do_move (moves (CTransfer a e x)) L"
  have "gives (stored view acc) (Transfer a e x) acc (Ok (), ?L)"
    using Transfer_gives [OF M a e, of x cfg] True by (simp add: spec_acc_def)
  moreover have "gives (stored view acc') (ExecDeposit a e x) acc' (Ok (), do_move (Held e a, x, 0) ?L)"
    if "db_models acc' ?L" for acc'
    using exec_single_calls_give(3) [OF that a e, of x cfg] True
    by (simp add: spec_acc_def split: if_splits)
  ultimately show ?thesis
    using True gives_merge(1) [where upd = "\<lambda>r. r"]
    by (simp add: TransferToExec_def spec_acc_def split: if_splits)
next
  case False
  then have "spec_acc cfg (CTransferToExec a e x) L = spec_acc cfg (CTransfer a e x) L"
    "\<exists>err. spec_acc cfg (CTransfer a e x) L = (Fail err, L)"
    by (auto simp: spec_acc_def split: if_splits)
  then show ?thesis
    using Transfer_gives [OF M a e, of x cfg] by (auto simp: TransferToExec_def intro: gives_bind_fail)
qed

lemma TransferWithdraw_gives:
  assumes M: "db_models acc L" and a: "valid_addr a" and e: "valid_addr e"
  shows "gives (stored view acc) (TransferWithdraw a e x) acc (spec_acc cfg (CTransferWithdraw a e x) L)"
proof (cases "CheckAmount x \<and> \<not> i64 (Balance (L (Main e)) - x) < 0")
  case True
  let ?L = "do_move (Held e a, - x, 0) L"
  let ?rest = "andThen (ExecWithdraw e a x) (\<lambda>receipt. andThen (mustO (Transfer e a x)) (\<lambda>receipt2.
      returnO (mergeReceipt receipt receipt2)))"
  obtain acc1 where 1: "LoadAccount e acc = (Ok (L (Main e)), acc1)" "db_models acc1 L"
    "same_env acc acc1" "stored view acc1 = stored view acc"
    using LoadAccount_cell [OF M e] by metis
  have W: "gives (stored view acc) (ExecWithdraw e a x) acc1 (spec_acc cfg (CExecWithdraw e a x) L)"
    using exec_single_calls_give(4) [OF 1(2) a e, of x cfg] 1(4) by simp
  have "gives (stored view acc) ?rest acc1 (spec_acc cfg (CTransferWithdraw a e x) L)"
  proof (cases "a \<noteq> e \<and> \<not> i64 (Balance (L (Held e a)) - x) < 0")
    case ok: True
    have "gives (stored view acc1) (ExecWithdraw e a x) acc1 (Ok (), ?L)"
      using W True ok 1(4) by (simp add: spec_acc_def)
    moreover have "gives (stored view acc') (Transfer e a x) acc'
        (Ok (), fold do_move (moves (CTransfer e a x)) ?L)" if "db_models acc' ?L" for acc'
      using Transfer_gives [OF that e a, of x cfg] True ok by (auto simp: spec_acc_def)
    ultimately have "gives (stored view acc1) ?rest acc1 (Ok (), fold do_move (moves (CTransfer e a x)) ?L)"
      using gives_merge(1) [where upd = "\<lambda>r. r"] by blast
    with True ok 1(4) show ?thesis by (simp add: spec_acc_def)
  next
    case False
    then have "spec_acc cfg (CTransferWithdraw a e x) L = spec_acc cfg (CExecWithdraw e a x) L"
      "\<exists>err. spec_acc cfg (CExecWithdraw e a x) L = (Fail err, L)"
      using True by (auto simp: spec_acc_def)
    with W show ?thesis by (auto intro: gives_bind_fail)
  qed
  moreover have "CheckTransfer e a x acc = (Ok (), acc1)"
    using True 1 by (simp add: CheckTransfer_def)
  ultimately show ?thesis
    unfolding TransferWithdraw_def using 1(3) by (blast intro: gives_step)
next
  case False
  obtain acc1 where 1: "LoadAccount e acc = (Ok (L (Main e)), acc1)" "db_models acc1 L"
    "same_env acc acc1" "stored view acc1 = stored view acc"
    using LoadAccount_cell [OF M e] by metis
  from False M 1 show ?thesis
    by (auto simp: TransferWithdraw_def CheckTransfer_def yields_def reported_def spec_acc_def andThen_def)
qed

lemma ExecDepositFrozen_gives:
  assumes M: "db_models acc L" and a: "valid_addr a" and e: "valid_addr e"
  shows "gives (stored view acc) (ExecDepositFrozen a e x) acc
    (spec_acc (adb_cfg acc) (CExecDepositFrozen a e x) L)"
proof (cases "a = e")
  case False
  note issue = ExecIssueCoins_gives [OF M e, of x]
  show ?thesis
  proof (cases "first_failure (checks (adb_cfg acc) (CExecIssueCoins e x) L) = Ok ()")
    case True
    let ?L = "do_move (Main e, x, 0) L"
    have "gives (stored view acc) (ExecIssueCoins e x) acc (Ok (), ?L)"
      using issue True by (simp add: spec_acc_def)
    moreover have "gives (stored view acc') (execDepositFrozen a e x) acc'
        (Ok (), do_move (Held e a, 0, x) ?L)" if "db_models acc' ?L" for acc'
      using exec_single_calls_give(5) [OF that a e, of x] True False
      by (simp split: if_splits)
    ultimately show ?thesis
      using True False gives_merge(2) [where upd = "\<lambda>r. r"]
      by (simp add: ExecDepositFrozen_def spec_acc_def split: if_splits)
  next
    case fail: False
    then have "spec_acc (adb_cfg acc) (CExecDepositFrozen a e x) L
        = spec_acc (adb_cfg acc) (CExecIssueCoins e x) L"
      "\<exists>err. spec_acc (adb_cfg acc) (CExecIssueCoins e x) L = (Fail err, L)"
      using False by (auto simp: spec_acc_def split: if_splits)
    with issue False show ?thesis
      by (auto simp: ExecDepositFrozen_def intro: gives_bind_fail)
  qed
qed (use M in \<open>simp add: yields_def reported_def ExecDepositFrozen_def spec_acc_def\<close>)

lemma GenesisInitExec_gives:
  assumes M: "db_models acc L" and a: "valid_addr a" and e: "valid_addr e"
  shows "gives (stored view acc) (GenesisInitExec a x e) acc
    (spec_acc cfg (CGenesisInitExec a x e) L)"
proof -
  let ?y = "L (Main e)" let ?y' = "?y\<lparr>Balance := i64 (Balance ?y + x)\<rparr>" and ?L = "do_move (Main e, x, 0) L"
  obtain acc1 where 1: "LoadAccount e acc = (Ok ?y, acc1)"
    "db_models acc1 L" "same_env acc acc1" "stored view acc1 = stored view acc"
    "Addr ?y = e" "in_i64 (Balance ?y)" "in_i64 (Frozen ?y)"
    and save: "\<forall>n. \<exists>acc2. SaveKVSet (GetKVSet acc1 (?y\<lparr>Balance := i64 n\<rparr>)) acc1 = (Ok (), acc2) \<and>
       db_models acc2 (L(Main e := ?y\<lparr>Balance := i64 n\<rparr>)) \<and> same_env acc acc2 \<and>
       stored view acc2 = apply_kvs (GetKVSet acc1 (?y\<lparr>Balance := i64 n\<rparr>)) (stored view acc)"
    using load_save_main [OF M e] .
  from spec [OF save, of "Balance ?y + x"] obtain acc2 where
    2: "SaveAccount ?y' acc1 = (Ok (), acc2)" "db_models acc2 ?L" "same_env acc acc2"
      "stored view acc2 = apply_kvs (GetKVSet acc1 ?y') (stored view acc)"
    using 1(7) by (auto simp: SaveAccount_def)
  have D: "gives (stored view acc2) (ExecDeposit a e x) acc2 (spec_acc cfg (CExecDeposit a e x) ?L)"
    using exec_single_calls_give(3) [OF 2(2) a e] .
  consider (bad) "i64 (Balance ?y + x) < x \<or> i64 (Balance ?y + x) > MaxTokenBalance"
    | (ok) "\<not> (i64 (Balance ?y + x) < x \<or> i64 (Balance ?y + x) > MaxTokenBalance)"
        "a \<noteq> e" "CheckAmount x"
    | (panic) "\<not> (i64 (Balance ?y + x) < x \<or> i64 (Balance ?y + x) > MaxTokenBalance)"
        "a = e \<or> \<not> CheckAmount x"
    by blast
  then show ?thesis
  proof cases
    case bad
    with 1 show ?thesis
      by (simp add: yields_def reported_def GenesisInitExec_def safeAdd_def spec_acc_def)
  next
    case ok
    have "gives (stored view acc2) (ExecDeposit a e x) acc2 (Ok (), do_move (Held e a, x, 0) ?L)"
      using D ok by (simp add: spec_acc_def)
    then obtain r acc3 where 3: "ExecDeposit a e x acc2 = (Ok r, acc3)"
      "db_models acc3 (do_move (Held e a, x, 0) ?L)" "same_env acc2 acc3"
      "stored view acc3 = apply_kvs (KV r) (stored view acc2)"
      using gives_Ok by blast
    with ok 1 2 same_env_trans [OF 2(3) 3(3)] show ?thesis
      by (simp add: yields_def reported_def GenesisInitExec_def safeAdd_def spec_acc_def Let_def
          mergeReceipt_def genesisReceipt_def del: do_move.simps)
  next
    case panic
    then obtain err where "gives (stored view acc2) (ExecDeposit a e x) acc2 (Fail err, ?L)"
      using D by (fastforce simp: spec_acc_def split: if_splits)
    then obtain acc3 where 3: "ExecDeposit a e x acc2 = (Fail err, acc3)" "db_models acc3 ?L"
      "same_env acc2 acc3"
      using gives_Fail by blast
    with panic 1 2 same_env_trans [OF 2(3) 3(3)] show ?thesis
      by (simp add: yields_def reported_def GenesisInitExec_def safeAdd_def spec_acc_def Let_def
          del: do_move.simps)
  qed
qed

theorem run_acc_gives:
  assumes "db_models acc L" and "named_ok c"
  shows "gives (stored view acc) (run_acc c) acc (spec_acc (adb_cfg acc) c L)"
  using assms
  by (cases c)
    (simp_all add: named_ok_def Transfer_gives TransferToExec_gives TransferWithdraw_gives
      exec_single_calls_give ExecTransfer_gives ExecIssueCoins_gives ExecDepositFrozen_gives
      main_calls_give GenesisInitExec_gives)

end

end
