(* ===== verification/Ledger_Safety.thy ===== *)
theory Ledger_Safety
  imports Ledger_Calls
begin

text \<open>
  Conservation and solvency of the ledger: with the checks of the code, arithmetic at 64 bits
  never wraps, no balance becomes negative, coins are only created by the issuing calls, and
  every contract holds at least what its users own inside it.
\<close>

section \<open>Sums over the ledger\<close>

definition wealth :: "string set \<Rightarrow> ledger \<Rightarrow> int" where
  "wealth S L = (\<Sum>a\<in>S. Balance (L (Main a)))"

definition holdings :: "string \<Rightarrow> string set \<Rightarrow> ledger \<Rightarrow> int" where
  "holdings e S L = (\<Sum>a\<in>S. Balance (L (Held e a)) + Frozen (L (Held e a)))"

text \<open>A move in unbounded arithmetic.\<close>

fun add_move :: "move \<Rightarrow> ledger \<Rightarrow> ledger" where
  "add_move (c, b, f) L = L(c := (L c)\<lparr>Balance := Balance (L c) + b, Frozen := Frozen (L c) + f\<rparr>)"

fun main_part :: "string set \<Rightarrow> move \<Rightarrow> int" where
  "main_part S (Main a, b, f) = (if a \<in> S then b else 0)"
| "main_part S (Held e a, b, f) = 0"

fun held_part :: "string \<Rightarrow> string set \<Rightarrow> move \<Rightarrow> int" where
  "held_part e S (Main a, b, f) = 0"
| "held_part e S (Held e' a, b, f) = (if e' = e \<and> a \<in> S then b + f else 0)"

lemma wealth_add_move:
  assumes "finite S"
  shows "wealth S (add_move m L) = wealth S L + main_part S m"
proof -
  obtain c b f where m: "m = (c, b, f)" by (cases m)
  have "Balance (add_move m L (Main a)) = Balance (L (Main a)) + (if c = Main a then b else 0)" for a
    by (simp add: m)
  then show ?thesis
    using assms by (cases c) (simp_all add: wealth_def sum.distrib m)
qed

lemma holdings_add_move:
  assumes "finite S"
  shows "holdings e S (add_move m L) = holdings e S L + held_part e S m"
proof -
  obtain c b f where m: "m = (c, b, f)" by (cases m)
  have "Balance (add_move m L (Held e a)) + Frozen (add_move m L (Held e a)) =
      Balance (L (Held e a)) + Frozen (L (Held e a)) + (if c = Held e a then b + f else 0)" for a
    by (simp add: m)
  then show ?thesis
    using assms by (cases c) (auto simp: holdings_def sum.distrib m intro!: sum.neutral)
qed

lemma wealth_moves:
  "finite S \<Longrightarrow> wealth S (fold add_move ms L) = wealth S L + sum_list (map (main_part S) ms)"
  by (induction ms arbitrary: L) (simp_all add: wealth_add_move)

lemma holdings_moves:
  "finite S \<Longrightarrow> holdings e S (fold add_move ms L) = holdings e S L + sum_list (map (held_part e S) ms)"
  by (induction ms arbitrary: L) (simp_all add: holdings_add_move)

section \<open>The invariant\<close>

text \<open>
  \<open>C\<close> are the contract addresses and \<open>n\<close> bounds the coins in circulation.
\<close>

definition good :: "string set \<Rightarrow> int \<Rightarrow> ledger \<Rightarrow> bool" where
  "good C n L \<longleftrightarrow>
     (\<forall>e\<in>C. valid_addr e) \<and>
     (\<forall>a. valid_addr a \<longrightarrow> 0 \<le> Balance (L (Main a)) \<and> Frozen (L (Main a)) = 0) \<and>
     (\<forall>e\<in>C. \<forall>a. valid_addr a \<longrightarrow> 0 \<le> Balance (L (Held e a)) \<and> 0 \<le> Frozen (L (Held e a))) \<and>
     (\<forall>S. finite S \<longrightarrow> Ball S valid_addr \<longrightarrow> wealth S L \<le> n) \<and>
     (\<forall>e\<in>C. \<forall>S. finite S \<longrightarrow> Ball S valid_addr \<longrightarrow> holdings e S L \<le> Balance (L (Main e)))"

text \<open>
  The calls an executor makes: coins leave a contract's own account only together with the
  holding they back, and what is deposited into a contract is paid for.
\<close>

fun legal :: "string set \<Rightarrow> acc_call \<Rightarrow> bool" where
  "legal C (CTransfer from to x) = (from \<notin> C)"
| "legal C (CTransferToExec from to x) = (from \<notin> C \<and> to \<in> C)"
| "legal C (CTransferWithdraw from to x) = (to \<in> C)"
| "legal C (CExecFrozen a e x) = (e \<in> C)"
| "legal C (CExecActive a e x) = (e \<in> C)"
| "legal C (CExecDeposit a e x) = False"
| "legal C (CExecWithdraw e a x) = (e \<in> C)"
| "legal C (CExecTransfer from to e x) = (e \<in> C)"
| "legal C (CExecTransferFrozen from to e x) = (e \<in> C)"
| "legal C (CExecIssueCoins e x) = True"
| "legal C (CExecDepositFrozen a e x) = (e \<in> C)"
| "legal C (CMint a x) = True"
| "legal C (CBurn a x) = (a \<notin> C)"
| "legal C (CGenesisInit a x) = (0 \<le> x)"
| "legal C (CGenesisInitExec a x e) = (e \<in> C \<and> a \<noteq> e \<and> CheckAmount x)"

text \<open>The coins a call creates when it succeeds.\<close>

fun issued :: "acc_call \<Rightarrow> int" where
  "issued (CExecIssueCoins e x) = x"
| "issued (CExecDepositFrozen a e x) = x"
| "issued (CMint a x) = x"
| "issued (CGenesisInit a x) = x"
| "issued (CGenesisInitExec a x e) = x"
| "issued _ = 0"

lemma good_agree:
  assumes "agree L M"
  shows "good C n L \<longleftrightarrow> good C n M"
proof -
  have eq: "L c = M c" if "cell_ok c" for c using assms that by (simp add: agree_def)
  have "wealth S L = wealth S M" if "Ball S valid_addr" for S
    unfolding wealth_def using that by (intro sum.cong) (simp_all add: eq)
  moreover have "holdings e S L = holdings e S M" if "Ball S valid_addr" "valid_addr e" for e S
    unfolding holdings_def using that by (intro sum.cong) (simp_all add: eq)
  ultimately show ?thesis
    unfolding good_def by (simp add: eq cong: conj_cong)
qed

section \<open>Ranges\<close>

lemma goodD:
  assumes "good C n L"
  shows "\<And>e. e \<in> C \<Longrightarrow> valid_addr e"
    and "\<And>S. finite S \<Longrightarrow> Ball S valid_addr \<Longrightarrow> wealth S L \<le> n"
    and "\<And>e S. e \<in> C \<Longrightarrow> finite S \<Longrightarrow> Ball S valid_addr \<Longrightarrow> holdings e S L \<le> Balance (L (Main e))"
  using assms by (simp_all add: good_def)

lemma good_main:
  assumes "good C n L" and "valid_addr a"
  shows "0 \<le> Balance (L (Main a))" and "Frozen (L (Main a)) = 0" and "Balance (L (Main a)) \<le> n"
proof -
  show "0 \<le> Balance (L (Main a))" and "Frozen (L (Main a)) = 0"
    using assms by (simp_all add: good_def)
  have "wealth {a} L \<le> n"
    using assms by (intro goodD) simp_all
  then show "Balance (L (Main a)) \<le> n" by (simp add: wealth_def)
qed

lemma good_held:
  assumes "good C n L" and "e \<in> C" and "valid_addr a"
  shows "0 \<le> Balance (L (Held e a))" and "0 \<le> Frozen (L (Held e a))"
    and "Balance (L (Held e a)) + Frozen (L (Held e a)) \<le> n"
proof -
  show "0 \<le> Balance (L (Held e a))" and "0 \<le> Frozen (L (Held e a))"
    using assms by (simp_all add: good_def)
  have "holdings e {a} L \<le> Balance (L (Main e))" "valid_addr e"
    using assms by (simp_all add: goodD)
  then show "Balance (L (Held e a)) + Frozen (L (Held e a)) \<le> n"
    using good_main(3) [OF assms(1), of e] by (simp add: holdings_def)
qed

text \<open>With a bounded supply the checks of the code are the comparisons they stand for.\<close>

lemma short_iff:
  assumes "0 \<le> b" and "b < 2 ^ 63" and "CheckAmount x"
  shows "i64 (b - x) < 0 \<longleftrightarrow> b < x"
proof -
  have "in_i64 (b - x)"
    using assms by (simp add: CheckAmount_def MaxCoin_def in_i64_def)
  then show ?thesis by auto
qed

section \<open>Moves without wrap-around\<close>

lemma do_move_add_move:
  assumes "distinct (map fst ms)"
    and "\<And>c b f. (c, b, f) \<in> set ms \<Longrightarrow> in_i64 (Balance (L c) + b) \<and> in_i64 (Frozen (L c) + f)"
  shows "fold do_move ms L = fold add_move ms L"
  using assms
proof (induction ms arbitrary: L)
  case (Cons m ms)
  obtain c b f where m: "m = (c, b, f)" by (cases m)
  have step: "do_move m L = add_move m L"
    using Cons.prems(2) [of c b f] by (simp add: m)
  have "in_i64 (Balance (add_move m L c') + b') \<and> in_i64 (Frozen (add_move m L c') + f')"
    if "(c', b', f') \<in> set ms" for c' b' f'
  proof -
    have "c' \<noteq> c" using that Cons.prems(1) by (force simp: m)
    then show ?thesis using Cons.prems(2) [of c' b' f'] that by (simp add: m)
  qed
  with Cons show ?case by (simp add: step)
qed simp

lemma add_moves_at:
  "c \<notin> fst ` set ms \<Longrightarrow> fold add_move ms L c = L c"
proof (induction ms arbitrary: L)
  case (Cons m ms)
  then show ?case by (cases m) simp
qed simp

lemma add_moves_result:
  assumes "distinct (map fst ms)" and "(c, b, f) \<in> set ms"
  shows "Balance (fold add_move ms L c) = Balance (L c) + b"
    and "Frozen (fold add_move ms L c) = Frozen (L c) + f"
proof -
  obtain ms1 ms2 where ms: "ms = ms1 @ (c, b, f) # ms2"
    using assms(2) by (meson split_list)
  have "c \<notin> fst ` set ms1" "c \<notin> fst ` set ms2"
    using assms(1) by (auto simp: ms)
  then show "Balance (fold add_move ms L c) = Balance (L c) + b"
    and "Frozen (fold add_move ms L c) = Frozen (L c) + f"
    by (simp_all add: ms add_moves_at)
qed

section \<open>Every legal call keeps the invariant\<close>

text \<open>What the checks of a call ensure, once the supply is bounded.\<close>

fun enough :: "acc_call \<Rightarrow> ledger \<Rightarrow> bool" where
  "enough (CTransfer from to x) L = (0 < x \<and> from \<noteq> to \<and> x \<le> Balance (L (Main from)))"
| "enough (CTransferToExec from to x) L = (0 < x \<and> from \<noteq> to \<and> x \<le> Balance (L (Main from)))"
| "enough (CTransferWithdraw from to x) L =
     (0 < x \<and> from \<noteq> to \<and> x \<le> Balance (L (Main to)) \<and> x \<le> Balance (L (Held to from)))"
| "enough (CExecFrozen a e x) L = (0 < x \<and> x \<le> Balance (L (Held e a)))"
| "enough (CExecActive a e x) L = (0 < x \<and> x \<le> Frozen (L (Held e a)))"
| "enough (CExecDeposit a e x) L = (0 < x)"
| "enough (CExecWithdraw e a x) L = (0 < x \<and> x \<le> Balance (L (Held e a)))"
| "enough (CExecTransfer from to e x) L = (0 < x \<and> from \<noteq> to \<and> x \<le> Balance (L (Held e from)))"
| "enough (CExecTransferFrozen from to e x) L = (0 < x \<and> from \<noteq> to \<and> x \<le> Frozen (L (Held e from)))"
| "enough (CExecIssueCoins e x) L = (0 < x)"
| "enough (CExecDepositFrozen a e x) L = (0 < x)"
| "enough (CMint a x) L = (0 < x)"
| "enough (CBurn a x) L = (0 < x \<and> x \<le> Balance (L (Main a)))"
| "enough (CGenesisInit a x) L = (0 \<le> x)"
| "enough (CGenesisInitExec a x e) L = (0 < x)"

lemma CheckAmount_pos: "CheckAmount x \<Longrightarrow> 0 < x"
  by (simp add: CheckAmount_def)

lemma checks_enough:
  assumes g: "good C n L" and n: "n < 2 ^ 63" and c: "legal C c" "named_ok c"
    and ok: "first_failure (checks cfg c L) = Ok ()"
  shows "enough c L"
proof -
  have m: "i64 (Balance (L (Main a)) - x) < 0 \<longleftrightarrow> Balance (L (Main a)) < x"
    if "valid_addr a" "CheckAmount x" for a x
    using good_main [OF g that(1)] n by (intro short_iff that(2)) auto
  have h: "i64 (Balance (L (Held e a)) - x) < 0 \<longleftrightarrow> Balance (L (Held e a)) < x"
    "i64 (Frozen (L (Held e a)) - x) < 0 \<longleftrightarrow> Frozen (L (Held e a)) < x"
    if "e \<in> C" "valid_addr a" "CheckAmount x" for e a x
    using good_held [OF g that(1,2)] n by (intro short_iff that(3); auto)+
  show ?thesis
    using c ok by (cases c) (auto simp: named_ok_def m h CheckAmount_pos split: if_splits)
qed

text \<open>Balances stay non-negative.\<close>

lemma moves_nonneg:
  assumes g: "good C n L" and c: "legal C c" "enough c L"
    and a: "valid_addr a"
  shows "0 \<le> Balance (fold add_move (moves c) L (Main a)) \<and> Frozen (fold add_move (moves c) L (Main a)) = 0"
    and "e \<in> C \<Longrightarrow> 0 \<le> Balance (fold add_move (moves c) L (Held e a)) \<and>
      0 \<le> Frozen (fold add_move (moves c) L (Held e a))"
  using c good_main(1,2) [OF g a] good_held(1,2) [OF g _ a, of e]
  by (cases c; auto)+

text \<open>What a call changes in total is what it issues, and in a contract what it deposits.\<close>

lemma moves_supply:
  assumes "addrs c \<subseteq> S" and "enough c L"
  shows "sum_list (map (main_part S) (moves c)) =
    (case c of CBurn a x \<Rightarrow> - x | _ \<Rightarrow> issued c)"
  using assms by (cases c) auto

lemma moves_backed:
  assumes "addrs c \<subseteq> S" and "legal C c" and "enough c L" and "e \<in> C"
  shows "sum_list (map (held_part e S) (moves c)) \<le> sum_list (map (main_part {e}) (moves c))"
  using assms by (cases c) auto

lemma moves_distinct: "enough c L \<Longrightarrow> distinct (map fst (moves c))"
  by (cases c) auto

lemma Balance_main_moves:
  "Balance (fold add_move ms L (Main e)) = Balance (L (Main e)) + sum_list (map (main_part {e}) ms)"
  using wealth_moves [of "{e}" ms L] by (simp add: wealth_def)

lemma wealth_mono:
  assumes "finite T" and "S \<subseteq> T" and "\<And>a. a \<in> T \<Longrightarrow> 0 \<le> Balance (L (Main a))"
  shows "wealth S L \<le> wealth T L"
  unfolding wealth_def using assms by (intro sum_mono2) auto

lemma holdings_mono:
  assumes "finite T" and "S \<subseteq> T"
    and "\<And>a. a \<in> T \<Longrightarrow> 0 \<le> Balance (L (Held e a)) \<and> 0 \<le> Frozen (L (Held e a))"
  shows "holdings e S L \<le> holdings e T L"
  unfolding holdings_def using assms by (intro sum_mono2) auto

lemma finite_addrs: "finite (addrs c)"
  by (cases c) simp_all

lemma issued_nonneg: "enough c L \<Longrightarrow> 0 \<le> issued c"
  by (cases c) simp_all

lemma good_moves:
  assumes g: "good C n L" and c: "legal C c" "enough c L" and named: "named_ok c"
  shows "good C (n + issued c) (fold add_move (moves c) L)"
proof -
  let ?M = "fold add_move (moves c) L"
  have A: "Ball (S \<union> addrs c) valid_addr" if "Ball S valid_addr" for S
    using named that by (auto simp: named_ok_def)
  have "wealth S ?M \<le> n + issued c" if S: "finite S" "Ball S valid_addr" for S
  proof -
    let ?T = "S \<union> addrs c"
    have "wealth S ?M \<le> wealth ?T ?M"
      using S A moves_nonneg(1) [OF g c] by (intro wealth_mono) (auto simp: finite_addrs)
    also have "\<dots> = wealth ?T L + (case c of CBurn a x \<Rightarrow> - x | _ \<Rightarrow> issued c)"
      using S moves_supply [of c ?T L] c by (simp add: wealth_moves finite_addrs)
    also have "\<dots> \<le> wealth ?T L + issued c"
      using c(2) by (cases c) simp_all
    also have "wealth ?T L \<le> n"
      using goodD(2) [OF g] S A by (simp add: finite_addrs)
    finally show ?thesis by simp
  qed
  moreover have "holdings e S ?M \<le> Balance (?M (Main e))" if e: "e \<in> C" and S: "finite S" "Ball S valid_addr" for e S
  proof -
    let ?T = "S \<union> addrs c"
    have "holdings e S ?M \<le> holdings e ?T ?M"
      using S A moves_nonneg(2) [OF g c] e by (intro holdings_mono) (auto simp: finite_addrs)
    also have "\<dots> \<le> holdings e ?T L + sum_list (map (main_part {e}) (moves c))"
      using S moves_backed [of c ?T C L e] c e by (simp add: holdings_moves finite_addrs)
    also have "holdings e ?T L \<le> Balance (L (Main e))"
      using goodD(3) [OF g e] S A by (simp add: finite_addrs)
    finally show ?thesis by (simp add: Balance_main_moves)
  qed
  ultimately show ?thesis
    using moves_nonneg [OF g c] goodD(1) [OF g] by (simp add: good_def)
qed

lemma good_no_wrap:
  assumes g: "good C n L" and c: "legal C c" "enough c L" and named: "named_ok c"
    and n: "n + issued c < 2 ^ 63"
  shows "fold do_move (moves c) L = fold add_move (moves c) L"
proof (rule do_move_add_move)
  let ?M = "fold add_move (moves c) L"
  show d: "distinct (map fst (moves c))"
    using c(2) by (rule moves_distinct)
  have r: "in_i64 (Balance (?M d)) \<and> in_i64 (Frozen (?M d))" if "d \<in> fst ` set (moves c)" for d
  proof (cases d)
    case (Main a)
    with that named have "valid_addr a"
      by (cases c) (auto simp: named_ok_def)
    with good_main [OF good_moves [OF g c named] this] n Main show ?thesis
      by (auto simp: in_i64_def)
  next
    case (Held e a)
    with that named c have "e \<in> C" "valid_addr a"
      by (cases c; auto simp: named_ok_def)+
    with good_held [OF good_moves [OF g c named] this] n Held show ?thesis
      by (auto simp: in_i64_def)
  qed
  show "in_i64 (Balance (L d) + b) \<and> in_i64 (Frozen (L d) + f)" if "(d, b, f) \<in> set (moves c)" for d b f
    using r [of d] add_moves_result [OF d that] that by (force simp: image_iff)
qed

lemma good_mono: "good C n L \<Longrightarrow> n \<le> m \<Longrightarrow> good C m L"
  unfolding good_def by (meson order_trans)

text \<open>A legal call has one of two outcomes: an error, or its moves in unbounded arithmetic.\<close>

lemma spec_acc_cases:
  assumes g: "good C n L" and c: "legal C c" "named_ok c" and n: "n + max 0 (issued c) < 2 ^ 63"
  obtains (failed) e where "spec_acc cfg c L = (Fail e, L)"
    | (moved) "spec_acc cfg c L = (Ok (), fold add_move (moves c) L)" "enough c L"
        "good C (n + issued c) (fold add_move (moves c) L)"
proof (cases "first_failure (checks cfg c L)")
  case (Ok u)
  have p: "\<not> panics c" using c by (cases c) simp_all
  have e: "enough c L"
    by (rule checks_enough [OF g _ c, of cfg]) (use n Ok in simp_all)
  have "fold do_move (moves c) L = fold add_move (moves c) L"
    by (rule good_no_wrap [OF g c(1) e c(2)]) (use n in simp)
  then show ?thesis
    using Ok p e good_moves [OF g c(1) e c(2)] by (intro moved) (simp_all add: spec_acc_def)
next
  case (Fail e)
  then show ?thesis by (intro failed) (simp add: spec_acc_def)
next
  case Panic
  have "first_failure cs \<noteq> Panic" for cs
    by (induction cs rule: first_failure.induct) simp_all
  with Panic show ?thesis by blast
qed

end
