(* ===== verification/Account_Store.thy ===== *)
theory Account_Store
  imports Ledger_Safety
begin

text \<open>
  The account database over the state database of the executor: runs of account calls, the
  ledger they leave behind, what rolling a transaction back or committing it does to the
  ledger, and the properties of both.
\<close>

section \<open>Runs of calls\<close>

fun run_accs :: "acc_call list \<Rightarrow> ('d, 'v) accdb \<Rightarrow> 'v Receipt outcome list \<times> ('d, 'v) accdb" where
  "run_accs [] acc = ([], acc)"
| "run_accs (c # cs) acc =
     (let (r, acc1) = run_acc c acc; (rs, acc2) = run_accs cs acc1 in (r # rs, acc2))"

text \<open>The coins a run can create.\<close>

definition issues :: "acc_call list \<Rightarrow> int" where
  "issues cs = sum_list (map (\<lambda>c. max 0 (issued c)) cs)"

lemma issues_simps [simp]: "issues [] = 0" "issues (c # cs) = max 0 (issued c) + issues cs"
  by (simp_all add: issues_def)

lemma issues_nonneg: "0 \<le> issues cs"
  by (induction cs) simp_all

context kv_store
begin

lemma db_models_cells: "wf acc \<Longrightarrow> db_models acc (cells view acc)"
  by (simp add: models_def agree_def)

lemma models_good: "db_models acc L \<Longrightarrow> good C n L \<longleftrightarrow> good C n (cells view acc)"
  by (simp add: models_def good_agree)

lemma run_acc_good:
  assumes wf: "wf acc" and g: "good C n (cells view acc)" and c: "legal C c" "named_ok c"
    and n: "n + max 0 (issued c) < 2 ^ 63" and run: "run_acc c acc = (r, acc')"
  shows "wf acc'" and "good C (n + max 0 (issued c)) (cells view acc')" and "r \<noteq> Panic"
proof -
  let ?L = "cells view acc"
  have y: "gives (stored view acc) (run_acc c) acc (spec_acc (adb_cfg acc) c ?L)"
    using run_acc_gives [OF db_models_cells [OF wf] c(2)] .
  show "wf acc'"
    using y by (auto simp: yields_def run models_def)
  from g c n show "good C (n + max 0 (issued c)) (cells view acc')" and "r \<noteq> Panic"
  proof (atomize (full), cases rule: spec_acc_cases [where cfg = "adb_cfg acc"])
    case (failed e)
    then have "r = Fail e" "db_models acc' ?L"
      using y by (auto simp: yields_def run reported_def split: outcome.splits)
    then show "good C (n + max 0 (issued c)) (cells view acc') \<and> r \<noteq> Panic"
      using models_good [of acc' ?L] good_mono [OF g] by simp
  next
    case moved
    then have "r \<noteq> Panic" "db_models acc' (fold add_move (moves c) ?L)"
      using y by (auto simp: yields_def run reported_def split: outcome.splits)
    then show "good C (n + max 0 (issued c)) (cells view acc') \<and> r \<noteq> Panic"
      using models_good [of acc'] moved(3) good_mono by simp
  qed
qed

lemma run_accs_good:
  assumes "wf acc" and "good C n (cells view acc)" and "\<forall>c\<in>set cs. legal C c \<and> named_ok c"
    and "n + issues cs < 2 ^ 63" and "run_accs cs acc = (rs, acc')"
  shows "wf acc' \<and> good C (n + issues cs) (cells view acc') \<and> Panic \<notin> set rs"
  using assms
proof (induction cs arbitrary: n acc rs)
  case (Cons c cs)
  obtain r acc1 where 1: "run_acc c acc = (r, acc1)" by (cases "run_acc c acc")
  obtain rs2 where 2: "run_accs cs acc1 = (rs2, acc')" "rs = r # rs2"
    using Cons.prems(5) by (auto simp: 1 split: prod.splits)
  have n: "n + max 0 (issued c) < 2 ^ 63"
    using Cons.prems(4) issues_nonneg [of cs] by (simp add: add.assoc [symmetric])
  note step = run_acc_good [OF Cons.prems(1,2) _ _ n 1]
  have "wf acc' \<and> good C (n + max 0 (issued c) + issues cs) (cells view acc') \<and> Panic \<notin> set rs2"
    using Cons.prems(3,4) step by (intro Cons.IH [OF _ _ _ _ 2(1)]) (simp_all add: add.assoc)
  with step Cons.prems(3) 2 show ?case by (simp add: add.assoc)
qed simp

end

section \<open>Transactions\<close>

text \<open>A call of the state database while the account database points to it.\<close>

definition on_db :: "('d \<Rightarrow> 'd) \<Rightarrow> ('d, 'v) accdb \<Rightarrow> ('d, 'v) accdb" where
  "on_db f acc = acc\<lparr>adb := map_option (\<lambda>(ops, d). (ops, f d)) (adb acc)\<rparr>"

lemma on_db_env: "same_env acc (on_db f acc)"
  by (simp add: on_db_def same_env_def)

context kv_store
begin

lemma run_accs_wf:
  assumes "wf acc" and "\<forall>c\<in>set cs. named_ok c"
  shows "wf (snd (run_accs cs acc)) \<and> same_env acc (snd (run_accs cs acc))"
  using assms
proof (induction cs arbitrary: acc)
  case (Cons c cs)
  obtain r acc1 where 1: "run_acc c acc = (r, acc1)" by (cases "run_acc c acc")
  have "wf acc1" "same_env acc acc1"
    using run_acc_gives [OF db_models_cells [OF Cons.prems(1)], of c] Cons.prems(2)
    by (auto simp: yields_def 1 models_def)
  with Cons.IH [of acc1] Cons.prems(2) show ?case
    by (auto simp: 1 split: prod.splits intro: same_env_trans)
qed simp

lemma cells_same:
  assumes "same_env acc acc'" and "stored view acc' = stored view acc"
  shows "cells view acc' = cells view acc"
proof -
  have "Option.bind (adb a) (\<lambda>(ops, d). view d k) = stored view a k" for a :: "('d, 'v) accdb" and k
    by (simp add: stored_def split: option.splits)
  then show ?thesis
    using assms by (simp add: cells_def fun_eq_iff same_env_key) (simp add: same_env_def)
qed

end

context kv_tx_store
begin

text \<open>Inside a transaction the store keeps its contract and the view it will go back to.\<close>

lemma in_tx_store: "kv_store ops view (\<lambda>d. inv d \<and> \<not> idle d \<and> base d = b)"
  by unfold_locales
    (simp_all add: get_value get_view get_inv set_value set_view set_inv get_base get_idle
      set_base set_idle)

lemma accs_in_tx:
  assumes wf: "wf acc" and d: "adb acc = Some (ops, d)" "idle d" and cs: "\<forall>c\<in>set cs. named_ok c"
  obtains acc2 d2 where "snd (run_accs cs (on_db (\<lambda>d. snd (kv_Begin ops d)) acc)) = acc2" "same_env acc acc2"
    "adb acc2 = Some (ops, d2)" "inv d2" "\<not> idle d2" "base d2 = view d"
proof -
  let ?I = "\<lambda>d'. inv d' \<and> \<not> idle d' \<and> base d' = view d" and ?acc1 = "on_db (\<lambda>d. snd (kv_Begin ops d)) acc"
  have d': "inv d" using wf d by (auto simp: acc_wf_def)
  have key: "cell_key ?acc1 c = cell_key acc c" for c
    using same_env_key [OF on_db_env] .
  have "acc_wf ops view ?I ?acc1"
    using wf d d' unfolding acc_wf_def key
    by (auto simp: on_db_def begin_inv begin_view begin_base begin_open)
  then have w: "acc_wf ops view ?I (snd (run_accs cs ?acc1))"
    and e: "same_env ?acc1 (snd (run_accs cs ?acc1))"
    using kv_store.run_accs_wf [OF in_tx_store _ cs] by blast+
  then show ?thesis
    using same_env_trans [OF on_db_env e] by (auto simp: acc_wf_def intro: that)
qed

lemma accs_rollback:
  assumes "wf acc" and "adb acc = Some (ops, d)" "idle d" and "\<forall>c\<in>set cs. named_ok c"
  shows "cells view (on_db (kv_Rollback ops) (snd (run_accs cs (on_db (\<lambda>d. snd (kv_Begin ops d)) acc)))) =
    cells view acc"
proof -
  obtain acc2 d2 where 2: "snd (run_accs cs (on_db (\<lambda>d. snd (kv_Begin ops d)) acc)) = acc2" "same_env acc acc2"
    "adb acc2 = Some (ops, d2)" "inv d2" "base d2 = view d"
    using accs_in_tx [OF assms] .
  show ?thesis unfolding 2(1)
    by (rule cells_same [OF same_env_trans [OF 2(2) on_db_env]])
      (simp add: stored_def on_db_def 2 assms rollback_view)
qed

lemma accs_commit:
  assumes "wf acc" and "adb acc = Some (ops, d)" "idle d" and "\<forall>c\<in>set cs. named_ok c"
  shows "cells view (on_db (\<lambda>d. snd (kv_Commit ops d)) (snd (run_accs cs (on_db (\<lambda>d. snd (kv_Begin ops d)) acc)))) =
    cells view (snd (run_accs cs (on_db (\<lambda>d. snd (kv_Begin ops d)) acc)))"
proof -
  obtain acc2 d2 where 2: "snd (run_accs cs (on_db (\<lambda>d. snd (kv_Begin ops d)) acc)) = acc2" "same_env acc acc2"
    "adb acc2 = Some (ops, d2)" "inv d2" "\<not> idle d2"
    using accs_in_tx [OF assms] .
  show ?thesis unfolding 2(1)
    by (rule cells_same [OF on_db_env]) (simp add: stored_def on_db_def 2 commit_view)
qed

end

section \<open>A new chain\<close>

text \<open>
  The state database of an empty chain, and the coins account over it with a codec that keeps
  the message: the smallest instance of the hypotheses below.
\<close>

definition empty_statedb :: "'v StateDB" where
  "empty_statedb =
     NewStateDB (Some (\<lambda>h k. NoValues)) '''' (\<lambda>k v. Fail ErrNotFound) (\<lambda>h. Fail ErrNotFound) None (\<lambda>h. True)"

definition plain_codec :: "pmsg codec" where
  "plain_codec = \<lparr>Encode = (\<lambda>m. m), Decode = (\<lambda>m. case m of PAccount a \<Rightarrow> Some a | _ \<Rightarrow> None)\<rparr>"

definition plain_cfg :: acc_cfg where
  "plain_cfg = \<lparr>coinSymbol = ''dpos'', minerExecs = [''ticket''], fundAddr = ''fund'',
     cfgTitle = ''local'', execAddress = (\<lambda>n. n)\<rparr>"

definition empty_coins :: "(pmsg StateDB, pmsg) accdb" where
  "empty_coins = SetDB (Some (statedb_ops, empty_statedb)) (NewCoinsAccount plain_cfg plain_codec)"

lemma empty_statedb_view: "sd_view empty_statedb = Map.empty" "sd_inv empty_statedb" "sd_idle empty_statedb"
  by (auto simp: empty_statedb_def NewStateDB_def sd_view_def sd_base_def sd_inv_def sd_backed_def
      sd_idle_def sd_backing_def)

lemma empty_coins_wf: "acc_wf statedb_ops sd_view sd_inv empty_coins"
  by (simp add: acc_wf_def empty_coins_def SetDB_def NewCoinsAccount_def newAccountDB_def codec_ok_def
      plain_codec_def empty_statedb_view stored_ok_def)

lemma empty_coins_cells: "cells sd_view empty_coins c = new_account (cell_addr c)"
  by (simp add: cells_def empty_coins_def SetDB_def decode_cell_def empty_statedb_view)

lemma empty_coins_good: "\<forall>e\<in>C. valid_addr e \<Longrightarrow> good C 0 (cells sd_view empty_coins)"
  by (simp add: good_def empty_coins_cells new_account_def wealth_def holdings_def)

lemma empty_coins_db: "adb empty_coins = Some (statedb_ops, empty_statedb)"
  by (simp add: empty_coins_def SetDB_def)

section \<open>Properties\<close>

text \<open>
  C1: The ledger stays sound. Over a state database, any sequence of account calls that an
  executor may make (\<open>legal\<close>: coins leave a contract's own account only with the holding they
  back) keeps every balance and frozen amount non-negative, keeps the circulating supply within
  the previous bound plus what the calls issue, and keeps every contract solvent: its own
  balance covers all that its users hold in it. No call of the sequence panics, whatever mixture
  of calls succeeds or is refused.
\<close>
theorem account_calls_keep_ledger_sound:
  assumes "acc_wf statedb_ops sd_view sd_inv acc" and "good C n (cells sd_view acc)"
    and "\<forall>c\<in>set cs. legal C c \<and> named_ok c" and "n + issues cs < 2 ^ 63"
    and "run_accs cs acc = (rs, acc')"
  shows "good C (n + issues cs) (cells sd_view acc') \<and> acc_wf statedb_ops sd_view sd_inv acc' \<and>
    Panic \<notin> set rs"
  using sdb.run_accs_good [OF assms] by blast

definition sample_run :: "acc_call list" where
  "sample_run = [CGenesisInit ''alice'' 1000, CGenesisInitExec ''bob'' 500 ''ticket'',
     CTransferToExec ''alice'' ''ticket'' 300, CExecFrozen ''alice'' ''ticket'' 200,
     CExecTransferFrozen ''alice'' ''bob'' ''ticket'' 150, CTransfer ''alice'' ''bob'' 5000]"

theorem account_calls_keep_ledger_sound_witness:
  "good {''ticket''} 1500 (cells sd_view (snd (run_accs sample_run empty_coins)))"
  using account_calls_keep_ledger_sound [OF empty_coins_wf empty_coins_good, of "{''ticket''}" sample_run]
  by (simp add: sample_run_def valid_addr_def named_ok_def CheckAmount_def MaxCoin_def
      split: prod.splits)

text \<open>
  C2: Each account call implements its specification. On every well-formed database, whatever
  the balances, the outcome of the code is the one of \<open>spec_acc\<close> (the checks in the code's
  order with the code's error values, the panic of a refused genesis deposit included), and the
  ledger afterwards is the specified one: the listed moves on success, no change on an error.
\<close>
theorem account_call_refines_spec:
  assumes "acc_wf statedb_ops sd_view sd_inv acc" and "named_ok c"
    and "run_acc c acc = (r, acc')" and "spec_acc (adb_cfg acc) c (cells sd_view acc) = (r', L')"
  shows "acc_wf statedb_ops sd_view sd_inv acc' \<and> agree L' (cells sd_view acc') \<and>
    (case r of Ok receipt \<Rightarrow> r' = Ok () | Fail e \<Rightarrow> r' = Fail e | Panic \<Rightarrow> r' = Panic)"
  using sdb.run_acc_gives [OF sdb.db_models_cells [OF assms(1)] assms(2)] assms(3,4)
  by (auto simp: yields_def models_def reported_def split: outcome.splits)

theorem account_call_refines_spec_witness:
  "Balance (cells sd_view (snd (run_acc (CMint ''alice'' 70) empty_coins)) (Main ''alice'')) = 70"
proof -
  let ?L = "cells sd_view empty_coins"
  have s: "spec_acc (adb_cfg empty_coins) (CMint ''alice'' 70) ?L =
      (Ok (), do_move (Main ''alice'', 70, 0) ?L)"
    by (simp add: spec_acc_def empty_coins_cells new_account_def CheckAmount_def MaxCoin_def
        MaxTokenBalance_def i64_def)
  have "agree (do_move (Main ''alice'', 70, 0) ?L) (cells sd_view (snd (run_acc (CMint ''alice'' 70) empty_coins)))"
    using account_call_refines_spec [OF empty_coins_wf _ _ s]
    by (cases "run_acc (CMint ''alice'' 70) empty_coins") (simp add: named_ok_def valid_addr_def)
  from this [unfolded agree_def, rule_format, of "Main ''alice''", symmetric] show ?thesis
    by (simp add: valid_addr_def empty_coins_cells new_account_def i64_def)
qed

text \<open>
  C5: Receipts are exact and errors leave no trace. The key-value list of the receipt of a
  successful call, applied in order to what the state held before, gives precisely what the
  state holds after the call, so replaying receipts reproduces the state; a call that returns
  an error has changed nothing a reader of the state can observe.
\<close>
theorem receipt_lists_all_writes:
  assumes "acc_wf statedb_ops sd_view sd_inv acc" and "named_ok c" and "run_acc c acc = (r, acc')"
  shows "(\<forall>receipt. r = Ok receipt \<longrightarrow>
      stored sd_view acc' = apply_kvs (KV receipt) (stored sd_view acc)) \<and>
    (\<forall>e. r = Fail e \<longrightarrow> stored sd_view acc' = stored sd_view acc)"
  using sdb.run_acc_gives [OF sdb.db_models_cells [OF assms(1)] assms(2)] assms(3)
  by (auto simp: yields_def reported_def)

theorem receipt_lists_all_writes_witness:
  "fst (run_acc (CTransfer ''alice'' ''bob'' 5) empty_coins) = Fail ErrNoBalance \<and>
   stored sd_view (snd (run_acc (CTransfer ''alice'' ''bob'' 5) empty_coins)) = stored sd_view empty_coins"
proof -
  have "fst (run_acc (CTransfer ''alice'' ''bob'' 5) empty_coins) = Fail ErrNoBalance"
    by code_simp
  then show ?thesis
    using receipt_lists_all_writes [OF empty_coins_wf, of "CTransfer ''alice'' ''bob'' 5"]
    by (cases "run_acc (CTransfer ''alice'' ''bob'' 5) empty_coins") (simp add: named_ok_def valid_addr_def)
qed

text \<open>The coins a successful call adds to the circulating supply, and to a contract's holdings.\<close>

fun supply_change :: "acc_call \<Rightarrow> int" where
  "supply_change (CBurn a x) = - x"
| "supply_change c = issued c"

fun deposited :: "string \<Rightarrow> acc_call \<Rightarrow> int" where
  "deposited e (CTransferToExec from to x) = (if to = e then x else 0)"
| "deposited e (CTransferWithdraw from to x) = (if to = e then - x else 0)"
| "deposited e (CExecWithdraw e' a x) = (if e' = e then - x else 0)"
| "deposited e (CExecDepositFrozen a e' x) = (if e' = e then x else 0)"
| "deposited e (CGenesisInitExec a x e') = (if e' = e then x else 0)"
| "deposited e _ = 0"

lemma moves_sums:
  assumes "addrs c \<subseteq> S" and "enough c L" and "legal C c"
  shows "sum_list (map (main_part S) (moves c)) = supply_change c"
    and "sum_list (map (held_part e S) (moves c)) = deposited e c"
  using assms by (cases c; auto)+

lemma agree_sums:
  assumes "agree L M" and "Ball S valid_addr"
  shows "wealth S L = wealth S M" and "valid_addr e \<Longrightarrow> holdings e S L = holdings e S M"
  using assms unfolding wealth_def holdings_def agree_def by (intro sum.cong; simp)+

text \<open>
  C3: Coins are conserved. When a legal call succeeds, the sum of the balances of any finite
  set of addresses that includes those of the call changes by exactly what the call issues or
  burns (zero for every transfer, freeze, deposit and withdrawal), and what the users hold
  inside a contract changes by exactly what the call deposits into or withdraws from it.
\<close>
theorem coins_are_conserved:
  assumes "acc_wf statedb_ops sd_view sd_inv acc" and "good C n (cells sd_view acc)"
    and "legal C c" and "named_ok c" and "n + max 0 (issued c) < 2 ^ 63"
    and "run_acc c acc = (Ok receipt, acc')"
    and "finite S" and "addrs c \<subseteq> S" and "\<forall>a\<in>S. valid_addr a" and "valid_addr e"
  shows "wealth S (cells sd_view acc') = wealth S (cells sd_view acc) + supply_change c \<and>
    holdings e S (cells sd_view acc') = holdings e S (cells sd_view acc) + deposited e c"
proof -
  have y: "yields statedb_ops sd_view sd_inv (stored sd_view acc) (run_acc c) acc
      (spec_acc (adb_cfg acc) c (cells sd_view acc))"
    using sdb.run_acc_gives [OF sdb.db_models_cells [OF assms(1)] assms(4)] .
  from assms(2-5) show ?thesis
  proof (cases rule: spec_acc_cases [where cfg = "adb_cfg acc"])
    case (failed e)
    then show ?thesis using y assms(6) by (simp add: yields_def reported_def)
  next
    case moved
    let ?M = "fold add_move (moves c) (cells sd_view acc)"
    have "agree ?M (cells sd_view acc')"
      using y moved(1) assms(6) by (simp add: yields_def models_def)
    from agree_sums [OF this assms(9)] assms(10)
    have "wealth S (cells sd_view acc') = wealth S ?M" "holdings e S (cells sd_view acc') = holdings e S ?M"
      by simp_all
    then show ?thesis
      using moves_sums [OF assms(8) moved(2) assms(3)] assms(7)
      by (simp add: wealth_moves holdings_moves)
  qed
qed

theorem coins_are_conserved_witness:
  "wealth {''alice'', ''ticket''}
     (cells sd_view (snd (run_acc (CGenesisInitExec ''alice'' 40 ''ticket'') empty_coins))) = 40 \<and>
   holdings ''ticket'' {''alice'', ''ticket''}
     (cells sd_view (snd (run_acc (CGenesisInitExec ''alice'' 40 ''ticket'') empty_coins))) = 40"
proof -
  let ?c = "CGenesisInitExec ''alice'' 40 ''ticket''"
  have "case fst (run_acc ?c empty_coins) of Ok _ \<Rightarrow> True | _ \<Rightarrow> False"
    by code_simp
  then obtain receipt acc' where r: "run_acc ?c empty_coins = (Ok receipt, acc')"
    by (cases "run_acc ?c empty_coins") (auto split: outcome.splits)
  show ?thesis
    using coins_are_conserved [OF empty_coins_wf empty_coins_good _ _ _ r, of "{''ticket''}"
        "{''alice'', ''ticket''}" "''ticket''"]
    by (simp add: r valid_addr_def named_ok_def CheckAmount_def MaxCoin_def wealth_def holdings_def
        empty_coins_cells new_account_def del: run_acc.simps)
qed

text \<open>
  C4: A withdrawal that the user's holding covers is never refused. In a sound ledger, with a
  valid amount that is at most what the user holds unfrozen in the contract,
  \<open>TransferWithdraw\<close> returns a receipt (no error and no panic), the user's account grows by the
  amount and the holding shrinks by it.
\<close>
theorem withdraw_is_never_refused:
  assumes "acc_wf statedb_ops sd_view sd_inv acc" and "good C n (cells sd_view acc)" and "n < 2 ^ 63"
    and "e \<in> C" and "valid_addr a" and "a \<noteq> e" and "CheckAmount x"
    and "x \<le> Balance (cells sd_view acc (Held e a))"
  shows "\<exists>receipt acc'. TransferWithdraw a e x acc = (Ok receipt, acc') \<and>
    Balance (cells sd_view acc' (Main a)) = Balance (cells sd_view acc (Main a)) + x \<and>
    Balance (cells sd_view acc' (Held e a)) = Balance (cells sd_view acc (Held e a)) - x"
proof -
  let ?L = "cells sd_view acc" and ?c = "CTransferWithdraw a e x"
  have e: "valid_addr e" and h: "holdings e {a} ?L \<le> Balance (?L (Main e))"
    using goodD(1,3) [OF assms(2)] assms(4,5) by simp_all
  have c: "legal C ?c" "named_ok ?c" using assms e by (simp_all add: named_ok_def)
  have le: "x \<le> Balance (?L (Main e))"
    using h good_held(2) [OF assms(2,4,5)] assms(8) by (simp add: holdings_def)
  have "\<not> i64 (Balance (?L (Main e)) - x) < 0" "\<not> i64 (Balance (?L (Held e a)) - x) < 0"
    using short_iff [of "Balance (?L (Main e))" x] short_iff [of "Balance (?L (Held e a))" x]
      good_main [OF assms(2) e] good_held [OF assms(2,4,5)] assms(3,7,8) le by simp_all
  then have nofail: "first_failure (checks (adb_cfg acc) ?c ?L) = Ok ()"
    using assms by simp
  have bound: "n + max 0 (issued ?c) < 2 ^ 63" using assms(3) by simp
  have y: "yields statedb_ops sd_view sd_inv (stored sd_view acc) (run_acc ?c) acc
      (spec_acc (adb_cfg acc) ?c ?L)"
    using sdb.run_acc_gives [OF sdb.db_models_cells [OF assms(1)] c(2)] .
  from assms(2) c bound show ?thesis
  proof (cases rule: spec_acc_cases [where cfg = "adb_cfg acc"])
    case moved
    obtain receipt acc' where r: "TransferWithdraw a e x acc = (Ok receipt, acc')"
      and m: "models statedb_ops sd_view sd_inv acc' (fold add_move (moves ?c) ?L)"
      using sdb.gives_Ok [OF y [unfolded moved(1)]] by (metis run_acc.simps(3))
    have "cells sd_view acc' c = fold add_move (moves ?c) ?L c" if "cell_ok c" for c
      using m that by (simp add: models_def agree_def)
    from this [of "Main a"] this [of "Held e a"] show ?thesis
      using r assms(5,6) e by (intro exI [of _ receipt] exI [of _ acc']) simp
  qed (use nofail in \<open>simp add: spec_acc_def\<close>)
qed

theorem withdraw_is_never_refused_witness:
  "let acc = snd (run_accs [CGenesisInitExec ''alice'' 40 ''ticket''] empty_coins)
   in \<exists>receipt acc'. TransferWithdraw ''alice'' ''ticket'' 25 acc = (Ok receipt, acc')"
proof -
  let ?cs = "[CGenesisInitExec ''alice'' 40 ''ticket'']"
  let ?acc = "snd (run_accs ?cs empty_coins)"
  have v: "valid_addr ''alice''" "valid_addr ''ticket''" "CheckAmount 40" "CheckAmount 25"
    by (simp_all add: valid_addr_def CheckAmount_def MaxCoin_def)
  have "good {''ticket''} 40 (cells sd_view ?acc)" "acc_wf statedb_ops sd_view sd_inv ?acc"
    using sdb.run_accs_good [OF empty_coins_wf empty_coins_good, of "{''ticket''}" ?cs] v
    by (cases "run_accs ?cs empty_coins"; simp add: named_ok_def del: run_accs.simps)+
  moreover have "25 \<le> Balance (cells sd_view ?acc (Held ''ticket'' ''alice''))"
    by code_simp
  ultimately show ?thesis
    using withdraw_is_never_refused [of ?acc "{''ticket''}" 40 "''ticket''" "''alice''" 25] v
    unfolding Let_def by fastforce
qed

text \<open>
  C6: A transaction is all or nothing for the ledger, once the fork \<^verbatim>\<open>ForkExecRollback\<close> is
  active (before it \<open>Begin\<close> and \<open>Commit\<close> do not drop the transaction cache). Account calls made between \<open>Begin\<close> and
  \<open>Rollback\<close> of an idle state database leave the ledger exactly as it was before \<open>Begin\<close>, and
  \<open>Commit\<close> in place of \<open>Rollback\<close> leaves exactly the ledger the calls produced.
\<close>
theorem transaction_is_atomic:
  assumes "acc_wf statedb_ops sd_view sd_inv acc" and "adb acc = Some (statedb_ops, d)"
    and "sd_idle d" and "\<forall>c\<in>set cs. named_ok c"
    and "acc' = snd (run_accs cs (on_db (\<lambda>d. snd (sd_Begin d)) acc))"
  shows "cells sd_view (on_db sd_Rollback acc') = cells sd_view acc \<and>
    cells sd_view (on_db (\<lambda>d. snd (sd_Commit d)) acc') = cells sd_view acc'"
  using sdb.accs_rollback [OF assms(1-4)] sdb.accs_commit [OF assms(1-4)] assms(5) by simp

theorem transaction_is_atomic_witness:
  "let acc' = snd (run_accs [CMint ''alice'' 9] (on_db (\<lambda>d. snd (sd_Begin d)) empty_coins))
   in Balance (cells sd_view (on_db sd_Rollback acc') (Main ''alice'')) = 0 \<and>
      Balance (cells sd_view (on_db (\<lambda>d. snd (sd_Commit d)) acc') (Main ''alice'')) = 9"
proof -
  let ?acc' = "snd (run_accs [CMint ''alice'' 9] (on_db (\<lambda>d. snd (sd_Begin d)) empty_coins))"
  have "Balance (cells sd_view ?acc' (Main ''alice'')) = 9"
    by code_simp
  then show ?thesis
    using transaction_is_atomic [OF empty_coins_wf empty_coins_db empty_statedb_view(3),
        of "[CMint ''alice'' 9]" ?acc']
    by (simp add: Let_def named_ok_def valid_addr_def empty_coins_cells new_account_def
        del: run_accs.simps)
qed

end
