(* ===== verification/Local_DB.thy ===== *)
theory Local_DB
  imports KV_Interface "HOL-Library.AList"
begin

text \<open>
  The transactional local database of \<^verbatim>\<open>common/db/localdb.go\<close>: two in-memory databases
  layered over the main database, where an empty value marks a deleted key. The in-memory
  database (\<^verbatim>\<open>goleveldb/memdb\<close>) is outside the repository; its methods are the fields of a
  record, and what the code relies on is the predicate \<open>memdb_ok\<close>.
\<close>

section \<open>The in-memory database\<close>

record 'm memdb =
  mem_New :: 'm
  mem_Get :: "bytes \<Rightarrow> 'm \<Rightarrow> bytes option" \<comment> \<open>\<open>None\<close> is memdb's not-found error\<close>
  mem_Put :: "bytes \<Rightarrow> bytes \<Rightarrow> 'm \<Rightarrow> 'm"
  mem_Iter :: "'m \<Rightarrow> (bytes \<times> bytes) list" \<comment> \<open>the entries in iteration order\<close>

definition memdb_ok :: "'m memdb \<Rightarrow> bool" where
  "memdb_ok M \<longleftrightarrow>
     (\<forall>k. mem_Get M k (mem_New M) = None) \<and>
     (\<forall>k k' v m. mem_Get M k (mem_Put M k' v m) = (if k = k' then Some v else mem_Get M k m)) \<and>
     (\<forall>m. distinct (map fst (mem_Iter M m)) \<and> (\<forall>k. map_of (mem_Iter M m) k = mem_Get M k m))"

text \<open>\<^verbatim>\<open>GoMemDB\<close>, a thin wrapper. A nil value is stored as the empty one.\<close>

definition gomem_Get :: "'m memdb \<Rightarrow> bytes \<Rightarrow> 'm \<Rightarrow> bytes outcome" where
  "gomem_Get M key m = (case mem_Get M key m of None \<Rightarrow> Fail ErrNotFound | Some v \<Rightarrow> Ok v)"

definition gomem_Set :: "'m memdb \<Rightarrow> bytes \<Rightarrow> bytes option \<Rightarrow> ('m, unit) op" where
  "gomem_Set M key value m =
     (Ok (), mem_Put M key (case value of None \<Rightarrow> [] | Some v \<Rightarrow> v) m)"

section \<open>The local database\<close>

record 'm LocalDB =
  ld_txcache :: "'m option"
  ld_cache :: "'m option"
  ld_maindb :: "bytes \<Rightarrow> bytes outcome"
  ld_intx :: bool
  ld_readOnly :: bool

definition NewLocalDB :: "'m memdb \<Rightarrow> (bytes \<Rightarrow> bytes outcome) \<Rightarrow> bool \<Rightarrow> 'm LocalDB" where
  "NewLocalDB M maindb readOnly =
     (if readOnly then
        \<lparr>ld_txcache = None, ld_cache = None, ld_maindb = maindb, ld_intx = False, ld_readOnly = True\<rparr>
      else
        \<lparr>ld_txcache = Some (mem_New M), ld_cache = Some (mem_New M), ld_maindb = maindb,
         ld_intx = False, ld_readOnly = False\<rparr>)"

definition isdeleted :: "bytes \<Rightarrow> bool" where
  "isdeleted d = (length d = 0)"

definition ld_get :: "'m memdb \<Rightarrow> bytes \<Rightarrow> ('m LocalDB, bytes) op" where
  "ld_get M key l =
     (case (if ld_intx l then Option.bind (ld_txcache l) (mem_Get M key) else None) of
        Some value \<Rightarrow> (Ok value, l)
      | None \<Rightarrow>
          (case Option.bind (ld_cache l) (mem_Get M key) of
             Some value \<Rightarrow> (Ok value, l)
           | None \<Rightarrow>
               (case ld_maindb l key of
                  Fail e \<Rightarrow> (Fail e, l)
                | Panic \<Rightarrow> (Panic, l)
                | Ok value \<Rightarrow>
                    (Ok value,
                     case ld_cache l of None \<Rightarrow> l
                     | Some c \<Rightarrow> l\<lparr>ld_cache := Some (snd (gomem_Set M key (Some value) c))\<rparr>))))"

text \<open>
  The deletion test looks at the value alone, which is nil when there is an error, so every
  error of a read is reported as not found.
\<close>

definition ld_Get :: "'m memdb \<Rightarrow> bytes \<Rightarrow> ('m LocalDB, bytes) op" where
  "ld_Get M key l =
     (case ld_get M key l of
        (Panic, l') \<Rightarrow> (Panic, l')
      | (Fail e, l') \<Rightarrow> (Fail ErrNotFound, l')
      | (Ok value, l') \<Rightarrow> if isdeleted value then (Fail ErrNotFound, l') else (Ok value, l'))"

definition ld_Set :: "'m memdb \<Rightarrow> bytes \<Rightarrow> bytes option \<Rightarrow> ('m LocalDB, unit) op" where
  "ld_Set M key value l =
     (if ld_readOnly l then (Panic, l)
      else if ld_intx l then
        (let m = (case ld_txcache l of None \<Rightarrow> mem_New M | Some m \<Rightarrow> m) in
         (Ok (), l\<lparr>ld_txcache := Some (snd (gomem_Set M key value m))\<rparr>))
      else (Ok (), case ld_cache l of None \<Rightarrow> l
                   | Some c \<Rightarrow> l\<lparr>ld_cache := Some (snd (gomem_Set M key value c))\<rparr>))"

definition ld_Begin :: "'m LocalDB \<Rightarrow> 'm LocalDB" where
  "ld_Begin l = l\<lparr>ld_intx := True, ld_txcache := None\<rparr>"

definition ld_resetTx :: "'m LocalDB \<Rightarrow> 'm LocalDB" where
  "ld_resetTx l = l\<lparr>ld_intx := False, ld_txcache := None\<rparr>"

definition ld_Rollback :: "'m LocalDB \<Rightarrow> 'm LocalDB" where
  "ld_Rollback l = ld_resetTx l"

text \<open>The loop of \<open>Commit\<close>; writing through a nil cache is a nil dereference.\<close>

fun ld_copy :: "'m memdb \<Rightarrow> (bytes \<times> bytes) list \<Rightarrow> ('m LocalDB, unit) op" where
  "ld_copy M [] l = (Ok (), l)"
| "ld_copy M ((k, v) # kvs) l =
     (case ld_cache l of None \<Rightarrow> (Panic, l)
      | Some c \<Rightarrow> ld_copy M kvs (l\<lparr>ld_cache := Some (snd (gomem_Set M k (Some v) c))\<rparr>))"

definition ld_Commit :: "'m memdb \<Rightarrow> ('m LocalDB, unit) op" where
  "ld_Commit M l =
     (case ld_txcache l of
        None \<Rightarrow> (Ok (), ld_resetTx l)
      | Some t \<Rightarrow>
          (case ld_copy M (mem_Iter M t) l of
             (Ok _, l') \<Rightarrow> (Ok (), ld_resetTx l')
           | (r, l') \<Rightarrow> (r, l')))"

section \<open>What a reader observes\<close>

text \<open>A deleted key and an unreadable one look alike.\<close>

definition live :: "bytes option \<Rightarrow> bytes option" where
  "live r = (case r of Some [] \<Rightarrow> None | _ \<Rightarrow> r)"

definition layer :: "'m memdb \<Rightarrow> 'm option \<Rightarrow> bytes \<rightharpoonup> bytes" where
  "layer M m k = Option.bind m (mem_Get M k)"

definition main_value :: "'m LocalDB \<Rightarrow> bytes \<rightharpoonup> bytes" where
  "main_value l k = (case ld_maindb l k of Ok v \<Rightarrow> Some v | _ \<Rightarrow> None)"

definition ld_base :: "'m memdb \<Rightarrow> 'm LocalDB \<Rightarrow> bytes \<rightharpoonup> bytes" where
  "ld_base M l k = live ((main_value l ++ layer M (ld_cache l)) k)"

definition ld_view :: "'m memdb \<Rightarrow> 'm LocalDB \<Rightarrow> bytes \<rightharpoonup> bytes" where
  "ld_view M l k =
     live ((main_value l ++ layer M (ld_cache l) ++
            (if ld_intx l then layer M (ld_txcache l) else Map.empty)) k)"

definition ld_inv :: "'m LocalDB \<Rightarrow> bool" where
  "ld_inv l \<longleftrightarrow> \<not> ld_readOnly l \<and> ld_cache l \<noteq> None \<and> (\<forall>k. ld_maindb l k \<noteq> Panic)"

section \<open>The contract of a transactional local store\<close>

text \<open>
  What the message handlers of the chain and, through them, the executor rely on: reads give
  the live value of the view or not found, a write of a non-empty value is observed, a write of
  an empty or nil value deletes, and transactions restore or keep.
\<close>

definition written :: "bytes option \<Rightarrow> bytes option" where
  "written value = live (Some (case value of None \<Rightarrow> [] | Some v \<Rightarrow> v))"

text \<open>A batch of writes; an error of one write is logged and the next one is made.\<close>

fun set_all :: "(bytes \<Rightarrow> bytes option \<Rightarrow> ('d, unit) op) \<Rightarrow> (bytes \<times> bytes option) list \<Rightarrow> 'd \<Rightarrow> 'd" where
  "set_all set1 [] d = d"
| "set_all set1 ((k, v) # kvs) d = set_all set1 kvs (snd (set1 k v d))"

locale local_store =
  fixes get :: "bytes \<Rightarrow> ('d, bytes) op"
    and set1 :: "bytes \<Rightarrow> bytes option \<Rightarrow> ('d, unit) op"
    and start :: "'d \<Rightarrow> 'd"
    and rollback :: "'d \<Rightarrow> 'd"
    and commit :: "('d, unit) op"
    and view :: "'d \<Rightarrow> bytes \<rightharpoonup> bytes"
    and base :: "'d \<Rightarrow> bytes \<rightharpoonup> bytes"
    and open_tx :: "'d \<Rightarrow> bool"
    and okay :: "'d \<Rightarrow> bool"
  assumes get_value: "okay d \<Longrightarrow> fst (get k d) = get_result (view d k)"
    and get_keeps: "okay d \<Longrightarrow> okay (snd (get k d)) \<and> view (snd (get k d)) = view d \<and>
      base (snd (get k d)) = base d \<and> open_tx (snd (get k d)) = open_tx d"
    and set_value: "okay d \<Longrightarrow> fst (set1 k v d) = Ok ()"
    and set_effect: "okay d \<Longrightarrow> okay (snd (set1 k v d)) \<and>
      view (snd (set1 k v d)) = (view d)(k := written v) \<and> open_tx (snd (set1 k v d)) = open_tx d"
    and set_base: "okay d \<Longrightarrow> open_tx d \<Longrightarrow> base (snd (set1 k v d)) = base d"
    and start_effect: "okay d \<Longrightarrow> okay (start d) \<and> open_tx (start d) \<and>
      view (start d) = base d \<and> base (start d) = base d"
    and rollback_effect: "okay d \<Longrightarrow> okay (rollback d) \<and> \<not> open_tx (rollback d) \<and>
      view (rollback d) = base d"
    and commit_value: "okay d \<Longrightarrow> fst (commit d) = Ok ()"
    and commit_effect: "okay d \<Longrightarrow> open_tx d \<Longrightarrow> okay (snd (commit d)) \<and>
      \<not> open_tx (snd (commit d)) \<and> view (snd (commit d)) = view d"
    and closed_base: "okay d \<Longrightarrow> \<not> open_tx d \<Longrightarrow> base d = view d"
begin

lemma set_all_effect:
  "okay d \<Longrightarrow> okay (set_all set1 kvs d) \<and> open_tx (set_all set1 kvs d) = open_tx d \<and>
   view (set_all set1 kvs d) = foldl (\<lambda>m (k, v). m(k := written v)) (view d) kvs"
proof (induction kvs arbitrary: d)
  case (Cons p kvs)
  obtain k v where p: "p = (k, v)" by (cases p)
  show ?case using Cons.IH [of "snd (set1 k v d)"] set_effect [OF Cons.prems, of k v] by (simp add: p)
qed simp

lemma set_all_base: "okay d \<Longrightarrow> open_tx d \<Longrightarrow> base (set_all set1 kvs d) = base d"
proof (induction kvs arbitrary: d)
  case (Cons p kvs)
  then show ?case
    using set_effect set_base by (cases p) simp
qed simp

text \<open>A batch in a transaction of its own is observed after \<open>Commit\<close> and gone after \<open>Rollback\<close>.\<close>

lemma batch_committed:
  assumes "okay d" and "\<not> open_tx d"
  shows "view (snd (commit (set_all set1 kvs (start d)))) =
    foldl (\<lambda>m (k, v). m(k := written v)) (view d) kvs"
proof -
  have s: "okay (start d)" "open_tx (start d)" "view (start d) = view d"
    using start_effect closed_base assms by simp_all
  then have "okay (set_all set1 kvs (start d))" "open_tx (set_all set1 kvs (start d))"
    using set_all_effect by simp_all
  then show ?thesis
    using commit_effect set_all_effect [OF s(1)] s(3) by simp
qed

lemma batch_rolled_back:
  assumes "okay d" and "\<not> open_tx d"
  shows "view (rollback (set_all set1 kvs (start d))) = view d"
proof -
  have s: "okay (start d)" "open_tx (start d)" "base (start d) = view d"
    using start_effect closed_base assms by simp_all
  then show ?thesis
    using rollback_effect set_all_effect [OF s(1)] set_all_base [OF s(1,2)] by simp
qed

end

section \<open>The local database keeps the contract\<close>

lemma live_simps [simp]:
  "live None = None" "live (Some []) = None" "live (Some (c # cs)) = Some (c # cs)"
  by (simp_all add: live_def)

lemma layer_simps:
  assumes "memdb_ok M"
  shows "layer M (Some (mem_New M)) = Map.empty"
    and "layer M (Some (mem_Put M k v m)) = (layer M (Some m))(k \<mapsto> v)"
    and "layer M None = Map.empty"
  using assms by (auto simp: layer_def memdb_ok_def fun_eq_iff)

lemma main_value_update [simp]:
  "main_value (l\<lparr>ld_cache := c\<rparr>) = main_value l" "main_value (l\<lparr>ld_txcache := c\<rparr>) = main_value l"
  "main_value (l\<lparr>ld_intx := b\<rparr>) = main_value l"
  by (simp_all add: main_value_def fun_eq_iff)

text \<open>A read changes the cache at most, and there only by what the main database holds.\<close>

lemma ld_get_state:
  assumes "memdb_ok M"
  shows "snd (ld_get M k l) = l \<or>
    (\<exists>c v. ld_cache l = Some c \<and> layer M (ld_cache l) k = None \<and> main_value l k = Some v \<and>
       snd (ld_get M k l) = l\<lparr>ld_cache := Some (mem_Put M k v c)\<rparr>)"
  by (auto simp: ld_get_def layer_def main_value_def gomem_Set_def split: option.splits outcome.splits)

lemma ld_Get_get: "snd (ld_Get M k l) = snd (ld_get M k l)"
  by (simp add: ld_Get_def split: prod.splits outcome.splits)

lemma ld_Get_keeps:
  assumes M: "memdb_ok M"
  shows "ld_inv (snd (ld_Get M k l)) = ld_inv l" "ld_view M (snd (ld_Get M k l)) = ld_view M l"
    "ld_base M (snd (ld_Get M k l)) = ld_base M l" "ld_intx (snd (ld_Get M k l)) = ld_intx l"
proof -
  have fill: "main_value l ++ layer M (Some (mem_Put M k v c)) = main_value l ++ layer M (Some c)"
    if "layer M (Some c) k = None" "main_value l k = Some v" for c v
    using that by (auto simp: layer_simps [OF M] map_add_def fun_eq_iff split: option.splits)
  show "ld_inv (snd (ld_Get M k l)) = ld_inv l" "ld_view M (snd (ld_Get M k l)) = ld_view M l"
    "ld_base M (snd (ld_Get M k l)) = ld_base M l" "ld_intx (snd (ld_Get M k l)) = ld_intx l"
    using ld_get_state [OF M, of k l]
    by (auto simp: ld_Get_get ld_inv_def ld_view_def [abs_def] ld_base_def [abs_def] fill)
qed

lemma ld_Get_value:
  assumes "ld_inv l"
  shows "fst (ld_Get M k l) = get_result (ld_view M l k)"
proof -
  have "ld_maindb l k \<noteq> Panic" using assms by (simp add: ld_inv_def)
  then show ?thesis
    by (auto simp: ld_Get_def ld_get_def ld_view_def layer_def main_value_def map_add_def isdeleted_def
        live_def split: option.splits outcome.splits list.splits)
qed

lemma ld_Set_effect:
  assumes M: "memdb_ok M" and l: "ld_inv l"
  shows "fst (ld_Set M k v l) = Ok ()" "ld_inv (snd (ld_Set M k v l))"
    "ld_view M (snd (ld_Set M k v l)) = (ld_view M l)(k := written v)"
    "ld_intx (snd (ld_Set M k v l)) = ld_intx l"
    "ld_intx l \<Longrightarrow> ld_base M (snd (ld_Set M k v l)) = ld_base M l"
proof -
  obtain c where c: "ld_cache l = Some c" "\<not> ld_readOnly l"
    using l by (auto simp: ld_inv_def)
  show "fst (ld_Set M k v l) = Ok ()" "ld_inv (snd (ld_Set M k v l))"
    "ld_intx (snd (ld_Set M k v l)) = ld_intx l"
    "ld_intx l \<Longrightarrow> ld_base M (snd (ld_Set M k v l)) = ld_base M l"
    using l c by (auto simp: ld_Set_def Let_def ld_inv_def ld_base_def [abs_def])
  show "ld_view M (snd (ld_Set M k v l)) = (ld_view M l)(k := written v)"
  proof (cases "ld_intx l")
    case True
    then show ?thesis
      using c by (cases "ld_txcache l")
        (auto simp: ld_Set_def gomem_Set_def ld_view_def fun_eq_iff layer_simps [OF M] written_def)
  next
    case False
    then show ?thesis
      using c by (auto simp: ld_Set_def gomem_Set_def ld_view_def fun_eq_iff layer_simps [OF M] written_def)
  qed
qed

lemma ld_copy_effect:
  assumes M: "memdb_ok M" and c: "ld_cache l = Some c"
  shows "\<exists>c'. ld_copy M kvs l = (Ok (), l\<lparr>ld_cache := Some c'\<rparr>) \<and>
    layer M (Some c') = foldl (\<lambda>m (k, v). m(k \<mapsto> v)) (layer M (Some c)) kvs"
  using c
proof (induction kvs arbitrary: l c)
  case (Cons p kvs)
  obtain k v where p: "p = (k, v)" by (cases p)
  show ?case
    using Cons.IH [of "l\<lparr>ld_cache := Some (mem_Put M k v c)\<rparr>" "mem_Put M k v c"] Cons.prems
    by (simp add: p gomem_Set_def layer_simps [OF M])
next
  case Nil
  have "l = l\<lparr>ld_cache := Some c\<rparr>" using Nil by simp
  then show ?case by force
qed

lemma foldl_updates:
  "distinct (map fst kvs) \<Longrightarrow> foldl (\<lambda>m (k, v). m(k \<mapsto> v)) m kvs = m ++ map_of kvs"
proof (induction kvs arbitrary: m)
  case (Cons p kvs)
  obtain k v where p: "p = (k, v)" by (cases p)
  have "k \<notin> dom (map_of kvs)"
    using Cons.prems by (auto simp: p dom_map_of_conv_image_fst)
  then show ?case
    using Cons by (auto simp: p fun_eq_iff map_add_def split: option.splits)
qed simp

lemma ld_Commit_effect:
  assumes M: "memdb_ok M" and l: "ld_inv l"
  shows "fst (ld_Commit M l) = Ok ()" "ld_inv (snd (ld_Commit M l))" "\<not> ld_intx (snd (ld_Commit M l))"
    "ld_intx l \<Longrightarrow> ld_view M (snd (ld_Commit M l)) = ld_view M l"
proof -
  obtain c where c: "ld_cache l = Some c" using l by (auto simp: ld_inv_def)
  have "fst (ld_Commit M l) = Ok () \<and> ld_inv (snd (ld_Commit M l)) \<and> \<not> ld_intx (snd (ld_Commit M l)) \<and>
    (ld_intx l \<longrightarrow> ld_view M (snd (ld_Commit M l)) = ld_view M l)"
  proof (cases "ld_txcache l")
    case None
    then show ?thesis
      using l by (simp add: ld_Commit_def ld_resetTx_def ld_inv_def ld_view_def [abs_def] layer_simps [OF M])
  next
    case (Some t)
    obtain c' where c': "ld_copy M (mem_Iter M t) l = (Ok (), l\<lparr>ld_cache := Some c'\<rparr>)"
      "layer M (Some c') = foldl (\<lambda>m (k, v). m(k \<mapsto> v)) (layer M (Some c)) (mem_Iter M t)"
      using ld_copy_effect [OF M c] by blast
    have it: "distinct (map fst (mem_Iter M t))" "map_of (mem_Iter M t) = layer M (Some t)"
      using M by (auto simp: memdb_ok_def layer_def fun_eq_iff)
    have "layer M (Some c') = layer M (Some c) ++ layer M (Some t)"
      using c'(2) foldl_updates [OF it(1)] it(2) by simp
    then show ?thesis
      using l c c'(1) Some
      by (simp add: ld_Commit_def ld_resetTx_def ld_inv_def ld_view_def [abs_def])
  qed
  then show "fst (ld_Commit M l) = Ok ()" "ld_inv (snd (ld_Commit M l))" "\<not> ld_intx (snd (ld_Commit M l))"
    "ld_intx l \<Longrightarrow> ld_view M (snd (ld_Commit M l)) = ld_view M l"
    by simp_all
qed

lemma LocalDB_local_store:
  assumes M: "memdb_ok M"
  shows "local_store (ld_Get M) (ld_Set M) ld_Begin ld_Rollback (ld_Commit M) (ld_view M) (ld_base M)
    ld_intx ld_inv"
proof
  fix d :: "'a LocalDB" assume d: "ld_inv d"
  show "ld_inv (ld_Begin d) \<and> ld_intx (ld_Begin d) \<and> ld_view M (ld_Begin d) = ld_base M d \<and>
      ld_base M (ld_Begin d) = ld_base M d"
    using d by (simp add: ld_Begin_def ld_inv_def ld_view_def [abs_def] ld_base_def [abs_def] layer_simps [OF M])
  show "ld_inv (ld_Rollback d) \<and> \<not> ld_intx (ld_Rollback d) \<and> ld_view M (ld_Rollback d) = ld_base M d"
    using d by (simp add: ld_Rollback_def ld_resetTx_def ld_inv_def ld_view_def [abs_def] ld_base_def [abs_def])
  show "\<not> ld_intx d \<Longrightarrow> ld_base M d = ld_view M d"
    by (simp add: ld_view_def [abs_def] ld_base_def [abs_def])
qed (simp_all add: M ld_Get_keeps ld_Get_value ld_Set_effect ld_Commit_effect)

text \<open>An association list is such an in-memory database.\<close>

definition list_memdb :: "(bytes \<times> bytes) list memdb" where
  "list_memdb = \<lparr>mem_New = [], mem_Get = (\<lambda>k m. map_of m k),
     mem_Put = AList.update, mem_Iter = AList.clearjunk\<rparr>"

lemma list_memdb_ok: "memdb_ok list_memdb"
  by (simp add: memdb_ok_def list_memdb_def update_conv' distinct_clearjunk map_of_clearjunk)

interpretation ldb: local_store "ld_Get list_memdb" "ld_Set list_memdb" ld_Begin ld_Rollback
  "ld_Commit list_memdb" "ld_view list_memdb" "ld_base list_memdb" ld_intx ld_inv
  by (rule LocalDB_local_store [OF list_memdb_ok])

end
