(* ===== verification/Chain_Local.thy ===== *)
theory Chain_Local
  imports Local_DB
begin

text \<open>
  The service behind the executor's local database: the table of open local databases
  (\<^verbatim>\<open>common.StorePointer\<close>, \<^verbatim>\<open>GetPointer\<close>, \<^verbatim>\<open>RemovePointer\<close>) and the message handlers of
  \<^verbatim>\<open>blockchain/localdb.go\<close>. A reply that carries an error is what the client's \<^verbatim>\<open>Wait\<close> returns
  as the error, so a handler is a call with an outcome.
\<close>

section \<open>The table of open databases\<close>

record 'm chain_local =
  pointers :: "(int \<times> 'm LocalDB) list"
  pointerID :: int
  block_db :: "bytes \<Rightarrow> bytes outcome" \<comment> \<open>\<^verbatim>\<open>chain.blockStore.db\<close>\<close>

text \<open>
  The search for a free identifier; the fuel is one more than the number of identifiers in
  use, which is enough (\<open>free_id_found\<close>).
\<close>

fun free_id :: "nat \<Rightarrow> (int \<times> 'a) list \<Rightarrow> int \<Rightarrow> int option" where
  "free_id 0 ps i = None"
| "free_id (Suc n) ps i = (if map_of ps i = None then Some i else free_id n ps (i64 (i + 1)))"

definition StorePointer :: "'m LocalDB \<Rightarrow> ('m chain_local, int) op" where
  "StorePointer p s =
     (case free_id (Suc (length (pointers s))) (pointers s) (i64 (pointerID s + 1)) of
        None \<Rightarrow> (Panic, s)
      | Some i \<Rightarrow> (Ok i, s\<lparr>pointerID := i, pointers := AList.update i p (pointers s)\<rparr>))"

definition RemovePointer :: "int \<Rightarrow> 'm chain_local \<Rightarrow> 'm chain_local" where
  "RemovePointer i s = s\<lparr>pointers := AList.delete i (pointers s)\<rparr>"

definition GetPointer :: "int \<Rightarrow> 'm chain_local \<Rightarrow> 'm LocalDB outcome" where
  "GetPointer i s = (case map_of (pointers s) i of None \<Rightarrow> Fail ErrPointerNotFound | Some p \<Rightarrow> Ok p)"

text \<open>The databases are shared by reference: a call on a pointer updates the table's entry.\<close>

definition with_pointer :: "int \<Rightarrow> ('m LocalDB, 'a) op \<Rightarrow> ('m chain_local, 'a) op" where
  "with_pointer i f s =
     (case GetPointer i s of
        Ok p \<Rightarrow> (case f p of (r, p') \<Rightarrow> (r, s\<lparr>pointers := AList.update i p' (pointers s)\<rparr>))
      | Fail e \<Rightarrow> (Fail e, s)
      | Panic \<Rightarrow> (Panic, s))"

section \<open>The handlers\<close>

text \<open>The loop over the keys: an error of a read is logged and gives a nil value.\<close>

fun get_values :: "(bytes \<Rightarrow> ('d, bytes) op) \<Rightarrow> bytes list \<Rightarrow> ('d, bytes option list) op" where
  "get_values get [] d = (Ok [], d)"
| "get_values get (key # ks) d =
     (case get key d of
        (Panic, d') \<Rightarrow> (Panic, d')
      | (Ok v, d') \<Rightarrow> andThen (get_values get ks) (\<lambda>vs. returnO (Some v # vs)) d'
      | (Fail e, d') \<Rightarrow> andThen (get_values get ks) (\<lambda>vs. returnO (None # vs)) d')"

definition localGet :: "'m memdb \<Rightarrow> int \<Rightarrow> bytes list \<Rightarrow> ('m chain_local, bytes option list) op" where
  "localGet M txid ks s =
     (if txid = 0 then (fst (get_values (\<lambda>k _. (block_db s k, ())) ks ()), s)
      else with_pointer txid (get_values (ld_Get M) ks) s)"

fun set_values :: "'m memdb \<Rightarrow> (bytes \<times> bytes option) list \<Rightarrow> ('m LocalDB, unit) op" where
  "set_values M [] l = (Ok (), l)"
| "set_values M ((k, v) # kvs) l =
     (case ld_Set M k v l of
        (Panic, l') \<Rightarrow> (Panic, l')
      | (_, l') \<Rightarrow> set_values M kvs l')"

definition localSet :: "'m memdb \<Rightarrow> int \<Rightarrow> (bytes \<times> bytes option) list \<Rightarrow> ('m chain_local, unit) op" where
  "localSet M txid kvs s =
     (if txid = 0 then (Fail ErrNotSetInTransaction, s) else with_pointer txid (set_values M kvs) s)"

definition localNew :: "'m memdb \<Rightarrow> bool \<Rightarrow> ('m chain_local, int) op" where
  "localNew M readOnly s = StorePointer (NewLocalDB M (block_db s) readOnly) s"

definition localClose :: "int \<Rightarrow> ('m chain_local, unit) op" where
  "localClose i s =
     (case GetPointer i s of Ok _ \<Rightarrow> Ok () | Fail e \<Rightarrow> Fail e | Panic \<Rightarrow> Panic, RemovePointer i s)"

definition localBegin :: "int \<Rightarrow> ('m chain_local, unit) op" where
  "localBegin i = with_pointer i (\<lambda>l. (Ok (), ld_Begin l))"

definition localCommit :: "'m memdb \<Rightarrow> int \<Rightarrow> ('m chain_local, unit) op" where
  "localCommit M i = with_pointer i (ld_Commit M)"

definition localRollback :: "int \<Rightarrow> ('m chain_local, unit) op" where
  "localRollback i = with_pointer i (\<lambda>l. (Ok (), ld_Rollback l))"

section \<open>Behaviour\<close>

lemma free_id_None:
  assumes "free_id n ps i = None" and "\<And>j. j \<le> n \<Longrightarrow> in_i64 (i + int j)" and "j < n"
  shows "i + int j \<in> fst ` set ps"
  using assms
proof (induction n arbitrary: i j)
  case (Suc n)
  have hit: "i \<in> fst ` set ps" and rest: "free_id n ps (i + 1) = None"
    using Suc.prems(1) Suc.prems(2) [of 1]
    by (auto split: if_splits) (metis map_of_SomeD image_eqI fst_conv)
  show ?case
  proof (cases j)
    case (Suc j')
    have "i + 1 + int j' \<in> fst ` set ps"
    proof (rule Suc.IH [OF rest])
      show "in_i64 (i + 1 + int j)" if "j \<le> n" for j
        using Suc.prems(2) [of "Suc j"] that by (simp add: add.assoc)
    qed (use Suc.prems(3) Suc in simp)
    then show ?thesis by (simp add: Suc algebra_simps)
  qed (use hit in simp)
qed simp

text \<open>
  The loop ends: with fewer open databases than identifiers above the last one, the fuel finds
  an identifier that is not in use.
\<close>

lemma free_id_found:
  assumes "\<And>j. j \<le> Suc (length ps) \<Longrightarrow> in_i64 (i + int j)"
  shows "\<exists>k. free_id (Suc (length ps)) ps i = Some k \<and> map_of ps k = None"
proof -
  have "free_id (Suc (length ps)) ps i \<noteq> None"
  proof
    assume "free_id (Suc (length ps)) ps i = None"
    then have "(\<lambda>j. i + int j) ` {..length ps} \<subseteq> fst ` set ps"
      using free_id_None [of "Suc (length ps)" ps i] assms by auto
    then have "card ((\<lambda>j. i + int j) ` {..length ps}) \<le> card (fst ` set ps)"
      by (intro card_mono) simp_all
    also have "card (fst ` set ps) \<le> length ps"
      using card_length [of "map fst ps"] by simp
    finally show False by (simp add: card_image inj_on_def)
  qed
  moreover have "map_of ps k = None" if "free_id n ps i = Some k" for n i k
    using that by (induction n ps i rule: free_id.induct) (auto split: if_splits)
  ultimately show ?thesis by blast
qed

lemma with_pointer_hit:
  "map_of (pointers s) i = Some p \<Longrightarrow> f p = (r, p') \<Longrightarrow>
   with_pointer i f s = (r, s\<lparr>pointers := AList.update i p' (pointers s)\<rparr>)"
  by (simp add: with_pointer_def GetPointer_def)

text \<open>The handlers call the local database behind the pointer and leave the others alone.\<close>

lemma set_values_all:
  assumes M: "memdb_ok M" and "ld_inv l"
  shows "set_values M kvs l = (Ok (), set_all (ld_Set M) kvs l)"
  using assms(2)
proof (induction kvs arbitrary: l)
  case (Cons p kvs)
  obtain k v where p: "p = (k, v)" by (cases p)
  obtain l' where l': "ld_Set M k v l = (Ok (), l')" "ld_inv l'"
    using ld_Set_effect(1,2) [OF M Cons.prems, of k v] by (cases "ld_Set M k v l") simp
  then show ?case using Cons.IH [of l'] by (simp add: p)
qed simp

lemma localGet_hit:
  assumes M: "memdb_ok M" and "i \<noteq> 0" and "map_of (pointers s) i = Some l" and l: "ld_inv l"
  obtains l' where "localGet M i [k] s = (Ok [ld_view M l k], s\<lparr>pointers := AList.update i l' (pointers s)\<rparr>)"
    "ld_inv l'" "ld_view M l' = ld_view M l" "ld_base M l' = ld_base M l" "ld_intx l' = ld_intx l"
proof -
  obtain r l' where g: "ld_Get M k l = (r, l')" by (cases "ld_Get M k l")
  have r: "r = get_result (ld_view M l k)" "ld_inv l'" "ld_view M l' = ld_view M l"
    "ld_base M l' = ld_base M l" "ld_intx l' = ld_intx l"
    using ld_Get_value [OF l, of M k] ld_Get_keeps [OF M, of k l] l by (simp_all add: g)
  have "get_values (ld_Get M) [k] l = (Ok [ld_view M l k], l')"
    using r(1) by (cases "ld_view M l k") (simp_all add: g)
  then show ?thesis
    using that [OF _ r(2-5)] assms(2,3) by (simp add: localGet_def with_pointer_hit)
qed

end
