(* ===== verification/Exec_LocalDB.thy ===== *)
theory Exec_LocalDB
  imports Chain_Local State_DB
begin

text \<open>
  The executor's local database, \<^verbatim>\<open>executor/localdb.go\<close>: a cache in front of the message API
  of the chain that sends its writes late, when a transaction is committed or a list is read.
\<close>

section \<open>The message API\<close>

text \<open>
  The calls of \<^verbatim>\<open>client.QueueProtocolAPI\<close> that the code makes, over the state of the remote
  side. A reply whose \<open>Values\<close> is nil is \<open>None\<close>.
\<close>

record 'r local_api =
  api_LocalNew :: "bool \<Rightarrow> ('r, int) op"
  api_LocalGet :: "int \<Rightarrow> bytes list \<Rightarrow> ('r, bytes option list option) op"
  api_LocalSet :: "int \<Rightarrow> (bytes \<times> bytes option) list \<Rightarrow> ('r, unit) op"
  api_LocalBegin :: "int \<Rightarrow> ('r, unit) op"
  api_LocalCommit :: "int \<Rightarrow> ('r, unit) op"
  api_LocalRollback :: "int \<Rightarrow> ('r, unit) op"
  api_LocalClose :: "int \<Rightarrow> ('r, unit) op"
  api_LocalList :: "int \<Rightarrow> bytes \<Rightarrow> bytes \<Rightarrow> int \<Rightarrow> int \<Rightarrow> ('r, bytes list option) op"

text \<open>The API as the chain's handlers serve it; the listing call stays a parameter.\<close>

definition chain_api ::
  "'m memdb \<Rightarrow> (int \<Rightarrow> bytes \<Rightarrow> bytes \<Rightarrow> int \<Rightarrow> int \<Rightarrow> ('m chain_local, bytes list option) op) \<Rightarrow>
   'm chain_local local_api" where
  "chain_api M listing =
     \<lparr>api_LocalNew = localNew M,
      api_LocalGet = (\<lambda>i ks. andThen (localGet M i ks) (\<lambda>vs. returnO (if vs = [] then None else Some vs))),
      api_LocalSet = localSet M, api_LocalBegin = localBegin, api_LocalCommit = localCommit M,
      api_LocalRollback = localRollback, api_LocalClose = localClose, api_LocalList = listing\<rparr>"

section \<open>State\<close>

text \<open>A key of \<open>cache\<close> with a nil value is known to be absent.\<close>

record 'r ELocalDB =
  el_cache :: "(bytes \<rightharpoonup> bytes option) option"
  el_txcache :: "(bytes \<rightharpoonup> bytes) option"
  el_keys :: "bytes list"
  el_intx :: bool
  el_hasbegin :: bool
  el_kvs :: "(bytes \<times> bytes option) list"
  el_txid :: int
  el_disableread :: bool
  el_disablewrite :: bool
  el_remote :: 'r

type_synonym ('r, 'a) el_op = "('r ELocalDB, 'a) op"

text \<open>A call of the API from the database.\<close>

definition remote :: "('r, 'a) op \<Rightarrow> ('r, 'a) el_op" where
  "remote f l = (case f (el_remote l) of (r, s) \<Rightarrow> (r, l\<lparr>el_remote := s\<rparr>))"

definition el_New :: "'r local_api \<Rightarrow> 'r \<Rightarrow> bool \<Rightarrow> 'r ELocalDB outcome" where
  "el_New api s readOnly =
     (case api_LocalNew api readOnly s of
        (Ok txid, s') \<Rightarrow>
          Ok \<lparr>el_cache = Some Map.empty, el_txcache = None, el_keys = [], el_intx = False,
              el_hasbegin = False, el_kvs = [], el_txid = txid, el_disableread = False,
              el_disablewrite = False, el_remote = s'\<rparr>
      | _ \<Rightarrow> Panic)"

definition DisableRead :: "'r ELocalDB \<Rightarrow> 'r ELocalDB" where
  "DisableRead l = l\<lparr>el_disableread := True\<rparr>"

definition DisableWrite :: "'r ELocalDB \<Rightarrow> 'r ELocalDB" where
  "DisableWrite l = l\<lparr>el_disablewrite := True\<rparr>"

definition EnableRead :: "'r ELocalDB \<Rightarrow> 'r ELocalDB" where
  "EnableRead l = l\<lparr>el_disableread := False\<rparr>"

definition EnableWrite :: "'r ELocalDB \<Rightarrow> 'r ELocalDB" where
  "EnableWrite l = l\<lparr>el_disablewrite := False\<rparr>"

definition el_resetTx :: "'r ELocalDB \<Rightarrow> 'r ELocalDB" where
  "el_resetTx l = l\<lparr>el_intx := False, el_txcache := None, el_keys := [], el_hasbegin := False\<rparr>"

definition el_StartTx :: "'r ELocalDB \<Rightarrow> 'r ELocalDB" where
  "el_StartTx l = l\<lparr>el_keys := []\<rparr>"

definition el_GetSetKeys :: "'r ELocalDB \<Rightarrow> bytes list" where
  "el_GetSetKeys l = el_keys l"

definition el_Begin :: "'r ELocalDB \<Rightarrow> 'r ELocalDB" where
  "el_Begin l = l\<lparr>el_intx := True, el_keys := [], el_txcache := None, el_hasbegin := False\<rparr>"

definition el_begin :: "'r local_api \<Rightarrow> ('r, unit) el_op" where
  "el_begin api l = mustO (remote (api_LocalBegin api (el_txid l))) l"

definition el_save :: "'r local_api \<Rightarrow> ('r, unit) el_op" where
  "el_save api l =
     (if el_kvs l \<noteq> [] then
        andThen (if \<not> el_hasbegin l
                 then andThen (el_begin api) (\<lambda>_ l. (Ok (), l\<lparr>el_hasbegin := True\<rparr>))
                 else returnO ())
          (\<lambda>_ l. andThen (remote (api_LocalSet api (el_txid l) (el_kvs l)))
                   (\<lambda>_ l. (Ok (), l\<lparr>el_kvs := []\<rparr>)) l) l
      else (Ok (), l))"

text \<open>
  The map range of \<open>Commit\<close>: assigning to a nil cache panics when there is an entry to copy.
  The error of \<open>LocalCommit\<close> is returned after the reset.
\<close>

definition el_Commit :: "'r local_api \<Rightarrow> ('r, unit) el_op" where
  "el_Commit api l =
     (let tx = (case el_txcache l of None \<Rightarrow> Map.empty | Some m \<Rightarrow> m) in
      if el_cache l = None \<and> tx \<noteq> Map.empty then (Panic, l)
      else
        andThen (el_save api) (\<lambda>_ l.
          case (if el_hasbegin l then remote (api_LocalCommit api (el_txid l)) l else (Ok (), l)) of
            (Panic, l') \<Rightarrow> (Panic, l')
          | (r, l') \<Rightarrow> (r, el_resetTx l'))
          (l\<lparr>el_cache := map_option (\<lambda>c. c ++ (\<lambda>k. map_option Some (tx k))) (el_cache l)\<rparr>))"

definition el_Close :: "'r local_api \<Rightarrow> ('r, unit) el_op" where
  "el_Close api l =
     (let l1 = el_resetTx (l\<lparr>el_cache := None\<rparr>) in remote (api_LocalClose api (el_txid l)) l1)"

definition el_Rollback :: "'r local_api \<Rightarrow> ('r, unit) el_op" where
  "el_Rollback api l =
     andThen (if el_hasbegin l then mustO (remote (api_LocalRollback api (el_txid l))) else returnO ())
       (\<lambda>_ l. (Ok (), el_resetTx l)) l"

text \<open>Storing what was read in the cache.\<close>

definition el_remember :: "bytes \<Rightarrow> bytes option \<Rightarrow> bytes outcome \<Rightarrow> ('r, bytes) el_op" where
  "el_remember key r res l =
     (case el_cache l of None \<Rightarrow> (Panic, l) | Some c \<Rightarrow> (res, l\<lparr>el_cache := Some (c(key \<mapsto> r))\<rparr>))"

definition el_Get :: "'r local_api \<Rightarrow> bytes \<Rightarrow> ('r, bytes) el_op" where
  "el_Get api key l =
     (if el_disableread l then (Fail ErrDisableRead, l)
      else case (if el_intx l then Option.bind (el_txcache l) (\<lambda>m. m key) else None) of
        Some value \<Rightarrow> (Ok value, l)
      | None \<Rightarrow>
          (case Option.bind (el_cache l) (\<lambda>m. m key) of
             Some None \<Rightarrow> (Fail ErrNotFound, l)
           | Some (Some value) \<Rightarrow> (Ok value, l)
           | None \<Rightarrow>
               andThen (mustO (remote (api_LocalGet api (el_txid l) [key]))) (\<lambda>values.
                 case values of
                   None \<Rightarrow> el_remember key None (Fail ErrNotFound)
                 | Some [] \<Rightarrow> panicO
                 | Some (value # _) \<Rightarrow>
                     (case value of
                        None \<Rightarrow> el_remember key None (Fail ErrNotFound)
                      | Some v \<Rightarrow> el_remember key (Some v) (Ok v))) l))"

definition el_Set :: "'r local_api \<Rightarrow> bytes \<Rightarrow> bytes option \<Rightarrow> ('r, unit) el_op" where
  "el_Set api key value l =
     (if el_disablewrite l then (Fail ErrDisableWrite, l)
      else if el_intx l then
        (let m = (case el_txcache l of None \<Rightarrow> Map.empty | Some m \<Rightarrow> m) in
         (Ok (), l\<lparr>el_keys := el_keys l @ [key], el_txcache := Some (setmap m key value),
                   el_kvs := el_kvs l @ [(key, value)]\<rparr>))
      else
        (case el_cache l of
           None \<Rightarrow> if value = None then (Ok (), l\<lparr>el_kvs := el_kvs l @ [(key, value)]\<rparr>) else (Panic, l)
         | Some c \<Rightarrow> (Ok (), l\<lparr>el_cache := Some (setmap c key (map_option Some value)),
                               el_kvs := el_kvs l @ [(key, value)]\<rparr>)))"

definition el_List ::
  "'r local_api \<Rightarrow> bytes \<Rightarrow> bytes \<Rightarrow> int \<Rightarrow> int \<Rightarrow> ('r, bytes list) el_op" where
  "el_List api prefix key count direction l =
     (if el_disableread l then (Fail ErrDisableRead, l)
      else andThen (el_save api) (\<lambda>_.
        andThen (mustO (remote (api_LocalList api (el_txid l) prefix key count direction))) (\<lambda>values.
          case values of None \<Rightarrow> failO ErrNotFound | Some vs \<Rightarrow> returnO vs)) l)"

definition el_PrefixCount :: "bytes \<Rightarrow> ('r, int) el_op" where
  "el_PrefixCount prefix = panicO"

definition exec_local_ops :: "'r local_api \<Rightarrow> ('r ELocalDB, bytes) kv_ops" where
  "exec_local_ops api = \<lparr>kv_Get = el_Get api, kv_Set = el_Set api, kv_Begin = (\<lambda>l. (Ok (), el_Begin l)),
     kv_Commit = el_Commit api, kv_Rollback = (\<lambda>l. snd (el_Rollback api l))\<rparr>"

section \<open>What a reader observes\<close>

definition el_behind :: "'m memdb \<Rightarrow> 'm chain_local ELocalDB \<Rightarrow> bytes \<rightharpoonup> bytes" where
  "el_behind M l =
     (case map_of (pointers (el_remote l)) (el_txid l) of None \<Rightarrow> Map.empty | Some d \<Rightarrow> ld_view M d)"

definition el_view :: "'m memdb \<Rightarrow> 'm chain_local ELocalDB \<Rightarrow> bytes \<rightharpoonup> bytes" where
  "el_view M l k =
     (case (if el_intx l then Option.bind (el_txcache l) (\<lambda>m. m k) else None) of
        Some v \<Rightarrow> Some v
      | None \<Rightarrow> (case Option.bind (el_cache l) (\<lambda>m. m k) of Some r \<Rightarrow> r | None \<Rightarrow> el_behind M l k))"

text \<open>
  The database is usable: reads and writes are enabled, and its identifier names an open local
  database of the chain that is inside a transaction exactly when the executor has begun one.
\<close>

definition el_inv :: "'m chain_local ELocalDB \<Rightarrow> bool" where
  "el_inv l \<longleftrightarrow>
     \<not> el_disableread l \<and> \<not> el_disablewrite l \<and> el_txid l \<noteq> 0 \<and> (\<exists>c. el_cache l = Some c) \<and>
     (\<exists>d. map_of (pointers (el_remote l)) (el_txid l) = Some d \<and> ld_inv d \<and> ld_intx d = el_hasbegin l)"

lemma el_Get_effect:
  assumes M: "memdb_ok M" and l: "el_inv l"
  shows "fst (el_Get (chain_api M li) k l) = get_result (el_view M l k) \<and>
    el_view M (snd (el_Get (chain_api M li) k l)) = el_view M l \<and>
    el_inv (snd (el_Get (chain_api M li) k l))"
proof (cases "(if el_intx l then Option.bind (el_txcache l) (\<lambda>m. m k) else None) = None \<and>
    Option.bind (el_cache l) (\<lambda>m. m k) = None")
  case False
  then have "snd (el_Get (chain_api M li) k l) = l"
    "fst (el_Get (chain_api M li) k l) = get_result (el_view M l k)"
    using l by (auto simp: el_Get_def el_view_def el_inv_def split: option.splits if_splits)
  with l show ?thesis by simp
next
  case True
  from l obtain c d where c: "el_cache l = Some c"
    and d: "map_of (pointers (el_remote l)) (el_txid l) = Some d" "ld_inv d" "ld_intx d = el_hasbegin l"
    and m: "el_txid l \<noteq> 0" "\<not> el_disableread l" "\<not> el_disablewrite l"
    by (auto simp: el_inv_def)
  obtain d' where g: "localGet M (el_txid l) [k] (el_remote l) =
      (Ok [ld_view M d k], (el_remote l)\<lparr>pointers := AList.update (el_txid l) d' (pointers (el_remote l))\<rparr>)"
    and d': "ld_inv d'" "ld_view M d' = ld_view M d" "ld_intx d' = ld_intx d"
    using localGet_hit [OF M m(1) d(1,2)] by metis
  let ?l' = "l\<lparr>el_remote := (el_remote l)\<lparr>pointers := AList.update (el_txid l) d' (pointers (el_remote l))\<rparr>,
      el_cache := Some (c(k \<mapsto> ld_view M d k))\<rparr>"
  have v: "el_view M l k = ld_view M d k"
    using True by (simp add: el_view_def el_behind_def d)
  have "el_Get (chain_api M li) k l = (get_result (ld_view M d k), ?l')"
    using True m c
    by (cases "ld_view M d k") (simp_all add: el_Get_def chain_api_def remote_def g andThen_def mustO_def
        el_remember_def split: if_splits)
  moreover have "el_behind M ?l' = el_behind M l"
    by (simp add: el_behind_def d d' update_conv')
  then have "el_view M ?l' = el_view M l"
    using True c by (auto simp: el_view_def fun_eq_iff v [unfolded el_view_def] d el_behind_def
        split: option.splits if_splits)
  moreover have "el_inv ?l'"
    using m d d' by (simp add: el_inv_def update_conv')
  ultimately show ?thesis by (simp add: v)
qed

lemma el_Set_effect:
  assumes l: "el_inv l"
  shows "fst (el_Set api k (Some v) l) = Ok () \<and>
    el_view M (snd (el_Set api k (Some v) l)) = (el_view M l)(k \<mapsto> v) \<and>
    el_inv (snd (el_Set api k (Some v) l))"
proof (intro conjI)
  show "fst (el_Set api k (Some v) l) = Ok ()" "el_inv (snd (el_Set api k (Some v) l))"
    using l by (auto simp: el_inv_def el_Set_def Let_def)
  show "el_view M (snd (el_Set api k (Some v) l)) = (el_view M l)(k \<mapsto> v)"
    using l by (auto simp: el_inv_def el_Set_def el_view_def el_behind_def setmap_def fun_eq_iff Let_def
        split: option.splits)
qed

lemma exec_local_kv_store:
  assumes M: "memdb_ok M"
  shows "kv_store (exec_local_ops (chain_api M li)) (el_view M) el_inv"
  by unfold_locales (simp_all add: exec_local_ops_def el_Get_effect [OF M] el_Set_effect)

interpretation elocal: kv_store "exec_local_ops (chain_api list_memdb li)" "el_view list_memdb" el_inv
  by (rule exec_local_kv_store [OF list_memdb_ok])

section \<open>Committing\<close>

text \<open>The keys whose value one of the two caches holds, and that all pending writes are among them.\<close>

definition el_known :: "'r ELocalDB \<Rightarrow> bytes \<Rightarrow> bool" where
  "el_known l k \<longleftrightarrow>
     Option.bind (el_cache l) (\<lambda>m. m k) \<noteq> None \<or> Option.bind (el_txcache l) (\<lambda>m. m k) \<noteq> None"

definition covered :: "'r ELocalDB \<Rightarrow> bool" where
  "covered l \<longleftrightarrow> (\<forall>(k, v)\<in>set (el_kvs l). el_known l k)"

definition apply_writes :: "(bytes \<times> bytes option) list \<Rightarrow> (bytes \<rightharpoonup> bytes) \<Rightarrow> bytes \<rightharpoonup> bytes" where
  "apply_writes kvs m = foldl (\<lambda>m (k, v). m(k := written v)) m kvs"

lemma apply_writes_other: "k \<notin> fst ` set kvs \<Longrightarrow> apply_writes kvs m k = m k"
  unfolding apply_writes_def
  by (induction kvs arbitrary: m) (auto split: prod.splits)

lemma el_save_effect:
  assumes M: "memdb_ok M" and l: "el_inv l"
  obtains b s where "el_save (chain_api M li) l = (Ok (), l\<lparr>el_kvs := [], el_hasbegin := b, el_remote := s\<rparr>)"
    "el_inv (l\<lparr>el_kvs := [], el_hasbegin := b, el_remote := s\<rparr>)" "b = (el_hasbegin l \<or> el_kvs l \<noteq> [])"
    "el_behind M (l\<lparr>el_kvs := [], el_hasbegin := b, el_remote := s\<rparr>) = apply_writes (el_kvs l) (el_behind M l)"
proof -
  from l obtain c d where c: "el_cache l = Some c"
    and d: "map_of (pointers (el_remote l)) (el_txid l) = Some d" "ld_inv d" "ld_intx d = el_hasbegin l"
    and m: "el_txid l \<noteq> 0" "\<not> el_disableread l" "\<not> el_disablewrite l"
    by (auto simp: el_inv_def)
  note store = LocalDB_local_store [OF M]
  define d1 where "d1 = (if el_hasbegin l then d else ld_Begin d)"
  have d1: "ld_inv d1" "ld_intx d1" "ld_view M d1 = ld_view M d"
    using d local_store.start_effect [OF store d(2)] local_store.closed_base [OF store d(2)]
    by (auto simp: d1_def)
  define d2 where "d2 = set_all (ld_Set M) (el_kvs l) d1"
  have d2: "ld_inv d2" "ld_intx d2" "ld_view M d2 = apply_writes (el_kvs l) (ld_view M d)"
    using local_store.set_all_effect [OF store d1(1), of "el_kvs l"] d1
    by (simp_all add: d2_def apply_writes_def)
  show ?thesis
  proof (cases "el_kvs l = []")
    case True
    then have "el_save (chain_api M li) l = (Ok (), l\<lparr>el_kvs := [], el_hasbegin := el_hasbegin l,
        el_remote := el_remote l\<rparr>)"
      by (simp add: el_save_def)
    then show ?thesis
      using that [of "el_remote l" "el_hasbegin l"] l True
      by (simp add: apply_writes_def el_inv_def el_behind_def)
  next
    case False
    let ?s = "(el_remote l)\<lparr>pointers := AList.update (el_txid l) d2
        (if el_hasbegin l then pointers (el_remote l)
         else AList.update (el_txid l) d1 (pointers (el_remote l)))\<rparr>"
    have "el_save (chain_api M li) l = (Ok (), l\<lparr>el_kvs := [], el_hasbegin := True, el_remote := ?s\<rparr>)"
      using False d m d1 by (cases "el_hasbegin l")
        (simp_all add: el_save_def el_begin_def chain_api_def remote_def localBegin_def localSet_def
          with_pointer_def GetPointer_def update_conv' set_values_all [OF M] d1_def d2_def
          mustO_def andThen_def)
    moreover have "map_of (pointers ?s) (el_txid l) = Some d2"
      by (simp add: update_conv')
    ultimately show ?thesis
      using that [of ?s True] False d2 m c d by (simp add: el_inv_def el_behind_def)
  qed
qed

text \<open>The state after \<open>Commit\<close>: the caches are merged and the pending writes are behind.\<close>

lemma el_Commit_effect:
  assumes M: "memdb_ok M" and l: "el_inv l" and c: "el_cache l = Some c"
  obtains l' where "el_Commit (chain_api M li) l = (Ok (), l')" "el_inv l'" "\<not> el_intx l'"
    "\<not> el_hasbegin l'" "el_txcache l' = None" "el_kvs l' = []"
    "el_cache l' = Some (c ++ (\<lambda>k. map_option Some (Option.bind (el_txcache l) (\<lambda>m. m k))))"
    "el_behind M l' = apply_writes (el_kvs l) (el_behind M l)"
proof -
  let ?tx = "case el_txcache l of None \<Rightarrow> Map.empty | Some m \<Rightarrow> m"
  let ?c = "c ++ (\<lambda>k. map_option Some (?tx k))"
  let ?l0 = "l\<lparr>el_cache := Some ?c\<rparr>"
  have "el_inv ?l0" using l by (simp add: el_inv_def)
  then obtain b s l1 where l1: "l1 = ?l0\<lparr>el_kvs := [], el_hasbegin := b, el_remote := s\<rparr>"
    and sv: "el_save (chain_api M li) ?l0 = (Ok (), l1)" "el_inv l1"
      "el_behind M l1 = apply_writes (el_kvs ?l0) (el_behind M ?l0)"
    using el_save_effect [OF M] by metis
  from sv(2) obtain d where d: "map_of (pointers s) (el_txid l) = Some d" "ld_inv d" "ld_intx d = b"
    by (auto simp: el_inv_def l1)
  have tx: "?tx k = Option.bind (el_txcache l) (\<lambda>m. m k)" for k
    by (simp split: option.splits)
  show ?thesis
  proof (cases b)
    case True
    obtain d' where d': "ld_Commit M d = (Ok (), d')" "ld_inv d'" "\<not> ld_intx d'" "ld_view M d' = ld_view M d"
      using ld_Commit_effect [OF M d(2)] d True by (cases "ld_Commit M d") auto
    let ?l' = "el_resetTx (l1\<lparr>el_remote := s\<lparr>pointers := AList.update (el_txid l) d' (pointers s)\<rparr>\<rparr>)"
    have "el_Commit (chain_api M li) l = (Ok (), ?l')"
      using c sv(1) True d d'(1)
      by (simp add: l1 el_Commit_def Let_def remote_def chain_api_def localCommit_def with_pointer_hit)
    moreover have "el_behind M ?l' = apply_writes (el_kvs l) (el_behind M l)"
      using sv(3) d d' by (simp add: l1 el_behind_def el_resetTx_def update_conv')
    ultimately show ?thesis
      using l d' by (intro that) (auto simp: l1 el_inv_def el_resetTx_def update_conv' tx fun_eq_iff)
  next
    case False
    let ?l' = "el_resetTx l1"
    have "el_Commit (chain_api M li) l = (Ok (), ?l')"
      using c sv(1) False by (simp add: l1 el_Commit_def Let_def)
    moreover have "el_behind M ?l' = apply_writes (el_kvs l) (el_behind M l)"
      using sv(3) by (simp add: l1 el_behind_def el_resetTx_def)
    ultimately show ?thesis
      using l d False by (intro that) (auto simp: l1 el_inv_def el_resetTx_def tx fun_eq_iff)
  qed
qed

text \<open>Between transactions.\<close>

definition el_idle :: "'r ELocalDB \<Rightarrow> bool" where
  "el_idle l \<longleftrightarrow> \<not> el_intx l \<and> \<not> el_hasbegin l \<and> el_txcache l = None"

lemma el_Begin_effect:
  assumes "el_inv l" and "el_idle l"
  shows "el_inv (el_Begin l)" "el_intx (el_Begin l)" "el_txcache (el_Begin l) = None"
    "el_kvs (el_Begin l) = el_kvs l" "el_cache (el_Begin l) = el_cache l"
    "el_behind M (el_Begin l) = el_behind M l"
  using assms by (simp_all add: el_Begin_def el_inv_def el_idle_def el_behind_def)

section \<open>Calls inside a transaction\<close>

datatype el_call = EGet bytes | ESet bytes "bytes option"

fun el_run :: "'r local_api \<Rightarrow> el_call \<Rightarrow> 'r ELocalDB \<Rightarrow> 'r ELocalDB" where
  "el_run api (EGet k) l = snd (el_Get api k l)"
| "el_run api (ESet k v) l = snd (el_Set api k v l)"

fun el_writes :: "el_call list \<Rightarrow> (bytes \<times> bytes option) list" where
  "el_writes [] = []"
| "el_writes (EGet k # cs) = el_writes cs"
| "el_writes (ESet k v # cs) = (k, v) # el_writes cs"

text \<open>What a list of writes leaves in the transaction cache; a nil value takes the key out again.\<close>

definition tx_writes :: "(bytes \<times> bytes option) list \<Rightarrow> (bytes \<rightharpoonup> bytes) \<Rightarrow> bytes \<rightharpoonup> bytes" where
  "tx_writes kvs m = foldl (\<lambda>m (k, v). setmap m k v) m kvs"

lemma tx_writes_simps [simp]:
  "tx_writes [] m = m" "tx_writes ((k, v) # kvs) m = tx_writes kvs (setmap m k v)"
  by (simp_all add: tx_writes_def)

lemma tx_writes_known:
  "k \<in> fst ` set kvs \<or> m k \<noteq> None \<Longrightarrow> (k, None) \<notin> set kvs \<Longrightarrow> tx_writes kvs m k \<noteq> None"
proof (induction kvs arbitrary: m)
  case (Cons kv kvs)
  obtain k' v where kv: "kv = (k', v)" by fastforce
  have "k \<in> fst ` set kvs \<or> setmap m k' v k \<noteq> None"
    using Cons.prems by (cases v) (auto simp: kv setmap_def)
  then show ?case using Cons.prems(2) Cons.IH by (simp add: kv)
qed simp

text \<open>The transaction cache as a map, and what is observed under it.\<close>

definition el_tx :: "'r ELocalDB \<Rightarrow> bytes \<rightharpoonup> bytes" where
  "el_tx l = (case el_txcache l of None \<Rightarrow> Map.empty | Some m \<Rightarrow> m)"

definition el_under :: "'m memdb \<Rightarrow> 'm chain_local ELocalDB \<Rightarrow> bytes \<rightharpoonup> bytes" where
  "el_under M l k = (case Option.bind (el_cache l) (\<lambda>m. m k) of Some r \<Rightarrow> r | None \<Rightarrow> el_behind M l k)"

lemma el_tx_bind: "Option.bind (el_txcache l) (\<lambda>m. m k) = el_tx l k"
  by (simp add: el_tx_def split: option.split)

lemma el_view_in_tx: "el_intx l \<Longrightarrow> el_view M l = el_under M l ++ el_tx l"
  by (auto simp: fun_eq_iff el_view_def el_under_def el_tx_bind map_add_def split: option.split)

lemma el_view_idle: "\<not> el_intx l \<Longrightarrow> el_view M l = el_under M l"
  by (simp add: fun_eq_iff el_view_def el_under_def)

text \<open>A read changes at most the cache, where it records what is behind, and the read caches of the chain.\<close>

lemma el_Get_caches:
  assumes M: "memdb_ok M" and l: "el_inv l" and c: "el_cache l = Some c"
    and l'_def: "l' = snd (el_Get (chain_api M li) k l)"
  shows "el_intx l' = el_intx l" "el_kvs l' = el_kvs l" "el_txcache l' = el_txcache l"
    "el_behind M l' = el_behind M l"
    "el_cache l' = Some c \<or> c k = None \<and> el_cache l' = Some (c(k \<mapsto> el_behind M l k))"
proof -
  from l obtain d where d: "map_of (pointers (el_remote l)) (el_txid l) = Some d" "ld_inv d" "el_txid l \<noteq> 0"
    by (auto simp: el_inv_def)
  obtain d' where g: "localGet M (el_txid l) [k] (el_remote l) =
      (Ok [ld_view M d k], (el_remote l)\<lparr>pointers := AList.update (el_txid l) d' (pointers (el_remote l))\<rparr>)"
    and d': "ld_view M d' = ld_view M d"
    using localGet_hit [OF M d(3,1,2)] by metis
  note defs = l'_def el_Get_def chain_api_def remote_def g andThen_def mustO_def el_remember_def el_behind_def d d' c
  show "el_intx l' = el_intx l" "el_kvs l' = el_kvs l" "el_txcache l' = el_txcache l"
    by (simp_all add: defs split: option.splits)
  show "el_behind M l' = el_behind M l"
    by (simp add: defs update_conv' split: option.splits)
  show "el_cache l' = Some c \<or> c k = None \<and> el_cache l' = Some (c(k \<mapsto> el_behind M l k))"
    by (simp add: defs split: option.splits)
qed

lemma el_run_in_tx:
  assumes M: "memdb_ok M" and l: "el_inv l" "el_intx l"
    and l'_def: "l' = el_run (chain_api M li) cl l"
  shows "el_inv l'" "el_intx l'" "el_kvs l' = el_kvs l @ el_writes [cl]"
    "el_behind M l' = el_behind M l" "el_tx l' = tx_writes (el_writes [cl]) (el_tx l)"
    "el_under M l' = el_under M l" "\<And>k. el_cache l = Some c \<Longrightarrow> c k \<noteq> None \<Longrightarrow> \<exists>c'. el_cache l' = Some c' \<and> c' k \<noteq> None"
proof -
  obtain c where c: "el_cache l = Some c" using l by (auto simp: el_inv_def)
  show "el_inv l'" "el_intx l'" "el_kvs l' = el_kvs l @ el_writes [cl]"
    "el_behind M l' = el_behind M l" "el_tx l' = tx_writes (el_writes [cl]) (el_tx l)"
    using el_Get_effect [OF M l(1)] el_Get_caches [OF M l(1) c refl] l
    by (cases cl; auto simp: l'_def el_tx_def el_Set_def Let_def el_inv_def el_behind_def split: option.splits)+
  show "el_under M l' = el_under M l"
  proof (cases cl)
    case (EGet k)
    then show ?thesis
      using el_Get_caches(4,5) [OF M l(1) c, of l' li k] c
      by (auto simp: fun_eq_iff l'_def el_under_def split: option.splits if_splits)
  next
    case (ESet k v)
    then show ?thesis using l by (simp add: fun_eq_iff l'_def el_under_def el_Set_def Let_def el_inv_def el_behind_def
          split: option.split)
  qed
  show "\<exists>c'. el_cache l' = Some c' \<and> c' k \<noteq> None" if "el_cache l = Some c" "c k \<noteq> None" for c k
  proof (cases cl)
    case (EGet k')
    then show ?thesis using el_Get_caches(5) [OF M l(1) that(1), of l' li k'] that by (auto simp: l'_def)
  next
    case (ESet k' v)
    then show ?thesis using l that by (simp add: l'_def el_Set_def Let_def el_inv_def)
  qed
qed

lemma el_runs_in_tx:
  assumes M: "memdb_ok M" and "el_inv l" "el_intx l"
  shows "let l' = fold (el_run (chain_api M li)) cs l in
    el_inv l' \<and> el_intx l' \<and> el_kvs l' = el_kvs l @ el_writes cs \<and> el_behind M l' = el_behind M l \<and>
    el_tx l' = tx_writes (el_writes cs) (el_tx l) \<and> el_under M l' = el_under M l \<and>
    (\<forall>k c. el_cache l = Some c \<and> c k \<noteq> None \<longrightarrow> (\<exists>c'. el_cache l' = Some c' \<and> c' k \<noteq> None))"
  using assms(2-)
proof (induction cs arbitrary: l)
  case (Cons cl cs)
  note 1 = el_run_in_tx [OF M Cons.prems refl, where cl = cl and li = li]
  have w: "el_writes (cl # cs) = el_writes [cl] @ el_writes cs" by (cases cl) simp_all
  show ?case
    using Cons.IH [OF 1(1,2)] 1(3-) unfolding w by (simp add: Let_def tx_writes_def) blast
qed simp

section \<open>Properties\<close>

text \<open>
  A chain with an empty database, and the executor's local database opened on it.
\<close>

definition empty_chain :: "(bytes \<times> bytes) list chain_local" where
  "empty_chain = \<lparr>pointers = [], pointerID = 0, block_db = (\<lambda>k. Fail ErrNotFound)\<rparr>"

definition no_listing :: "int \<Rightarrow> bytes \<Rightarrow> bytes \<Rightarrow> int \<Rightarrow> int \<Rightarrow> ('r, bytes list option) op" where
  "no_listing i p k n d = returnO None"

definition fresh_local :: "(bytes \<times> bytes) list chain_local ELocalDB" where
  "fresh_local = (case el_New (chain_api list_memdb no_listing) empty_chain False of Ok l \<Rightarrow> l | _ \<Rightarrow> undefined)"

lemma fresh_local_simps:
  "fresh_local = \<lparr>el_cache = Some Map.empty, el_txcache = None, el_keys = [], el_intx = False,
     el_hasbegin = False, el_kvs = [], el_txid = 1, el_disableread = False, el_disablewrite = False,
     el_remote = empty_chain\<lparr>pointerID := 1,
       pointers := [(1, NewLocalDB list_memdb (\<lambda>k. Fail ErrNotFound) False)]\<rparr>\<rparr>"
  by (simp add: fresh_local_def el_New_def chain_api_def localNew_def StorePointer_def empty_chain_def i64_def)

lemma fresh_local_ok:
  "el_inv fresh_local" "covered fresh_local" "el_idle fresh_local"
  "el_kvs fresh_local = []" "el_view list_memdb fresh_local = Map.empty" "el_cache fresh_local = Some Map.empty"
proof -
  show "el_inv fresh_local" "covered fresh_local" "el_idle fresh_local"
    "el_kvs fresh_local = []" "el_cache fresh_local = Some Map.empty"
    by (simp_all add: fresh_local_simps el_inv_def covered_def NewLocalDB_def ld_inv_def el_idle_def)
  have "main_value (NewLocalDB list_memdb (\<lambda>k. Fail ErrNotFound) False) = Map.empty"
    by (simp add: NewLocalDB_def main_value_def fun_eq_iff)
  then have "ld_view list_memdb (NewLocalDB list_memdb (\<lambda>k. Fail ErrNotFound) False) = Map.empty"
    using layer_simps [OF list_memdb_ok] by (simp add: fun_eq_iff ld_view_def) (simp add: NewLocalDB_def map_add_def)
  then show "el_view list_memdb fresh_local = Map.empty"
    by (simp add: fun_eq_iff el_view_def fresh_local_simps el_behind_def)
qed

text \<open>
  C7: A committed transaction of the executor's local database reaches the chain. Between
  transactions, in any usable state (also one with writes still pending, such as a rollback leaves
  behind), run any sequence of \<open>Get\<close> and \<open>Set\<close> calls, writes of nil included, after \<open>Begin\<close> and
  then \<open>Commit\<close>. Inside the transaction one observes what was observed before it, overlaid with
  the transaction's writes, where a write of nil withdraws an earlier one. The commit succeeds, the
  local database behind the message API has received exactly the older pending writes and then the
  transaction's writes, in order, and nothing is pending any more. For every key held by a cache
  the executor goes on observing the value it observed inside the transaction, every other key is
  read from behind; so when all older pending writes are in the cache and no value written is nil,
  it observes after the commit exactly what it observed before it.
\<close>
theorem exec_local_commit_publishes:
  assumes "memdb_ok M" and "el_inv l" and "el_idle l"
    and "l1 = fold (el_run (chain_api M li)) cs (el_Begin l)"
  shows "\<exists>l2. el_Commit (chain_api M li) l1 = (Ok (), l2) \<and>
    el_view M l1 = el_view M l ++ tx_writes (el_writes cs) Map.empty \<and>
    el_behind M l2 = apply_writes (el_kvs l @ el_writes cs) (el_behind M l) \<and>
    (\<forall>k. el_view M l2 k = (if el_known l1 k then el_view M l1 k else el_behind M l2 k)) \<and>
    (covered l \<and> (\<forall>k. (k, None) \<notin> set (el_writes cs)) \<longrightarrow> el_view M l2 = el_view M l1) \<and>
    el_kvs l2 = [] \<and> el_inv l2 \<and> el_idle l2"
proof -
  note b = el_Begin_effect [OF assms(2,3)]
  note r = el_runs_in_tx [OF assms(1) b(1,2), of li cs, folded assms(4), unfolded Let_def]
  have under: "el_under M (el_Begin l) = el_under M l"
    by (simp add: fun_eq_iff el_under_def b split: option.split)
  have 1: "el_inv l1" "el_intx l1" "el_kvs l1 = el_kvs l @ el_writes cs" "el_behind M l1 = el_behind M l"
    "el_tx l1 = tx_writes (el_writes cs) Map.empty" "el_under M l1 = el_under M l"
    using r b(3-5) b(6) [of M] under by (simp_all add: el_tx_def)
  have view: "el_view M l1 = el_view M l ++ tx_writes (el_writes cs) Map.empty"
    using assms(3) by (simp add: el_view_in_tx el_view_idle 1 el_idle_def)
  obtain c where c: "el_cache l1 = Some c" using 1(1) by (auto simp: el_inv_def)
  obtain l2 where 2: "el_Commit (chain_api M li) l1 = (Ok (), l2)" "el_inv l2" "\<not> el_intx l2"
    "\<not> el_hasbegin l2" "el_txcache l2 = None" "el_kvs l2 = []"
    "el_cache l2 = Some (c ++ (\<lambda>k. map_option Some (Option.bind (el_txcache l1) (\<lambda>m. m k))))"
    "el_behind M l2 = apply_writes (el_kvs l1) (el_behind M l1)"
    using el_Commit_effect [OF assms(1) 1(1) c] by metis
  have after: "el_view M l2 k = (if el_known l1 k then el_view M l1 k else el_behind M l2 k)" for k
    using 2(3,7) 1(2) c by (auto simp: el_view_def el_known_def map_add_def split: option.splits)
  have kept: "el_view M l2 k = el_view M l1 k" if "covered l" "\<forall>k. (k, None) \<notin> set (el_writes cs)" for k
  proof (cases "el_known l1 k")
    case False
    have "k \<notin> fst ` set (el_writes cs)"
      using False that(2) tx_writes_known [of k "el_writes cs" Map.empty] by (auto simp: el_known_def el_tx_bind 1)
    moreover have "k \<notin> fst ` set (el_kvs l)"
      using False that(1) r b(5) c assms(3) by (force simp: covered_def el_known_def el_idle_def bind_eq_Some_conv)
    ultimately have "el_behind M l2 k = el_behind M l1 k" by (simp add: 2(8) 1(3) apply_writes_other image_Un)
    with False after show ?thesis using 1(2) c by (simp add: el_view_def el_known_def)
  qed (simp add: after)
  have "el_idle l2" using 2(3-5) by (simp add: el_idle_def)
  with 2(1,2,6) show ?thesis
    using view after kept 2(8) [unfolded 1(3,4)] by blast
qed

theorem exec_local_commit_publishes_witness:
  "let api = chain_api list_memdb no_listing;
       l1 = fold (el_run api) [EGet ''a'', ESet ''a'' (Some ''1''), ESet ''b'' (Some ''2''), ESet ''b'' None]
         (el_Begin fresh_local)
   in \<exists>l2. el_Commit api l1 = (Ok (), l2) \<and> el_view list_memdb l1 ''a'' = Some ''1'' \<and>
      el_view list_memdb l1 ''b'' = None \<and> el_behind list_memdb l2 ''a'' = Some ''1'' \<and>
      el_behind list_memdb l2 ''b'' = None"
proof -
  let ?cs = "[EGet ''a'', ESet ''a'' (Some ''1''), ESet ''b'' (Some ''2''), ESet ''b'' None]"
  let ?l1 = "fold (el_run (chain_api list_memdb no_listing)) ?cs (el_Begin fresh_local)"
  obtain l2 where "el_Commit (chain_api list_memdb no_listing) ?l1 = (Ok (), l2)"
    "el_view list_memdb ?l1 = el_view list_memdb fresh_local ++ tx_writes (el_writes ?cs) Map.empty"
    "el_behind list_memdb l2 = apply_writes (el_writes ?cs) (el_behind list_memdb fresh_local)"
    using exec_local_commit_publishes [OF list_memdb_ok fresh_local_ok(1,3) refl, of no_listing ?cs]
      fresh_local_ok(4) by auto
  then show ?thesis
    unfolding Let_def by (auto simp: setmap_def apply_writes_def written_def fresh_local_ok(5))
qed

text \<open>
  C8: A rolled-back write of the executor's local database is not forgotten. \<open>Rollback\<close> drops the
  transaction cache but not the list of pending writes, so the next transaction that writes
  anything and commits also sends the rolled-back write to the chain, where the executor itself
  then reads it: whenever the key was neither cached nor stored, \<open>Begin; Set k v; Rollback\<close>
  followed by \<open>Begin; Set k' v'; Commit\<close> makes a read of \<open>k\<close> return the rolled-back \<open>v\<close>.
\<close>
theorem rolled_back_write_is_published:
  assumes "memdb_ok M" and "el_inv l" and "el_idle l" and "el_cache l = Some c" and "c k = None"
    and "el_view M l k = None" and "el_kvs l = []" and "v \<noteq> []" and "k \<noteq> k'"
    and "api = chain_api M li"
    and "l1 = snd (el_Rollback api (snd (el_Set api k (Some v) (el_Begin l))))"
    and "l2 = snd (el_Commit api (snd (el_Set api k' (Some v') (el_Begin l1))))"
  shows "el_view M l1 k = None \<and> fst (el_Get api k l2) = Ok v"
proof -
  have d: "\<not> el_intx l" "\<not> el_hasbegin l" "el_txcache l = None" "\<not> el_disablewrite l"
    using assms(2,3) by (simp_all add: el_idle_def el_inv_def)
  have l1: "l1 = l\<lparr>el_keys := [], el_kvs := [(k, Some v)]\<rparr>"
    using assms(7,10,11) d
    by (simp add: el_Begin_def el_Set_def el_Rollback_def el_resetTx_def Let_def)
  have i1: "el_inv l1" "el_idle l1" using assms(2,3) by (simp_all add: l1 el_inv_def el_idle_def)
  have v1: "el_view M l1 k = None"
    using assms(6) d by (simp add: l1 el_view_def el_behind_def cong: option.case_cong)
  let ?l3 = "snd (el_Set api k' (Some v') (el_Begin l1))"
  have s: "el_inv ?l3" "el_kvs ?l3 = [(k, Some v), (k', Some v')]" "el_cache ?l3 = Some c"
    "el_txcache ?l3 = Some [k' \<mapsto> v']"
    using el_Set_effect [OF el_Begin_effect(1) [OF i1], of api k' v'] assms(4) d
    by (simp_all add: l1 el_Begin_def el_Set_def setmap_def Let_def)
  obtain l4 where 4: "el_Commit api ?l3 = (Ok (), l4)" "el_inv l4" "\<not> el_intx l4"
    "el_cache l4 = Some (c ++ (\<lambda>k. map_option Some (Option.bind (el_txcache ?l3) (\<lambda>m. m k))))"
    "el_behind M l4 = apply_writes (el_kvs ?l3) (el_behind M ?l3)"
    using el_Commit_effect [OF assms(1) s(1) s(3), of li] unfolding assms(10) by blast
  have l2: "l2 = l4" using 4(1) assms(12) by simp
  have "el_view M l2 k = Some v"
    using 4(3-5) assms(5,8,9)
    by (cases v) (simp_all add: l2 el_view_def s map_add_def apply_writes_def written_def)
  then have "fst (el_Get api k l2) = Ok v"
    using el_Get_effect [OF assms(1) 4(2), of li k] assms(10) by (simp add: l2)
  with v1 show ?thesis ..
qed

theorem rolled_back_write_is_published_witness:
  "let api = chain_api list_memdb no_listing;
       l1 = snd (el_Rollback api (snd (el_Set api ''a'' (Some ''1'') (el_Begin fresh_local))));
       l2 = snd (el_Commit api (snd (el_Set api ''b'' (Some ''2'') (el_Begin l1))))
   in fst (el_Get api ''a'' l2) = Ok ''1''"
  unfolding Let_def
  using rolled_back_write_is_published [OF list_memdb_ok fresh_local_ok(1,3,6) _ _ fresh_local_ok(4),
      of "''a''" "''1''" "''b''"] fresh_local_ok(5) by simp

end
