(* ===== verification/Mavl_Node.thy ===== *)
theory Mavl_Node
  imports Dpos_Prelude
begin

text \<open>
  The nodes and trees of the MAVL state store: \<^verbatim>\<open>system/store/mavl/db/node.go\<close>,
  \<^verbatim>\<open>tree.go\<close> and \<^verbatim>\<open>proof.go\<close>, with the hashes of leaf and inner nodes of
  \<^verbatim>\<open>types/types.go\<close>.  Persisted nodes are never changed in place by the code: every
  operation copies a node before it changes it, so that a node is a value here, with its
  children either in memory (\<open>leftNode\<close>, \<open>rightNode\<close>) or known by their hash only and
  loaded from the database.  The pruning and the in-memory mirror of the tree, two options of
  the configuration that are off by default, are not modelled: the configuration has the
  prefix and the MVCC switch.

  Protobuf, SHA-256 and the ARC cache are outside the repository and enter as the fields of
  \<open>mavl_env\<close>.  The cache is known by the history of the calls on it, and what a look-up
  returns may depend on all of that history.
\<close>

section \<open>Messages\<close>

record StoreNode =
  sn_Key :: bytes
  sn_Value :: bytes
  sn_LeftHash :: bytes
  sn_RightHash :: bytes
  sn_Height :: int
  sn_Size :: int

record LeafNode =
  lf_Key :: bytes
  lf_Value :: bytes
  lf_Height :: int
  lf_Size :: int

record InnerNode =
  in_LeftHash :: bytes
  in_RightHash :: bytes
  in_Height :: int
  in_Size :: int

record MAVLProof =
  mp_LeafHash :: bytes
  mp_InnerNodes :: "InnerNode list"
  mp_RootHash :: bytes

section \<open>Nodes, the node database and trees\<close>

text \<open>
  \<^verbatim>\<open>Node\<close>.  A nil slice and an empty one are the same for keys and values, which are only
  compared by content; hashes are compared with nil, so they are optional.
\<close>

datatype Node = Node (nkey: bytes) (nvalue: bytes) (nheight: int) (nsize: int)
  (nhash: "bytes option") (leftHash: "bytes option") (leftNode: "Node option")
  (rightHash: "bytes option") (rightNode: "Node option") (persisted: bool)

definition upd_left :: "bytes option \<Rightarrow> Node option \<Rightarrow> Node \<Rightarrow> Node" where
  "upd_left lh ln n = Node (nkey n) (nvalue n) (nheight n) (nsize n) (nhash n) lh ln
     (rightHash n) (rightNode n) (persisted n)"

definition upd_right :: "bytes option \<Rightarrow> Node option \<Rightarrow> Node \<Rightarrow> Node" where
  "upd_right rh rn n = Node (nkey n) (nvalue n) (nheight n) (nsize n) (nhash n) (leftHash n)
     (leftNode n) rh rn (persisted n)"

definition upd_key :: "bytes \<Rightarrow> Node \<Rightarrow> Node" where
  "upd_key k n = Node k (nvalue n) (nheight n) (nsize n) (nhash n) (leftHash n) (leftNode n)
     (rightHash n) (rightNode n) (persisted n)"

definition upd_dims :: "int \<Rightarrow> int \<Rightarrow> Node \<Rightarrow> Node" where
  "upd_dims h s n = Node (nkey n) (nvalue n) h s (nhash n) (leftHash n) (leftNode n)
     (rightHash n) (rightNode n) (persisted n)"

definition upd_saved :: "bytes option \<Rightarrow> Node \<Rightarrow> Node" where
  "upd_saved h n = Node (nkey n) (nvalue n) (nheight n) (nsize n) h (leftHash n) (leftNode n)
     (rightHash n) (rightNode n) True"

text \<open>What has happened to the ARC cache, latest first.\<close>

datatype cache_ev = CGet bytes | CAdd bytes Node | CRemove bytes

record TreeConfig =
  EnableMavlPrefix :: bool
  EnableMVCC :: bool

record nodeDB =
  nd_batch :: "(bytes \<times> bytes) list option"
  nd_orphans :: "bytes list"

record Tree =
  t_root :: "Node option"
  t_ndb :: "nodeDB option"
  t_blockHeight :: int
  t_config :: "TreeConfig option"

text \<open>
  The database and its cache are shared by all trees; the batch and the orphans belong to the
  node database of one tree.  An operation of a tree runs on both.
\<close>

record kvdb =
  kd_map :: "bytes \<Rightarrow> bytes option"
  kd_cache :: "cache_ev list option"

record world =
  w_db :: kvdb
  w_tree :: Tree

record mavl_env =
  me_Sha256 :: "bytes \<Rightarrow> bytes"
  me_LeafBytes :: "LeafNode \<Rightarrow> bytes"
  me_InnerBytes :: "InnerNode \<Rightarrow> bytes"
  me_StoreBytes :: "StoreNode \<Rightarrow> bytes"
  me_StoreParse :: "bytes \<Rightarrow> StoreNode option"
  me_ProofBytes :: "MAVLProof \<Rightarrow> bytes"
  me_ProofParse :: "bytes \<Rightarrow> MAVLProof option"
  me_Arc :: "cache_ev list \<Rightarrow> bytes \<Rightarrow> Node option"

definition raw :: "bytes option \<Rightarrow> bytes" where
  "raw h = (case h of None \<Rightarrow> [] | Some x \<Rightarrow> x)"

definition nilable :: "bytes \<Rightarrow> bytes option" where
  "nilable b = (if b = [] then None else Some b)"

section \<open>Hashes\<close>

definition LeafNode_Hash :: "mavl_env \<Rightarrow> LeafNode \<Rightarrow> bytes" where
  "LeafNode_Hash C lf = me_Sha256 C (me_LeafBytes C lf)"

definition last_bytes :: "nat \<Rightarrow> bytes \<Rightarrow> bytes" where
  "last_bytes n b = (if length b > n then drop (length b - n) b else b)"

definition InnerNode_Hash :: "mavl_env \<Rightarrow> InnerNode \<Rightarrow> bytes" where
  "InnerNode_Hash C i =
    me_Sha256 C (me_InnerBytes C (i\<lparr>in_RightHash := last_bytes 32 (in_RightHash i),
                                     in_LeftHash := last_bytes 32 (in_LeftHash i)\<rparr>))"

text \<open>\<^verbatim>\<open>%010d\<close>: the decimal digits, padded with zeros to ten characters, the sign included.\<close>

fun digits :: "nat \<Rightarrow> string" where
  "digits n = (if n < 10 then [char_of (48 + n)] else digits (n div 10) @ [char_of (48 + n mod 10)])"

declare digits.simps [simp del]

definition pad_zeros :: "nat \<Rightarrow> string \<Rightarrow> string" where
  "pad_zeros w s = replicate (w - length s) (CHR ''0'') @ s"

definition fmt_010d :: "int \<Rightarrow> string" where
  "fmt_010d x = (if x < 0 then ''-'' @ pad_zeros 9 (digits (nat (- x))) else pad_zeros 10 (digits (nat x)))"

definition hashNodePrefix :: string where "hashNodePrefix = ''_mh_''"
definition leafNodePrefix :: string where "leafNodePrefix = ''_mb_''"

definition genPrefixHashKey :: "int \<Rightarrow> int \<Rightarrow> bytes" where
  "genPrefixHashKey ht blockHeight =
    (if ht = 0 then leafNodePrefix @ ''-'' @ fmt_010d blockHeight @ ''-''
     else hashNodePrefix @ ''-'' @ fmt_010d blockHeight @ ''-'')"

definition bindR :: "'a outcome \<Rightarrow> ('a \<Rightarrow> 'b outcome) \<Rightarrow> 'b outcome" where
  "bindR m f = (case m of Ok x \<Rightarrow> f x | Fail e \<Rightarrow> Fail e | Panic \<Rightarrow> Panic)"

lemma bindR_simps [simp]: "bindR (Ok x) f = f x" "bindR (Fail e) f = Fail e" "bindR Panic f = Panic"
  by (simp_all add: bindR_def)

lemma bindR_cong [fundef_cong]:
  "m = m' \<Longrightarrow> (\<And>x. m' = Ok x \<Longrightarrow> f x = f' x) \<Longrightarrow> bindR m f = bindR m' f'"
  by (cases m') auto

text \<open>The block height prefix that every node but those as high as the root gets.\<close>

definition prefixHash :: "Tree \<Rightarrow> int \<Rightarrow> bytes \<Rightarrow> bytes outcome" where
  "prefixHash t ht h =
    (case t_config t of
       None \<Rightarrow> Ok h
     | Some c \<Rightarrow>
        if EnableMavlPrefix c
        then (case t_root t of None \<Rightarrow> Panic
              | Some root \<Rightarrow> Ok (if ht \<noteq> nheight root then genPrefixHashKey ht (t_blockHeight t) @ h else h))
        else Ok h)"

text \<open>\<^verbatim>\<open>Node.Hash\<close>: the node with its hash, and those below it, filled in.\<close>

fun nd_Hash :: "mavl_env \<Rightarrow> Tree \<Rightarrow> Node \<Rightarrow> Node outcome" where
  "nd_Hash C t (Node k v ht sz hs lh ln rh rn p) =
    (case hs of
       Some _ \<Rightarrow> Ok (Node k v ht sz hs lh ln rh rn p)
     | None \<Rightarrow>
        if ht = 0 then
          bindR (prefixHash t ht (LeafNode_Hash C \<lparr>lf_Key = k, lf_Value = v, lf_Height = ht, lf_Size = sz\<rparr>))
            (\<lambda>h. Ok (Node k v ht sz (Some h) lh ln rh rn p))
        else
          bindR (case ln of None \<Rightarrow> Ok (lh, None)
                 | Some l \<Rightarrow> bindR (nd_Hash C t l) (\<lambda>l'. Ok (nhash l', Some l')))
          (\<lambda>(lh', ln'). case lh' of None \<Rightarrow> Panic
           | Some lb \<Rightarrow>
              bindR (case rn of None \<Rightarrow> Ok (rh, None)
                     | Some r \<Rightarrow> bindR (nd_Hash C t r) (\<lambda>r'. Ok (nhash r', Some r')))
              (\<lambda>(rh', rn'). case rh' of None \<Rightarrow> Panic
               | Some rb \<Rightarrow>
                  bindR (prefixHash t ht
                     (InnerNode_Hash C \<lparr>in_LeftHash = lb, in_RightHash = rb, in_Height = ht, in_Size = sz\<rparr>))
                  (\<lambda>h. Ok (Node k v ht sz (Some h) lh' ln' rh' rn' p)))))"

section \<open>The node database\<close>

definition NewNode :: "bytes \<Rightarrow> bytes \<Rightarrow> Node" where
  "NewNode k v = Node k v 0 1 None None None None None False"

definition MakeNode :: "mavl_env \<Rightarrow> bytes \<Rightarrow> Node option" where
  "MakeNode C buf =
    (case me_StoreParse C buf of
       None \<Rightarrow> None
     | Some s \<Rightarrow>
        Some (if sn_Height s = 0
              then Node (sn_Key s) (sn_Value s) (sn_Height s) (sn_Size s) None None None None None False
              else Node (sn_Key s) [] (sn_Height s) (sn_Size s) None
                     (nilable (sn_LeftHash s)) None (nilable (sn_RightHash s)) None False))"

definition cache_event :: "cache_ev \<Rightarrow> world \<Rightarrow> world" where
  "cache_event e w = w\<lparr>w_db := (w_db w)\<lparr>kd_cache := map_option (Cons e) (kd_cache (w_db w))\<rparr>\<rparr>"

definition cacheNode :: "Node \<Rightarrow> world \<Rightarrow> world" where
  "cacheNode n w = (if nheight n > 2 then cache_event (CAdd (raw (nhash n)) n) w else w)"

definition GetNode :: "mavl_env \<Rightarrow> bytes option \<Rightarrow> (world, Node) op" where
  "GetNode C h w =
    (case t_ndb (w_tree w) of
       None \<Rightarrow> (Panic, w)
     | Some _ \<Rightarrow>
        let hit = (case kd_cache (w_db w) of None \<Rightarrow> None | Some hs \<Rightarrow> me_Arc C hs (raw h));
            w' = cache_event (CGet (raw h)) w
        in (case hit of
              Some n \<Rightarrow> (Ok n, w')
            | None \<Rightarrow>
               (case kd_map (w_db w) (raw h) of
                  None \<Rightarrow> (Fail ErrNodeNotExist, w')
                | Some buf \<Rightarrow>
                   if buf = [] then (Fail ErrNodeNotExist, w')
                   else (case MakeNode C buf of
                           None \<Rightarrow> (Panic, w')
                         | Some n \<Rightarrow> let n' = upd_saved h n in (Ok n', cacheNode n' w')))))"

definition storeNode :: "mavl_env \<Rightarrow> Tree \<Rightarrow> Node \<Rightarrow> bytes outcome" where
  "storeNode C t n =
    (let s = \<lparr>sn_Key = nkey n, sn_Value = [], sn_LeftHash = [], sn_RightHash = [],
              sn_Height = nheight n, sn_Size = nsize n\<rparr>
     in if nheight n = 0
        then Ok (me_StoreBytes C
               (if (case t_config t of None \<Rightarrow> True | Some c \<Rightarrow> \<not> EnableMVCC c)
                then s\<lparr>sn_Value := nvalue n\<rparr> else s))
        else (case (leftHash n, rightHash n) of
                (Some lh, Some rh) \<Rightarrow> Ok (me_StoreBytes C (s\<lparr>sn_LeftHash := lh, sn_RightHash := rh\<rparr>))
              | _ \<Rightarrow> Panic))"

definition SaveNode :: "mavl_env \<Rightarrow> Node \<Rightarrow> (world, Node) op" where
  "SaveNode C n w =
    (case t_ndb (w_tree w) of
       None \<Rightarrow> (Panic, w)
     | Some d \<Rightarrow>
        (case nhash n of
           None \<Rightarrow> (Panic, w)
         | Some h \<Rightarrow>
            if persisted n then (Panic, w)
            else (case (storeNode C (w_tree w) n, nd_batch d) of
                    (Ok buf, Some b) \<Rightarrow>
                      let n' = upd_saved (Some h) n;
                          d' = d\<lparr>nd_batch := Some (b @ [(h, buf)]),
                                 nd_orphans := removeAll h (nd_orphans d)\<rparr>
                      in (Ok n', cacheNode n' (w\<lparr>w_tree := (w_tree w)\<lparr>t_ndb := Some d'\<rparr>\<rparr>))
                  | _ \<Rightarrow> (Panic, w))))"

definition RemoveNode :: "Node \<Rightarrow> (world, unit) op" where
  "RemoveNode n w =
    (case t_ndb (w_tree w) of
       None \<Rightarrow> (Panic, w)
     | Some d \<Rightarrow>
        (case nhash n of
           None \<Rightarrow> (Panic, w)
         | Some h \<Rightarrow>
            if \<not> persisted n then (Panic, w)
            else (Ok (), cache_event (CRemove h)
                    (w\<lparr>w_tree := (w_tree w)\<lparr>t_ndb :=
                        Some (d\<lparr>nd_orphans := List.insert h (nd_orphans d)\<rparr>)\<rparr>\<rparr>))))"

text \<open>Writing the batch: later entries win.\<close>

definition write_batch :: "(bytes \<times> bytes) list \<Rightarrow> kvdb \<Rightarrow> kvdb" where
  "write_batch b d = d\<lparr>kd_map := fold (\<lambda>(k, v) m. m(k \<mapsto> v)) b (kd_map d)\<rparr>"

definition ndb_Commit :: "(world, unit) op" where
  "ndb_Commit w =
    (case t_ndb (w_tree w) of
       None \<Rightarrow> (Panic, w)
     | Some d \<Rightarrow>
        (case nd_batch d of
           None \<Rightarrow> (Panic, w)
         | Some b \<Rightarrow>
            (Ok (), w\<lparr>w_db := write_batch b (w_db w),
                      w_tree := (w_tree w)\<lparr>t_ndb := Some (d\<lparr>nd_batch := None, nd_orphans := []\<rparr>)\<rparr>\<rparr>)))"

definition removeOrphan :: "Node \<Rightarrow> (world, unit) op" where
  "removeOrphan n w =
    (if \<not> persisted n then (Ok (), w)
     else (case t_ndb (w_tree w) of None \<Rightarrow> (Ok (), w) | Some _ \<Rightarrow> RemoveNode n w))"

section \<open>Reading nodes\<close>

text \<open>
  The recursive readers and writers follow the children, which may have to be loaded, so they
  recurse on fuel; a call tree deeper than the fuel panics.  The callers give one more than the
  height of the root, which the refinement lemmas show to be enough.
\<close>

definition getLeftNode :: "mavl_env \<Rightarrow> Node \<Rightarrow> (world, Node) op" where
  "getLeftNode C n =
    (case leftNode n of Some l \<Rightarrow> returnO l | None \<Rightarrow> mustO (GetNode C (leftHash n)))"

definition getRightNode :: "mavl_env \<Rightarrow> Node \<Rightarrow> (world, Node) op" where
  "getRightNode C n =
    (case rightNode n of Some r \<Rightarrow> returnO r | None \<Rightarrow> mustO (GetNode C (rightHash n)))"

definition node_fuel :: "Node \<Rightarrow> nat" where
  "node_fuel n = Suc (nat (nheight n))"

fun nd_has :: "mavl_env \<Rightarrow> nat \<Rightarrow> bytes \<Rightarrow> Node \<Rightarrow> (world, bool) op" where
  "nd_has C 0 key n = panicO"
| "nd_has C (Suc f) key n =
    (if nkey n = key then returnO True
     else if nheight n = 0 then returnO False
     else if key < nkey n then andThen (getLeftNode C n) (nd_has C f key)
     else andThen (getRightNode C n) (nd_has C f key))"

fun nd_get :: "mavl_env \<Rightarrow> nat \<Rightarrow> bytes \<Rightarrow> Node \<Rightarrow> (world, int \<times> bytes \<times> bool) op" where
  "nd_get C 0 key n = panicO"
| "nd_get C (Suc f) key n =
    (if nheight n = 0 then
       (if nkey n = key then returnO (0, nvalue n, True)
        else if nkey n < key then returnO (1, [], False)
        else returnO (0, [], False))
     else if key < nkey n then andThen (getLeftNode C n) (nd_get C f key)
     else andThen (getRightNode C n) (\<lambda>r.
            andThen (nd_get C f key r) (\<lambda>(index, v, exists).
              returnO (i32 (index + i32 (nsize n - nsize r)), v, exists))))"

fun nd_getHash :: "mavl_env \<Rightarrow> nat \<Rightarrow> bytes \<Rightarrow> Node \<Rightarrow> (world, int \<times> bytes option \<times> bool) op" where
  "nd_getHash C 0 key n = panicO"
| "nd_getHash C (Suc f) key n =
    (if nheight n = 0 then
       (if nkey n = key then returnO (0, nhash n, True)
        else if nkey n < key then returnO (1, None, False)
        else returnO (0, None, False))
     else if key < nkey n then andThen (getLeftNode C n) (nd_getHash C f key)
     else andThen (getRightNode C n) (\<lambda>r.
            andThen (nd_getHash C f key r) (\<lambda>(index, h, exists).
              returnO (i32 (index + i32 (nsize n - nsize r)), h, exists))))"

fun nd_getByIndex :: "mavl_env \<Rightarrow> nat \<Rightarrow> int \<Rightarrow> Node \<Rightarrow> (world, bytes \<times> bytes) op" where
  "nd_getByIndex C 0 index n = panicO"
| "nd_getByIndex C (Suc f) index n =
    (if nheight n = 0 then (if index = 0 then returnO (nkey n, nvalue n) else panicO)
     else andThen (getLeftNode C n) (\<lambda>l.
            if index < nsize l then nd_getByIndex C f index l
            else andThen (getRightNode C n) (nd_getByIndex C f (i32 (index - nsize l)))))"

text \<open>
  \<^verbatim>\<open>traverseInRange\<close>, with the state of the callback threaded through; the flag of the
  result is the \<^verbatim>\<open>stop\<close> of the code.
\<close>

fun nd_traverse :: "mavl_env \<Rightarrow> nat \<Rightarrow> bytes option \<Rightarrow> bytes option \<Rightarrow> bool \<Rightarrow> bool \<Rightarrow> nat
    \<Rightarrow> (Node \<Rightarrow> nat \<Rightarrow> 'c \<Rightarrow> bool \<times> 'c) \<Rightarrow> Node \<Rightarrow> 'c \<Rightarrow> (world, bool \<times> 'c) op" where
  "nd_traverse C 0 start stp ascending inclusive depth cb n c = panicO"
| "nd_traverse C (Suc f) start stp ascending inclusive depth cb n c =
    (let afterStart = (case start of None \<Rightarrow> True | Some s \<Rightarrow> s \<le> nkey n);
         beforeEnd = (case stp of None \<Rightarrow> True
                      | Some e \<Rightarrow> if inclusive then nkey n \<le> e else nkey n < e);
         (stop, c1) = (if afterStart \<and> beforeEnd then cb n depth c else (False, c));
         d = (depth + 1) mod 256;
         down = nd_traverse C f start stp ascending inclusive d cb
     in if stop then returnO (True, c1)
        else if nheight n = 0 then returnO (False, c1)
        else if ascending then
          andThen (if afterStart then andThen (getLeftNode C n) (\<lambda>l. down l c1) else returnO (False, c1))
            (\<lambda>(stop, c2).
              if stop then returnO (True, c2)
              else if beforeEnd then andThen (getRightNode C n) (\<lambda>r. down r c2)
              else returnO (False, c2))
        else
          andThen (if beforeEnd then andThen (getRightNode C n) (\<lambda>r. down r c1) else returnO (False, c1))
            (\<lambda>(stop, c2).
              if stop then returnO (True, c2)
              else if afterStart then andThen (getLeftNode C n) (\<lambda>l. down l c2)
              else returnO (False, c2)))"

section \<open>Changing nodes\<close>

definition nd_copy :: "Node \<Rightarrow> (world, Node) op" where
  "nd_copy n =
    (if nheight n = 0 then panicO
     else returnO (Node (nkey n) [] (nheight n) (nsize n) None (leftHash n) (leftNode n)
                     (rightHash n) (rightNode n) False))"

definition maxInt32 :: "int \<Rightarrow> int \<Rightarrow> int" where
  "maxInt32 a b = (if a > b then a else b)"

definition calcHeightAndSize :: "mavl_env \<Rightarrow> Node \<Rightarrow> (world, Node) op" where
  "calcHeightAndSize C n =
    andThen (getLeftNode C n) (\<lambda>l.
    andThen (getRightNode C n) (\<lambda>r.
      returnO (upd_dims (i32 (maxInt32 (nheight l) (nheight r) + 1)) (i32 (nsize l + nsize r)) n)))"

definition calcBalance :: "mavl_env \<Rightarrow> Node \<Rightarrow> (world, int) op" where
  "calcBalance C n =
    andThen (getLeftNode C n) (\<lambda>l.
    andThen (getRightNode C n) (\<lambda>r. returnO (i64 (nheight l - nheight r))))"

definition rotateRight :: "mavl_env \<Rightarrow> Node \<Rightarrow> (world, Node) op" where
  "rotateRight C n =
    andThen (nd_copy n) (\<lambda>n.
    andThen (getLeftNode C n) (\<lambda>l.
    andThen (removeOrphan l) (\<lambda>_.
    andThen (nd_copy l) (\<lambda>l'.
      let n1 = upd_left (rightHash l') (rightNode l') n
      in andThen (calcHeightAndSize C n1) (\<lambda>n2.
           calcHeightAndSize C (upd_right (nhash n) (Some n2) l'))))))"

definition rotateLeft :: "mavl_env \<Rightarrow> Node \<Rightarrow> (world, Node) op" where
  "rotateLeft C n =
    andThen (nd_copy n) (\<lambda>n.
    andThen (getRightNode C n) (\<lambda>r.
    andThen (removeOrphan r) (\<lambda>_.
    andThen (nd_copy r) (\<lambda>r'.
      let n1 = upd_right (leftHash r') (leftNode r') n
      in andThen (calcHeightAndSize C n1) (\<lambda>n2.
           calcHeightAndSize C (upd_left (nhash n) (Some n2) r'))))))"

definition nd_balance :: "mavl_env \<Rightarrow> Node \<Rightarrow> (world, Node) op" where
  "nd_balance C n =
    (if persisted n then panicO
     else andThen (calcBalance C n) (\<lambda>b.
       if b > 1 then
         andThen (getLeftNode C n) (\<lambda>l.
         andThen (calcBalance C l) (\<lambda>bl.
           if bl \<ge> 0 then rotateRight C n
           else
             andThen (getLeftNode C n) (\<lambda>left.
             andThen (removeOrphan left) (\<lambda>_.
             andThen (rotateLeft C left) (\<lambda>left'.
               rotateRight C (upd_left None (Some left') n))))))
       else if b < -1 then
         andThen (getRightNode C n) (\<lambda>r.
         andThen (calcBalance C r) (\<lambda>br.
           if br \<le> 0 then rotateLeft C n
           else
             andThen (getRightNode C n) (\<lambda>right.
             andThen (removeOrphan right) (\<lambda>_.
             andThen (rotateRight C right) (\<lambda>right'.
               rotateLeft C (upd_right None (Some right') n))))))
       else returnO n))"

fun nd_set :: "mavl_env \<Rightarrow> nat \<Rightarrow> bytes \<Rightarrow> bytes \<Rightarrow> Node \<Rightarrow> (world, Node \<times> bool) op" where
  "nd_set C 0 key val n = panicO"
| "nd_set C (Suc f) key val n =
    (if nheight n = 0 then
       (if key < nkey n then
          returnO (Node (nkey n) [] 1 2 None None (Some (NewNode key val)) None (Some n) False, False)
        else if key = nkey n then
          andThen (removeOrphan n) (\<lambda>_. returnO (NewNode key val, True))
        else
          returnO (Node key [] 1 2 None None (Some n) None (Some (NewNode key val)) False, False))
     else
       andThen (removeOrphan n) (\<lambda>_.
       andThen (nd_copy n) (\<lambda>n.
       andThen (if key < nkey n
                then andThen (getLeftNode C n) (\<lambda>l.
                     andThen (nd_set C f key val l) (\<lambda>(l', updated).
                       returnO (upd_left None (Some l') n, updated)))
                else andThen (getRightNode C n) (\<lambda>r.
                     andThen (nd_set C f key val r) (\<lambda>(r', updated).
                       returnO (upd_right None (Some r') n, updated))))
         (\<lambda>(n, updated).
            if updated then returnO (n, True)
            else andThen (calcHeightAndSize C n) (\<lambda>n.
                 andThen (nd_balance C n) (\<lambda>n. returnO (n, False)))))))"

text \<open>
  \<^verbatim>\<open>remove\<close> returns the hash and the node that replace the node, the new smallest key when
  it changed, the removed value, and whether something was removed.
\<close>

fun nd_remove :: "mavl_env \<Rightarrow> nat \<Rightarrow> bytes \<Rightarrow> Node
    \<Rightarrow> (world, bytes option \<times> Node option \<times> bytes option \<times> bytes \<times> bool) op" where
  "nd_remove C 0 key n = panicO"
| "nd_remove C (Suc f) key n =
    (if nheight n = 0 then
       (if key = nkey n then
          andThen (removeOrphan n) (\<lambda>_. returnO (None, None, None, nvalue n, True))
        else returnO (nhash n, Some n, None, [], False))
     else if key < nkey n then
       andThen (getLeftNode C n) (\<lambda>l.
       andThen (nd_remove C f key l) (\<lambda>(newLeftHash, newLeftNode, newKey, val, removed).
         if \<not> removed then returnO (nhash n, Some n, None, val, False)
         else if newLeftHash = None \<and> newLeftNode = None then
           returnO (rightHash n, rightNode n, Some (nkey n), val, True)
         else
           andThen (removeOrphan n) (\<lambda>_.
           andThen (nd_copy n) (\<lambda>n.
           andThen (calcHeightAndSize C (upd_left newLeftHash newLeftNode n)) (\<lambda>n.
           andThen (nd_balance C n) (\<lambda>n.
             returnO (nhash n, Some n, newKey, val, True)))))))
     else
       andThen (getRightNode C n) (\<lambda>r.
       andThen (nd_remove C f key r) (\<lambda>(newRightHash, newRightNode, newKey, val, removed).
         if \<not> removed then returnO (nhash n, Some n, None, val, False)
         else if newRightHash = None \<and> newRightNode = None then
           returnO (leftHash n, leftNode n, None, val, True)
         else
           andThen (removeOrphan n) (\<lambda>_.
           andThen (nd_copy n) (\<lambda>n.
           andThen (calcHeightAndSize C
             ((case newKey of None \<Rightarrow> id | Some k \<Rightarrow> upd_key k) (upd_right newRightHash newRightNode n))) (\<lambda>n.
           andThen (nd_balance C n) (\<lambda>n.
             returnO (nhash n, Some n, None, val, True))))))))"

section \<open>Saving nodes\<close>

lemma bindR_Ok_iff: "bindR m f = Ok y \<longleftrightarrow> (\<exists>x. m = Ok x \<and> f x = Ok y)"
  by (cases m) auto

lemma case_option_Ok_iff:
  "(case x of None \<Rightarrow> Panic | Some y \<Rightarrow> f y) = Ok z \<longleftrightarrow> (\<exists>y. x = Some y \<and> f y = Ok z)"
  by (cases x) auto

lemma nd_Hash_size: "nd_Hash C t n = Ok n' \<Longrightarrow> size n' = size n"
proof (induction n arbitrary: n')
  case (Node k v ht sz hs lh ln rh rn p)
  show ?case
  proof (cases hs)
    case None
    then show ?thesis using Node
      by (cases ln; cases rn) (auto simp: bindR_Ok_iff case_option_Ok_iff split: if_splits)
  qed (use Node in auto)
qed

lemma child_size:
  "leftNode n = Some l \<Longrightarrow> size l < size n" "rightNode n = Some r \<Longrightarrow> size r < size n"
  by (cases n; simp)+

text \<open>
  \<^verbatim>\<open>Node.save\<close>: the children first, then the node; the references to the children are
  dropped.  The result is the saved node with the number of nodes written.
\<close>

function nd_save :: "mavl_env \<Rightarrow> Node \<Rightarrow> (world, Node \<times> int) op" where
  "nd_save C n w =
    andThen (\<lambda>w. (case nhash n of None \<Rightarrow> nd_Hash C (w_tree w) n | Some _ \<Rightarrow> Ok n, w)) (\<lambda>n1 w.
      if persisted n1 then (Ok (n1, 0), w)
      else
        andThen (\<lambda>w. case leftNode n1 of None \<Rightarrow> (Ok 0, w)
                     | Some l \<Rightarrow> andThen (\<lambda>w. nd_save C l w) (\<lambda>(_, c). returnO c) w) (\<lambda>leftNo w.
        andThen (\<lambda>w. case rightNode n1 of None \<Rightarrow> (Ok 0, w)
                     | Some r \<Rightarrow> andThen (\<lambda>w. nd_save C r w) (\<lambda>(_, c). returnO c) w) (\<lambda>rightNo w.
        andThen (SaveNode C (upd_right (rightHash n1) None (upd_left (leftHash n1) None n1))) (\<lambda>n2.
          returnO (n2, i64 (i64 (leftNo + rightNo) + 1))) w) w) w) w"
  by pat_completeness auto

termination nd_save
  by (relation "measure (\<lambda>(C, n, w). size n)")
    (auto simp: nd_Hash_size [symmetric] dest: child_size split: option.splits)

declare nd_save.simps [simp del]

section \<open>Trees\<close>

definition NewTree :: "bool \<Rightarrow> TreeConfig option \<Rightarrow> Tree" where
  "NewTree hasDB cfg =
    \<lparr>t_root = None,
     t_ndb = (if hasDB then Some \<lparr>nd_batch = Some [], nd_orphans = []\<rparr> else None),
     t_blockHeight = 0, t_config = cfg\<rparr>"

definition set_root :: "Node option \<Rightarrow> (world, unit) op" where
  "set_root n w = (Ok (), w\<lparr>w_tree := (w_tree w)\<lparr>t_root := n\<rparr>\<rparr>)"

definition SetBlockHeight :: "int \<Rightarrow> Tree \<Rightarrow> Tree" where
  "SetBlockHeight h t = t\<lparr>t_blockHeight := h\<rparr>"

definition t_Size :: "Tree \<Rightarrow> int" where
  "t_Size t = (case t_root t of None \<Rightarrow> 0 | Some n \<Rightarrow> nsize n)"

definition t_Height :: "Tree \<Rightarrow> int" where
  "t_Height t = (case t_root t of None \<Rightarrow> 0 | Some n \<Rightarrow> nheight n)"

definition t_Has :: "mavl_env \<Rightarrow> bytes \<Rightarrow> (world, bool) op" where
  "t_Has C key w =
    (case t_root (w_tree w) of None \<Rightarrow> (Ok False, w) | Some n \<Rightarrow> nd_has C (node_fuel n) key n w)"

definition t_Get :: "mavl_env \<Rightarrow> bytes \<Rightarrow> (world, int \<times> bytes \<times> bool) op" where
  "t_Get C key w =
    (case t_root (w_tree w) of None \<Rightarrow> (Ok (0, [], False), w) | Some n \<Rightarrow> nd_get C (node_fuel n) key n w)"

definition t_GetHash :: "mavl_env \<Rightarrow> bytes \<Rightarrow> (world, int \<times> bytes option \<times> bool) op" where
  "t_GetHash C key w =
    (case t_root (w_tree w) of None \<Rightarrow> (Ok (0, None, False), w)
     | Some n \<Rightarrow> nd_getHash C (node_fuel n) key n w)"

definition t_GetByIndex :: "mavl_env \<Rightarrow> int \<Rightarrow> (world, bytes \<times> bytes) op" where
  "t_GetByIndex C index w =
    (case t_root (w_tree w) of None \<Rightarrow> (Ok ([], []), w)
     | Some n \<Rightarrow> nd_getByIndex C (node_fuel n) index n w)"

definition t_Set :: "mavl_env \<Rightarrow> bytes \<Rightarrow> bytes \<Rightarrow> (world, bool) op" where
  "t_Set C key val w =
    (case t_root (w_tree w) of
       None \<Rightarrow> andThen (set_root (Some (NewNode key val))) (\<lambda>_. returnO False) w
     | Some n \<Rightarrow>
        andThen (nd_set C (node_fuel n) key val n) (\<lambda>(n', updated).
        andThen (set_root (Some n')) (\<lambda>_. returnO updated)) w)"

definition t_Remove :: "mavl_env \<Rightarrow> bytes \<Rightarrow> (world, bytes \<times> bool) op" where
  "t_Remove C key w =
    (case t_root (w_tree w) of
       None \<Rightarrow> (Ok ([], False), w)
     | Some n \<Rightarrow>
        andThen (nd_remove C (node_fuel n) key n) (\<lambda>(newRootHash, newRoot, _, val, removed).
          if \<not> removed then returnO ([], False)
          else if newRoot = None \<and> newRootHash \<noteq> None then
            andThen (mustO (GetNode C newRootHash)) (\<lambda>root.
            andThen (set_root (Some root)) (\<lambda>_. returnO (val, True)))
          else andThen (set_root newRoot) (\<lambda>_. returnO (val, True))) w)"

definition t_Hash :: "mavl_env \<Rightarrow> (world, bytes option) op" where
  "t_Hash C w =
    (case t_root (w_tree w) of
       None \<Rightarrow> (Ok None, w)
     | Some n \<Rightarrow>
        andThen (\<lambda>w. (nd_Hash C (w_tree w) n, w)) (\<lambda>n'.
        andThen (set_root (Some n')) (\<lambda>_. returnO (nhash n'))) w)"

definition t_Save :: "mavl_env \<Rightarrow> (world, bytes option) op" where
  "t_Save C w =
    (case t_root (w_tree w) of
       None \<Rightarrow> (Ok None, w)
     | Some n \<Rightarrow>
        (case t_ndb (w_tree w) of
           None \<Rightarrow> (Ok (nhash n), w)
         | Some _ \<Rightarrow>
            andThen (nd_save C n) (\<lambda>(n', _).
            andThen (set_root (Some n')) (\<lambda>_.
            andThen ndb_Commit (\<lambda>_. returnO (nhash n')))) w))"

definition emptyRoot :: bytes where
  "emptyRoot = replicate 32 (CHR 0x00)"

definition t_Load :: "mavl_env \<Rightarrow> bytes option \<Rightarrow> (world, unit) op" where
  "t_Load C h w =
    (case h of
       None \<Rightarrow> (Ok (), w)
     | Some hb \<Rightarrow>
        if hb \<noteq> emptyRoot
        then (case GetNode C h w of
                (Ok n, w') \<Rightarrow> set_root (Some n) w'
              | (Fail e, w') \<Rightarrow> (Fail e, snd (set_root None w'))
              | (Panic, w') \<Rightarrow> (Panic, w'))
        else (Ok (), w))"

definition t_Copy :: "mavl_env \<Rightarrow> (world, Tree) op" where
  "t_Copy C w =
    (let t = w_tree w in
     case t_root t of
       None \<Rightarrow> (Ok \<lparr>t_root = None, t_ndb = t_ndb t, t_blockHeight = 0, t_config = None\<rparr>, w)
     | Some n \<Rightarrow>
        if t_ndb t \<noteq> None \<and> \<not> persisted n then (Panic, w)
        else
          andThen (if t_ndb t = None \<and> nhash n = None
                   then andThen (\<lambda>w. (nd_Hash C (w_tree w) n, w)) (\<lambda>n'.
                        andThen (set_root (Some n')) (\<lambda>_. returnO n'))
                   else returnO n)
            (\<lambda>n'. returnO \<lparr>t_root = Some n', t_ndb = t_ndb t, t_blockHeight = 0, t_config = None\<rparr>) w)"

text \<open>The callback of the iterations sees the leaves only.\<close>

definition on_leaves :: "(bytes \<Rightarrow> bytes \<Rightarrow> 'c \<Rightarrow> bool \<times> 'c) \<Rightarrow> Node \<Rightarrow> nat \<Rightarrow> 'c \<Rightarrow> bool \<times> 'c" where
  "on_leaves fn n depth c = (if nheight n = 0 then fn (nkey n) (nvalue n) c else (False, c))"

definition t_Iterate :: "mavl_env \<Rightarrow> (bytes \<Rightarrow> bytes \<Rightarrow> 'c \<Rightarrow> bool \<times> 'c) \<Rightarrow> 'c \<Rightarrow> (world, bool \<times> 'c) op" where
  "t_Iterate C fn c w =
    (case t_root (w_tree w) of None \<Rightarrow> (Ok (False, c), w)
     | Some n \<Rightarrow> nd_traverse C (node_fuel n) None None True False 0 (on_leaves fn) n c w)"

definition t_IterateRange :: "mavl_env \<Rightarrow> bytes option \<Rightarrow> bytes option \<Rightarrow> bool
    \<Rightarrow> (bytes \<Rightarrow> bytes \<Rightarrow> 'c \<Rightarrow> bool \<times> 'c) \<Rightarrow> 'c \<Rightarrow> (world, bool \<times> 'c) op" where
  "t_IterateRange C start stp ascending fn c w =
    (case t_root (w_tree w) of None \<Rightarrow> (Ok (False, c), w)
     | Some n \<Rightarrow> nd_traverse C (node_fuel n) start stp ascending False 0 (on_leaves fn) n c w)"

definition t_IterateRangeInclusive :: "mavl_env \<Rightarrow> bytes option \<Rightarrow> bytes option \<Rightarrow> bool
    \<Rightarrow> (bytes \<Rightarrow> bytes \<Rightarrow> 'c \<Rightarrow> bool \<times> 'c) \<Rightarrow> 'c \<Rightarrow> (world, bool \<times> 'c) op" where
  "t_IterateRangeInclusive C start stp ascending fn c w =
    (case t_root (w_tree w) of None \<Rightarrow> (Ok (False, c), w)
     | Some n \<Rightarrow> nd_traverse C (node_fuel n) start stp ascending True 0 (on_leaves fn) n c w)"

section \<open>Proofs\<close>

text \<open>\<^verbatim>\<open>Proof\<close> has the fields of the message \<^verbatim>\<open>MAVLProof\<close>.\<close>

definition InnerNodeProofHash :: "mavl_env \<Rightarrow> bytes \<Rightarrow> InnerNode \<Rightarrow> bytes" where
  "InnerNodeProofHash C childHash branch =
    InnerNode_Hash C
     (if in_LeftHash branch = []
      then \<lparr>in_LeftHash = childHash, in_RightHash = in_RightHash branch,
            in_Height = in_Height branch, in_Size = in_Size branch\<rparr>
      else \<lparr>in_LeftHash = in_LeftHash branch, in_RightHash = childHash,
            in_Height = in_Height branch, in_Size = in_Size branch\<rparr>)"

definition proof_Verify :: "mavl_env \<Rightarrow> MAVLProof \<Rightarrow> bytes \<Rightarrow> bytes \<Rightarrow> bytes \<Rightarrow> bool" where
  "proof_Verify C p key val root =
    (if mp_RootHash p \<noteq> root then False
     else
       let leafHash = LeafNode_Hash C \<lparr>lf_Key = key, lf_Value = val, lf_Height = 0, lf_Size = 1\<rparr>
       in if leafHash \<noteq> last_bytes 32 (mp_LeafHash p) then False
          else mp_RootHash p = foldl (InnerNodeProofHash C) leafHash (mp_InnerNodes p))"

definition ReadProof :: "mavl_env \<Rightarrow> bytes \<Rightarrow> bytes \<Rightarrow> bytes \<Rightarrow> MAVLProof outcome" where
  "ReadProof C roothash leafhash data =
    (case me_ProofParse C data of
       None \<Rightarrow> Fail ErrUnmarshal
     | Some m \<Rightarrow> Ok \<lparr>mp_LeafHash = leafhash, mp_InnerNodes = mp_InnerNodes m, mp_RootHash = roothash\<rparr>)"

text \<open>\<^verbatim>\<open>constructProof\<close> fills in the value and the proof; nothing when the key is absent.\<close>

fun nd_constructProof :: "mavl_env \<Rightarrow> nat \<Rightarrow> bytes \<Rightarrow> Node \<Rightarrow> bytes \<times> MAVLProof
    \<Rightarrow> (world, bool \<times> bytes \<times> MAVLProof) op" where
  "nd_constructProof C 0 key n vp = panicO"
| "nd_constructProof C (Suc f) key n vp =
    (if nheight n = 0 then
       (if nkey n = key then returnO (True, nvalue n, (snd vp)\<lparr>mp_LeafHash := raw (nhash n)\<rparr>)
        else returnO (False, vp))
     else if key < nkey n then
       andThen (getLeftNode C n) (\<lambda>l.
       andThen (nd_constructProof C f key l vp) (\<lambda>(exists, v, p).
         if \<not> exists then returnO (False, v, p)
         else andThen (getRightNode C n) (\<lambda>r.
           returnO (True, v, p\<lparr>mp_InnerNodes := mp_InnerNodes p @
             [\<lparr>in_LeftHash = [], in_RightHash = raw (nhash r),
               in_Height = nheight n, in_Size = nsize n\<rparr>]\<rparr>))))
     else
       andThen (getRightNode C n) (\<lambda>r.
       andThen (nd_constructProof C f key r vp) (\<lambda>(exists, v, p).
         if \<not> exists then returnO (False, v, p)
         else andThen (getLeftNode C n) (\<lambda>l.
           returnO (True, v, p\<lparr>mp_InnerNodes := mp_InnerNodes p @
             [\<lparr>in_LeftHash = raw (nhash l), in_RightHash = [],
               in_Height = nheight n, in_Size = nsize n\<rparr>]\<rparr>)))))"

definition t_ConstructProof :: "mavl_env \<Rightarrow> bytes \<Rightarrow> (world, bytes \<times> MAVLProof option) op" where
  "t_ConstructProof C key w =
    (case t_root (w_tree w) of
       None \<Rightarrow> (Ok ([], None), w)
     | Some n \<Rightarrow>
        andThen (\<lambda>w. (nd_Hash C (w_tree w) n, w)) (\<lambda>n'.
        andThen (set_root (Some n')) (\<lambda>_.
        andThen (nd_constructProof C (node_fuel n') key n'
          ([], \<lparr>mp_LeafHash = [], mp_InnerNodes = [], mp_RootHash = raw (nhash n')\<rparr>))
        (\<lambda>(exists, v, p). returnO (if exists then (v, Some p) else ([], None))))) w)"

definition t_Proof :: "mavl_env \<Rightarrow> bytes \<Rightarrow> (world, bytes \<times> bytes \<times> bool) op" where
  "t_Proof C key =
    andThen (t_ConstructProof C key) (\<lambda>(v, p).
      case p of None \<Rightarrow> returnO ([], [], False)
      | Some p \<Rightarrow>
         returnO (v, me_ProofBytes C \<lparr>mp_LeafHash = [], mp_InnerNodes = mp_InnerNodes p, mp_RootHash = []\<rparr>, True))"

section \<open>Calls on a database\<close>

type_synonym kv = "bytes \<times> bytes"

text \<open>Each call opens a tree of its own on the shared database; the tree is gone afterwards.\<close>

definition with_tree :: "Tree \<Rightarrow> (world, 'a) op \<Rightarrow> (kvdb, 'a) op" where
  "with_tree t m d = (case m \<lparr>w_db = d, w_tree = t\<rparr> of (r, w) \<Rightarrow> (r, w_db w))"

fun t_SetAll :: "mavl_env \<Rightarrow> kv list \<Rightarrow> (world, unit) op" where
  "t_SetAll C [] = returnO ()"
| "t_SetAll C ((k, v) # kvs) = andThen (t_Set C k v) (\<lambda>_. t_SetAll C kvs)"

fun t_GetAll :: "mavl_env \<Rightarrow> bytes list \<Rightarrow> (world, bytes list) op" where
  "t_GetAll C [] = returnO []"
| "t_GetAll C (k # ks) =
    andThen (t_Get C k) (\<lambda>(_, v, exists).
    andThen (t_GetAll C ks) (\<lambda>vs. returnO ((if exists then v else []) # vs)))"

fun t_RemoveAll :: "mavl_env \<Rightarrow> bytes list \<Rightarrow> (world, bytes list) op" where
  "t_RemoveAll C [] = returnO []"
| "t_RemoveAll C (k # ks) =
    andThen (t_Remove C k) (\<lambda>(v, removed).
    andThen (t_RemoveAll C ks) (\<lambda>vs. returnO ((if removed then v else []) # vs)))"

definition SetKVPair :: "mavl_env \<Rightarrow> TreeConfig option \<Rightarrow> bytes option \<Rightarrow> int \<Rightarrow> kv list
    \<Rightarrow> (kvdb, bytes option) op" where
  "SetKVPair C cfg stateHash height kvs =
    with_tree (SetBlockHeight height (NewTree True cfg))
      (andThen (t_Load C stateHash) (\<lambda>_. andThen (t_SetAll C kvs) (\<lambda>_. t_Save C)))"

text \<open>\<^verbatim>\<open>GetKVPair\<close> returns a value per key even when the root cannot be loaded.\<close>

definition GetKVPair :: "mavl_env \<Rightarrow> TreeConfig option \<Rightarrow> bytes option \<Rightarrow> bytes list
    \<Rightarrow> (kvdb, bytes list \<times> err option) op" where
  "GetKVPair C cfg stateHash keys =
    with_tree (NewTree True cfg)
      (\<lambda>w. case t_Load C stateHash w of
         (Ok _, w') \<Rightarrow> andThen (t_GetAll C keys) (\<lambda>vs. returnO (vs, None)) w'
       | (Fail e, w') \<Rightarrow> (Ok (replicate (length keys) [], Some e), w')
       | (Panic, w') \<Rightarrow> (Panic, w'))"

definition GetKVPairProof :: "mavl_env \<Rightarrow> TreeConfig option \<Rightarrow> bytes option \<Rightarrow> bytes
    \<Rightarrow> (kvdb, bytes option) op" where
  "GetKVPairProof C cfg roothash key =
    with_tree (NewTree True cfg)
      (andThen (t_Load C roothash) (\<lambda>_.
       andThen (t_Proof C key) (\<lambda>(_, p, exit). returnO (if exit then Some p else None))))"

definition DelKVPair :: "mavl_env \<Rightarrow> TreeConfig option \<Rightarrow> bytes option \<Rightarrow> bytes list
    \<Rightarrow> (kvdb, bytes option \<times> bytes list) op" where
  "DelKVPair C cfg stateHash keys =
    with_tree (NewTree True cfg)
      (andThen (t_Load C stateHash) (\<lambda>_.
       andThen (t_RemoveAll C keys) (\<lambda>vs. andThen (t_Save C) (\<lambda>h. returnO (h, vs)))))"

text \<open>A proof that does not parse leaves a nil \<^verbatim>\<open>proofnode\<close>, which \<^verbatim>\<open>Verify\<close> dereferences.\<close>

definition VerifyKVPairProof :: "mavl_env \<Rightarrow> bytes \<Rightarrow> kv \<Rightarrow> bytes \<Rightarrow> bool outcome" where
  "VerifyKVPairProof C roothash kv p =
    (let leafHash = LeafNode_Hash C \<lparr>lf_Key = fst kv, lf_Value = snd kv, lf_Height = 0, lf_Size = 1\<rparr>
     in case ReadProof C roothash leafHash p of
          Ok q \<Rightarrow> Ok (proof_Verify C q (fst kv) (snd kv) roothash)
        | _ \<Rightarrow> Panic)"

definition IterateRangeByStateHash :: "mavl_env \<Rightarrow> TreeConfig option \<Rightarrow> bytes option \<Rightarrow> bytes option
    \<Rightarrow> bytes option \<Rightarrow> bool \<Rightarrow> (bytes \<Rightarrow> bytes \<Rightarrow> 'c \<Rightarrow> bool \<times> 'c) \<Rightarrow> 'c \<Rightarrow> (kvdb, 'c) op" where
  "IterateRangeByStateHash C cfg statehash start stp ascending fn c =
    with_tree (NewTree True cfg)
      (\<lambda>w. case t_Load C statehash w of
         (Ok _, w') \<Rightarrow> andThen (t_IterateRange C start stp ascending fn c) (\<lambda>(_, c'). returnO c') w'
       | (Fail e, w') \<Rightarrow> (Ok c, w')
       | (Panic, w') \<Rightarrow> (Panic, w'))"

end
