(* ===== verification/Mavl_Shape.thy ===== *)
theory Mavl_Shape
  imports Dpos_Prelude
begin

text \<open>
  The trees that the MAVL store of \<^verbatim>\<open>system/store/mavl/db\<close> holds, without the storage: a
  leaf-oriented search tree whose inner nodes carry the smallest key of their right
  subtree.  The theory defines insertion, removal and rebalancing on such trees, and
  proves what they do to the sorted list of bindings and to the AVL balance.  It is the
  specification that the node operations of the store are shown to implement.
\<close>

datatype mtree = MLeaf bytes bytes | MInner bytes mtree mtree

fun mheight :: "mtree \<Rightarrow> nat" where
  "mheight (MLeaf _ _) = 0"
| "mheight (MInner _ l r) = Suc (max (mheight l) (mheight r))"

fun msize :: "mtree \<Rightarrow> nat" where
  "msize (MLeaf _ _) = 1"
| "msize (MInner _ l r) = msize l + msize r"

fun leaves :: "mtree \<Rightarrow> (bytes \<times> bytes) list" where
  "leaves (MLeaf k v) = [(k, v)]"
| "leaves (MInner _ l r) = leaves l @ leaves r"

fun subtrees :: "mtree \<Rightarrow> mtree set" where
  "subtrees (MLeaf k v) = {MLeaf k v}"
| "subtrees (MInner k l r) = insert (MInner k l r) (subtrees l \<union> subtrees r)"

definition first_key :: "mtree \<Rightarrow> bytes" where
  "first_key T = fst (hd (leaves T))"

text \<open>Every inner key is the first key of the right subtree.\<close>

fun keyed :: "mtree \<Rightarrow> bool" where
  "keyed (MLeaf _ _) \<longleftrightarrow> True"
| "keyed (MInner k l r) \<longleftrightarrow> k = first_key r \<and> keyed l \<and> keyed r"

fun avl :: "mtree \<Rightarrow> bool" where
  "avl (MLeaf _ _) \<longleftrightarrow> True"
| "avl (MInner _ l r) \<longleftrightarrow>
     mheight l \<le> Suc (mheight r) \<and> mheight r \<le> Suc (mheight l) \<and> avl l \<and> avl r"

definition ordered :: "mtree \<Rightarrow> bool" where
  "ordered T \<longleftrightarrow> sorted_wrt (<) (map fst (leaves T)) \<and> keyed T"

definition mtree_ok :: "mtree \<Rightarrow> bool" where
  "mtree_ok T \<longleftrightarrow> ordered T \<and> avl T"

section \<open>Shape facts\<close>

lemma leaves_ne [simp]: "leaves T \<noteq> []"
  by (induction T) auto

lemma length_leaves: "length (leaves T) = msize T"
  by (induction T) auto

lemma msize_pos [simp]: "0 < msize T"
  by (induction T) auto

lemma mheight_lt_msize: "mheight T < msize T"
proof (induction T)
  case (MInner k l r)
  then show ?case using msize_pos [of l] msize_pos [of r] by (simp add: max_def)
qed simp

lemma subtrees_self [simp]: "T \<in> subtrees T"
  by (cases T) auto

lemma subtrees_trans: "A \<in> subtrees B \<Longrightarrow> B \<in> subtrees T \<Longrightarrow> A \<in> subtrees T"
  by (induction T) auto

lemma finite_subtrees [simp]: "finite (subtrees T)"
  by (induction T) auto

lemma first_key_leaf [simp]: "first_key (MLeaf k v) = k"
  by (simp add: first_key_def)

lemma first_key_inner [simp]: "first_key (MInner k l r) = first_key l"
  by (simp add: first_key_def)

lemma first_key_in: "first_key T \<in> fst ` set (leaves T)"
  by (simp add: first_key_def)

lemma ordered_leaf [simp]: "ordered (MLeaf k v)"
  by (simp add: ordered_def)

lemma first_key_least:
  "sorted_wrt (<) (map fst (leaves T)) \<Longrightarrow> x \<in> fst ` set (leaves T) \<Longrightarrow> first_key T \<le> x"
  by (cases "leaves T") (auto simp: first_key_def less_imp_le)

lemma ordered_inner:
  "ordered (MInner k l r) \<longleftrightarrow>
     ordered l \<and> ordered r \<and> k = first_key r \<and> (\<forall>x \<in> fst ` set (leaves l). x < k)"
  (is "?L \<longleftrightarrow> ?R")
proof
  assume ?L then show ?R
    using first_key_in [of r] by (fastforce simp: ordered_def sorted_wrt_append)
next
  assume R: ?R
  have "x < y" if "x \<in> fst ` set (leaves l)" "y \<in> fst ` set (leaves r)" for x y
    using R that first_key_least [of r y] unfolding ordered_def by fastforce
  with R show ?L by (auto simp: ordered_def sorted_wrt_append)
qed

lemma ordered_subtree: "ordered T \<Longrightarrow> S \<in> subtrees T \<Longrightarrow> ordered S"
  by (induction T) (auto simp: ordered_inner)

section \<open>Lookup\<close>

fun m_get :: "bytes \<Rightarrow> mtree \<Rightarrow> bytes option" where
  "m_get key (MLeaf k v) = (if k = key then Some v else None)"
| "m_get key (MInner k l r) = (if key < k then m_get key l else m_get key r)"

text \<open>The rank of a key: how many keys of the tree are smaller.\<close>

definition rank :: "bytes \<Rightarrow> mtree \<Rightarrow> nat" where
  "rank key T = length (filter (\<lambda>p. fst p < key) (leaves T))"

lemma ordered_right_ge:
  "ordered (MInner k l r) \<Longrightarrow> x \<in> fst ` set (leaves r) \<Longrightarrow> k \<le> x"
  using first_key_least [of r x] by (auto simp: ordered_def sorted_wrt_append)

lemma ordered_left_lt:
  "ordered (MInner k l r) \<Longrightarrow> x \<in> fst ` set (leaves l) \<Longrightarrow> x < k"
  by (auto simp: ordered_inner)

lemma map_of_not_in: "x \<notin> fst ` set xs \<Longrightarrow> map_of xs x = None"
  by (simp add: map_of_eq_None_iff)

lemma m_get_leaves: "ordered T \<Longrightarrow> m_get key T = map_of (leaves T) key"
proof (induction T)
  case (MInner k l r)
  note o = MInner.prems
  have "key < k \<Longrightarrow> map_of (leaves r) key = None"
    using ordered_right_ge [OF o, of key] by (metis leD map_of_not_in)
  moreover have "\<not> key < k \<Longrightarrow> map_of (leaves l) key = None"
    using ordered_left_lt [OF o, of key] by (metis map_of_not_in)
  ultimately show ?case
    using MInner o by (auto simp: ordered_inner map_add_def split: option.splits)
qed auto

lemma rank_left: "ordered (MInner k l r) \<Longrightarrow> key < k \<Longrightarrow> rank key (MInner k l r) = rank key l"
  using ordered_right_ge [of k l r] by (fastforce simp: rank_def filter_empty_conv)

lemma rank_right:
  assumes "ordered (MInner k l r)" "\<not> key < k"
  shows "rank key (MInner k l r) = msize l + rank key r"
proof -
  have "filter (\<lambda>p. fst p < key) (leaves l) = leaves l"
    using assms ordered_left_lt [of k l r] by (fastforce simp: filter_id_conv)
  then show ?thesis by (simp add: rank_def length_leaves)
qed

section \<open>Insertion\<close>

definition rot_right :: "mtree \<Rightarrow> mtree" where
  "rot_right T = (case T of MInner k (MInner lk ll lr) r \<Rightarrow> MInner lk ll (MInner k lr r) | _ \<Rightarrow> T)"

definition rot_left :: "mtree \<Rightarrow> mtree" where
  "rot_left T = (case T of MInner k l (MInner rk rl rr) \<Rightarrow> MInner rk (MInner k l rl) rr | _ \<Rightarrow> T)"

fun skew :: "mtree \<Rightarrow> int" where
  "skew (MLeaf _ _) = 0"
| "skew (MInner _ l r) = int (mheight l) - int (mheight r)"

definition m_balance :: "bytes \<Rightarrow> mtree \<Rightarrow> mtree \<Rightarrow> mtree" where
  "m_balance k l r =
    (let b = skew (MInner k l r)
     in if b > 1 then rot_right (MInner k (if skew l \<ge> 0 then l else rot_left l) r)
        else if b < -1 then rot_left (MInner k l (if skew r \<le> 0 then r else rot_right r))
        else MInner k l r)"

fun m_set :: "bytes \<Rightarrow> bytes \<Rightarrow> mtree \<Rightarrow> mtree \<times> bool" where
  "m_set key val (MLeaf k v) =
    (if key < k then (MInner k (MLeaf key val) (MLeaf k v), False)
     else if key = k then (MLeaf key val, True)
     else (MInner key (MLeaf k v) (MLeaf key val), False))"
| "m_set key val (MInner k l r) =
    (if key < k then (let (l', u) = m_set key val l
                      in (if u then MInner k l' r else m_balance k l' r, u))
     else (let (r', u) = m_set key val r
           in (if u then MInner k l r' else m_balance k l r', u)))"

text \<open>The specification of insertion on the sorted list of bindings.\<close>

fun ins_kv :: "bytes \<Rightarrow> bytes \<Rightarrow> (bytes \<times> bytes) list \<Rightarrow> (bytes \<times> bytes) list" where
  "ins_kv key val [] = [(key, val)]"
| "ins_kv key val ((k, v) # xs) =
    (if key < k then (key, val) # (k, v) # xs
     else if key = k then (key, val) # xs
     else (k, v) # ins_kv key val xs)"

lemma leaves_rot_right [simp]: "leaves (rot_right T) = leaves T"
  by (auto simp: rot_right_def split: mtree.split)

lemma leaves_rot_left [simp]: "leaves (rot_left T) = leaves T"
  by (auto simp: rot_left_def split: mtree.split)

lemma keyed_rot_right: "keyed T \<Longrightarrow> keyed (rot_right T)"
  by (auto simp: rot_right_def split: mtree.split)

lemma keyed_rot_left: "keyed T \<Longrightarrow> keyed (rot_left T)"
  by (auto simp: rot_left_def split: mtree.split)

lemma leaves_balance [simp]: "leaves (m_balance k l r) = leaves l @ leaves r"
  by (simp add: m_balance_def Let_def)

lemma first_key_cong: "leaves T = leaves S \<Longrightarrow> first_key T = first_key S"
  by (simp add: first_key_def)

lemma first_key_rot [simp]: "first_key (rot_right T) = first_key T" "first_key (rot_left T) = first_key T"
  by (simp_all add: first_key_def)

lemma first_key_balance [simp]: "first_key (m_balance k l r) = first_key l"
  by (simp add: first_key_def)

lemma keyed_balance: "keyed (MInner k l r) \<Longrightarrow> keyed (m_balance k l r)"
  by (auto simp: m_balance_def Let_def intro!: keyed_rot_right keyed_rot_left)

lemma ordered_balance: "ordered (MInner k l r) \<Longrightarrow> ordered (m_balance k l r)"
  using keyed_balance [of k l r] by (simp add: ordered_def)

lemma msize_balance [simp]: "msize (m_balance k l r) = msize l + msize r"
  using leaves_balance [of k l r] length_leaves by (metis length_append)

lemma mheight_eq_0: "mheight T = 0 \<Longrightarrow> \<exists>k v. T = MLeaf k v"
  by (cases T) auto

lemma mheight_pos: "0 < mheight T \<Longrightarrow> \<exists>k l r. T = MInner k l r"
  by (cases T) auto

lemma balance_left:
  assumes "avl l" "avl r" "mheight l = mheight r + 2"
  shows "avl (m_balance k l r) \<and> mheight l \<le> mheight (m_balance k l r)
    \<and> mheight (m_balance k l r) \<le> Suc (mheight l)"
proof -
  obtain lk ll lr where l: "l = MInner lk ll lr" using mheight_pos [of l] assms by auto
  show ?thesis
  proof (cases "skew l \<ge> 0")
    case True
    then show ?thesis using assms l
      by (auto simp: m_balance_def rot_right_def max_def split: if_splits)
  next
    case False
    then have "0 < mheight lr" using l by auto
    then obtain mk ml mr where "lr = MInner mk ml mr" using mheight_pos by blast
    then show ?thesis using False assms l
      by (auto simp: m_balance_def rot_right_def rot_left_def max_def split: if_splits)
  qed
qed

lemma balance_right:
  assumes "avl l" "avl r" "mheight r = mheight l + 2"
  shows "avl (m_balance k l r) \<and> mheight r \<le> mheight (m_balance k l r)
    \<and> mheight (m_balance k l r) \<le> Suc (mheight r)"
proof -
  obtain rk rl rr where r: "r = MInner rk rl rr" using mheight_pos [of r] assms by auto
  show ?thesis
  proof (cases "skew r \<le> 0")
    case True
    then show ?thesis using assms r
      by (auto simp: m_balance_def rot_left_def max_def split: if_splits)
  next
    case False
    then have "0 < mheight rl" using r by auto
    then obtain mk ml mr where "rl = MInner mk ml mr" using mheight_pos by blast
    then show ?thesis using False assms r
      by (auto simp: m_balance_def rot_right_def rot_left_def max_def split: if_splits)
  qed
qed

lemma balance_none:
  "mheight l \<le> Suc (mheight r) \<Longrightarrow> mheight r \<le> Suc (mheight l) \<Longrightarrow> m_balance k l r = MInner k l r"
  by (simp add: m_balance_def Let_def)

lemma avl_balance:
  assumes "avl l" "avl r" "mheight l \<le> mheight r + 2" "mheight r \<le> mheight l + 2"
  shows "avl (m_balance k l r)"
    and "max (mheight l) (mheight r) \<le> mheight (m_balance k l r)"
    and "mheight (m_balance k l r) \<le> Suc (max (mheight l) (mheight r))"
proof -
  consider "mheight l = mheight r + 2" | "mheight r = mheight l + 2"
    | "mheight l \<le> Suc (mheight r)" "mheight r \<le> Suc (mheight l)"
    using assms by linarith
  then have "avl (m_balance k l r) \<and> max (mheight l) (mheight r) \<le> mheight (m_balance k l r)
    \<and> mheight (m_balance k l r) \<le> Suc (max (mheight l) (mheight r))"
  proof cases
    case 1 then show ?thesis using balance_left [OF assms(1,2), of k] by simp
  next
    case 2 then show ?thesis using balance_right [OF assms(1,2), of k] by simp
  next
    case 3 then show ?thesis using assms balance_none [OF 3, of k] by (simp add: max_def)
  qed
  then show "avl (m_balance k l r)"
    and "max (mheight l) (mheight r) \<le> mheight (m_balance k l r)"
    and "mheight (m_balance k l r) \<le> Suc (max (mheight l) (mheight r))" by auto
qed

lemma m_set_updated_height: "m_set key val T = (T', True) \<Longrightarrow> mheight T' = mheight T"
  by (induction T arbitrary: T') (auto split: if_splits prod.splits)

lemma m_set_avl:
  "avl T \<Longrightarrow> avl (fst (m_set key val T)) \<and> mheight T \<le> mheight (fst (m_set key val T))
     \<and> mheight (fst (m_set key val T)) \<le> Suc (mheight T)"
proof (induction T)
  case (MInner k l r)
  note a = MInner.prems
  obtain l' u where l': "m_set key val l = (l', u)" by fastforce
  obtain r' w where r': "m_set key val r = (r', w)" by fastforce
  have L: "avl l'" "mheight l \<le> mheight l'" "mheight l' \<le> Suc (mheight l)" "u \<Longrightarrow> mheight l' = mheight l"
    using MInner.IH(1) a l' m_set_updated_height [of key val l l'] by auto
  have R: "avl r'" "mheight r \<le> mheight r'" "mheight r' \<le> Suc (mheight r)" "w \<Longrightarrow> mheight r' = mheight r"
    using MInner.IH(2) a r' m_set_updated_height [of key val r r'] by auto
  have 1: "avl (m_balance k l' r)" "max (mheight l') (mheight r) \<le> mheight (m_balance k l' r)"
    "mheight (m_balance k l' r) \<le> Suc (max (mheight l') (mheight r))"
    using avl_balance [of l' r k] L a by auto
  have 2: "avl (m_balance k l r')" "max (mheight l) (mheight r') \<le> mheight (m_balance k l r')"
    "mheight (m_balance k l r') \<le> Suc (max (mheight l) (mheight r'))"
    using avl_balance [of l r' k] R a by auto
  have 3: "Suc (max (mheight l) (mheight r)) \<le> mheight (m_balance k l' r)"
    using 1(2) L a balance_none [of l' r k] by (cases "mheight l' = mheight r + 2") auto
  have 4: "Suc (max (mheight l) (mheight r)) \<le> mheight (m_balance k l r')"
    using 2(2) R a balance_none [of l r' k] by (cases "mheight r' = mheight l + 2") auto
  show ?case using a l' r' L R 1 2 3 4 by auto
qed auto

section \<open>Insertion on the bindings\<close>

lemma ins_kv_append_lt:
  "xs \<noteq> [] \<Longrightarrow> ys \<noteq> [] \<Longrightarrow> key < fst (hd ys) \<Longrightarrow> ins_kv key val (xs @ ys) = ins_kv key val xs @ ys"
proof (induction xs)
  case (Cons p xs)
  then show ?case by (cases p; cases "xs = []"; cases ys) auto
qed simp

lemma ins_kv_append_ge:
  "\<forall>x \<in> fst ` set xs. x < key \<Longrightarrow> ins_kv key val (xs @ ys) = xs @ ins_kv key val ys"
  by (induction xs) auto

lemma leaves_set: "ordered T \<Longrightarrow> leaves (fst (m_set key val T)) = ins_kv key val (leaves T)"
proof (induction T)
  case (MInner k l r)
  note o = MInner.prems
  show ?case
  proof (cases "key < k")
    case True
    then show ?thesis using MInner o ins_kv_append_lt [of "leaves l" "leaves r" key val]
      by (auto simp: ordered_inner first_key_def split: prod.splits)
  next
    case False
    then have "\<forall>x \<in> fst ` set (leaves l). x < key" using ordered_left_lt [OF o] by fastforce
    then show ?thesis using False MInner o ins_kv_append_ge [of "leaves l" key val "leaves r"]
      by (auto simp: ordered_inner split: prod.splits)
  qed
qed auto

lemma ins_kv_keys: "fst ` set (ins_kv key val xs) = insert key (fst ` set xs)"
  by (induction key val xs rule: ins_kv.induct) (simp_all add: insert_commute)

lemma ins_kv_sorted:
  "sorted_wrt (<) (map fst xs) \<Longrightarrow> sorted_wrt (<) (map fst (ins_kv key val xs))"
proof (induction xs)
  case (Cons p xs)
  obtain k v where p: "p = (k, v)" by fastforce
  have "\<forall>x \<in> fst ` set (ins_kv key val xs). k < x" if "k < key"
    using Cons.prems p that ins_kv_keys [of key val xs] by auto
  then show ?case using Cons p by (auto dest: less_trans)
qed simp

lemma map_of_ins_kv:
  "sorted_wrt (<) (map fst xs) \<Longrightarrow> map_of (ins_kv key val xs) = (map_of xs)(key \<mapsto> val)"
  by (induction xs) (auto simp: fun_eq_iff)

lemma first_key_set:
  assumes "ordered T" shows "first_key (fst (m_set key val T)) = min key (first_key T)"
  using leaves_set [OF assms, of key val]
  by (cases "leaves T") (auto simp: first_key_def min_def less_imp_le split: if_splits)

lemma keyed_set: "ordered T \<Longrightarrow> keyed (fst (m_set key val T))"
proof (induction T)
  case (MInner k l r)
  note o = MInner.prems
  obtain l' u where l': "m_set key val l = (l', u)" by fastforce
  obtain r' w where r': "m_set key val r = (r', w)" by fastforce
  have "keyed l'" using MInner.IH(1) o l' by (simp add: ordered_inner)
  moreover have "keyed r'" using MInner.IH(2) o r' by (simp add: ordered_inner)
  moreover have "first_key r' = k" if "\<not> key < k"
    using first_key_set [of r key val] o r' that by (auto simp: ordered_inner min_def)
  ultimately show ?case using o l' r'
    by (auto simp: ordered_inner ordered_def intro!: keyed_balance)
qed auto

lemma ordered_set: "ordered T \<Longrightarrow> ordered (fst (m_set key val T))"
  using keyed_set [of T key val] leaves_set [of T key val] ins_kv_sorted [of "leaves T" key val]
  by (simp add: ordered_def)

lemma m_set_updated: "ordered T \<Longrightarrow> snd (m_set key val T) \<longleftrightarrow> key \<in> fst ` set (leaves T)"
proof (induction T)
  case (MInner k l r)
  note o = MInner.prems
  have "key < k \<Longrightarrow> key \<notin> fst ` set (leaves r)"
    using ordered_right_ge [OF o, of key] by (metis leD)
  moreover have "\<not> key < k \<Longrightarrow> key \<notin> fst ` set (leaves l)"
    using ordered_left_lt [OF o, of key] by metis
  ultimately show ?case
    using MInner o by (auto simp: ordered_inner split: prod.splits)
qed auto

lemma mtree_ok_set: "mtree_ok T \<Longrightarrow> mtree_ok (fst (m_set key val T))"
  using ordered_set [of T key val] m_set_avl [of T key val] by (simp add: mtree_ok_def)

section \<open>Removal\<close>

text \<open>
  Removal returns what is left of the tree (nothing, when the tree was the removed leaf),
  the new first key of the tree when the first key was removed, the removed value, and
  whether a binding was removed.
\<close>

fun m_remove :: "bytes \<Rightarrow> mtree \<Rightarrow> mtree option \<times> bytes option \<times> bytes \<times> bool" where
  "m_remove key (MLeaf k v) =
    (if key = k then (None, None, v, True) else (Some (MLeaf k v), None, [], False))"
| "m_remove key (MInner k l r) =
    (if key < k
     then (case m_remove key l of (l', nk, v, removed) \<Rightarrow>
            if \<not> removed then (Some (MInner k l r), None, v, False)
            else (case l' of None \<Rightarrow> (Some r, Some k, v, True)
                  | Some l'' \<Rightarrow> (Some (m_balance k l'' r), nk, v, True)))
     else (case m_remove key r of (r', nk, v, removed) \<Rightarrow>
            if \<not> removed then (Some (MInner k l r), None, v, False)
            else (case r' of None \<Rightarrow> (Some l, None, v, True)
                  | Some r'' \<Rightarrow>
                      (Some (m_balance (case nk of None \<Rightarrow> k | Some x \<Rightarrow> x) l r''), None, v, True))))"

abbreviation rest_leaves :: "mtree option \<Rightarrow> (bytes \<times> bytes) list" where
  "rest_leaves R \<equiv> (case R of None \<Rightarrow> [] | Some S \<Rightarrow> leaves S)"

lemma filter_other_keys: "key \<notin> fst ` set xs \<Longrightarrow> filter (\<lambda>p. fst p \<noteq> key) xs = xs"
  by (auto simp: filter_id_conv)

lemma ordered_sides:
  assumes "ordered (MInner k l r)"
  shows "key < k \<Longrightarrow> key \<notin> fst ` set (leaves r)" "\<not> key < k \<Longrightarrow> key \<notin> fst ` set (leaves l)"
  using ordered_right_ge [OF assms, of key] ordered_left_lt [OF assms, of key] by (metis leD)+

lemma m_remove_absent:
  "ordered T \<Longrightarrow> key \<notin> fst ` set (leaves T) \<Longrightarrow> m_remove key T = (Some T, None, [], False)"
proof (induction T)
  case (MInner k l r)
  then have "key \<notin> fst ` set (leaves l)" "key \<notin> fst ` set (leaves r)"
    by (simp_all add: image_Un)
  with MInner show ?case by (simp add: ordered_inner)
qed auto

lemma m_remove_present:
  assumes "ordered T" "key \<in> fst ` set (leaves T)"
  shows "\<exists>R nk. m_remove key T = (R, nk, the (map_of (leaves T) key), True)
    \<and> rest_leaves R = filter (\<lambda>p. fst p \<noteq> key) (leaves T)
    \<and> (\<forall>S. R = Some S \<longrightarrow>
          keyed S \<and> nk = (if key = first_key T then Some (first_key S) else None))"
  using assms
proof (induction T)
  case (MInner k l r)
  note o = MInner.prems(1)
  have ol: "ordered l" and or: "ordered r" and k: "k = first_key r" and kl: "keyed l" and kr: "keyed r"
    using o by (simp_all add: ordered_inner) (simp_all add: ordered_def)
  show ?case
  proof (cases "key < k")
    case True
    have nr: "key \<notin> fst ` set (leaves r)" using ordered_sides(1) [OF o True] .
    then have "key \<in> fst ` set (leaves l)" using MInner.prems(2) by (auto simp: image_Un)
    then obtain R nk where IH: "m_remove key l = (R, nk, the (map_of (leaves l) key), True)"
      "rest_leaves R = filter (\<lambda>p. fst p \<noteq> key) (leaves l)"
      "\<forall>S. R = Some S \<longrightarrow> keyed S \<and> nk = (if key = first_key l then Some (first_key S) else None)"
      using MInner.IH(1) [OF ol] by blast
    have v: "map_of (leaves (MInner k l r)) key = map_of (leaves l) key"
      using map_of_not_in [OF nr] by (simp add: map_add_def split: option.split)
    have f: "filter (\<lambda>p. fst p \<noteq> key) (leaves r) = leaves r" using filter_other_keys [OF nr] .
    show ?thesis
    proof (cases R)
      case None
      then have "\<forall>p \<in> set (leaves l). fst p = key" 
        using filter_empty_conv [of "\<lambda>p. fst p \<noteq> key" "leaves l"] IH(2) by simp
      then have "first_key l = key" by (simp add: first_key_def)
      then show ?thesis using True IH None v f kr k by simp
    next
      case (Some S)
      then have "keyed (m_balance k S r)" using IH(3) k kr by (intro keyed_balance) simp
      then show ?thesis using True IH Some v f by simp
    qed
  next
    case False
    have nl: "key \<notin> fst ` set (leaves l)" using ordered_sides(2) [OF o False] .
    then have "key \<in> fst ` set (leaves r)" using MInner.prems(2) by (auto simp: image_Un)
    then obtain R nk where IH: "m_remove key r = (R, nk, the (map_of (leaves r) key), True)"
      "rest_leaves R = filter (\<lambda>p. fst p \<noteq> key) (leaves r)"
      "\<forall>S. R = Some S \<longrightarrow> keyed S \<and> nk = (if key = first_key r then Some (first_key S) else None)"
      using MInner.IH(2) [OF or] by blast
    have v: "map_of (leaves (MInner k l r)) key = map_of (leaves r) key"
      using map_of_not_in [OF nl] by (simp add: map_add_def)
    have f: "filter (\<lambda>p. fst p \<noteq> key) (leaves l) = leaves l" using filter_other_keys [OF nl] .
    have n: "key \<noteq> first_key l" using nl first_key_in [of l] by blast
    show ?thesis
    proof (cases R)
      case None
      then show ?thesis using False IH v f kl n by simp
    next
      case (Some S)
      have "first_key S = k" if "key \<noteq> first_key r"
      proof -
        have "leaves S = filter (\<lambda>p. fst p \<noteq> key) (leaves r)" using IH(2) Some by simp
        then show ?thesis using that k by (cases "leaves r") (auto simp: first_key_def)
      qed
      then have "keyed (m_balance (case nk of None \<Rightarrow> k | Some x \<Rightarrow> x) l S)"
        using IH(3) Some kl by (intro keyed_balance) auto
      then show ?thesis using False IH Some v f n by simp
    qed
  qed
qed auto

lemma sorted_filter_fst:
  "sorted_wrt (<) (map fst xs) \<Longrightarrow> sorted_wrt (<) (map fst (filter P xs))"
  by (induction xs) auto

lemma ordered_remove:
  assumes "ordered T" "m_remove key T = (Some S, nk, v, removed)" shows "ordered S"
proof (cases "key \<in> fst ` set (leaves T)")
  case True
  then show ?thesis using m_remove_present [OF assms(1) True] assms sorted_filter_fst [of "leaves T"]
    by (auto simp: ordered_def)
next
  case False
  then show ?thesis using m_remove_absent [OF assms(1) False] assms by simp
qed

lemma m_remove_avl:
  "avl T \<Longrightarrow> m_remove key T = (R, nk, v, removed) \<Longrightarrow>
    (case R of None \<Rightarrow> mheight T = 0
     | Some S \<Rightarrow> avl S \<and> mheight S \<le> mheight T \<and> mheight T \<le> Suc (mheight S))"
proof (induction T arbitrary: R nk v removed)
  case (MInner k l r)
  note a = MInner.prems(1)
  obtain L nl vl rl where l: "m_remove key l = (L, nl, vl, rl)" by (metis surj_pair)
  obtain Q nr vr rr where r: "m_remove key r = (Q, nr, vr, rr)" by (metis surj_pair)
  have bl: "avl (m_balance x S r) \<and> mheight (m_balance x S r) \<le> mheight (MInner k l r)
      \<and> mheight (MInner k l r) \<le> Suc (mheight (m_balance x S r))" if "L = Some S" for S x
    using MInner.IH(1) [OF _ l] that a avl_balance [of S r x] balance_none [of S r x]
    by (cases "mheight S + 2 = mheight r") auto
  have br: "avl (m_balance x l S) \<and> mheight (m_balance x l S) \<le> mheight (MInner k l r)
      \<and> mheight (MInner k l r) \<le> Suc (mheight (m_balance x l S))" if "Q = Some S" for S x
    using MInner.IH(2) [OF _ r] that a avl_balance [of l S x] balance_none [of l S x]
    by (cases "mheight S + 2 = mheight l") auto
  have 0: "L = None \<Longrightarrow> mheight l = 0" "Q = None \<Longrightarrow> mheight r = 0"
    using MInner.IH(1) [OF _ l] MInner.IH(2) [OF _ r] a by auto
  show ?case
  proof (cases "key < k")
    case True
    then show ?thesis using MInner.prems l 0 bl by (cases rl; cases L) auto
  next
    case False
    then show ?thesis using MInner.prems r 0 br by (cases rr; cases Q) auto
  qed
qed (auto split: if_splits)

lemma mtree_ok_remove:
  "mtree_ok T \<Longrightarrow> m_remove key T = (Some S, nk, v, removed) \<Longrightarrow> mtree_ok S"
  using ordered_remove [of T key S nk v removed] m_remove_avl [of T key "Some S" nk v removed]
  by (simp add: mtree_ok_def)

lemma map_of_filter_key: "map_of (filter (\<lambda>p. fst p \<noteq> key) xs) = (map_of xs)(key := None)"
  by (induction xs) (auto simp: fun_eq_iff)

section \<open>Balance bounds the height\<close>

text \<open>An AVL tree of height \<open>h\<close> has at least as many leaves as the Fibonacci recurrence gives.\<close>

lemma avl_size_square: "avl T \<Longrightarrow> 2 ^ mheight T \<le> msize T * msize T"
proof (induction T)
  case (MInner k l r)
  have step: "2 * 2 ^ mheight a \<le> (msize a + msize b) * (msize a + msize b)"
    if "2 ^ mheight a \<le> msize a * msize a" "2 ^ mheight b \<le> msize b * msize b"
      "mheight a \<le> Suc (mheight b)" for a b
  proof -
    have "(2::nat) ^ mheight a \<le> 2 * 2 ^ mheight b" using that(3) by (metis power_Suc power_increasing one_le_numeral)
    then have "2 ^ mheight a \<le> 2 * (msize b * msize b)" using that(2) by linarith
    moreover have "msize b * msize b \<le> msize a * msize b" if "msize b \<le> msize a"
      using that by simp
    moreover have "msize a * msize a \<le> msize a * msize b" if "msize a \<le> msize b"
      using that by simp
    moreover have "(msize a + msize b) * (msize a + msize b)
        = msize a * msize a + 2 * (msize a * msize b) + msize b * msize b"
      by (simp add: algebra_simps)
    ultimately show ?thesis using that(1) by (cases "msize b \<le> msize a") linarith+
  qed
  show ?case using MInner step [of l r] step [of r l] by (auto simp: max_def algebra_simps)
qed simp

end
