(* ===== verification/Mavl_Repr.thy ===== *)
theory Mavl_Repr
  imports Mavl_Node Mavl_Shape
begin

text \<open>
  How nodes in memory and in the database represent the trees of \<open>Mavl_Shape\<close>, and that the
  readers of \<open>Mavl_Node\<close> compute the look-ups of the represented tree.  Loading a node changes
  the history of the cache, so that even the readers change the world; the relation \<open>keeps\<close> says
  what they leave as it is.
\<close>

lemma raw_Some [simp]: "raw (Some h) = h"
  by (simp add: raw_def)

section \<open>What is assumed of the code outside the repository\<close>

text \<open>A cache returns for a key at most what was added last for it and not removed since.\<close>

fun hist_get :: "cache_ev list \<Rightarrow> bytes \<Rightarrow> Node option" where
  "hist_get [] k = None"
| "hist_get (CGet _ # hs) k = hist_get hs k"
| "hist_get (CAdd h n # hs) k = (if k = h then Some n else hist_get hs k)"
| "hist_get (CRemove h # hs) k = (if k = h then None else hist_get hs k)"

definition arc_ok :: "mavl_env \<Rightarrow> bool" where
  "arc_ok C \<longleftrightarrow> (\<forall>hs k n. me_Arc C hs k = Some n \<longrightarrow> hist_get hs k = Some n)"

text \<open>Protobuf: a message with a field that is not zero is not empty, and parses to itself.\<close>

definition store_codec_ok :: "mavl_env \<Rightarrow> bool" where
  "store_codec_ok C \<longleftrightarrow>
    (\<forall>s. in_i32 (sn_Height s) \<and> in_i32 (sn_Size s) \<and> sn_Size s \<noteq> 0 \<longrightarrow>
       me_StoreBytes C s \<noteq> [] \<and> me_StoreParse C (me_StoreBytes C s) = Some s)"

definition sha_ok :: "mavl_env \<Rightarrow> bool" where
  "sha_ok C \<longleftrightarrow> (\<forall>b. length (me_Sha256 C b) = 32)"

section \<open>Representation\<close>

text \<open>The hash of a tree without the block height prefixes.\<close>

fun mhash :: "mavl_env \<Rightarrow> mtree \<Rightarrow> bytes" where
  "mhash C (MLeaf k v) = LeafNode_Hash C \<lparr>lf_Key = k, lf_Value = v, lf_Height = 0, lf_Size = 1\<rparr>"
| "mhash C (MInner k l r) =
    InnerNode_Hash C \<lparr>in_LeftHash = mhash C l, in_RightHash = mhash C r,
      in_Height = int (mheight (MInner k l r)), in_Size = int (msize (MInner k l r))\<rparr>"

lemma mhash_length: "sha_ok C \<Longrightarrow> length (mhash C T) = 32"
  by (cases T) (simp_all add: sha_ok_def LeafNode_Hash_def InnerNode_Hash_def)

definition db_node :: "mavl_env \<Rightarrow> (bytes \<Rightarrow> bytes option) \<Rightarrow> bytes \<Rightarrow> Node option" where
  "db_node C d h =
    (case d h of None \<Rightarrow> None
     | Some buf \<Rightarrow> if buf = [] then None else map_option (upd_saved (Some h)) (MakeNode C buf))"

definition leaf_value :: "bool \<Rightarrow> bytes \<Rightarrow> bytes" where
  "leaf_value mvcc v = (if mvcc then [] else v)"

fun stored :: "mavl_env \<Rightarrow> bool \<Rightarrow> (bytes \<Rightarrow> bytes option) \<Rightarrow> bytes \<Rightarrow> mtree \<Rightarrow> bool" where
  "stored C m d h (MLeaf k v) \<longleftrightarrow>
     last_bytes 32 h = mhash C (MLeaf k v)
     \<and> db_node C d h = Some (Node k (leaf_value m v) 0 1 (Some h) None None None None True)"
| "stored C m d h (MInner k l r) \<longleftrightarrow>
     last_bytes 32 h = mhash C (MInner k l r)
     \<and> (\<exists>lh rh. db_node C d h = Some (Node k [] (int (mheight (MInner k l r)))
            (int (msize (MInner k l r))) (Some h) (Some lh) None (Some rh) None True)
         \<and> stored C m d lh l \<and> stored C m d rh r)"

definition hash_fits :: "mavl_env \<Rightarrow> bytes option \<Rightarrow> mtree \<Rightarrow> bool" where
  "hash_fits C h T \<longleftrightarrow> (case h of None \<Rightarrow> True | Some b \<Rightarrow> last_bytes 32 b = mhash C T)"

text \<open>
  A node as it is loaded for a tree that is stored under a hash.  The database may have come to
  hold another node for the same tree under the same hash since, with other prefixes in the
  hashes of the children.
\<close>

fun loaded :: "mavl_env \<Rightarrow> bool \<Rightarrow> (bytes \<Rightarrow> bytes option) \<Rightarrow> bytes \<Rightarrow> Node \<Rightarrow> mtree \<Rightarrow> bool" where
  "loaded C m d h n (MLeaf k v) \<longleftrightarrow> n = Node k (leaf_value m v) 0 1 (Some h) None None None None True"
| "loaded C m d h n (MInner k l r) \<longleftrightarrow>
     (\<exists>lh rh. n = Node k [] (int (mheight (MInner k l r))) (int (msize (MInner k l r)))
         (Some h) (Some lh) None (Some rh) None True
       \<and> stored C m d lh l \<and> stored C m d rh r)"

text \<open>
  A node in memory represents a tree when it was loaded for the stored tree, or is not
  persisted and has the fields of the tree, with children in memory or in the database.  Once
  a node is hashed, it has the hashes of its children.
\<close>

fun repr :: "mavl_env \<Rightarrow> bool \<Rightarrow> (bytes \<Rightarrow> bytes option) \<Rightarrow> Node \<Rightarrow> mtree \<Rightarrow> bool" where
  "repr C m d n (MLeaf k v) \<longleftrightarrow>
     (if persisted n then loaded C m d (raw (nhash n)) n (MLeaf k v) \<and> stored C m d (raw (nhash n)) (MLeaf k v)
      else (\<exists>h. n = Node k v 0 1 h None None None None False \<and> hash_fits C h (MLeaf k v)))"
| "repr C m d n (MInner k l r) \<longleftrightarrow>
     (if persisted n then loaded C m d (raw (nhash n)) n (MInner k l r) \<and> stored C m d (raw (nhash n)) (MInner k l r)
      else (\<exists>h lh ln rh rn.
        n = Node k [] (int (mheight (MInner k l r))) (int (msize (MInner k l r))) h lh ln rh rn False
        \<and> hash_fits C h (MInner k l r)
        \<and> (case ln of None \<Rightarrow> (\<exists>b. lh = Some b \<and> stored C m d b l)
            | Some ln \<Rightarrow> repr C m d ln l \<and> (h \<noteq> None \<longrightarrow> lh \<noteq> None \<and> lh = nhash ln))
        \<and> (case rn of None \<Rightarrow> (\<exists>b. rh = Some b \<and> stored C m d b r)
            | Some rn \<Rightarrow> repr C m d rn r \<and> (h \<noteq> None \<longrightarrow> rh \<noteq> None \<and> rh = nhash rn))))"

lemma stored_loaded:
  "stored C m d h T \<longleftrightarrow> last_bytes 32 h = mhash C T \<and> (\<exists>n. db_node C d h = Some n \<and> loaded C m d h n T)"
  by (cases T) auto

lemma loaded_fields:
  "loaded C m d h n T \<Longrightarrow> nhash n = Some h \<and> persisted n \<and> nheight n = int (mheight T) \<and> nsize n = int (msize T)"
  by (cases T) auto

lemma repr_persisted_iff:
  "persisted n \<Longrightarrow> repr C m d n T \<longleftrightarrow> loaded C m d (raw (nhash n)) n T \<and> stored C m d (raw (nhash n)) T"
  by (cases T) (simp_all del: stored.simps loaded.simps)

lemma stored_node:
  assumes "stored C m d h T"
  shows "\<exists>n. db_node C d h = Some n \<and> persisted n \<and> nhash n = Some h \<and> repr C m d n T"
proof -
  obtain n where n: "db_node C d h = Some n" "loaded C m d h n T" using assms stored_loaded by blast
  then show ?thesis using loaded_fields [OF n(2)] repr_persisted_iff [of n C m d T] assms by simp
qed

lemma stored_hash: "stored C m d h T \<Longrightarrow> last_bytes 32 h = mhash C T"
  by (cases T) auto

lemma repr_persisted:
  assumes "repr C m d n T" "persisted n"
  shows "\<exists>h. nhash n = Some h \<and> loaded C m d h n T \<and> stored C m d h T"
  using assms repr_persisted_iff [OF assms(2), of C m d T] loaded_fields [of C m d "raw (nhash n)" n T] by auto

text \<open>A database that stores more trees represents more.\<close>

lemma loaded_mono:
  "loaded C m d h n T \<Longrightarrow> (\<And>h T. stored C m d h T \<Longrightarrow> stored C m d' h T) \<Longrightarrow> loaded C m d' h n T"
  by (cases T) fastforce+

lemma repr_mono:
  assumes "repr C m d n T" "\<And>h T. stored C m d h T \<Longrightarrow> stored C m d' h T"
  shows "repr C m d' n T"
  using assms(1)
proof (induction T arbitrary: n)
  case (MLeaf k v)
  then show ?case using assms(2) loaded_mono by (cases "persisted n") (auto simp: repr_persisted_iff simp del: stored.simps)
next
  case (MInner k l r)
  show ?case
  proof (cases "persisted n")
    case True
    then show ?thesis using MInner.prems assms(2) loaded_mono [of C m d "raw (nhash n)" n "MInner k l r" d']
      by (simp add: repr_persisted_iff del: stored.simps loaded.simps)
  next
    case False
    then obtain h lh ln rh rn where
      n: "n = Node k [] (int (mheight (MInner k l r))) (int (msize (MInner k l r))) h lh ln rh rn False"
        "hash_fits C h (MInner k l r)"
      and c: "case ln of None \<Rightarrow> (\<exists>b. lh = Some b \<and> stored C m d b l)
          | Some ln \<Rightarrow> repr C m d ln l \<and> (h \<noteq> None \<longrightarrow> lh \<noteq> None \<and> lh = nhash ln)"
        "case rn of None \<Rightarrow> (\<exists>b. rh = Some b \<and> stored C m d b r)
          | Some rn \<Rightarrow> repr C m d rn r \<and> (h \<noteq> None \<longrightarrow> rh \<noteq> None \<and> rh = nhash rn)"
      using MInner.prems unfolding repr.simps if_not_P [OF False] by blast
    have "case ln of None \<Rightarrow> (\<exists>b. lh = Some b \<and> stored C m d' b l)
        | Some ln \<Rightarrow> repr C m d' ln l \<and> (h \<noteq> None \<longrightarrow> lh \<noteq> None \<and> lh = nhash ln)"
      using c(1) assms(2) MInner.IH(1) by (cases ln) auto
    moreover have "case rn of None \<Rightarrow> (\<exists>b. rh = Some b \<and> stored C m d' b r)
        | Some rn \<Rightarrow> repr C m d' rn r \<and> (h \<noteq> None \<longrightarrow> rh \<noteq> None \<and> rh = nhash rn)"
      using c(2) assms(2) MInner.IH(2) by (cases rn) auto
    ultimately show ?thesis unfolding repr.simps if_not_P [OF False] using n by blast
  qed
qed

lemma repr_dims: "repr C m d n T \<Longrightarrow> nheight n = int (mheight T) \<and> nsize n = int (msize T)"
  by (cases n; cases T) (auto split: if_splits)

lemma repr_hash: "repr C m d n T \<Longrightarrow> nhash n = Some h \<Longrightarrow> last_bytes 32 h = mhash C T"
  by (cases n; cases T) (auto split: if_splits simp: hash_fits_def raw_def)

text \<open>A child, in memory or known by its hash.\<close>

definition child :: "mavl_env \<Rightarrow> bool \<Rightarrow> (bytes \<Rightarrow> bytes option) \<Rightarrow> bytes option \<Rightarrow> Node option \<Rightarrow> mtree \<Rightarrow> bool" where
  "child C m d h n T \<longleftrightarrow>
    (case n of None \<Rightarrow> (\<exists>b. h = Some b \<and> stored C m d b T) | Some x \<Rightarrow> repr C m d x T)"

lemma child_Some [simp]: "child C m d h (Some x) T \<longleftrightarrow> repr C m d x T"
  by (simp add: child_def)

lemma child_not_nil: "child C m d h n T \<Longrightarrow> \<not> (h = None \<and> n = None)"
  by (auto simp: child_def)

lemma repr_leaf:
  "repr C m d n (MLeaf k v) \<Longrightarrow> nkey n = k \<and> nheight n = 0 \<and> nsize n = 1
     \<and> nvalue n = (if persisted n then leaf_value m v else v)"
  by (cases n) (auto split: if_splits)

lemma repr_inner:
  assumes "repr C m d n (MInner k l r)"
  shows "nkey n = k" "nheight n \<noteq> 0" "0 < nheight n"
    "child C m d (leftHash n) (leftNode n) l" "child C m d (rightHash n) (rightNode n) r"
  using assms by (cases n; auto simp: child_def split: if_splits option.splits)+

lemma repr_fresh_inner:
  assumes "child C m d lh ln l" "child C m d rh rn r"
  shows "repr C m d (Node k [] (int (mheight (MInner k l r))) (int (msize (MInner k l r)))
    None lh ln rh rn False) (MInner k l r)"
  using assms by (auto simp: child_def hash_fits_def split: option.splits)

declare repr.simps [simp del] stored.simps [simp del] loaded.simps [simp del]

section \<open>What loading a node leaves unchanged\<close>

definition view :: "world \<Rightarrow> bytes \<Rightarrow> bytes option" where
  "view w = (if t_ndb (w_tree w) = None then (\<lambda>_. None) else kd_map (w_db w))"

definition cache_ok :: "mavl_env \<Rightarrow> bool \<Rightarrow> kvdb \<Rightarrow> bool" where
  "cache_ok C m d \<longleftrightarrow>
    (\<forall>hs k n. kd_cache d = Some hs \<and> hist_get hs k = Some n \<longrightarrow>
      db_node C (kd_map d) k = Some n \<and> 2 < nheight n \<and> (\<exists>T. stored C m (kd_map d) k T))"

definition keeps :: "mavl_env \<Rightarrow> bool \<Rightarrow> world \<Rightarrow> world \<Rightarrow> bool" where
  "keeps C m w w' \<longleftrightarrow>
     kd_map (w_db w') = kd_map (w_db w) \<and> cache_ok C m (w_db w')
     \<and> t_root (w_tree w') = t_root (w_tree w)
     \<and> t_blockHeight (w_tree w') = t_blockHeight (w_tree w)
     \<and> t_config (w_tree w') = t_config (w_tree w)
     \<and> map_option nd_batch (t_ndb (w_tree w')) = map_option nd_batch (t_ndb (w_tree w))"

definition runs :: "mavl_env \<Rightarrow> bool \<Rightarrow> world \<Rightarrow> (world, 'a) op \<Rightarrow> ('a \<Rightarrow> bool) \<Rightarrow> bool" where
  "runs C m w p P \<longleftrightarrow> (\<exists>x w'. p w = (Ok x, w') \<and> keeps C m w w' \<and> P x)"

lemma keeps_view: "keeps C m w w' \<Longrightarrow> view w' = view w"
  by (auto simp: keeps_def view_def)

lemma keeps_cache: "keeps C m w w' \<Longrightarrow> cache_ok C m (w_db w')"
  by (simp add: keeps_def)

lemma keeps_refl: "cache_ok C m (w_db w) \<Longrightarrow> keeps C m w w"
  by (simp add: keeps_def)

lemma keeps_trans: "keeps C m w w' \<Longrightarrow> keeps C m w' w'' \<Longrightarrow> keeps C m w w''"
  by (simp add: keeps_def)

lemma runs_return [simp]: "runs C m w (returnO x) P \<longleftrightarrow> cache_ok C m (w_db w) \<and> P x"
  by (auto simp: runs_def returnO_def keeps_def)

lemma runs_Pair [simp]: "runs C m w (Pair (Ok x)) P \<longleftrightarrow> cache_ok C m (w_db w) \<and> P x"
  by (auto simp: runs_def keeps_def)

lemma runs_bind:
  assumes "runs C m w p P" "\<And>x w'. keeps C m w w' \<Longrightarrow> view w' = view w \<Longrightarrow> cache_ok C m (w_db w') \<Longrightarrow> P x
    \<Longrightarrow> runs C m w' (f x) Q"
  shows "runs C m w (andThen p f) Q"
proof -
  obtain x w' where 1: "p w = (Ok x, w')" "keeps C m w w'" "P x" using assms(1) by (auto simp: runs_def)
  obtain y w'' where "f x w' = (Ok y, w'')" "keeps C m w' w''" "Q y"
    using assms(2) [OF 1(2) keeps_view [OF 1(2)] keeps_cache [OF 1(2)] 1(3)] by (auto simp: runs_def)
  then show ?thesis using 1 keeps_trans by (auto simp: runs_def)
qed

lemma runs_mono: "runs C m w p P \<Longrightarrow> (\<And>x. P x \<Longrightarrow> Q x) \<Longrightarrow> runs C m w p Q"
  by (auto simp: runs_def)

lemma runs_must: "runs C m w p P \<Longrightarrow> runs C m w (mustO p) P"
  by (auto simp: runs_def)

section \<open>Loading\<close>

lemma hist_get_cases: "hist_get (CRemove h # hs) k = Some n \<Longrightarrow> hist_get hs k = Some n"
  by (simp split: if_splits)

lemma cache_ok_get: "cache_ok C m (w_db w) \<Longrightarrow> cache_ok C m (w_db (cache_event (CGet h) w))"
  by (auto simp: cache_ok_def cache_event_def)

lemma cache_ok_remove: "cache_ok C m (w_db w) \<Longrightarrow> cache_ok C m (w_db (cache_event (CRemove h) w))"
  by (auto simp: cache_ok_def cache_event_def dest!: hist_get_cases split: if_splits)

lemma cache_ok_add:
  "cache_ok C m (w_db w) \<Longrightarrow> db_node C (kd_map (w_db w)) (raw (nhash n)) = Some n
    \<Longrightarrow> stored C m (kd_map (w_db w)) (raw (nhash n)) T \<Longrightarrow> cache_ok C m (w_db (cacheNode n w))"
  by (auto simp: cache_ok_def cache_event_def cacheNode_def split: if_splits)

lemma cache_event_fields [simp]:
  "kd_map (w_db (cache_event e w)) = kd_map (w_db w)" "w_tree (cache_event e w) = w_tree w"
  "kd_map (w_db (cacheNode n w)) = kd_map (w_db w)" "w_tree (cacheNode n w) = w_tree w"
  by (simp_all add: cache_event_def cacheNode_def)

lemma GetNode_stored:
  assumes "arc_ok C" "cache_ok C m (w_db w)" "stored C m (view w) h T"
  shows "runs C m w (GetNode C (Some h)) (\<lambda>n. repr C m (view w) n T \<and> nhash n = Some h)"
proof -
  obtain n where n: "db_node C (view w) h = Some n" "repr C m (view w) n T" "nhash n = Some h"
    using stored_node [OF assms(3)] by auto
  then obtain d where d: "t_ndb (w_tree w) = Some d" and v: "view w = kd_map (w_db w)"
    by (cases "t_ndb (w_tree w)") (auto simp: view_def db_node_def)
  let ?hit = "case kd_cache (w_db w) of None \<Rightarrow> None | Some hs \<Rightarrow> me_Arc C hs h"
  have hit: "x = n" if "?hit = Some x" for x
    using that assms(1,2) n(1) v by (auto simp: arc_ok_def cache_ok_def split: option.splits)
  let ?w = "cache_event (CGet h) w"
  have k1: "keeps C m w ?w" using cache_ok_get [OF assms(2)] by (simp add: keeps_def)
  have k2: "keeps C m w (cacheNode n ?w)"
    using cache_ok_add [of C m ?w n T] cache_ok_get [OF assms(2)] n v assms(3) by (simp add: keeps_def raw_def)
  obtain buf n0 where b: "kd_map (w_db w) h = Some buf" "buf \<noteq> []" "MakeNode C buf = Some n0"
    "upd_saved (Some h) n0 = n"
    using n(1) v by (auto simp: db_node_def split: option.splits if_splits)
  show ?thesis
  proof (cases "?hit")
    case None
    then show ?thesis using d b k2 n unfolding runs_def GetNode_def raw_Some by simp
  next
    case (Some x)
    then show ?thesis using d hit k1 n unfolding runs_def GetNode_def raw_Some by simp
  qed
qed

text \<open>The child that the getters return, and its hash when it is the one noted in the parent.\<close>

definition is_child :: "mavl_env \<Rightarrow> bool \<Rightarrow> (bytes \<Rightarrow> bytes option) \<Rightarrow> bytes option \<Rightarrow> Node option \<Rightarrow> mtree \<Rightarrow> Node \<Rightarrow> bool" where
  "is_child C m d h n T x \<longleftrightarrow>
    repr C m d x T \<and> (case n of None \<Rightarrow> nhash x = h | Some y \<Rightarrow> x = y)"

lemma is_child_repr: "is_child C m d h n T x \<Longrightarrow> repr C m d x T"
  by (simp add: is_child_def)

lemma getLeftNode_child:
  assumes "arc_ok C" "cache_ok C m (w_db w)" "child C m (view w) (leftHash n) (leftNode n) T"
  shows "runs C m w (getLeftNode C n) (is_child C m (view w) (leftHash n) (leftNode n) T)"
proof (cases "leftNode n")
  case None
  then obtain b where b: "leftHash n = Some b" "stored C m (view w) b T"
    using assms(3) by (auto simp: child_def)
  show ?thesis using None b GetNode_stored [OF assms(1,2) b(2)]
    by (auto simp: getLeftNode_def is_child_def intro!: runs_must elim: runs_mono)
next
  case (Some y)
  then show ?thesis using assms by (auto simp: getLeftNode_def child_def is_child_def)
qed

lemma getRightNode_child:
  assumes "arc_ok C" "cache_ok C m (w_db w)" "child C m (view w) (rightHash n) (rightNode n) T"
  shows "runs C m w (getRightNode C n) (is_child C m (view w) (rightHash n) (rightNode n) T)"
proof (cases "rightNode n")
  case None
  then obtain b where b: "rightHash n = Some b" "stored C m (view w) b T"
    using assms(3) by (auto simp: child_def)
  show ?thesis using None b GetNode_stored [OF assms(1,2) b(2)]
    by (auto simp: getRightNode_def is_child_def intro!: runs_must elim: runs_mono)
next
  case (Some y)
  then show ?thesis using assms by (auto simp: getRightNode_def child_def is_child_def)
qed

section \<open>The readers\<close>

lemma rank_le: "rank key T \<le> msize T"
  by (simp add: rank_def length_leaves [symmetric])

text \<open>
  A reader is right when it returns the value of the key, except that a persisted leaf has lost
  its value when the values are kept by the multi-version store.
\<close>

definition read_value :: "bool \<Rightarrow> bytes option \<Rightarrow> bytes \<Rightarrow> bool" where
  "read_value mvcc found v \<longleftrightarrow> (case found of None \<Rightarrow> v = [] | Some x \<Rightarrow> mvcc \<or> v = x)"

lemma nd_get_repr:
  assumes "arc_ok C" "cache_ok C m (w_db w)" "repr C m (view w) n T" "ordered T" "msize T < 2 ^ 31"
    "mheight T < f"
  shows "runs C m w (nd_get C f key n) (\<lambda>(i, v, exists). i = int (rank key T)
    \<and> exists = (m_get key T \<noteq> None) \<and> read_value m (m_get key T) v)"
  using assms
proof (induction T arbitrary: n f w)
  case (MLeaf k v)
  obtain f' where f: "f = Suc f'" using MLeaf.prems(6) by (cases f) auto
  have n: "nkey n = k" "nheight n = 0" "nvalue n = (if persisted n then leaf_value m v else v)"
    using repr_leaf [OF MLeaf.prems(3)] by auto
  consider "k = key" | "k < key" | "key < k" by fastforce
  then show ?case using MLeaf.prems(2) n
    by cases (auto simp: f rank_def read_value_def leaf_value_def)
next
  case (MInner k l r)
  obtain f' where f: "f = Suc f'" using MInner.prems(6) by (cases f) auto
  note n = repr_inner [OF MInner.prems(3)] and o = MInner.prems(4)
  have fits: "msize l < 2 ^ 31" "msize r < 2 ^ 31" "mheight l < f'" "mheight r < f'"
    "ordered l" "ordered r"
    using MInner.prems(5,6) o f by (auto simp: ordered_inner)
  show ?case
  proof (cases "key < k")
    case True
    then have "runs C m w (andThen (getLeftNode C n) (nd_get C f' key)) (\<lambda>(i, v, exists).
        i = int (rank key l) \<and> exists = (m_get key l \<noteq> None) \<and> read_value m (m_get key l) v)"
      using MInner.IH(1) fits MInner.prems(1)
      by (intro runs_bind [OF getLeftNode_child [OF MInner.prems(1,2) n(4)]]) (auto dest: is_child_repr)
    then show ?thesis using True n rank_left [OF o] f by (simp del: leaves.simps)
  next
    case False
    have "runs C m w (andThen (getRightNode C n) (\<lambda>r.
            andThen (nd_get C f' key r) (\<lambda>(index, v, exists).
              returnO (i32 (index + i32 (nsize n - nsize r)), v, exists)))) (\<lambda>(i, v, exists).
        i = int (rank key r + msize l) \<and> exists = (m_get key r \<noteq> None) \<and> read_value m (m_get key r) v)"
    proof (rule runs_bind [OF getRightNode_child [OF MInner.prems(1,2) n(5)]])
      fix x w' assume w': "view w' = view w" "cache_ok C m (w_db w')"
        and x: "is_child C m (view w) (rightHash n) (rightNode n) r x"
      have s: "i32 (nsize n - nsize x) = int (msize l)" "in_i32 (int (rank key r + msize l))"
        using repr_dims [OF MInner.prems(3)] repr_dims [OF is_child_repr [OF x]] MInner.prems(5)
          rank_le [of key r] by (auto simp: in_i32_def)
      show "runs C m w' (andThen (nd_get C f' key x) (\<lambda>(index, v, exists).
              returnO (i32 (index + i32 (nsize n - nsize x)), v, exists))) (\<lambda>(i, v, exists).
        i = int (rank key r + msize l) \<and> exists = (m_get key r \<noteq> None) \<and> read_value m (m_get key r) v)"
        using w' x fits s
        by (intro runs_bind [OF MInner.IH(2) [OF MInner.prems(1)]]) (auto dest: is_child_repr)
    qed
    then show ?thesis using False n rank_right [OF o False] f by (simp add: add.commute)
  qed
qed

lemma nd_has_repr:
  assumes "arc_ok C" "cache_ok C m (w_db w)" "repr C m (view w) n T" "ordered T" "mheight T < f"
  shows "runs C m w (nd_has C f key n) (\<lambda>b. b = (key \<in> fst ` set (leaves T)))"
  using assms
proof (induction T arbitrary: n f w)
  case (MLeaf k v)
  then show ?case using repr_leaf [OF MLeaf.prems(3)] by (cases f) auto
next
  case (MInner k l r)
  obtain f' where f: "f = Suc f'" using MInner.prems(5) by (cases f) auto
  note n = repr_inner [OF MInner.prems(3)] and o = MInner.prems(4)
  have fits: "mheight l < f'" "mheight r < f'" "ordered l" "ordered r" "k = first_key r"
    using MInner.prems(5) o f by (auto simp: ordered_inner)
  consider "k = key" | "key < k" | "k < key" by fastforce
  then show ?case
  proof cases
    case 1
    then show ?thesis using n f MInner.prems(2) fits(5) first_key_in [of r] by (auto simp: image_Un)
  next
    case 2
    then have "runs C m w (andThen (getLeftNode C n) (nd_has C f' key)) (\<lambda>b. b = (key \<in> fst ` set (leaves l)))"
      using MInner.IH(1) fits MInner.prems(1)
      by (intro runs_bind [OF getLeftNode_child [OF MInner.prems(1,2) n(4)]]) (auto dest: is_child_repr)
    then show ?thesis using 2 n f ordered_sides(1) [OF o 2] by (auto simp: image_Un)
  next
    case 3
    then have "runs C m w (andThen (getRightNode C n) (nd_has C f' key)) (\<lambda>b. b = (key \<in> fst ` set (leaves r)))"
      using MInner.IH(2) fits MInner.prems(1)
      by (intro runs_bind [OF getRightNode_child [OF MInner.prems(1,2) n(5)]]) (auto dest: is_child_repr)
    moreover have "\<not> key < k" using 3 by simp
    ultimately show ?thesis using 3 n f ordered_sides(2) [OF o] by (auto simp: image_Un)
  qed
qed

lemma nd_getByIndex_repr:
  assumes "arc_ok C" "cache_ok C False (w_db w)" "repr C False (view w) n T" "i < msize T"
    "msize T < 2 ^ 31" "mheight T < f"
  shows "runs C False w (nd_getByIndex C f (int i) n) (\<lambda>p. p = leaves T ! i)"
  using assms
proof (induction T arbitrary: n f w i)
  case (MLeaf k v)
  then show ?case using repr_leaf [OF MLeaf.prems(3)]
    by (cases f) (auto simp: leaf_value_def split: if_splits)
next
  case (MInner k l r)
  obtain f' where f: "f = Suc f'" using MInner.prems(6) by (cases f) auto
  note n = repr_inner [OF MInner.prems(3)]
  have fits: "msize l < 2 ^ 31" "msize r < 2 ^ 31" "mheight l < f'" "mheight r < f'"
    using MInner.prems(5,6) f by auto
  have "runs C False w (andThen (getLeftNode C n) (\<lambda>x.
            if int i < nsize x then nd_getByIndex C f' (int i) x
            else andThen (getRightNode C n) (nd_getByIndex C f' (i32 (int i - nsize x)))))
          (\<lambda>p. p = leaves (MInner k l r) ! i)"
  proof (rule runs_bind [OF getLeftNode_child [OF MInner.prems(1,2) n(4)]])
    fix x w' assume w': "view w' = view w" "cache_ok C False (w_db w')"
      and x: "is_child C False (view w) (leftHash n) (leftNode n) l x"
    have s: "nsize x = int (msize l)" using repr_dims [OF is_child_repr [OF x]] by simp
    show "runs C False w' (if int i < nsize x then nd_getByIndex C f' (int i) x
            else andThen (getRightNode C n) (nd_getByIndex C f' (i32 (int i - nsize x))))
          (\<lambda>p. p = leaves (MInner k l r) ! i)"
    proof (cases "i < msize l")
      case True
      then show ?thesis using MInner.IH(1) [of w' x i f'] MInner.prems(1) w' x s fits
        by (auto simp: nth_append length_leaves dest: is_child_repr)
    next
      case False
      have i: "i32 (int i - nsize x) = int (i - msize l)"
        using False s MInner.prems(4,5) by (simp add: in_i32_def of_nat_diff)
      have c: "child C False (view w') (rightHash n) (rightNode n) r" using n(5) w' by simp
      have "runs C False w' (andThen (getRightNode C n) (nd_getByIndex C f' (int (i - msize l))))
          (\<lambda>p. p = leaves r ! (i - msize l))"
        using MInner.IH(2) [where i = "i - msize l"] MInner.prems(1,4) w' fits False
        by (intro runs_bind [OF getRightNode_child [OF MInner.prems(1) w'(2) c]]) (auto dest: is_child_repr)
      then show ?thesis using False s i by (simp add: nth_append length_leaves)
    qed
  qed
  then show ?case using n f by simp
qed

section \<open>Iteration\<close>

text \<open>The callback runs over a list of bindings until it asks to stop.\<close>

fun visit :: "(bytes \<Rightarrow> bytes \<Rightarrow> 'c \<Rightarrow> bool \<times> 'c) \<Rightarrow> (bytes \<times> bytes) list \<Rightarrow> 'c \<Rightarrow> bool \<times> 'c" where
  "visit fn [] c = (False, c)"
| "visit fn ((k, v) # xs) c = (let (stop, c') = fn k v c in if stop then (True, c') else visit fn xs c')"

lemma visit_append:
  "visit fn (xs @ ys) c = (let (stop, c') = visit fn xs c in if stop then (True, c') else visit fn ys c')"
  by (induction xs arbitrary: c) (auto split: prod.split)

definition in_range :: "bytes option \<Rightarrow> bytes option \<Rightarrow> bool \<Rightarrow> bytes \<Rightarrow> bool" where
  "in_range start stp inclusive k \<longleftrightarrow>
    (case start of None \<Rightarrow> True | Some s \<Rightarrow> s \<le> k)
    \<and> (case stp of None \<Rightarrow> True | Some e \<Rightarrow> if inclusive then k \<le> e else k < e)"

definition ranged :: "bytes option \<Rightarrow> bytes option \<Rightarrow> bool \<Rightarrow> bool \<Rightarrow> mtree \<Rightarrow> (bytes \<times> bytes) list" where
  "ranged start stp ascending inclusive T =
    (let xs = filter (\<lambda>p. in_range start stp inclusive (fst p)) (leaves T)
     in if ascending then xs else rev xs)"

lemma ranged_skip_left:
  assumes "ordered (MInner k l r)" "\<not> (case start of None \<Rightarrow> True | Some s \<Rightarrow> s \<le> k)"
  shows "ranged start stp a i l = []"
proof -
  obtain s where s: "start = Some s" "\<not> s \<le> k" using assms(2) by (cases start) auto
  have "\<not> s \<le> fst p" if "p \<in> set (leaves l)" for p
    using ordered_left_lt [OF assms(1), of "fst p"] that s(2) by (meson image_eqI le_less_trans less_imp_le)
  then show ?thesis using s(1) by (simp add: ranged_def in_range_def filter_empty_conv)
qed

lemma ranged_skip_right:
  assumes "ordered (MInner k l r)"
    "\<not> (case stp of None \<Rightarrow> True | Some e \<Rightarrow> if i then k \<le> e else k < e)"
  shows "ranged start stp a i r = []"
proof -
  obtain e where e: "stp = Some e" "\<not> (if i then k \<le> e else k < e)" using assms(2) by (cases stp) auto
  have "\<not> (if i then fst p \<le> e else fst p < e)" if "p \<in> set (leaves r)" for p
  proof -
    have "k \<le> fst p" using ordered_right_ge [OF assms(1), of "fst p"] that by simp
    then show ?thesis using e(2) by (auto dest: order_trans le_less_trans)
  qed
  then show ?thesis using e(1) by (auto simp: ranged_def in_range_def filter_empty_conv)
qed

lemma ranged_inner:
  "ranged start stp a i (MInner k l r) =
    (if a then ranged start stp a i l @ ranged start stp a i r
     else ranged start stp a i r @ ranged start stp a i l)"
  by (simp add: ranged_def)

lemma runs_visit_append:
  assumes "runs C m w A (\<lambda>p. p = visit fn xs c)"
    "\<And>w' c'. view w' = view w \<Longrightarrow> cache_ok C m (w_db w') \<Longrightarrow> runs C m w' (B c') (\<lambda>p. p = visit fn ys c')"
  shows "runs C m w (andThen A (\<lambda>(stop, c). if stop then returnO (True, c) else B c))
    (\<lambda>p. p = visit fn (xs @ ys) c)"
proof (rule runs_bind [OF assms(1)])
  fix x w' assume w': "view w' = view w" "cache_ok C m (w_db w')" and x: "x = visit fn xs c"
  show "runs C m w' (case x of (stop, c) \<Rightarrow> if stop then returnO (True, c) else B c)
    (\<lambda>p. p = visit fn (xs @ ys) c)"
    using assms(2) [OF w', of "snd x"] w' x by (cases x) (auto simp: visit_append split: prod.splits)
qed

lemma ranged_leaf:
  "ranged start stp a i (MLeaf k v) = (if in_range start stp i k then [(k, v)] else [])"
  by (simp add: ranged_def)

lemma nd_traverse_repr:
  assumes "arc_ok C" "cache_ok C False (w_db w)" "repr C False (view w) n T" "ordered T" "mheight T < f"
  shows "runs C False w (nd_traverse C f start stp asc incl depth (on_leaves fn) n c)
    (\<lambda>p. p = visit fn (ranged start stp asc incl T) c)"
  using assms
proof (induction T arbitrary: n f w c depth)
  case (MLeaf k v)
  obtain f' where f: "f = Suc f'" using MLeaf.prems(5) by (cases f) auto
  have n: "nkey n = k" "nheight n = 0" "nvalue n = v"
    using repr_leaf [OF MLeaf.prems(3)] by (auto simp: leaf_value_def)
  obtain s c' where fn: "fn k v c = (s, c')" by fastforce
  show ?case
  proof (cases "in_range start stp incl k")
    case True
    then have "nd_traverse C f start stp asc incl depth (on_leaves fn) n c = returnO (s, c')"
      using n fn by (cases start; cases stp) (simp_all add: f on_leaves_def Let_def in_range_def)
    then show ?thesis using MLeaf.prems(2) True fn by (simp add: ranged_leaf)
  next
    case False
    then have "nd_traverse C f start stp asc incl depth (on_leaves fn) n c = returnO (False, c)"
      using n by (cases start; cases stp) (auto simp: f on_leaves_def Let_def in_range_def)
    then show ?thesis using MLeaf.prems(2) False by (simp add: ranged_leaf)
  qed
next
  case (MInner k l r)
  obtain f' where f: "f = Suc f'" using MInner.prems(5) by (cases f) auto
  note n = repr_inner [OF MInner.prems(3)] and o = MInner.prems(4)
  have fits: "mheight l < f'" "mheight r < f'" "ordered l" "ordered r"
    using MInner.prems(5) o f by (auto simp: ordered_inner)
  let ?as = "case start of None \<Rightarrow> True | Some s \<Rightarrow> s \<le> k"
  let ?be = "case stp of None \<Rightarrow> True | Some e \<Rightarrow> if incl then k \<le> e else k < e"
  let ?d = "(depth + 1) mod 256"
  let ?L = "\<lambda>c. if ?as then andThen (getLeftNode C n)
      (\<lambda>l. nd_traverse C f' start stp asc incl ?d (on_leaves fn) l c) else returnO (False, c)"
  let ?R = "\<lambda>c. if ?be then andThen (getRightNode C n)
      (\<lambda>r. nd_traverse C f' start stp asc incl ?d (on_leaves fn) r c) else returnO (False, c)"
  have L: "runs C False w' (?L c) (\<lambda>p. p = visit fn (ranged start stp asc incl l) c)"
    if "view w' = view w" "cache_ok C False (w_db w')" for w' c
  proof (cases ?as)
    case True
    have ch: "child C False (view w') (leftHash n) (leftNode n) l" using n(4) that by simp
    show ?thesis using True MInner.IH(1) fits that MInner.prems(1)
      by (simp, intro runs_bind [OF getLeftNode_child [OF MInner.prems(1) that(2) ch]]) (auto dest: is_child_repr)
  next
    case False
    then show ?thesis using that ranged_skip_left [OF o False] by simp
  qed
  have R: "runs C False w' (?R c) (\<lambda>p. p = visit fn (ranged start stp asc incl r) c)"
    if "view w' = view w" "cache_ok C False (w_db w')" for w' c
  proof (cases ?be)
    case True
    have ch: "child C False (view w') (rightHash n) (rightNode n) r" using n(5) that by simp
    show ?thesis using True MInner.IH(2) fits that MInner.prems(1)
      by (simp, intro runs_bind [OF getRightNode_child [OF MInner.prems(1) that(2) ch]]) (auto dest: is_child_repr)
  next
    case False
    then show ?thesis using that ranged_skip_right [OF o False] by simp
  qed
  have "nd_traverse C f start stp asc incl depth (on_leaves fn) n c =
    (if asc then andThen (?L c) (\<lambda>(stop, c). if stop then returnO (True, c) else ?R c)
     else andThen (?R c) (\<lambda>(stop, c). if stop then returnO (True, c) else ?L c))"
    using n(2) by (simp only: f nd_traverse.simps n(1) Let_def on_leaves_def if_False if_cancel prod.case)
  moreover have "runs C False w (andThen (?L c) (\<lambda>(stop, c). if stop then returnO (True, c) else ?R c))
      (\<lambda>p. p = visit fn (ranged start stp asc incl (MInner k l r)) c)" if asc
    using runs_visit_append [OF L [OF refl MInner.prems(2)] R] that by (simp add: ranged_inner)
  moreover have "runs C False w (andThen (?R c) (\<lambda>(stop, c). if stop then returnO (True, c) else ?L c))
      (\<lambda>p. p = visit fn (ranged start stp asc incl (MInner k l r)) c)" if "\<not> asc"
    using runs_visit_append [OF R [OF refl MInner.prems(2)] L] that by (simp add: ranged_inner)
  ultimately show ?case by simp
qed

end
