(* ===== verification/Mavl_Update.thy ===== *)
theory Mavl_Update
  imports Mavl_Repr
begin

text \<open>
  The operations that change nodes, refined to insertion and removal on the represented tree:
  a changed node represents the changed tree, whatever part of it is in memory, in the cache or
  in the database.
\<close>

section \<open>Inner nodes under construction\<close>

text \<open>An inner node whose height and size need not be right yet, and a node without a hash.\<close>

definition shape :: "mavl_env \<Rightarrow> bool \<Rightarrow> (bytes \<Rightarrow> bytes option) \<Rightarrow> Node \<Rightarrow> bytes \<Rightarrow> mtree \<Rightarrow> mtree \<Rightarrow> bool" where
  "shape C m d n k l r \<longleftrightarrow> nkey n = k \<and> nheight n \<noteq> 0
     \<and> child C m d (leftHash n) (leftNode n) l \<and> child C m d (rightHash n) (rightNode n) r"

definition dirty :: "Node \<Rightarrow> bool" where
  "dirty n \<longleftrightarrow> \<not> persisted n \<and> nhash n = None"

definition fresh :: "mavl_env \<Rightarrow> bool \<Rightarrow> (bytes \<Rightarrow> bytes option) \<Rightarrow> Node \<Rightarrow> bytes \<Rightarrow> mtree \<Rightarrow> mtree \<Rightarrow> bool" where
  "fresh C m d n k l r \<longleftrightarrow> shape C m d n k l r \<and> dirty n \<and> nvalue n = []"

lemma repr_shape: "repr C m d n (MInner k l r) \<Longrightarrow> shape C m d n k l r"
  using repr_inner [of C m d n k l r] by (simp add: shape_def)

lemma fresh_repr:
  "fresh C m d n k l r \<Longrightarrow> nheight n = int (mheight (MInner k l r))
    \<Longrightarrow> nsize n = int (msize (MInner k l r)) \<Longrightarrow> repr C m d n (MInner k l r)"
  using repr_fresh_inner [of C m d "leftHash n" "leftNode n" l "rightHash n" "rightNode n" r k]
  by (cases n) (simp add: fresh_def shape_def dirty_def)

lemma repr_dirty_fresh: "repr C m d n (MInner k l r) \<Longrightarrow> dirty n \<Longrightarrow> fresh C m d n k l r"
  using repr_shape [of C m d n k l r] by (auto simp: fresh_def dirty_def repr.simps)

lemma fresh_upd_left:
  "fresh C m d n k l r \<Longrightarrow> child C m d h x l' \<Longrightarrow> fresh C m d (upd_left h x n) k l' r"
  by (simp add: fresh_def shape_def dirty_def upd_left_def)

lemma fresh_upd_right:
  "fresh C m d n k l r \<Longrightarrow> child C m d h x r' \<Longrightarrow> fresh C m d (upd_right h x n) k l r'"
  by (simp add: fresh_def shape_def dirty_def upd_right_def)

lemma fresh_upd_key: "fresh C m d n k l r \<Longrightarrow> fresh C m d (upd_key k' n) k' l r"
  by (simp add: fresh_def shape_def dirty_def upd_key_def)

lemma upd_dims_eq [simp]:
  "nheight (upd_left h x n) = nheight n" "nsize (upd_left h x n) = nsize n"
  "nheight (upd_right h x n) = nheight n" "nsize (upd_right h x n) = nsize n"
  by (simp_all add: upd_left_def upd_right_def)

lemma shape_left:
  "arc_ok C \<Longrightarrow> cache_ok C m (w_db w) \<Longrightarrow> shape C m (view w) n k l r
    \<Longrightarrow> runs C m w (getLeftNode C n) (\<lambda>x. is_child C m (view w) (leftHash n) (leftNode n) l x)"
  using getLeftNode_child by (simp add: shape_def)

lemma shape_right:
  "arc_ok C \<Longrightarrow> cache_ok C m (w_db w) \<Longrightarrow> shape C m (view w) n k l r
    \<Longrightarrow> runs C m w (getRightNode C n) (\<lambda>x. is_child C m (view w) (rightHash n) (rightNode n) r x)"
  using getRightNode_child by (simp add: shape_def)

lemma runs_shape_left:
  assumes "arc_ok C" "cache_ok C m (w_db w)" "shape C m (view w) n k l r"
    "\<And>x w'. view w' = view w \<Longrightarrow> cache_ok C m (w_db w') \<Longrightarrow> repr C m (view w) x l \<Longrightarrow> runs C m w' (f x) Q"
  shows "runs C m w (andThen (getLeftNode C n) f) Q"
  using assms(4) by (intro runs_bind [OF shape_left [OF assms(1-3)]]) (auto dest: is_child_repr)

lemma runs_shape_right:
  assumes "arc_ok C" "cache_ok C m (w_db w)" "shape C m (view w) n k l r"
    "\<And>x w'. view w' = view w \<Longrightarrow> cache_ok C m (w_db w') \<Longrightarrow> repr C m (view w) x r \<Longrightarrow> runs C m w' (f x) Q"
  shows "runs C m w (andThen (getRightNode C n) f) Q"
  using assms(4) by (intro runs_bind [OF shape_right [OF assms(1-3)]]) (auto dest: is_child_repr)

lemma runs_copy:
  assumes "cache_ok C m (w_db w)" "shape C m d n k l r"
  shows "runs C m w (nd_copy n) (\<lambda>x. fresh C m d x k l r \<and> nheight x = nheight n \<and> nsize x = nsize n)"
  using assms by (simp add: nd_copy_def fresh_def shape_def dirty_def)

lemma runs_removeOrphan:
  assumes "cache_ok C m (w_db w)" "repr C m d n T"
  shows "runs C m w (removeOrphan n) (\<lambda>_. True)"
proof (cases "persisted n \<and> t_ndb (w_tree w) \<noteq> None")
  case True
  then obtain h where "nhash n = Some h" using repr_persisted [OF assms(2)] by blast
  moreover have "keeps C m w (cache_event (CRemove h) (w\<lparr>w_tree := (w_tree w)\<lparr>t_ndb := Some (x\<lparr>nd_orphans := y\<rparr>)\<rparr>\<rparr>))"
    if "t_ndb (w_tree w) = Some x" for x y
    using that cache_ok_remove [of C m "w\<lparr>w_tree := (w_tree w)\<lparr>t_ndb := Some (x\<lparr>nd_orphans := y\<rparr>)\<rparr>\<rparr>" h] assms(1)
    by (simp add: keeps_def)
  ultimately show ?thesis using True
    by (auto simp: removeOrphan_def RemoveNode_def runs_def)
next
  case False
  then show ?thesis using assms(1) keeps_refl
    by (auto simp: removeOrphan_def runs_def split: option.splits)
qed

lemma small_height: "msize T < 2 ^ 31 \<Longrightarrow> mheight T < 2 ^ 31"
  using mheight_lt_msize [of T] by simp

lemma runs_calc:
  assumes "arc_ok C" "cache_ok C m (w_db w)" "fresh C m (view w) n k l r" "msize l + msize r < 2 ^ 31"
  shows "runs C m w (calcHeightAndSize C n) (\<lambda>x. repr C m (view w) x (MInner k l r) \<and> dirty x)"
proof -
  have s: "shape C m (view w) n k l r" using assms(3) by (simp add: fresh_def)
  have "mheight (MInner k l r) < 2 ^ 31" using small_height [of "MInner k l r"] assms(4) by simp
  then have h: "i32 (maxInt32 (int (mheight l)) (int (mheight r)) + 1) = int (mheight (MInner k l r))"
    "i32 (int (msize l) + int (msize r)) = int (msize (MInner k l r))"
    using assms(4) by (auto simp: maxInt32_def in_i32_def)
  show ?thesis unfolding calcHeightAndSize_def
  proof (rule runs_shape_left [OF assms(1,2) s])
    fix x w' assume w': "view w' = view w" "cache_ok C m (w_db w')" and x: "repr C m (view w) x l"
    show "runs C m w' (andThen (getRightNode C n) (\<lambda>r. returnO (upd_dims
        (i32 (maxInt32 (nheight x) (nheight r) + 1)) (i32 (nsize x + nsize r)) n)))
      (\<lambda>x. repr C m (view w) x (MInner k l r) \<and> dirty x)"
    proof (rule runs_shape_right [OF assms(1) w'(2)])
      show "shape C m (view w') n k l r" using s w' by simp
      fix y and w'' :: world assume "cache_ok C m (w_db w'')" and y: "repr C m (view w') y r"
      moreover have "fresh C m (view w) (upd_dims (int (mheight (MInner k l r))) (int (msize (MInner k l r))) n) k l r"
        using assms(3) by (simp add: fresh_def shape_def dirty_def upd_dims_def)
      ultimately show "runs C m w'' (returnO (upd_dims
        (i32 (maxInt32 (nheight x) (nheight y) + 1)) (i32 (nsize x + nsize y)) n))
      (\<lambda>x. repr C m (view w) x (MInner k l r) \<and> dirty x)"
        using repr_dims [OF x] repr_dims [OF y] h
        by (auto intro!: fresh_repr simp del: mheight.simps msize.simps simp: upd_dims_def)
          (simp add: fresh_def dirty_def)
    qed
  qed
qed

lemma runs_calcBalance:
  assumes "arc_ok C" "cache_ok C m (w_db w)" "shape C m (view w) n k l r" "msize l + msize r < 2 ^ 31"
  shows "runs C m w (calcBalance C n) (\<lambda>b. b = skew (MInner k l r))"
  unfolding calcBalance_def
proof (rule runs_shape_left [OF assms(1-3)])
  fix x w' assume w': "view w' = view w" "cache_ok C m (w_db w')" and x: "repr C m (view w) x l"
  have "mheight l < 2 ^ 31" "mheight r < 2 ^ 31" using small_height [of l] small_height [of r] assms(4) by simp_all
  then have e: "i64 (int (mheight l) - int (mheight r)) = int (mheight l) - int (mheight r)"
    by (simp add: in_i64_def)
  show "runs C m w' (andThen (getRightNode C n) (\<lambda>r. returnO (i64 (nheight x - nheight r))))
     (\<lambda>b. b = skew (MInner k l r))"
  proof (rule runs_shape_right [OF assms(1) w'(2)])
    show "shape C m (view w') n k l r" using assms(3) w' by simp
  qed (use repr_dims [OF x] repr_dims e in auto)
qed

section \<open>Rotations and balance\<close>

lemma msize_rot [simp]: "msize (rot_left T) = msize T" "msize (rot_right T) = msize T"
  by (simp_all add: length_leaves [symmetric])

lemma runs_rotateRight:
  assumes "arc_ok C" "cache_ok C m (w_db w)" "shape C m (view w) n k (MInner lk ll lr) r"
    "msize ll + msize lr + msize r < 2 ^ 31"
  shows "runs C m w (rotateRight C n)
    (\<lambda>x. repr C m (view w) x (MInner lk ll (MInner k lr r)) \<and> dirty x)"
  unfolding rotateRight_def
proof (rule runs_bind [OF runs_copy [OF assms(2,3)]], elim conjE)
  fix n1 w1 assume w1: "view w1 = view w" "cache_ok C m (w_db w1)"
    and n1: "fresh C m (view w) n1 k (MInner lk ll lr) r"
  have s1: "shape C m (view w1) n1 k (MInner lk ll lr) r" using n1 w1 by (simp add: fresh_def)
  show "runs C m w1 (andThen (getLeftNode C n1) (\<lambda>l. andThen (removeOrphan l) (\<lambda>_. andThen (nd_copy l) (\<lambda>l'.
      let n1' = upd_left (rightHash l') (rightNode l') n1
      in andThen (calcHeightAndSize C n1') (\<lambda>n2. calcHeightAndSize C (upd_right (nhash n1) (Some n2) l'))))))
    (\<lambda>x. repr C m (view w) x (MInner lk ll (MInner k lr r)) \<and> dirty x)"
  proof (rule runs_shape_left [OF assms(1) w1(2) s1], rule runs_bind [OF runs_removeOrphan])
    fix l w2 assume l: "repr C m (view w1) l (MInner lk ll lr)"
    show "repr C m (view w1) l (MInner lk ll lr)" by (rule l)
    fix w3 assume w2: "view w2 = view w1" and w3: "view w3 = view w2" "cache_ok C m (w_db w3)"
    show "runs C m w3 (andThen (nd_copy l) (\<lambda>l'.
      let n1' = upd_left (rightHash l') (rightNode l') n1
      in andThen (calcHeightAndSize C n1') (\<lambda>n2. calcHeightAndSize C (upd_right (nhash n1) (Some n2) l'))))
    (\<lambda>x. repr C m (view w) x (MInner lk ll (MInner k lr r)) \<and> dirty x)"
    proof (rule runs_bind [OF runs_copy [OF w3(2) repr_shape [OF l]]], elim conjE, unfold Let_def)
      fix l' w4 assume w4: "view w4 = view w3" "cache_ok C m (w_db w4)"
        and l': "fresh C m (view w1) l' lk ll lr"
      have v: "view w4 = view w" using w1 w2 w3 w4 by simp
      have f: "fresh C m (view w4) (upd_left (rightHash l') (rightNode l') n1) k lr r"
        using n1 l' w1 v by (intro fresh_upd_left) (auto simp: fresh_def shape_def)
      show "runs C m w4 (andThen (calcHeightAndSize C (upd_left (rightHash l') (rightNode l') n1))
          (\<lambda>n2. calcHeightAndSize C (upd_right (nhash n1) (Some n2) l')))
        (\<lambda>x. repr C m (view w) x (MInner lk ll (MInner k lr r)) \<and> dirty x)"
      proof (rule runs_bind [OF runs_calc [OF assms(1) w4(2) f]])
        show "msize lr + msize r < 2 ^ 31" using assms(4) by simp
        fix n2 w5 assume w5: "view w5 = view w4" "cache_ok C m (w_db w5)"
          and n2: "repr C m (view w4) n2 (MInner k lr r) \<and> dirty n2"
        have "fresh C m (view w5) (upd_right (nhash n1) (Some n2) l') lk ll (MInner k lr r)"
          using l' n2 v w1 w5 by (intro fresh_upd_right [where r = lr]) simp_all
        then show "runs C m w5 (calcHeightAndSize C (upd_right (nhash n1) (Some n2) l'))
          (\<lambda>x. repr C m (view w) x (MInner lk ll (MInner k lr r)) \<and> dirty x)"
          using runs_calc [OF assms(1) w5(2)] assms(4) v w5 by simp
      qed
    qed
  qed
qed

lemma runs_rotateLeft:
  assumes "arc_ok C" "cache_ok C m (w_db w)" "shape C m (view w) n k l (MInner rk rl rr)"
    "msize l + msize rl + msize rr < 2 ^ 31"
  shows "runs C m w (rotateLeft C n)
    (\<lambda>x. repr C m (view w) x (MInner rk (MInner k l rl) rr) \<and> dirty x)"
  unfolding rotateLeft_def
proof (rule runs_bind [OF runs_copy [OF assms(2,3)]], elim conjE)
  fix n1 w1 assume w1: "view w1 = view w" "cache_ok C m (w_db w1)"
    and n1: "fresh C m (view w) n1 k l (MInner rk rl rr)"
  have s1: "shape C m (view w1) n1 k l (MInner rk rl rr)" using n1 w1 by (simp add: fresh_def)
  show "runs C m w1 (andThen (getRightNode C n1) (\<lambda>x. andThen (removeOrphan x) (\<lambda>_. andThen (nd_copy x) (\<lambda>l'.
      let n1' = upd_right (leftHash l') (leftNode l') n1
      in andThen (calcHeightAndSize C n1') (\<lambda>n2. calcHeightAndSize C (upd_left (nhash n1) (Some n2) l'))))))
    (\<lambda>x. repr C m (view w) x (MInner rk (MInner k l rl) rr) \<and> dirty x)"
  proof (rule runs_shape_right [OF assms(1) w1(2) s1], rule runs_bind [OF runs_removeOrphan])
    fix x w2 assume x: "repr C m (view w1) x (MInner rk rl rr)"
    show "repr C m (view w1) x (MInner rk rl rr)" by (rule x)
    fix w3 assume w2: "view w2 = view w1" and w3: "view w3 = view w2" "cache_ok C m (w_db w3)"
    show "runs C m w3 (andThen (nd_copy x) (\<lambda>l'.
      let n1' = upd_right (leftHash l') (leftNode l') n1
      in andThen (calcHeightAndSize C n1') (\<lambda>n2. calcHeightAndSize C (upd_left (nhash n1) (Some n2) l'))))
    (\<lambda>x. repr C m (view w) x (MInner rk (MInner k l rl) rr) \<and> dirty x)"
    proof (rule runs_bind [OF runs_copy [OF w3(2) repr_shape [OF x]]], elim conjE, unfold Let_def)
      fix l' w4 assume w4: "view w4 = view w3" "cache_ok C m (w_db w4)"
        and l': "fresh C m (view w1) l' rk rl rr"
      have v: "view w4 = view w" using w1 w2 w3 w4 by simp
      have f: "fresh C m (view w4) (upd_right (leftHash l') (leftNode l') n1) k l rl"
        using n1 l' w1 v by (intro fresh_upd_right) (auto simp: fresh_def shape_def)
      show "runs C m w4 (andThen (calcHeightAndSize C (upd_right (leftHash l') (leftNode l') n1))
          (\<lambda>n2. calcHeightAndSize C (upd_left (nhash n1) (Some n2) l')))
        (\<lambda>x. repr C m (view w) x (MInner rk (MInner k l rl) rr) \<and> dirty x)"
      proof (rule runs_bind [OF runs_calc [OF assms(1) w4(2) f]])
        show "msize l + msize rl < 2 ^ 31" using assms(4) by simp
        fix n2 w5 assume w5: "view w5 = view w4" "cache_ok C m (w_db w5)"
          and n2: "repr C m (view w4) n2 (MInner k l rl) \<and> dirty n2"
        have "fresh C m (view w5) (upd_left (nhash n1) (Some n2) l') rk (MInner k l rl) rr"
          using l' n2 v w1 w5 by (intro fresh_upd_left [where l = rl]) simp_all
        then show "runs C m w5 (calcHeightAndSize C (upd_left (nhash n1) (Some n2) l'))
          (\<lambda>x. repr C m (view w) x (MInner rk (MInner k l rl) rr) \<and> dirty x)"
          using runs_calc [OF assms(1) w5(2)] assms(4) v w5 by simp
      qed
    qed
  qed
qed

lemma shape_cong: "shape C m d n k l r \<Longrightarrow> d' = d \<Longrightarrow> shape C m d' n k l r"
  by simp

lemma runs_double_right:
  assumes C: "arc_ok C" "cache_ok C m (w_db w)"
    and f: "fresh C m (view w) n k (MInner lk ll (MInner mk ml mr)) r"
    and z: "msize ll + msize ml + msize mr + msize r < 2 ^ 31"
  shows "runs C m w (andThen (getLeftNode C n) (\<lambda>left. andThen (removeOrphan left) (\<lambda>_.
      andThen (rotateLeft C left) (\<lambda>left'. rotateRight C (upd_left None (Some left') n)))))
    (\<lambda>x. repr C m (view w) x (MInner mk (MInner lk ll ml) (MInner k mr r)) \<and> dirty x)"
proof -
  have s: "shape C m (view w) n k (MInner lk ll (MInner mk ml mr)) r" using f by (simp add: fresh_def)
  show ?thesis
  proof (rule runs_shape_left [OF C s], rule runs_bind [OF runs_removeOrphan])
    fix y w3 assume y: "repr C m (view w) y (MInner lk ll (MInner mk ml mr))" and w3: "view w3 = view w"
    show "repr C m (view w) y (MInner lk ll (MInner mk ml mr))" by (rule y)
    fix w4 assume w4: "view w4 = view w3" "cache_ok C m (w_db w4)"
    have sy: "shape C m (view w4) y lk ll (MInner mk ml mr)" using y w3 w4 repr_shape by simp
    show "runs C m w4 (andThen (rotateLeft C y) (\<lambda>left'. rotateRight C (upd_left None (Some left') n)))
      (\<lambda>x. repr C m (view w) x (MInner mk (MInner lk ll ml) (MInner k mr r)) \<and> dirty x)"
    proof (rule runs_bind [OF runs_rotateLeft [OF C(1) w4(2) sy]])
      show "msize ll + msize ml + msize mr < 2 ^ 31" using z by simp
      fix q w5 assume w5: "view w5 = view w4" "cache_ok C m (w_db w5)"
        and q: "repr C m (view w4) q (MInner mk (MInner lk ll ml) mr) \<and> dirty q"
      have "fresh C m (view w5) (upd_left None (Some q) n) k (MInner mk (MInner lk ll ml) mr) r"
        using f q w3 w4 w5 by (intro fresh_upd_left [where l = "MInner lk ll (MInner mk ml mr)"]) simp_all
      then show "runs C m w5 (rotateRight C (upd_left None (Some q) n))
        (\<lambda>x. repr C m (view w) x (MInner mk (MInner lk ll ml) (MInner k mr r)) \<and> dirty x)"
        using runs_rotateRight [OF C(1) w5(2), of "upd_left None (Some q) n" k mk "MInner lk ll ml" mr r]
          z w3 w4 w5 by (simp add: fresh_def)
    qed
  qed
qed

lemma runs_double_left:
  assumes C: "arc_ok C" "cache_ok C m (w_db w)"
    and f: "fresh C m (view w) n k l (MInner rk (MInner mk ml mr) rr)"
    and z: "msize l + msize ml + msize mr + msize rr < 2 ^ 31"
  shows "runs C m w (andThen (getRightNode C n) (\<lambda>right. andThen (removeOrphan right) (\<lambda>_.
      andThen (rotateRight C right) (\<lambda>right'. rotateLeft C (upd_right None (Some right') n)))))
    (\<lambda>x. repr C m (view w) x (MInner mk (MInner k l ml) (MInner rk mr rr)) \<and> dirty x)"
proof -
  have s: "shape C m (view w) n k l (MInner rk (MInner mk ml mr) rr)" using f by (simp add: fresh_def)
  show ?thesis
  proof (rule runs_shape_right [OF C s], rule runs_bind [OF runs_removeOrphan])
    fix y w3 assume y: "repr C m (view w) y (MInner rk (MInner mk ml mr) rr)" and w3: "view w3 = view w"
    show "repr C m (view w) y (MInner rk (MInner mk ml mr) rr)" by (rule y)
    fix w4 assume w4: "view w4 = view w3" "cache_ok C m (w_db w4)"
    have sy: "shape C m (view w4) y rk (MInner mk ml mr) rr" using y w3 w4 repr_shape by simp
    show "runs C m w4 (andThen (rotateRight C y) (\<lambda>right'. rotateLeft C (upd_right None (Some right') n)))
      (\<lambda>x. repr C m (view w) x (MInner mk (MInner k l ml) (MInner rk mr rr)) \<and> dirty x)"
    proof (rule runs_bind [OF runs_rotateRight [OF C(1) w4(2) sy]])
      show "msize ml + msize mr + msize rr < 2 ^ 31" using z by simp
      fix q w5 assume w5: "view w5 = view w4" "cache_ok C m (w_db w5)"
        and q: "repr C m (view w4) q (MInner mk ml (MInner rk mr rr)) \<and> dirty q"
      have "fresh C m (view w5) (upd_right None (Some q) n) k l (MInner mk ml (MInner rk mr rr))"
        using f q w3 w4 w5 by (intro fresh_upd_right [where r = "MInner rk (MInner mk ml mr) rr"]) simp_all
      then show "runs C m w5 (rotateLeft C (upd_right None (Some q) n))
        (\<lambda>x. repr C m (view w) x (MInner mk (MInner k l ml) (MInner rk mr rr)) \<and> dirty x)"
        using runs_rotateLeft [OF C(1) w5(2), of "upd_right None (Some q) n" k l mk ml "MInner rk mr rr"]
          z w3 w4 w5 by (simp add: fresh_def)
    qed
  qed
qed

lemma runs_balance_left:
  assumes C: "arc_ok C" "cache_ok C m (w_db w)" and f: "fresh C m (view w) n k l r"
    and z: "msize l + msize r < 2 ^ 31" and b: "1 < skew (MInner k l r)"
  shows "runs C m w (andThen (getLeftNode C n) (\<lambda>l. andThen (calcBalance C l) (\<lambda>bl.
           if bl \<ge> 0 then rotateRight C n
           else andThen (getLeftNode C n) (\<lambda>left. andThen (removeOrphan left) (\<lambda>_.
                andThen (rotateLeft C left) (\<lambda>left'. rotateRight C (upd_left None (Some left') n)))))))
    (\<lambda>x. repr C m (view w) x (m_balance k l r) \<and> dirty x)"
proof -
  have s: "shape C m (view w) n k l r" using f by (simp add: fresh_def)
  obtain lk ll lr where l: "l = MInner lk ll lr" using b mheight_pos [of l] by (cases l) auto
  have single: "m_balance k l r = MInner lk ll (MInner k lr r)" if "skew (MInner lk ll lr) \<ge> 0"
    using that b l by (simp add: m_balance_def rot_right_def)
  have double: "\<exists>mk ml mr. lr = MInner mk ml mr \<and> m_balance k l r = MInner mk (MInner lk ll ml) (MInner k mr r)"
    if "\<not> skew (MInner lk ll lr) \<ge> 0"
    using that b l mheight_pos [of lr] by (cases lr) (auto simp: m_balance_def rot_right_def rot_left_def)
  show ?thesis
  proof (rule runs_shape_left [OF C s], rule runs_bind [OF runs_calcBalance [where k = lk and l = ll and r = lr]])
    fix x w1 assume w1: "view w1 = view w" "cache_ok C m (w_db w1)" and x: "repr C m (view w) x l"
    show "arc_ok C" "cache_ok C m (w_db w1)" using C w1 by simp_all
    show "shape C m (view w1) x lk ll lr" using x w1 l repr_shape by simp
    show "msize ll + msize lr < 2 ^ 31" using z l by simp
    fix bl w2 assume w2: "view w2 = view w1" "cache_ok C m (w_db w2)" and bl: "bl = skew (MInner lk ll lr)"
    have f2: "fresh C m (view w2) n k (MInner lk ll lr) r" using f w1 w2 l by simp
    show "runs C m w2 (if bl \<ge> 0 then rotateRight C n
         else andThen (getLeftNode C n) (\<lambda>left. andThen (removeOrphan left) (\<lambda>_.
              andThen (rotateLeft C left) (\<lambda>left'. rotateRight C (upd_left None (Some left') n)))))
      (\<lambda>x. repr C m (view w) x (m_balance k l r) \<and> dirty x)"
    proof (cases "bl \<ge> 0")
      case True
      then show ?thesis using single bl f2 w1 w2 z l
          runs_rotateRight [OF C(1) w2(2), of n k lk ll lr r] by (simp add: fresh_def)
    next
      case False
      then obtain mk ml mr where "lr = MInner mk ml mr"
        "m_balance k l r = MInner mk (MInner lk ll ml) (MInner k mr r)" using double bl by blast
      then show ?thesis using False f2 w1 w2 z l
          runs_double_right [OF C(1) w2(2), of n k lk ll mk ml mr r] by simp
    qed
  qed
qed

lemma runs_balance_right:
  assumes C: "arc_ok C" "cache_ok C m (w_db w)" and f: "fresh C m (view w) n k l r"
    and z: "msize l + msize r < 2 ^ 31" and b: "skew (MInner k l r) < -1"
  shows "runs C m w (andThen (getRightNode C n) (\<lambda>r. andThen (calcBalance C r) (\<lambda>br.
           if br \<le> 0 then rotateLeft C n
           else andThen (getRightNode C n) (\<lambda>right. andThen (removeOrphan right) (\<lambda>_.
                andThen (rotateRight C right) (\<lambda>right'. rotateLeft C (upd_right None (Some right') n)))))))
    (\<lambda>x. repr C m (view w) x (m_balance k l r) \<and> dirty x)"
proof -
  have s: "shape C m (view w) n k l r" using f by (simp add: fresh_def)
  obtain rk rl rr where r: "r = MInner rk rl rr" using b mheight_pos [of r] by (cases r) auto
  have single: "m_balance k l r = MInner rk (MInner k l rl) rr" if "skew (MInner rk rl rr) \<le> 0"
    using that b r by (simp add: m_balance_def rot_left_def)
  have double: "\<exists>mk ml mr. rl = MInner mk ml mr \<and> m_balance k l r = MInner mk (MInner k l ml) (MInner rk mr rr)"
    if "\<not> skew (MInner rk rl rr) \<le> 0"
    using that b r mheight_pos [of rl] by (cases rl) (auto simp: m_balance_def rot_right_def rot_left_def)
  show ?thesis
  proof (rule runs_shape_right [OF C s], rule runs_bind [OF runs_calcBalance [where k = rk and l = rl and r = rr]])
    fix x w1 assume w1: "view w1 = view w" "cache_ok C m (w_db w1)" and x: "repr C m (view w) x r"
    show "arc_ok C" "cache_ok C m (w_db w1)" using C w1 by simp_all
    show "shape C m (view w1) x rk rl rr" using x w1 r repr_shape by simp
    show "msize rl + msize rr < 2 ^ 31" using z r by simp
    fix br w2 assume w2: "view w2 = view w1" "cache_ok C m (w_db w2)" and br: "br = skew (MInner rk rl rr)"
    have f2: "fresh C m (view w2) n k l (MInner rk rl rr)" using f w1 w2 r by simp
    show "runs C m w2 (if br \<le> 0 then rotateLeft C n
         else andThen (getRightNode C n) (\<lambda>right. andThen (removeOrphan right) (\<lambda>_.
              andThen (rotateRight C right) (\<lambda>right'. rotateLeft C (upd_right None (Some right') n)))))
      (\<lambda>x. repr C m (view w) x (m_balance k l r) \<and> dirty x)"
    proof (cases "br \<le> 0")
      case True
      then show ?thesis using single br f2 w1 w2 z r
          runs_rotateLeft [OF C(1) w2(2), of n k l rk rl rr] by (simp add: fresh_def)
    next
      case False
      then obtain mk ml mr where "rl = MInner mk ml mr"
        "m_balance k l r = MInner mk (MInner k l ml) (MInner rk mr rr)" using double br by blast
      then show ?thesis using False f2 w1 w2 z r
          runs_double_left [OF C(1) w2(2), of n k l rk mk ml mr rr] by simp
    qed
  qed
qed

lemma runs_nd_balance:
  assumes C: "arc_ok C" "cache_ok C m (w_db w)" and n: "repr C m (view w) n (MInner k l r)" "dirty n"
    and z: "msize l + msize r < 2 ^ 31"
  shows "runs C m w (nd_balance C n) (\<lambda>x. repr C m (view w) x (m_balance k l r) \<and> dirty x)"
proof -
  have f: "fresh C m (view w) n k l r" using repr_dirty_fresh [OF n] .
  then have s: "shape C m (view w) n k l r" by (simp add: fresh_def)
  have p: "\<not> persisted n" using n(2) by (simp add: dirty_def)
  show ?thesis unfolding nd_balance_def if_not_P [OF p]
  proof (rule runs_bind [OF runs_calcBalance [OF C s z]])
    fix b w1 assume w1: "view w1 = view w" "cache_ok C m (w_db w1)" and b: "b = skew (MInner k l r)"
    have f1: "fresh C m (view w1) n k l r" using f w1 by simp
    consider "b > 1" | "b < -1" | "\<not> b > 1" "\<not> b < -1" by linarith
    then show "runs C m w1 (if b > 1 then
         andThen (getLeftNode C n) (\<lambda>l. andThen (calcBalance C l) (\<lambda>bl.
           if bl \<ge> 0 then rotateRight C n
           else andThen (getLeftNode C n) (\<lambda>left. andThen (removeOrphan left) (\<lambda>_.
                andThen (rotateLeft C left) (\<lambda>left'. rotateRight C (upd_left None (Some left') n))))))
       else if b < -1 then
         andThen (getRightNode C n) (\<lambda>r. andThen (calcBalance C r) (\<lambda>br.
           if br \<le> 0 then rotateLeft C n
           else andThen (getRightNode C n) (\<lambda>right. andThen (removeOrphan right) (\<lambda>_.
                andThen (rotateRight C right) (\<lambda>right'. rotateLeft C (upd_right None (Some right') n))))))
       else returnO n) (\<lambda>x. repr C m (view w) x (m_balance k l r) \<and> dirty x)"
    proof cases
      case 1
      then show ?thesis using runs_balance_left [OF C(1) w1(2) f1 z] b w1 by simp
    next
      case 2
      then show ?thesis using runs_balance_right [OF C(1) w1(2) f1 z] b w1 by simp
    next
      case 3
      then have "m_balance k l r = MInner k l r" using b by (simp add: m_balance_def Let_def)
      then show ?thesis using 3 n w1 by simp
    qed
  qed
qed

section \<open>Insertion\<close>

lemma msize_set: "msize (fst (m_set key val T)) = msize T + (if snd (m_set key val T) then 0 else 1)"
  by (induction T) (auto split: prod.splits)

lemma repr_NewNode: "repr C m d (NewNode k v) (MLeaf k v) \<and> dirty (NewNode k v)"
  by (simp add: NewNode_def repr.simps hash_fits_def dirty_def)

text \<open>After the recursive call: nothing more when a value was replaced, else dimensions and balance.\<close>

lemma runs_set_finish:
  assumes C: "arc_ok C" "cache_ok C m (w_db w)" and f: "fresh C m (view w) n k l r"
    and z: "msize l + msize r < 2 ^ 31"
    and u: "updated \<Longrightarrow> nheight n = int (mheight (MInner k l r)) \<and> nsize n = int (msize (MInner k l r))"
  shows "runs C m w (if updated then returnO (n, True)
            else andThen (calcHeightAndSize C n) (\<lambda>n.
                 andThen (nd_balance C n) (\<lambda>n. returnO (n, False))))
    (\<lambda>(x, b). repr C m (view w) x (if updated then MInner k l r else m_balance k l r) \<and> dirty x
       \<and> b = updated)"
proof (cases updated)
  case True
  then show ?thesis using fresh_repr [OF f] u C f by (simp add: fresh_def)
next
  case False
  have "runs C m w (andThen (calcHeightAndSize C n) (\<lambda>n. andThen (nd_balance C n) (\<lambda>n. returnO (n, False))))
    (\<lambda>(x, b). repr C m (view w) x (m_balance k l r) \<and> dirty x \<and> b = updated)"
  proof (rule runs_bind [OF runs_calc [OF C f z]])
    fix x w1 assume w1: "view w1 = view w" "cache_ok C m (w_db w1)"
      and x: "repr C m (view w) x (MInner k l r) \<and> dirty x"
    show "runs C m w1 (andThen (nd_balance C x) (\<lambda>n. returnO (n, False)))
      (\<lambda>(x, b). repr C m (view w) x (m_balance k l r) \<and> dirty x \<and> b = updated)"
      using x w1 z False by (intro runs_bind [OF runs_nd_balance [OF C(1) w1(2), of x k l r]]) auto
  qed
  with False show ?thesis by simp
qed

lemma runs_nd_set:
  assumes "arc_ok C" "cache_ok C m (w_db w)" "repr C m (view w) n T" "msize T + 1 < 2 ^ 31" "mheight T < f"
  shows "runs C m w (nd_set C f key val n)
    (\<lambda>(x, b). repr C m (view w) x (fst (m_set key val T)) \<and> dirty x \<and> b = snd (m_set key val T))"
  using assms
proof (induction T arbitrary: n f w)
  case (MLeaf k v)
  obtain f' where f: "f = Suc f'" using MLeaf.prems(5) by (cases f) auto
  have n: "nkey n = k" "nheight n = 0" using repr_leaf [OF MLeaf.prems(3)] by auto
  have N: "repr C m (view w) (NewNode key val) (MLeaf key val)" "dirty (NewNode key val)"
    using repr_NewNode by blast+
  consider "key < k" | "key = k" | "\<not> key < k" "key \<noteq> k" by blast
  then show ?case
  proof cases
    case 1
    then show ?thesis using f n N MLeaf.prems(2,3)
        repr_fresh_inner [of C m "view w" None "Some (NewNode key val)" "MLeaf key val" None "Some n" "MLeaf k v" k]
      by (simp add: dirty_def)
  next
    case 2
    then show ?thesis using f n N
        runs_bind [OF runs_removeOrphan [OF MLeaf.prems(2,3)], of "\<lambda>_. returnO (NewNode key val, True)"]
      by simp
  next
    case 3
    then show ?thesis using f n N MLeaf.prems(2,3)
        repr_fresh_inner [of C m "view w" None "Some n" "MLeaf k v" None "Some (NewNode key val)" "MLeaf key val" key]
      by (simp add: dirty_def)
  qed
next
  case (MInner k l r)
  obtain f' where f: "f = Suc f'" using MInner.prems(5) by (cases f) auto
  note C = MInner.prems(1) and rn = MInner.prems(3)
  have fits: "msize l + 1 < 2 ^ 31" "msize r + 1 < 2 ^ 31" "mheight l < f'" "mheight r < f'"
    using MInner.prems(4,5) f by auto
  let ?fin = "\<lambda>(n, updated). if updated then returnO (n, True)
            else andThen (calcHeightAndSize C n) (\<lambda>n.
                 andThen (nd_balance C n) (\<lambda>n. returnO (n, False)))"
  let ?Q = "\<lambda>(x, b). repr C m (view w) x (fst (m_set key val (MInner k l r))) \<and> dirty x
      \<and> b = snd (m_set key val (MInner k l r))"
  obtain l' ul where l': "m_set key val l = (l', ul)" by fastforce
  obtain r' ur where r': "m_set key val r = (r', ur)" by fastforce
  have L: "runs C m w1 (andThen (andThen (getLeftNode C n1) (\<lambda>l.
        andThen (nd_set C f' key val l) (\<lambda>(l', updated). returnO (upd_left None (Some l') n1, updated)))) ?fin) ?Q"
    if w1: "view w1 = view w" "cache_ok C m (w_db w1)" and n1: "fresh C m (view w) n1 k l r"
      "nheight n1 = nheight n" "nsize n1 = nsize n" and k: "key < k" for w1 n1
  proof (rule runs_bind)
    show "runs C m w1 (andThen (getLeftNode C n1) (\<lambda>l.
        andThen (nd_set C f' key val l) (\<lambda>(l', updated). returnO (upd_left None (Some l') n1, updated))))
      (\<lambda>(x, u). fresh C m (view w) x k l' r \<and> nheight x = nheight n \<and> nsize x = nsize n \<and> u = ul)"
    proof (rule runs_shape_left [OF C w1(2), of n1 k l r], goal_cases)
      case 1 then show ?case using n1 w1 by (simp add: fresh_def)
    next
      case (2 x w2)
      then show ?case using w1 n1 l' fits fresh_upd_left [OF n1(1)]
        by (intro runs_bind [OF MInner.IH(1) [OF C]]) auto
    qed
    fix p w2 assume w2: "view w2 = view w1" "cache_ok C m (w_db w2)"
      and p: "case p of (x, u) \<Rightarrow> fresh C m (view w) x k l' r \<and> nheight x = nheight n \<and> nsize x = nsize n \<and> u = ul"
    have "ul \<Longrightarrow> mheight l' = mheight l \<and> msize l' = msize l"
      using m_set_updated_height [of key val l l'] msize_set [of key val l] l' by simp
    then show "runs C m w2 (?fin p) ?Q"
      using runs_set_finish [OF C w2(2), of "fst p" k l' r ul] p w1 w2 k l' repr_dims [OF rn]
        MInner.prems(4) msize_set [of key val l]
      by (cases p) (auto split: if_splits)
  qed
  have R: "runs C m w1 (andThen (andThen (getRightNode C n1) (\<lambda>l.
        andThen (nd_set C f' key val l) (\<lambda>(l', updated). returnO (upd_right None (Some l') n1, updated)))) ?fin) ?Q"
    if w1: "view w1 = view w" "cache_ok C m (w_db w1)" and n1: "fresh C m (view w) n1 k l r"
      "nheight n1 = nheight n" "nsize n1 = nsize n" and k: "\<not> key < k" for w1 n1
  proof (rule runs_bind)
    show "runs C m w1 (andThen (getRightNode C n1) (\<lambda>l.
        andThen (nd_set C f' key val l) (\<lambda>(l', updated). returnO (upd_right None (Some l') n1, updated))))
      (\<lambda>(x, u). fresh C m (view w) x k l r' \<and> nheight x = nheight n \<and> nsize x = nsize n \<and> u = ur)"
    proof (rule runs_shape_right [OF C w1(2), of n1 k l r], goal_cases)
      case 1 then show ?case using n1 w1 by (simp add: fresh_def)
    next
      case (2 x w2)
      then show ?case using w1 n1 r' fits fresh_upd_right [OF n1(1)]
        by (intro runs_bind [OF MInner.IH(2) [OF C]]) auto
    qed
    fix p w2 assume w2: "view w2 = view w1" "cache_ok C m (w_db w2)"
      and p: "case p of (x, u) \<Rightarrow> fresh C m (view w) x k l r' \<and> nheight x = nheight n \<and> nsize x = nsize n \<and> u = ur"
    have "ur \<Longrightarrow> mheight r' = mheight r \<and> msize r' = msize r"
      using m_set_updated_height [of key val r r'] msize_set [of key val r] r' by simp
    then show "runs C m w2 (?fin p) ?Q"
      using runs_set_finish [OF C w2(2), of "fst p" k l r' ur] p w1 w2 k r' repr_dims [OF rn]
        MInner.prems(4) msize_set [of key val r]
      by (cases p) (auto split: if_splits)
  qed
  have "runs C m w (andThen (removeOrphan n) (\<lambda>_. andThen (nd_copy n) (\<lambda>n.
       andThen (if key < nkey n
                then andThen (getLeftNode C n) (\<lambda>l. andThen (nd_set C f' key val l) (\<lambda>(l', updated).
                       returnO (upd_left None (Some l') n, updated)))
                else andThen (getRightNode C n) (\<lambda>r. andThen (nd_set C f' key val r) (\<lambda>(r', updated).
                       returnO (upd_right None (Some r') n, updated)))) ?fin))) ?Q"
  proof (rule runs_bind [OF runs_removeOrphan [OF MInner.prems(2) rn]], rule runs_bind [OF runs_copy [OF _ repr_shape [OF rn]]], assumption, goal_cases)
    case (1 x w1 n1 w2)
    then have "nkey n1 = k" by (simp add: fresh_def shape_def)
    with 1 show ?case using L [of w2 n1] R [of w2 n1] by simp
  qed
  then show ?case using f repr_inner(2) [OF rn] by simp
qed

section \<open>Removal\<close>

lemma msize_remove: "m_remove key T = (Some S, nk, v, b) \<Longrightarrow> msize S \<le> msize T"
proof (induction T arbitrary: S nk v b)
  case (MInner k l r)
  obtain L nl vl bl where l: "m_remove key l = (L, nl, vl, bl)" by (metis surj_pair)
  obtain R nr vr br where r: "m_remove key r = (R, nr, vr, br)" by (metis surj_pair)
  show ?case using MInner l r
    by (cases L; cases R) (auto split: if_splits)
qed (auto split: if_splits)

definition removed_as :: "mavl_env \<Rightarrow> bool \<Rightarrow> (bytes \<Rightarrow> bytes option)
    \<Rightarrow> mtree option \<times> bytes option \<times> bytes \<times> bool
    \<Rightarrow> bytes option \<times> Node option \<times> bytes option \<times> bytes \<times> bool \<Rightarrow> bool" where
  "removed_as C m d S X \<longleftrightarrow>
    (case (S, X) of ((R, nk, v, b), (h, x, nk', v', b')) \<Rightarrow>
       (case R of None \<Rightarrow> h = None \<and> x = None | Some T \<Rightarrow> child C m d h x T)
       \<and> nk' = nk \<and> b' = b \<and> read_value m (if b then Some v else None) v')"

text \<open>After the recursive call removed something and left something: copy, replace and balance.\<close>

lemma runs_remove_finish:
  assumes C: "arc_ok C" "cache_ok C m (w_db w)" and n: "repr C m (view w) n (MInner k l r)"
    and g: "\<And>x. fresh C m (view w) x k l r \<Longrightarrow> fresh C m (view w) (g x) k' l' r'"
    and z: "msize l' + msize r' < 2 ^ 31" and v: "read_value m (Some v) v'"
  shows "runs C m w (andThen (removeOrphan n) (\<lambda>_. andThen (nd_copy n) (\<lambda>n.
           andThen (calcHeightAndSize C (g n)) (\<lambda>n.
           andThen (nd_balance C n) (\<lambda>n. returnO (nhash n, Some n, nk, v', True))))))
    (removed_as C m (view w) (Some (m_balance k' l' r'), nk, v, True))"
proof (rule runs_bind [OF runs_removeOrphan [OF C(2) n]], rule runs_bind [OF runs_copy [OF _ repr_shape [OF n]]],
    assumption, rule runs_bind [OF runs_calc [OF C(1), where k = k' and l = l' and r = r']], goal_cases)
  case (1 _ w1 x w2) then show ?case by simp
next
  case (2 _ w1 x w2) then show ?case using g by simp
next
  case 3 then show ?case using z by simp
next
  case (4 _ w1 x w2 y w3)
  then show ?case using v z
    by (intro runs_bind [OF runs_nd_balance [OF C(1), of m w3 y k' l' r']]) (auto simp: removed_as_def)
qed

lemma runs_nd_remove:
  assumes "arc_ok C" "cache_ok C m (w_db w)" "repr C m (view w) n T" "msize T < 2 ^ 31" "mheight T < f"
  shows "runs C m w (nd_remove C f key n) (removed_as C m (view w) (m_remove key T))"
  using assms
proof (induction T arbitrary: n f w)
  case (MLeaf k v)
  obtain f' where f: "f = Suc f'" using MLeaf.prems(5) by (cases f) auto
  have n: "nkey n = k" "nheight n = 0" "nvalue n = (if persisted n then leaf_value m v else v)"
    using repr_leaf [OF MLeaf.prems(3)] by auto
  show ?case
  proof (cases "key = k")
    case True
    have "runs C m w (andThen (removeOrphan n) (\<lambda>_. returnO (None, None, None, nvalue n, True)))
        (removed_as C m (view w) (None, None, v, True))"
      using n(3) by (intro runs_bind [OF runs_removeOrphan [OF MLeaf.prems(2,3)]])
        (auto simp: removed_as_def read_value_def leaf_value_def)
    with True show ?thesis using f n by simp
  next
    case False
    then show ?thesis using f n MLeaf.prems(2,3) by (simp add: removed_as_def read_value_def)
  qed
next
  case (MInner k l r)
  obtain f' where f: "f = Suc f'" using MInner.prems(5) by (cases f) auto
  note C = MInner.prems(1) and rn = MInner.prems(3)
  have fits: "msize l < 2 ^ 31" "msize r < 2 ^ 31" "mheight l < f'" "mheight r < f'"
    using MInner.prems(4,5) f by auto
  have n: "nkey n = k" "nheight n \<noteq> 0" "child C m (view w) (leftHash n) (leftNode n) l"
    "child C m (view w) (rightHash n) (rightNode n) r" using repr_inner [OF rn] by auto
  show ?case
  proof (cases "key < k")
    case True
    obtain L nl vl bl where l: "m_remove key l = (L, nl, vl, bl)" by (metis surj_pair)
    have "runs C m w (nd_remove C (Suc f') key n) (removed_as C m (view w) (m_remove key (MInner k l r)))"
      unfolding nd_remove.simps if_not_P [OF n(2)] n(1) if_P [OF True]
    proof (rule runs_shape_left [OF C MInner.prems(2) repr_shape [OF rn]], rule runs_bind [OF MInner.IH(1) [OF C]], goal_cases)
      case (5 x w1 X w2)
      then have v: "view w2 = view w" "cache_ok C m (w_db w2)" and X: "removed_as C m (view w) (L, nl, vl, bl) X"
        using l by simp_all
      have n2: "repr C m (view w2) n (MInner k l r)" using rn v by simp
      obtain h y nk v' b' where XX: "X = (h, y, nk, v', b')" by (metis surj_pair)
      show ?case
      proof (cases "bl \<and> L \<noteq> None")
        case True
        then obtain S where S: "L = Some S" by blast
        then have c: "child C m (view w2) h y S" and e: "nk = nl" "b'" "read_value m (Some vl) v'"
          using X XX True v by (auto simp: removed_as_def)
        have "msize S + msize r < 2 ^ 31" using msize_remove [of key l S nl vl bl] l S MInner.prems(4) by simp
        then have "runs C m w2 (andThen (removeOrphan n) (\<lambda>_. andThen (nd_copy n) (\<lambda>n.
           andThen (calcHeightAndSize C (upd_left h y n)) (\<lambda>n.
           andThen (nd_balance C n) (\<lambda>n. returnO (nhash n, Some n, nk, v', True))))))
          (removed_as C m (view w2) (Some (m_balance k S r), nk, vl, True))"
          using runs_remove_finish [OF C v(2) n2, of "upd_left h y" k S r] fresh_upd_left c e by blast
        then show ?thesis using XX e S l v True \<open>key < k\<close> child_not_nil [OF c] by auto
      next
        case False
        then show ?thesis using X XX l v rn n \<open>key < k\<close>
          by (cases bl; cases L) (auto simp: removed_as_def read_value_def child_def)
      qed
    qed (use fits in simp_all)
    then show ?thesis using f by simp
  next
    case False
    obtain R nr vr br where r: "m_remove key r = (R, nr, vr, br)" by (metis surj_pair)
    have "runs C m w (nd_remove C (Suc f') key n) (removed_as C m (view w) (m_remove key (MInner k l r)))"
      unfolding nd_remove.simps if_not_P [OF n(2)] n(1) if_not_P [OF False]
    proof (rule runs_shape_right [OF C MInner.prems(2) repr_shape [OF rn]], rule runs_bind [OF MInner.IH(2) [OF C]], goal_cases)
      case (5 x w1 X w2)
      then have v: "view w2 = view w" "cache_ok C m (w_db w2)" and X: "removed_as C m (view w) (R, nr, vr, br) X"
        using r by simp_all
      have n2: "repr C m (view w2) n (MInner k l r)" using rn v by simp
      obtain h y nk v' b' where XX: "X = (h, y, nk, v', b')" by (metis surj_pair)
      show ?case
      proof (cases "br \<and> R \<noteq> None")
        case True
        then obtain S where S: "R = Some S" by blast
        then have c: "child C m (view w2) h y S" and e: "nk = nr" "b'" "read_value m (Some vr) v'"
          using X XX True v by (auto simp: removed_as_def)
        let ?g = "\<lambda>n. (case nk of None \<Rightarrow> id | Some k \<Rightarrow> upd_key k) (upd_right h y n)"
        have "msize l + msize S < 2 ^ 31" using msize_remove [of key r S nr vr br] r S MInner.prems(4) by simp
        moreover have "fresh C m (view w2) x k l r
            \<Longrightarrow> fresh C m (view w2) (?g x) (case nk of None \<Rightarrow> k | Some x \<Rightarrow> x) l S" for x
          using fresh_upd_right [of C m "view w2" x k l r h y S] c fresh_upd_key by (cases nk) auto
        ultimately have "runs C m w2 (andThen (removeOrphan n) (\<lambda>_. andThen (nd_copy n) (\<lambda>n.
           andThen (calcHeightAndSize C (?g n)) (\<lambda>n.
           andThen (nd_balance C n) (\<lambda>n. returnO (nhash n, Some n, None, v', True))))))
          (removed_as C m (view w2) (Some (m_balance (case nk of None \<Rightarrow> k | Some x \<Rightarrow> x) l S), None, vr, True))"
          using runs_remove_finish [OF C v(2) n2, of ?g] e by blast
        then show ?thesis using XX e S r v True \<open>\<not> key < k\<close> child_not_nil [OF c] by auto
      next
        case False
        then show ?thesis using X XX r v rn n \<open>\<not> key < k\<close>
          by (cases br; cases R) (auto simp: removed_as_def read_value_def child_def)
      qed
    qed (use fits in simp_all)
    then show ?thesis using f by simp
  qed
qed

end
