(* ===== verification/Mavl_Save.thy ===== *)
theory Mavl_Save
  imports Mavl_Update
begin

text \<open>
  Hashing a tree, saving it and loading it again.  The root hash of a tree is the hash of the
  represented tree, whichever block heights are in the prefixes below.  Saving writes one
  entry for each node that is not in the database yet; afterwards the returned hash loads the same
  tree, and every tree that was stored before is still stored, unless two of the trees involved
  have the same hash.
\<close>

section \<open>Hashing\<close>

lemma last_bytes_32 [simp]: "length h = 32 \<Longrightarrow> last_bytes 32 (p @ h) = h"
  by (cases p) (simp_all add: last_bytes_def)

lemma last_bytes_32' [simp]: "length h = 32 \<Longrightarrow> last_bytes 32 h = h"
  using last_bytes_32 [of h "[]"] by simp

lemma prefixHash_Ok:
  assumes "t_root t = Some root"
  shows "\<exists>pre. prefixHash t ht h = Ok (pre @ h) \<and> (ht = nheight root \<longrightarrow> pre = [])"
  using assms by (auto simp: prefixHash_def split: option.splits)

lemma LeafNode_Hash_length: "sha_ok C \<Longrightarrow> length (LeafNode_Hash C x) = 32"
  by (simp add: sha_ok_def LeafNode_Hash_def)

lemma InnerNode_Hash_length: "sha_ok C \<Longrightarrow> length (InnerNode_Hash C x) = 32"
  by (simp add: sha_ok_def InnerNode_Hash_def)

lemma InnerNode_Hash_fits:
  assumes "sha_ok C" "last_bytes 32 lb = mhash C l" "last_bytes 32 rb = mhash C r"
  shows "InnerNode_Hash C \<lparr>in_LeftHash = lb, in_RightHash = rb,
      in_Height = int (mheight (MInner k l r)), in_Size = int (msize (MInner k l r))\<rparr>
    = mhash C (MInner k l r)"
  using assms mhash_length [OF assms(1)] by (simp add: InnerNode_Hash_def)

text \<open>A node that has its hash, and a child that has one or is in the database.\<close>

lemma child_hash:
  assumes "child C m d h n T" "\<And>x. n = Some x \<Longrightarrow> \<exists>x'. nd_Hash C t x = Ok x' \<and> repr C m d x' T \<and> nhash x' \<noteq> None"
  shows "\<exists>b n'. (case n of None \<Rightarrow> Ok (h, None) | Some l \<Rightarrow> bindR (nd_Hash C t l) (\<lambda>l'. Ok (nhash l', Some l')))
      = Ok (Some b, n') \<and> child C m d (Some b) n' T \<and> last_bytes 32 b = mhash C T
      \<and> (\<forall>x. n' = Some x \<longrightarrow> nhash x = Some b)"
proof (cases n)
  case None
  then obtain b where "h = Some b" "stored C m d b T" using assms(1) by (auto simp: child_def)
  then show ?thesis using None stored_hash by (auto simp: child_def)
next
  case (Some x)
  then obtain x' b where "nd_Hash C t x = Ok x'" "repr C m d x' T" "nhash x' = Some b"
    using assms(2) [OF Some] by blast
  then show ?thesis using Some repr_hash by auto
qed

lemma nd_Hash_hashed: "nhash n \<noteq> None \<Longrightarrow> nd_Hash C t n = Ok n"
  by (cases n) (auto split: option.splits)

lemma nd_Hash_repr:
  assumes "sha_ok C" "t_root t = Some root" "repr C m d n T"
  shows "\<exists>n'. nd_Hash C t n = Ok n' \<and> repr C m d n' T \<and> nhash n' \<noteq> None \<and> persisted n' = persisted n
    \<and> (nhash n = None \<and> nheight n = nheight root \<longrightarrow> nhash n' = Some (mhash C T))"
  using assms(3)
proof (induction T arbitrary: n)
  case (MLeaf k v)
  show ?case
  proof (cases "nhash n")
    case None
    then have n: "n = Node k v 0 1 None None None None None False"
      using MLeaf repr_persisted [OF MLeaf] by (cases n) (auto simp: repr.simps split: if_splits)
    obtain pre where pre: "prefixHash t 0 (mhash C (MLeaf k v)) = Ok (pre @ mhash C (MLeaf k v))"
      "nheight root = 0 \<longrightarrow> pre = []"
      using prefixHash_Ok [OF assms(2), of 0 "mhash C (MLeaf k v)"] by auto
    have "last_bytes 32 (pre @ mhash C (MLeaf k v)) = mhash C (MLeaf k v)"
      using mhash_length [OF assms(1)] by (rule last_bytes_32)
    then show ?thesis using n pre by (simp add: repr.simps hash_fits_def)
  qed (use MLeaf nd_Hash_hashed in auto)
next
  case (MInner k l r)
  show ?case
  proof (cases "nhash n")
    case None
    then have p: "\<not> persisted n" using repr_persisted [OF MInner.prems] by auto
    obtain lh ln rh rn where n: "n = Node k [] (int (mheight (MInner k l r))) (int (msize (MInner k l r))) None lh ln rh rn False"
      and c: "child C m d lh ln l" "child C m d rh rn r"
      using MInner.prems None p by (auto simp: repr.simps child_def split: option.splits)
    have hl: "\<exists>x'. nd_Hash C t x = Ok x' \<and> repr C m d x' l \<and> nhash x' \<noteq> None" if "ln = Some x" for x
      using MInner.IH(1) [of x] c(1) that by auto
    have hr: "\<exists>x'. nd_Hash C t x = Ok x' \<and> repr C m d x' r \<and> nhash x' \<noteq> None" if "rn = Some x" for x
      using MInner.IH(2) [of x] c(2) that by auto
    obtain lb ln' where L: "(case ln of None \<Rightarrow> Ok (lh, None) | Some l \<Rightarrow> bindR (nd_Hash C t l) (\<lambda>l'. Ok (nhash l', Some l')))
      = Ok (Some lb, ln')" "child C m d (Some lb) ln' l" "last_bytes 32 lb = mhash C l" "\<And>x. ln' = Some x \<Longrightarrow> nhash x = Some lb"
      using child_hash [OF c(1) hl] by blast
    obtain rb rn' where R: "(case rn of None \<Rightarrow> Ok (rh, None) | Some l \<Rightarrow> bindR (nd_Hash C t l) (\<lambda>l'. Ok (nhash l', Some l')))
      = Ok (Some rb, rn')" "child C m d (Some rb) rn' r" "last_bytes 32 rb = mhash C r" "\<And>x. rn' = Some x \<Longrightarrow> nhash x = Some rb"
      using child_hash [OF c(2) hr] by blast
    let ?T = "MInner k l r"
    obtain pre where pre: "prefixHash t (int (mheight ?T)) (mhash C ?T) = Ok (pre @ mhash C ?T)"
      "int (mheight ?T) = nheight root \<longrightarrow> pre = []"
      using prefixHash_Ok [OF assms(2), of "int (mheight ?T)" "mhash C ?T"] by blast
    have "nd_Hash C t n = Ok (Node k [] (int (mheight ?T)) (int (msize ?T)) (Some (pre @ mhash C ?T))
        (Some lb) ln' (Some rb) rn' False)"
      using n L(1) R(1) InnerNode_Hash_fits [OF assms(1) L(3) R(3), of k] pre(1)
      by (simp del: msize.simps mhash.simps add: mheight.simps [symmetric])
    moreover have "repr C m d (Node k [] (int (mheight ?T)) (int (msize ?T)) (Some (pre @ mhash C ?T))
        (Some lb) ln' (Some rb) rn' False) ?T"
      using L(2,4) R(2,4) last_bytes_32 [OF mhash_length [OF assms(1)], of pre ?T]
      by (auto simp: repr.simps hash_fits_def child_def simp del: mhash.simps split: option.splits)
    ultimately show ?thesis using n pre(2) by simp
  qed (use MInner.prems nd_Hash_hashed in auto)
qed

section \<open>What a batch of writes holds\<close>

definition leaf_bytes :: "mavl_env \<Rightarrow> bytes \<Rightarrow> bytes \<Rightarrow> bytes" where
  "leaf_bytes C k v = me_StoreBytes C \<lparr>sn_Key = k, sn_Value = v, sn_LeftHash = [], sn_RightHash = [],
     sn_Height = 0, sn_Size = 1\<rparr>"

definition inner_bytes :: "mavl_env \<Rightarrow> bytes \<Rightarrow> mtree \<Rightarrow> mtree \<Rightarrow> bytes \<Rightarrow> bytes \<Rightarrow> bytes" where
  "inner_bytes C k l r lh rh = me_StoreBytes C \<lparr>sn_Key = k, sn_Value = [], sn_LeftHash = lh, sn_RightHash = rh,
     sn_Height = int (mheight (MInner k l r)), sn_Size = int (msize (MInner k l r))\<rparr>"

text \<open>A tree is placed under a hash when it is stored there or a write of the batch puts it there.\<close>

fun placed :: "mavl_env \<Rightarrow> (bytes \<Rightarrow> bytes option) \<Rightarrow> (bytes \<times> bytes) list \<Rightarrow> bytes \<Rightarrow> mtree \<Rightarrow> bool" where
  "placed C d W h (MLeaf k v) \<longleftrightarrow>
     stored C False d h (MLeaf k v)
     \<or> last_bytes 32 h = mhash C (MLeaf k v) \<and> (h, leaf_bytes C k v) \<in> set W"
| "placed C d W h (MInner k l r) \<longleftrightarrow>
     stored C False d h (MInner k l r)
     \<or> last_bytes 32 h = mhash C (MInner k l r)
       \<and> (\<exists>lh rh. (h, inner_bytes C k l r lh rh) \<in> set W \<and> placed C d W lh l \<and> placed C d W rh r)"

fun written :: "mavl_env \<Rightarrow> (bytes \<Rightarrow> bytes option) \<Rightarrow> (bytes \<times> bytes) list \<Rightarrow> bytes \<Rightarrow> bytes \<Rightarrow> mtree \<Rightarrow> bool" where
  "written C d W h buf (MLeaf k v) \<longleftrightarrow> last_bytes 32 h = mhash C (MLeaf k v) \<and> buf = leaf_bytes C k v"
| "written C d W h buf (MInner k l r) \<longleftrightarrow> last_bytes 32 h = mhash C (MInner k l r)
     \<and> (\<exists>lh rh. buf = inner_bytes C k l r lh rh \<and> placed C d W lh l \<and> placed C d W rh r)"

lemma placed_hash: "placed C d W h T \<Longrightarrow> last_bytes 32 h = mhash C T"
  by (cases T) (auto dest: stored_hash)

lemma placed_stored: "stored C False d h T \<Longrightarrow> placed C d W h T"
  by (cases T) auto

lemma placed_mono: "placed C d W h T \<Longrightarrow> set W \<subseteq> set V \<Longrightarrow> placed C d V h T"
proof (induction T arbitrary: h)
  case (MInner k l r)
  then show ?case unfolding placed.simps by blast
qed auto

lemma written_mono: "written C d W h buf T \<Longrightarrow> set W \<subseteq> set V \<Longrightarrow> written C d V h buf T"
  by (cases T) (auto intro: placed_mono)

lemma written_placed: "written C d W h buf T \<Longrightarrow> (h, buf) \<in> set W \<Longrightarrow> placed C d W h T"
  by (cases T) auto

definition put_all :: "(bytes \<times> bytes) list \<Rightarrow> (bytes \<Rightarrow> bytes option) \<Rightarrow> bytes \<Rightarrow> bytes option" where
  "put_all W d = fold (\<lambda>(k, v) m. m(k \<mapsto> v)) W d"

lemma put_all_snoc [simp]: "put_all (W @ [(k, v)]) d = (put_all W d)(k \<mapsto> v)"
  by (simp add: put_all_def)

lemma put_all_Nil [simp]: "put_all [] d = d"
  by (simp add: put_all_def)

lemma put_all_cases: "put_all W d h = d h \<and> h \<notin> fst ` set W \<or> (\<exists>buf. (h, buf) \<in> set W \<and> put_all W d h = Some buf)"
proof (induction W rule: rev_induct)
  case (snoc p W)
  then show ?case by (cases p) auto
qed simp

section \<open>The stored form of a node\<close>

lemma db_node_leaf:
  assumes "store_codec_ok C" "d h = Some (leaf_bytes C k v)"
  shows "db_node C d h = Some (Node k v 0 1 (Some h) None None None None True)"
  using assms by (simp add: db_node_def leaf_bytes_def store_codec_ok_def MakeNode_def upd_saved_def in_i32_def)

lemma strip_ne: "sha_ok C \<Longrightarrow> last_bytes 32 h = mhash C T \<Longrightarrow> h \<noteq> []"
  using mhash_length [of C T] by (auto simp: last_bytes_def)

lemma db_node_inner:
  assumes "store_codec_ok C" "d h = Some (inner_bytes C k l r lh rh)" "lh \<noteq> []" "rh \<noteq> []"
    "msize l + msize r < 2 ^ 31"
  shows "db_node C d h = Some (Node k [] (int (mheight (MInner k l r))) (int (msize (MInner k l r)))
    (Some h) (Some lh) None (Some rh) None True)"
proof -
  have "mheight (MInner k l r) < 2 ^ 31" using small_height [of "MInner k l r"] assms(5) by simp
  then have "in_i32 (int (mheight (MInner k l r)))" "in_i32 (int (msize (MInner k l r)))"
    "int (msize (MInner k l r)) \<noteq> 0"
    using assms(5) msize_pos [of "MInner k l r"] by (auto simp: in_i32_def simp del: msize_pos)
  then have "inner_bytes C k l r lh rh \<noteq> [] \<and> me_StoreParse C (inner_bytes C k l r lh rh) =
      Some \<lparr>sn_Key = k, sn_Value = [], sn_LeftHash = lh, sn_RightHash = rh,
        sn_Height = int (mheight (MInner k l r)), sn_Size = int (msize (MInner k l r))\<rparr>"
    using assms(1) unfolding inner_bytes_def store_codec_ok_def by simp
  then show ?thesis using assms(2-4)
    by (simp add: db_node_def MakeNode_def upd_saved_def nilable_def)
qed

section \<open>From written to stored\<close>

text \<open>
  The message of the root node of a tree, its encoding, and that the hash of a tree is the
  hash of that encoding.
\<close>

fun tree_msg :: "mavl_env \<Rightarrow> mtree \<Rightarrow> LeafNode + InnerNode" where
  "tree_msg C (MLeaf k v) = Inl \<lparr>lf_Key = k, lf_Value = v, lf_Height = 0, lf_Size = 1\<rparr>"
| "tree_msg C (MInner k l r) = Inr \<lparr>in_LeftHash = mhash C l, in_RightHash = mhash C r,
     in_Height = int (mheight (MInner k l r)), in_Size = int (msize (MInner k l r))\<rparr>"

definition msg_bytes :: "mavl_env \<Rightarrow> LeafNode + InnerNode \<Rightarrow> bytes" where
  "msg_bytes C m = (case m of Inl lf \<Rightarrow> me_LeafBytes C lf | Inr i \<Rightarrow> me_InnerBytes C i)"

lemma mhash_msg: "sha_ok C \<Longrightarrow> mhash C T = me_Sha256 C (msg_bytes C (tree_msg C T))"
  using mhash_length [of C] by (cases T) (simp_all add: msg_bytes_def LeafNode_Hash_def InnerNode_Hash_def)

text \<open>
  A set of balanced search trees closed under subtrees, none too large for the 32-bit size field,
  none with the hash that stands for the empty tree, whose node messages have different
  encodings, of which no two have the same SHA-256 hash. That different trees then have
  different hashes follows from how the nodes are hashed.
\<close>

definition universe :: "mavl_env \<Rightarrow> mtree set \<Rightarrow> bool" where
  "universe C U \<longleftrightarrow> (\<forall>T \<in> U. subtrees T \<subseteq> U \<and> msize T + 1 < 2 ^ 31 \<and> mtree_ok T
       \<and> mhash C T \<noteq> emptyRoot)
     \<and> inj_on (msg_bytes C) (tree_msg C ` U) \<and> inj_on (me_Sha256 C) (msg_bytes C ` tree_msg C ` U)"

lemma universe_inner: "universe C U \<Longrightarrow> MInner k l r \<in> U \<Longrightarrow> l \<in> U \<and> r \<in> U \<and> msize l + msize r < 2 ^ 31"
proof -
  assume "universe C U" "MInner k l r \<in> U"
  then have "subtrees (MInner k l r) \<subseteq> U" "msize (MInner k l r) + 1 < 2 ^ 31" by (auto simp only: universe_def)
  then show ?thesis using subtrees_self [of l] subtrees_self [of r] by auto
qed

lemma universe_msg:
  assumes "sha_ok C" "universe C U" "S \<in> U" "T \<in> U" "mhash C S = mhash C T" shows "tree_msg C S = tree_msg C T"
proof -
  have "msg_bytes C (tree_msg C S) = msg_bytes C (tree_msg C T)"
    using assms(2-5) unfolding mhash_msg [OF assms(1)] universe_def by (blast dest: inj_onD)
  then show ?thesis using assms(2-4) unfolding universe_def by (blast dest: inj_onD)
qed

lemma universe_inj:
  assumes C: "sha_ok C" and U: "universe C U"
  shows "S \<in> U \<Longrightarrow> T \<in> U \<Longrightarrow> mhash C S = mhash C T \<Longrightarrow> S = T"
proof (induction S arbitrary: T)
  case (MLeaf k v)
  then show ?case using universe_msg [OF C U MLeaf.prems] by (cases T) auto
next
  case (MInner k l r)
  note m = universe_msg [OF C U MInner.prems]
  then obtain k' l' r' where T: "T = MInner k' l' r'" by (cases T) auto
  have "l = l'" "r = r'"
    using m MInner.IH universe_inner [OF U MInner.prems(1)] universe_inner [OF U MInner.prems(2) [unfolded T]]
    by (auto simp: T simp del: mhash.simps)
  moreover have "k = first_key r" "k' = first_key r'"
    using U MInner.prems(1,2) by (auto simp: universe_def mtree_ok_def ordered_def T)
  ultimately show ?case by (simp add: T)
qed

lemma universeI:
  assumes C: "sha_ok C" and inj: "inj_on (mhash C) U"
    and U: "\<forall>T \<in> U. subtrees T \<subseteq> U \<and> msize T + 1 < 2 ^ 31 \<and> mtree_ok T \<and> mhash C T \<noteq> emptyRoot"
  shows "universe C U"
proof -
  have "S = T" if "S \<in> U" "T \<in> U" "me_Sha256 C (msg_bytes C (tree_msg C S)) = me_Sha256 C (msg_bytes C (tree_msg C T))" for S T
    using inj_onD [OF inj] that unfolding mhash_msg [OF C, symmetric] by blast
  then show ?thesis using U unfolding universe_def by (auto simp: inj_on_def) metis+
qed

lemma placed_stored_after:
  assumes C: "store_codec_ok C" "sha_ok C" and U: "universe C U"
    and W: "\<And>h buf. (h, buf) \<in> set W \<Longrightarrow> \<exists>S \<in> U. written C d W h buf S"
    and T: "placed C d W h T" "T \<in> U"
  shows "stored C False (put_all W d) h T"
  using T
proof (induction T arbitrary: h)
  case (MLeaf k v)
  have s: "last_bytes 32 h = mhash C (MLeaf k v)" using placed_hash [OF MLeaf.prems(1)] .
  from put_all_cases [of W d h] show ?case
  proof (elim disjE exE conjE)
    assume "put_all W d h = d h" "h \<notin> fst ` set W"
    moreover from this have "stored C False d h (MLeaf k v)" using MLeaf.prems(1) by force
    ultimately show ?thesis by (simp add: stored.simps db_node_def)
  next
    fix buf assume b: "(h, buf) \<in> set W" "put_all W d h = Some buf"
    then obtain S where S: "S \<in> U" "written C d W h buf S" using W by blast
    then have "mhash C S = mhash C (MLeaf k v)" using s by (cases S) auto
    then have "S = MLeaf k v" using universe_inj [OF C(2) U S(1) MLeaf.prems(2)] by simp
    then show ?thesis using S(2) b db_node_leaf [OF C(1)] s by (simp add: stored.simps leaf_value_def)
  qed
next
  case (MInner k l r)
  note u = universe_inner [OF U MInner.prems(2)]
  have s: "last_bytes 32 h = mhash C (MInner k l r)" using placed_hash [OF MInner.prems(1)] .
  from put_all_cases [of W d h] show ?case
  proof (elim disjE exE conjE)
    assume e: "put_all W d h = d h" "h \<notin> fst ` set W"
    then have "stored C False d h (MInner k l r)" using MInner.prems(1) by force
    then show ?thesis using e(1) MInner.IH u placed_stored
      by (auto simp: stored.simps db_node_def)
  next
    fix buf assume b: "(h, buf) \<in> set W" "put_all W d h = Some buf"
    then obtain S where S: "S \<in> U" "written C d W h buf S" using W by blast
    then have "mhash C S = mhash C (MInner k l r)" using s by (cases S) auto
    then have "S = MInner k l r" using universe_inj [OF C(2) U S(1) MInner.prems(2)] by simp
    then obtain lh rh where lr: "buf = inner_bytes C k l r lh rh" "placed C d W lh l" "placed C d W rh r"
      using S(2) by auto
    then have "lh \<noteq> []" "rh \<noteq> []" using strip_ne [OF C(2)] placed_hash by blast+
    then show ?thesis using lr b s u MInner.IH db_node_inner [OF C(1), of "put_all W d" h k l r lh rh]
      by (auto simp: stored.simps)
  qed
qed

section \<open>Saving\<close>

text \<open>
  While nodes are saved, the cache is right about the database with the batch written to it.
\<close>

definition pending :: "world \<Rightarrow> (bytes \<times> bytes) list option" where
  "pending w = (case t_ndb (w_tree w) of None \<Rightarrow> None | Some nd \<Rightarrow> nd_batch nd)"

definition cache_pending :: "mavl_env \<Rightarrow> mtree set \<Rightarrow> (bytes \<times> bytes) list \<Rightarrow> kvdb \<Rightarrow> bool" where
  "cache_pending C U W d \<longleftrightarrow>
    (\<forall>hs k n. kd_cache d = Some hs \<and> hist_get hs k = Some n \<longrightarrow>
       db_node C (put_all W (kd_map d)) k = Some n \<and> 2 < nheight n
       \<and> (\<exists>T \<in> U. placed C (kd_map d) W k T \<and> nheight n = int (mheight T)))"

text \<open>What saving part of a tree does to the world: it adds writes of trees to the batch.\<close>

definition saves :: "mavl_env \<Rightarrow> mtree set \<Rightarrow> world \<Rightarrow> world \<Rightarrow> (bytes \<times> bytes) list \<Rightarrow> bool" where
  "saves C U w w' W \<longleftrightarrow>
     kd_map (w_db w') = kd_map (w_db w) \<and> t_root (w_tree w') = t_root (w_tree w)
     \<and> t_blockHeight (w_tree w') = t_blockHeight (w_tree w) \<and> t_config (w_tree w') = t_config (w_tree w)
     \<and> (\<exists>b. pending w = Some b \<and> pending w' = Some (b @ W)
         \<and> cache_pending C U (b @ W) (w_db w')
         \<and> (\<forall>h buf. (h, buf) \<in> set W \<longrightarrow> (\<exists>S \<in> U. written C (kd_map (w_db w)) (b @ W) h buf S)))"

lemma saves_refl: "pending w = Some b \<Longrightarrow> cache_pending C U b (w_db w) \<Longrightarrow> saves C U w w []"
  by (simp add: saves_def)

lemma saves_trans:
  assumes "saves C U w w1 V" "saves C U w1 w2 W" shows "saves C U w w2 (V @ W)"
proof -
  obtain b where b: "pending w = Some b" "pending w1 = Some (b @ V)" "pending w2 = Some (b @ V @ W)"
    "cache_pending C U (b @ V @ W) (w_db w2)" using assms by (auto simp: saves_def)
  have "\<exists>S \<in> U. written C (kd_map (w_db w)) (b @ V @ W) h buf S" if "(h, buf) \<in> set V" for h buf
    using assms(1) b(1) that written_mono [of C _ "b @ V" h buf _ "b @ V @ W"]
    unfolding saves_def by fastforce
  moreover have "\<exists>S \<in> U. written C (kd_map (w_db w)) (b @ V @ W) h buf S" if "(h, buf) \<in> set W" for h buf
    using assms b(2) that unfolding saves_def by auto
  ultimately show ?thesis using assms b unfolding saves_def by auto
qed

definition plain_config :: "Tree \<Rightarrow> bool" where
  "plain_config t \<longleftrightarrow> (case t_config t of None \<Rightarrow> True | Some c \<Rightarrow> \<not> EnableMVCC c)"

text \<open>The node as it is handed to \<^verbatim>\<open>SaveNode\<close>: hashed, with children placed, none in memory.\<close>

fun savable :: "mavl_env \<Rightarrow> (bytes \<Rightarrow> bytes option) \<Rightarrow> (bytes \<times> bytes) list \<Rightarrow> bytes \<Rightarrow> Node \<Rightarrow> mtree \<Rightarrow> bool" where
  "savable C d W h n (MLeaf k v) \<longleftrightarrow>
     n = Node k v 0 1 (Some h) None None None None False \<and> last_bytes 32 h = mhash C (MLeaf k v)"
| "savable C d W h n (MInner k l r) \<longleftrightarrow>
     last_bytes 32 h = mhash C (MInner k l r)
     \<and> (\<exists>lh rh. n = Node k [] (int (mheight (MInner k l r))) (int (msize (MInner k l r))) (Some h)
            (Some lh) None (Some rh) None False
          \<and> placed C d W lh l \<and> placed C d W rh r)"

lemma savable_store:
  assumes "savable C d W h n T" "plain_config t"
  shows "\<exists>buf. storeNode C t n = Ok buf \<and> written C d W h buf T"
proof (cases T)
  case (MLeaf k v)
  then show ?thesis using assms
    by (auto simp: storeNode_def leaf_bytes_def plain_config_def split: option.splits)
next
  case (MInner k l r)
  then show ?thesis using assms
    by (auto simp: storeNode_def inner_bytes_def simp del: mheight.simps) auto
qed

lemma written_db_node:
  assumes C: "store_codec_ok C" "sha_ok C" and U: "universe C U" "T \<in> U"
    and "savable C d W h n T" "plain_config t" "storeNode C t n = Ok buf" "d' h = Some buf"
  shows "db_node C d' h = Some (upd_saved (Some h) n)"
proof (cases T)
  case (MLeaf k v)
  then have "buf = leaf_bytes C k v" "n = Node k v 0 1 (Some h) None None None None False"
    using assms by (auto simp: storeNode_def leaf_bytes_def plain_config_def split: option.splits)
  then show ?thesis using db_node_leaf [OF C(1)] assms(8) by (simp add: upd_saved_def)
next
  case (MInner k l r)
  then obtain lh rh where n: "n = Node k [] (int (mheight (MInner k l r))) (int (msize (MInner k l r))) (Some h)
      (Some lh) None (Some rh) None False" "placed C d W lh l" "placed C d W rh r"
    using assms(5) by auto
  then have "lh \<noteq> []" "rh \<noteq> []" using strip_ne [OF C(2)] placed_hash by blast+
  moreover have "buf = inner_bytes C k l r lh rh" using n(1) assms(7) by (simp add: storeNode_def inner_bytes_def)
  ultimately show ?thesis using db_node_inner [OF C(1), of d' h k l r lh rh] assms(8) n(1)
      universe_inner [OF U(1), of k l r] U(2) MInner by (simp add: upd_saved_def)
qed

lemma db_node_cong: "d k = d' k \<Longrightarrow> db_node C d k = db_node C d' k"
  by (simp add: db_node_def)

lemma savable_fields:
  "savable C d W h n T \<Longrightarrow> nhash n = Some h \<and> \<not> persisted n \<and> nheight n = int (mheight T)
     \<and> last_bytes 32 h = mhash C T"
  by (cases T) auto

lemma cache_pending_write:
  assumes C: "sha_ok C" and U: "universe C U" "T \<in> U" and T: "placed C (kd_map d) (W @ [(h, buf)]) h T" "nheight n = int (mheight T)"
    and c: "cache_pending C U W d" and n: "db_node C ((put_all W (kd_map d))(h \<mapsto> buf)) h = Some n"
    and hs: "kd_cache d = Some hs" "hist_get (if 2 < nheight n then CAdd h n # hs else hs) k = Some x"
  shows "db_node C (put_all (W @ [(h, buf)]) (kd_map d)) k = Some x \<and> 2 < nheight x
    \<and> (\<exists>T \<in> U. placed C (kd_map d) (W @ [(h, buf)]) k T \<and> nheight x = int (mheight T))"
proof (cases "k = h")
  case True
  have "2 < nheight n"
  proof (rule ccontr)
    assume s: "\<not> 2 < nheight n"
    then have "hist_get hs h = Some x" using hs(2) True by simp
    then have "2 < nheight x \<and> (\<exists>T \<in> U. placed C (kd_map d) W h T \<and> nheight x = int (mheight T))"
      using c hs(1) unfolding cache_pending_def by blast
    then obtain S where S: "S \<in> U" "placed C (kd_map d) W h S" "nheight x = int (mheight S)" "2 < nheight x"
      by blast
    then have "mhash C S = mhash C T" using placed_hash [OF S(2)] placed_hash [OF T(1)] by simp
    then show False using universe_inj [OF C U(1) S(1) U(2)] S s T(2) by simp
  qed
  then show ?thesis using True hs n T U by auto
next
  case False
  then have "hist_get hs k = Some x" using hs by (simp split: if_splits)
  then have *: "db_node C (put_all W (kd_map d)) k = Some x" "2 < nheight x"
    "\<exists>T \<in> U. placed C (kd_map d) W k T \<and> nheight x = int (mheight T)"
    using c hs(1) unfolding cache_pending_def by blast+
  then show ?thesis using False db_node_cong [of "put_all (W @ [(h, buf)]) (kd_map d)" k "put_all W (kd_map d)" C]
      placed_mono [of C "kd_map d" W k _ "W @ [(h, buf)]"] by auto
qed

lemma SaveNode_saves:
  assumes C: "store_codec_ok C" "sha_ok C" and U: "universe C U" "T \<in> U"
    and n: "savable C (kd_map (w_db w)) b h n T" and w: "pending w = Some b" "plain_config (w_tree w)"
      "cache_pending C U b (w_db w)"
  shows "\<exists>w' buf. SaveNode C n w = (Ok (upd_saved (Some h) n), w') \<and> saves C U w w' [(h, buf)]
    \<and> placed C (kd_map (w_db w)) (b @ [(h, buf)]) h T"
proof -
  obtain nd where nd: "t_ndb (w_tree w) = Some nd" "nd_batch nd = Some b"
    using w(1) by (auto simp: pending_def split: option.splits)
  obtain buf where buf: "storeNode C (w_tree w) n = Ok buf" "written C (kd_map (w_db w)) b h buf T"
    using savable_store [OF n w(2)] by blast
  note f = savable_fields [OF n]
  let ?n = "upd_saved (Some h) n"
  let ?d = "nd\<lparr>nd_batch := Some (b @ [(h, buf)]), nd_orphans := removeAll h (nd_orphans nd)\<rparr>"
  let ?w = "cacheNode ?n (w\<lparr>w_tree := (w_tree w)\<lparr>t_ndb := Some ?d\<rparr>\<rparr>)"
  have run: "SaveNode C n w = (Ok ?n, ?w)"
    using nd buf f by (simp add: SaveNode_def Let_def)
  have wr: "written C (kd_map (w_db w)) (b @ [(h, buf)]) h buf T" using written_mono [OF buf(2), of "b @ [(h, buf)]"] by (simp add: subset_insertI)
  then have pl: "placed C (kd_map (w_db w)) (b @ [(h, buf)]) h T" using written_placed by simp
  have h: "nheight ?n = int (mheight T)" using f by (simp add: upd_saved_def)
  have dn: "db_node C ((put_all b (kd_map (w_db w)))(h \<mapsto> buf)) h = Some ?n"
    using written_db_node [OF C U n w(2) buf(1)] by simp
  have c: "kd_cache (w_db ?w) = map_option (\<lambda>hs. if 2 < nheight ?n then CAdd h ?n # hs else hs) (kd_cache (w_db w))"
    by (cases "kd_cache (w_db w)") (simp_all add: cacheNode_def cache_event_def upd_saved_def)
  have "cache_pending C U (b @ [(h, buf)]) (w_db ?w)"
    unfolding cache_pending_def
  proof (intro allI impI, elim conjE)
    fix hs' k x assume 1: "kd_cache (w_db ?w) = Some hs'" "hist_get hs' k = Some x"
    then obtain hs where hs: "kd_cache (w_db w) = Some hs"
      "hist_get (if 2 < nheight ?n then CAdd h ?n # hs else hs) k = Some x" using c by auto
    show "db_node C (put_all (b @ [(h, buf)]) (kd_map (w_db ?w))) k = Some x \<and> 2 < nheight x
      \<and> (\<exists>T \<in> U. placed C (kd_map (w_db ?w)) (b @ [(h, buf)]) k T \<and> nheight x = int (mheight T))"
      using cache_pending_write [OF C(2) U pl h w(3) dn hs] by simp
  qed
  then have "saves C U w ?w [(h, buf)]"
    using w(1) wr U(2) unfolding saves_def by (auto simp: pending_def)
  then show ?thesis using run pl by blast
qed

lemma repr_hashed_unsaved:
  assumes "repr C False d n T" "\<not> persisted n" "nhash n = Some h"
  shows "case T of MLeaf k v \<Rightarrow> savable C d W h n T \<and> leftNode n = None \<and> rightNode n = None
    | MInner k l r \<Rightarrow> last_bytes 32 h = mhash C T \<and> (\<exists>lh ln rh rn.
        n = Node k [] (int (mheight T)) (int (msize T)) (Some h) (Some lh) ln (Some rh) rn False
        \<and> (case ln of None \<Rightarrow> stored C False d lh l | Some x \<Rightarrow> repr C False d x l \<and> nhash x = Some lh)
        \<and> (case rn of None \<Rightarrow> stored C False d rh r | Some x \<Rightarrow> repr C False d x r \<and> nhash x = Some rh))"
proof (cases T)
  case (MLeaf k v)
  then show ?thesis using assms by (auto simp: repr.simps hash_fits_def)
next
  case (MInner k l r)
  let ?L = "\<lambda>h lh ln. case ln of None \<Rightarrow> (\<exists>b. lh = Some b \<and> stored C False d b l)
            | Some ln \<Rightarrow> repr C False d ln l \<and> (h \<noteq> None \<longrightarrow> lh \<noteq> None \<and> lh = nhash ln)"
  let ?R = "\<lambda>h rh rn. case rn of None \<Rightarrow> (\<exists>b. rh = Some b \<and> stored C False d b r)
            | Some rn \<Rightarrow> repr C False d rn r \<and> (h \<noteq> None \<longrightarrow> rh \<noteq> None \<and> rh = nhash rn)"
  have "\<exists>h lh ln rh rn. n = Node k [] (int (mheight T)) (int (msize T)) h lh ln rh rn False
      \<and> hash_fits C h T \<and> ?L h lh ln \<and> ?R h rh rn"
    using assms(1,2) unfolding MInner repr.simps by (simp only: if_False)
  then obtain lh ln rh rn where n: "n = Node k [] (int (mheight T)) (int (msize T)) (Some h) lh ln rh rn False"
    "hash_fits C (Some h) T" "?L (Some h) lh ln" "?R (Some h) rh rn" using assms(3) by auto
  have "\<exists>b. lh = Some b \<and> (case ln of None \<Rightarrow> stored C False d b l | Some x \<Rightarrow> repr C False d x l \<and> nhash x = Some b)"
    using n(3) by (cases ln) auto
  moreover have "\<exists>b. rh = Some b \<and> (case rn of None \<Rightarrow> stored C False d b r | Some x \<Rightarrow> repr C False d x r \<and> nhash x = Some b)"
    using n(4) by (cases rn) auto
  ultimately show ?thesis using n(1,2) MInner by (auto simp: hash_fits_def simp del: mhash.simps msize.simps mheight.simps)
qed

text \<open>Saving a child that is in memory, or finding that there is nothing to save.\<close>

definition saved_at :: "mavl_env \<Rightarrow> mtree set \<Rightarrow> world \<Rightarrow> bytes \<Rightarrow> mtree \<Rightarrow> world \<Rightarrow> bool" where
  "saved_at C U w h T w' \<longleftrightarrow>
    (\<exists>W b. saves C U w w' W \<and> pending w = Some b \<and> placed C (kd_map (w_db w)) (b @ W) h T)"

lemma save_child:
  assumes "case ln of None \<Rightarrow> stored C False (kd_map (w_db w)) lh l
      | Some x \<Rightarrow> repr C False (kd_map (w_db w)) x l \<and> nhash x = Some lh"
    and "pending w = Some b" "cache_pending C U b (w_db w)"
    and "\<And>x. ln = Some x \<Longrightarrow> \<exists>n' c w'. nd_save C x w = (Ok (n', c), w') \<and> saved_at C U w lh l w'"
  shows "\<exists>c w'. (case ln of None \<Rightarrow> (Ok 0, w)
      | Some x \<Rightarrow> andThen (\<lambda>w. nd_save C x w) (\<lambda>(_, c). returnO c) w) = (Ok c, w') \<and> saved_at C U w lh l w'"
proof (cases ln)
  case None
  then show ?thesis using assms(1-3) saves_refl [OF assms(2,3)] placed_stored [of C "kd_map (w_db w)" lh l b]
    by (auto simp: saved_at_def)
next
  case (Some x)
  then show ?thesis using assms(4) [OF Some] by auto
qed

lemma saved_at_frame:
  assumes "saved_at C U w h T w'"
  shows "kd_map (w_db w') = kd_map (w_db w)" "t_root (w_tree w') = t_root (w_tree w)"
    "t_config (w_tree w') = t_config (w_tree w)" "t_blockHeight (w_tree w') = t_blockHeight (w_tree w)"
    "\<exists>b. pending w' = Some b \<and> cache_pending C U b (w_db w')"
  using assms by (auto simp: saved_at_def saves_def)

lemma saved_at_step:
  assumes "saved_at C U w lh l w1" "saved_at C U w1 rh r w2"
  shows "\<exists>W b. saves C U w w2 W \<and> pending w = Some b
    \<and> placed C (kd_map (w_db w)) (b @ W) lh l \<and> placed C (kd_map (w_db w)) (b @ W) rh r"
proof -
  obtain V b where 1: "saves C U w w1 V" "pending w = Some b" "placed C (kd_map (w_db w)) (b @ V) lh l"
    using assms(1) by (auto simp: saved_at_def)
  obtain W b1 where 2: "saves C U w1 w2 W" "pending w1 = Some b1" "placed C (kd_map (w_db w1)) (b1 @ W) rh r"
    using assms(2) by (auto simp: saved_at_def)
  have "b1 = b @ V" "kd_map (w_db w1) = kd_map (w_db w)" using 1 2 by (auto simp: saves_def)
  then have "placed C (kd_map (w_db w)) (b @ V @ W) lh l" "placed C (kd_map (w_db w)) (b @ V @ W) rh r"
    using placed_mono [OF 1(3), of "b @ V @ W"] 2(3) by auto
  then show ?thesis using saves_trans [OF 1(1) 2(1)] 1(2) by blast
qed

lemma nd_save_persisted: "nhash n = Some h \<Longrightarrow> persisted n \<Longrightarrow> nd_save C n w = (Ok (n, 0), w)"
  by (simp add: nd_save.simps [of C n])

lemma saved_at_stored:
  "stored C False (kd_map (w_db w)) h T \<Longrightarrow> pending w = Some b \<Longrightarrow> cache_pending C U b (w_db w)
    \<Longrightarrow> saved_at C U w h T w"
  using saves_refl [of w b C U] placed_stored [of C "kd_map (w_db w)" h T b]
  by (auto simp: saved_at_def intro!: exI [of _ "[]"])

text \<open>\<open>saved_node\<close> is what the induction on the tree shows of each node.\<close>

definition saved_node :: "mavl_env \<Rightarrow> mtree set \<Rightarrow> world \<Rightarrow> bytes \<Rightarrow> mtree \<Rightarrow> Node \<Rightarrow> bool" where
  "saved_node C U w h T n \<longleftrightarrow>
    (\<exists>n' c w'. nd_save C n w = (Ok (n', c), w') \<and> nhash n' = Some h \<and> persisted n'
       \<and> saved_at C U w h T w')"

lemma save_leaf:
  assumes C: "store_codec_ok C" "sha_ok C" and U: "universe C U" "MLeaf k v \<in> U"
    and n: "repr C False (kd_map (w_db w)) n (MLeaf k v)" "\<not> persisted n" "nhash n = Some h"
    and w: "pending w = Some b" "plain_config (w_tree w)" "cache_pending C U b (w_db w)"
  shows "saved_node C U w h (MLeaf k v) n"
proof -
  have s: "savable C (kd_map (w_db w)) b h n (MLeaf k v)" "leftNode n = None" "rightNode n = None"
    using repr_hashed_unsaved [OF n, of b] by auto
  have e: "upd_right (rightHash n) None (upd_left (leftHash n) None n) = n"
    using s by (cases n) (simp add: upd_left_def upd_right_def)
  obtain w' buf where sv: "SaveNode C n w = (Ok (upd_saved (Some h) n), w')" "saves C U w w' [(h, buf)]"
    "placed C (kd_map (w_db w)) (b @ [(h, buf)]) h (MLeaf k v)"
    using SaveNode_saves [OF C U s(1) w] by blast
  have "saved_at C U w h (MLeaf k v) w'" using sv(2,3) w(1) unfolding saved_at_def by blast
  moreover have "\<exists>c. nd_save C n w = (Ok (upd_saved (Some h) n, c), w')"
    using n(2,3) s(2,3) e sv(1) by (simp add: nd_save.simps [of C n])
  ultimately show ?thesis unfolding saved_node_def by (auto simp: upd_saved_def)
qed

lemma save_inner:
  assumes C: "store_codec_ok C" "sha_ok C" and U: "universe C U" "MInner k l r \<in> U"
    and n: "n = Node k [] (int (mheight (MInner k l r))) (int (msize (MInner k l r))) (Some h) (Some lh) ln (Some rh) rn False"
      "last_bytes 32 h = mhash C (MInner k l r)"
    and w: "pending w = Some b" "plain_config (w_tree w)"
    and L: "(case ln of None \<Rightarrow> (Ok 0, w)
      | Some x \<Rightarrow> andThen (\<lambda>w. nd_save C x w) (\<lambda>(_, c). returnO c) w) = (Ok c1, w1)" "saved_at C U w lh l w1"
    and R: "(case rn of None \<Rightarrow> (Ok 0, w1)
      | Some x \<Rightarrow> andThen (\<lambda>w. nd_save C x w) (\<lambda>(_, c). returnO c) w1) = (Ok c2, w2)" "saved_at C U w1 rh r w2"
  shows "saved_node C U w h (MInner k l r) n"
proof -
  let ?T = "MInner k l r" and ?n = "upd_right (rightHash n) None (upd_left (leftHash n) None n)"
  note f1 = saved_at_frame [OF L(2)] and f2 = saved_at_frame [OF R(2)]
  obtain W where W: "saves C U w w2 W" "placed C (kd_map (w_db w)) (b @ W) lh l"
    "placed C (kd_map (w_db w)) (b @ W) rh r" using saved_at_step [OF L(2) R(2)] w(1) by auto
  have s: "savable C (kd_map (w_db w2)) (b @ W) h ?n ?T"
    using n W f1(1) f2(1) by (simp add: upd_left_def upd_right_def)
  have w2: "pending w2 = Some (b @ W)" "cache_pending C U (b @ W) (w_db w2)"
    using W(1) w(1) by (auto simp: saves_def)
  have p2: "plain_config (w_tree w2)" using w(2) f1(3) f2(3) by (simp add: plain_config_def)
  obtain w' buf where sv: "SaveNode C ?n w2 = (Ok (upd_saved (Some h) ?n), w')" "saves C U w2 w' [(h, buf)]"
    "placed C (kd_map (w_db w2)) ((b @ W) @ [(h, buf)]) h ?T"
    using SaveNode_saves [OF C U s w2(1) p2 w2(2)] by blast
  have "saved_at C U w h ?T w'"
    using saves_trans [OF W(1) sv(2)] sv(3) f1(1) f2(1) w(1)
    unfolding saved_at_def by (auto simp del: placed.simps)
  moreover have "nd_save C n w = (Ok (upd_saved (Some h) ?n, i64 (i64 (c1 + c2) + 1)), w')"
  proof -
    have "nhash n = Some h" "\<not> persisted n" "leftNode n = ln" "rightNode n = rn" using n(1) by simp_all
    then show ?thesis using L(1) R(1) sv(1) by (simp add: nd_save.simps [of C n])
  qed
  ultimately show ?thesis unfolding saved_node_def by (auto simp: upd_saved_def)
qed

lemma nd_save_hashed:
  assumes C: "store_codec_ok C" "sha_ok C" and U: "universe C U"
  shows "T \<in> U \<Longrightarrow> repr C False (kd_map (w_db w)) n T \<Longrightarrow> nhash n = Some h \<Longrightarrow> pending w = Some b
    \<Longrightarrow> plain_config (w_tree w) \<Longrightarrow> cache_pending C U b (w_db w) \<Longrightarrow> saved_node C U w h T n"
proof (induction T arbitrary: n w h b)
  case (MLeaf k v)
  show ?case
  proof (cases "persisted n")
    case True
    then show ?thesis using repr_persisted [OF MLeaf.prems(2) True] MLeaf.prems(3-6)
        nd_save_persisted [of n h C w] saved_at_stored [of C w h "MLeaf k v" b U]
      by (auto simp: saved_node_def)
  qed (use save_leaf [OF C U] MLeaf.prems in blast)
next
  case (MInner k l r)
  note u = universe_inner [OF U MInner.prems(1)]
  show ?case
  proof (cases "persisted n")
    case True
    then show ?thesis using repr_persisted [OF MInner.prems(2) True] MInner.prems(3-6)
        nd_save_persisted [of n h C w] saved_at_stored [of C w h "MInner k l r" b U]
      by (auto simp: saved_node_def)
  next
    case False
    let ?T = "MInner k l r"
    obtain lh ln rh rn where n: "n = Node k [] (int (mheight ?T)) (int (msize ?T)) (Some h) (Some lh) ln (Some rh) rn False"
      and cl: "case ln of None \<Rightarrow> stored C False (kd_map (w_db w)) lh l
        | Some x \<Rightarrow> repr C False (kd_map (w_db w)) x l \<and> nhash x = Some lh"
      and cr: "case rn of None \<Rightarrow> stored C False (kd_map (w_db w)) rh r
        | Some x \<Rightarrow> repr C False (kd_map (w_db w)) x r \<and> nhash x = Some rh"
      and hf: "last_bytes 32 h = mhash C ?T"
      using repr_hashed_unsaved [OF MInner.prems(2) False MInner.prems(3)] by auto
    have "saved_node C U w lh l x" if "ln = Some x" for x
      using MInner.IH(1) [of w x lh b] cl that u MInner.prems(4-6) by simp
    then obtain c1 w1 where L: "(case ln of None \<Rightarrow> (Ok 0, w)
      | Some x \<Rightarrow> andThen (\<lambda>w. nd_save C x w) (\<lambda>(_, c). returnO c) w) = (Ok c1, w1)" "saved_at C U w lh l w1"
      using save_child [OF cl MInner.prems(4,6)] unfolding saved_node_def by blast
    note f1 = saved_at_frame [OF L(2)]
    obtain b1 where b1: "pending w1 = Some b1" "cache_pending C U b1 (w_db w1)" using f1(5) by blast
    have p1: "plain_config (w_tree w1)" using MInner.prems(5) f1(3) by (simp add: plain_config_def)
    have cr1: "case rn of None \<Rightarrow> stored C False (kd_map (w_db w1)) rh r
        | Some x \<Rightarrow> repr C False (kd_map (w_db w1)) x r \<and> nhash x = Some rh" using cr unfolding f1(1) .
    have "saved_node C U w1 rh r x" if "rn = Some x" for x
      using MInner.IH(2) [of w1 x rh b1] cr1 that u b1 p1 by simp
    then obtain c2 w2 where R: "(case rn of None \<Rightarrow> (Ok 0, w1)
      | Some x \<Rightarrow> andThen (\<lambda>w. nd_save C x w) (\<lambda>(_, c). returnO c) w1) = (Ok c2, w2)" "saved_at C U w1 rh r w2"
      using save_child [OF cr1 b1] unfolding saved_node_def by blast
    show ?thesis by (rule save_inner [OF C U MInner.prems(1) n hf MInner.prems(4,5) L R])
  qed
qed

end
