(* ===== verification/Mavl_Tree.thy ===== *)
theory Mavl_Tree
  imports Mavl_Save
begin

text \<open>
  The operations of \<^verbatim>\<open>Tree\<close> and the calls on a database, on the level of the tree that the
  root represents: every call returns, keeps the trees ordered and balanced, and has the effect
  of the operations on sorted lists of bindings.
\<close>

definition env_ok :: "mavl_env \<Rightarrow> bool" where
  "env_ok C \<longleftrightarrow> arc_ok C \<and> store_codec_ok C \<and> sha_ok C"

lemma env_okD: "env_ok C \<Longrightarrow> arc_ok C" "env_ok C \<Longrightarrow> store_codec_ok C" "env_ok C \<Longrightarrow> sha_ok C"
  by (simp_all add: env_ok_def)

section \<open>The tree that the root represents\<close>

definition bindings :: "mtree option \<Rightarrow> (bytes \<times> bytes) list" where
  "bindings R = (case R of None \<Rightarrow> [] | Some T \<Rightarrow> leaves T)"

lemma bindings_simps [simp]: "bindings None = []" "bindings (Some T) = leaves T"
  by (simp_all add: bindings_def)

definition ok_tree :: "mtree option \<Rightarrow> bool" where
  "ok_tree R \<longleftrightarrow> (case R of None \<Rightarrow> True | Some T \<Rightarrow> mtree_ok T \<and> msize T + 1 < 2 ^ 31)"

definition root_is :: "mavl_env \<Rightarrow> bool \<Rightarrow> world \<Rightarrow> mtree option \<Rightarrow> bool" where
  "root_is C m w R \<longleftrightarrow>
     (case R of None \<Rightarrow> t_root (w_tree w) = None
      | Some T \<Rightarrow> (\<exists>n. t_root (w_tree w) = Some n \<and> repr C m (view w) n T))"

text \<open>A change of the tree changes the root and nothing else, apart from the cache and orphans.\<close>

definition evolves :: "mavl_env \<Rightarrow> bool \<Rightarrow> world \<Rightarrow> world \<Rightarrow> bool" where
  "evolves C m w w' \<longleftrightarrow>
     kd_map (w_db w') = kd_map (w_db w) \<and> cache_ok C m (w_db w') \<and> view w' = view w
     \<and> t_blockHeight (w_tree w') = t_blockHeight (w_tree w) \<and> t_config (w_tree w') = t_config (w_tree w)
     \<and> pending w' = pending w"

lemma evolves_refl: "cache_ok C m (w_db w) \<Longrightarrow> evolves C m w w"
  by (simp add: evolves_def)

lemma evolves_trans: "evolves C m w w' \<Longrightarrow> evolves C m w' w'' \<Longrightarrow> evolves C m w w''"
  by (simp add: evolves_def)

lemma keeps_pending: "keeps C m w w' \<Longrightarrow> pending w' = pending w"
  by (auto simp: keeps_def pending_def split: option.splits)

lemma keeps_evolves: "keeps C m w w' \<Longrightarrow> evolves C m w w'"
  using keeps_view keeps_pending by (fastforce simp: keeps_def evolves_def)

lemma root_is_keeps: "keeps C m w w' \<Longrightarrow> root_is C m w R \<Longrightarrow> root_is C m w' R"
  using keeps_view by (fastforce simp: keeps_def root_is_def split: option.splits)

lemma set_root_apply [simp]:
  "set_root n w = (Ok (), w\<lparr>w_tree := (w_tree w)\<lparr>t_root := n\<rparr>\<rparr>)"
  by (simp add: set_root_def)

lemma with_root:
  "keeps C m w w' \<Longrightarrow> evolves C m w (w'\<lparr>w_tree := (w_tree w')\<lparr>t_root := n\<rparr>\<rparr>)"
  "view (w\<lparr>w_tree := (w_tree w)\<lparr>t_root := n\<rparr>\<rparr>) = view w"
  using keeps_evolves [of C m w w'] by (auto simp: evolves_def view_def pending_def)

section \<open>Reading\<close>

lemma fuel_enough: "repr C m d n T \<Longrightarrow> mheight T < node_fuel n"
  using repr_dims [of C m d n T] by (simp add: node_fuel_def)

lemma t_Get_root:
  assumes C: "arc_ok C" "cache_ok C m (w_db w)" and R: "root_is C m w R" "ok_tree R"
  shows "\<exists>i v w'. t_Get C key w = (Ok (i, v, map_of (bindings R) key \<noteq> None), w') \<and> keeps C m w w'
    \<and> i = int (length (filter (\<lambda>p. fst p < key) (bindings R)))
    \<and> read_value m (map_of (bindings R) key) v"
proof (cases R)
  case None
  then show ?thesis using R C keeps_refl [OF C(2)] by (simp add: t_Get_def root_is_def read_value_def)
next
  case (Some T)
  then obtain n where n: "t_root (w_tree w) = Some n" "repr C m (view w) n T" "ordered T" "msize T < 2 ^ 31"
    using R by (auto simp: root_is_def ok_tree_def mtree_ok_def)
  then show ?thesis
    using nd_get_repr [OF C n(2-4) fuel_enough [OF n(2)], of key] Some m_get_leaves [OF n(3), of key]
    by (auto simp: runs_def t_Get_def rank_def)
qed

lemma t_Has_root:
  assumes C: "arc_ok C" "cache_ok C m (w_db w)" and R: "root_is C m w R" "ok_tree R"
  shows "\<exists>w'. t_Has C key w = (Ok (key \<in> fst ` set (bindings R)), w') \<and> keeps C m w w'"
proof (cases R)
  case None
  then show ?thesis using R C keeps_refl [OF C(2)] by (simp add: t_Has_def root_is_def)
next
  case (Some T)
  then obtain n where n: "t_root (w_tree w) = Some n" "repr C m (view w) n T" "ordered T"
    using R by (auto simp: root_is_def ok_tree_def mtree_ok_def)
  then show ?thesis
    using nd_has_repr [OF C n(2,3) fuel_enough [OF n(2)], of key] Some by (auto simp: runs_def t_Has_def)
qed

definition look_up :: "(bytes \<times> bytes) list \<Rightarrow> bytes \<Rightarrow> bytes" where
  "look_up kvs k = (case map_of kvs k of None \<Rightarrow> [] | Some v \<Rightarrow> v)"

lemma t_GetAll_root:
  assumes C: "arc_ok C" and R: "ok_tree R"
  shows "cache_ok C False (w_db w) \<Longrightarrow> root_is C False w R \<Longrightarrow>
    \<exists>w'. t_GetAll C keys w = (Ok (map (look_up (bindings R)) keys), w') \<and> keeps C False w w'"
proof (induction keys arbitrary: w)
  case Nil
  then show ?case using keeps_refl by simp
next
  case (Cons k ks)
  obtain i v w1 where g: "t_Get C k w = (Ok (i, v, map_of (bindings R) k \<noteq> None), w1)" "keeps C False w w1"
    "read_value False (map_of (bindings R) k) v" using t_Get_root [OF C Cons.prems R] by blast
  obtain w2 where w2: "t_GetAll C ks w1 = (Ok (map (look_up (bindings R)) ks), w2)" "keeps C False w1 w2"
    using Cons.IH [OF keeps_cache [OF g(2)] root_is_keeps [OF g(2) Cons.prems(2)]] by blast
  have "look_up (bindings R) k = (if map_of (bindings R) k \<noteq> None then v else [])"
    using g(3) by (auto simp: look_up_def read_value_def split: option.splits)
  then show ?case using g(1) w2(1) keeps_trans [OF g(2) w2(2)] by simp
qed

section \<open>Writing\<close>

definition m_put :: "bytes \<Rightarrow> bytes \<Rightarrow> mtree option \<Rightarrow> mtree option" where
  "m_put k v R = (case R of None \<Rightarrow> Some (MLeaf k v) | Some T \<Rightarrow> Some (fst (m_set k v T)))"

definition m_put_all :: "kv list \<Rightarrow> mtree option \<Rightarrow> mtree option" where
  "m_put_all kvs R = fold (\<lambda>(k, v). m_put k v) kvs R"

definition opt_size :: "mtree option \<Rightarrow> nat" where
  "opt_size R = length (bindings R)"

lemma opt_size_put: "opt_size R \<le> opt_size (m_put k v R)"
  using msize_set [of k v "the R"] by (cases R) (auto simp: opt_size_def m_put_def length_leaves)

lemma opt_size_put_all: "opt_size R \<le> opt_size (m_put_all kvs R)"
proof (induction kvs arbitrary: R)
  case (Cons p kvs)
  then show ?case using opt_size_put [of R "fst p" "snd p"] le_trans
    by (cases p) (fastforce simp: m_put_all_def)
qed (simp add: m_put_all_def)

lemma ok_tree_put:
  assumes "ok_tree R" "opt_size (m_put k v R) + 1 < 2 ^ 31" shows "ok_tree (m_put k v R)"
  using assms mtree_ok_set [of "the R" k v]
  by (cases R) (auto simp: ok_tree_def m_put_def opt_size_def length_leaves mtree_ok_def)

lemma bindings_put: "ok_tree R \<Longrightarrow> bindings (m_put k v R) = ins_kv k v (bindings R)"
  using leaves_set [of "the R" k v] by (cases R) (auto simp: m_put_def ok_tree_def mtree_ok_def)

lemma t_Set_root:
  assumes C: "arc_ok C" "cache_ok C m (w_db w)" and R: "root_is C m w R" "ok_tree R"
  shows "\<exists>w' n. t_Set C k v w = (Ok (k \<in> fst ` set (bindings R)), w') \<and> evolves C m w w'
    \<and> root_is C m w' (m_put k v R) \<and> t_root (w_tree w') = Some n \<and> dirty n"
proof (cases R)
  case None
  then show ?thesis using R(1) with_root(1) [OF keeps_refl [OF C(2)]] repr_NewNode
    by (simp add: t_Set_def root_is_def m_put_def)
next
  case (Some T)
  then obtain n where n: "t_root (w_tree w) = Some n" "repr C m (view w) n T" "ordered T" "msize T + 1 < 2 ^ 31"
    using R by (auto simp: root_is_def ok_tree_def mtree_ok_def)
  obtain x w1 where x: "nd_set C (node_fuel n) k v n w = (Ok (x, snd (m_set k v T)), w1)" "keeps C m w w1"
    "repr C m (view w) x (fst (m_set k v T))" "dirty x"
    using runs_nd_set [OF C n(2,4) fuel_enough [OF n(2)], of k v] by (auto simp: runs_def)
  let ?w = "w1\<lparr>w_tree := (w_tree w1)\<lparr>t_root := Some x\<rparr>\<rparr>"
  have "t_Set C k v w = (Ok (k \<in> fst ` set (bindings R)), ?w)"
    using n x Some m_set_updated [OF n(3), of k v] by (simp add: t_Set_def)
  moreover have "evolves C m w ?w" using with_root(1) [OF x(2)] .
  moreover have "root_is C m ?w (m_put k v R)"
    using x Some keeps_view [OF x(2)] by (simp add: root_is_def m_put_def with_root(2))
  ultimately show ?thesis using x(4) by simp
qed

lemma t_SetAll_root:
  assumes C: "arc_ok C"
  shows "cache_ok C m (w_db w) \<Longrightarrow> root_is C m w R \<Longrightarrow> ok_tree R \<Longrightarrow> opt_size (m_put_all kvs R) + 1 < 2 ^ 31 \<Longrightarrow>
    \<exists>w'. t_SetAll C kvs w = (Ok (), w') \<and> evolves C m w w' \<and> root_is C m w' (m_put_all kvs R)
      \<and> ok_tree (m_put_all kvs R)
      \<and> (kvs \<noteq> [] \<longrightarrow> (\<exists>n. t_root (w_tree w') = Some n \<and> dirty n))"
proof (induction kvs arbitrary: w R)
  case Nil
  then show ?case using evolves_refl by (auto simp: m_put_all_def)
next
  case (Cons p kvs)
  obtain k v where p: "p = (k, v)" by fastforce
  have all: "m_put_all (p # kvs) R = m_put_all kvs (m_put k v R)" by (simp add: m_put_all_def p)
  obtain w1 n where s: "t_Set C k v w = (Ok (k \<in> fst ` set (bindings R)), w1)" "evolves C m w w1"
    "root_is C m w1 (m_put k v R)" "t_root (w_tree w1) = Some n" "dirty n"
    using t_Set_root [OF C Cons.prems(1-3)] by blast
  have ok: "ok_tree (m_put k v R)"
    using ok_tree_put [OF Cons.prems(3)] opt_size_put_all [of "m_put k v R" kvs] Cons.prems(4) all by simp
  have c: "cache_ok C m (w_db w1)" using s(2) by (simp add: evolves_def)
  obtain w2 where w2: "t_SetAll C kvs w1 = (Ok (), w2)" "evolves C m w1 w2" "root_is C m w2 (m_put_all kvs (m_put k v R))"
    "ok_tree (m_put_all kvs (m_put k v R))"
    "kvs \<noteq> [] \<longrightarrow> (\<exists>n. t_root (w_tree w2) = Some n \<and> dirty n)"
    using Cons.IH [OF c s(3) ok] Cons.prems(4) all by auto
  have "kvs = [] \<Longrightarrow> w2 = w1" using w2(1) by simp
  then show ?case using s w2 all evolves_trans [OF s(2) w2(2)] by (cases "kvs = []") (auto simp: p)
qed

text \<open>The bindings after a list of insertions.\<close>

lemma bindings_put_all:
  "ok_tree R \<Longrightarrow> opt_size (m_put_all kvs R) + 1 < 2 ^ 31
    \<Longrightarrow> bindings (m_put_all kvs R) = fold (\<lambda>(k, v). ins_kv k v) kvs (bindings R)"
proof (induction kvs arbitrary: R)
  case (Cons p kvs)
  obtain k v where p: "p = (k, v)" by fastforce
  have all: "m_put_all (p # kvs) R = m_put_all kvs (m_put k v R)" by (simp add: m_put_all_def p)
  have "ok_tree (m_put k v R)"
    using ok_tree_put [OF Cons.prems(1)] opt_size_put_all [of "m_put k v R" kvs] Cons.prems(2) all by simp
  then show ?case using Cons all bindings_put [OF Cons.prems(1), of k v] by (simp add: p)
qed (simp add: m_put_all_def)

section \<open>Removing\<close>

definition m_drop :: "bytes \<Rightarrow> mtree option \<Rightarrow> mtree option" where
  "m_drop k R = (case R of None \<Rightarrow> None | Some T \<Rightarrow> fst (m_remove k T))"

lemma bindings_drop: "ok_tree R \<Longrightarrow> bindings (m_drop k R) = filter (\<lambda>p. fst p \<noteq> k) (bindings R)"
proof (cases R)
  case (Some T)
  assume "ok_tree R"
  then have o: "ordered T" using Some by (simp add: ok_tree_def mtree_ok_def)
  show ?thesis
  proof (cases "k \<in> fst ` set (leaves T)")
    case True
    then show ?thesis using m_remove_present [OF o True] Some by (auto simp: m_drop_def bindings_def)
  next
    case False
    then show ?thesis using m_remove_absent [OF o False] filter_other_keys [OF False] Some
      by (simp add: m_drop_def)
  qed
qed (simp add: m_drop_def)

lemma ok_tree_drop: "ok_tree R \<Longrightarrow> ok_tree (m_drop k R)"
proof (cases "m_drop k R")
  case (Some S)
  assume ok: "ok_tree R"
  then obtain T where T: "R = Some T" using Some by (cases R) (auto simp: m_drop_def)
  obtain nk v b where r: "m_remove k T = (Some S, nk, v, b)"
    using Some T by (cases "m_remove k T") (auto simp: m_drop_def)
  show ?thesis using mtree_ok_remove [OF _ r] msize_remove [OF r] ok T Some by (simp add: ok_tree_def)
qed (simp add: ok_tree_def)

lemma t_Remove_root:
  assumes C: "arc_ok C" "cache_ok C m (w_db w)" and R: "root_is C m w R" "ok_tree R"
  shows "\<exists>v w'. t_Remove C k w = (Ok (v, k \<in> fst ` set (bindings R)), w') \<and> evolves C m w w'
    \<and> root_is C m w' (m_drop k R) \<and> read_value m (map_of (bindings R) k) v"
proof (cases R)
  case None
  then show ?thesis using R(1) evolves_refl [OF C(2)]
    by (simp add: t_Remove_def root_is_def m_drop_def read_value_def)
next
  case (Some T)
  then obtain n where n: "t_root (w_tree w) = Some n" "repr C m (view w) n T" "ordered T" "msize T < 2 ^ 31"
    using R by (auto simp: root_is_def ok_tree_def mtree_ok_def)
  obtain X w1 where x: "nd_remove C (node_fuel n) k n w = (Ok X, w1)" "keeps C m w w1"
    "removed_as C m (view w) (m_remove k T) X"
    using runs_nd_remove [OF C n(2,4) fuel_enough [OF n(2)], of k] by (auto simp: runs_def)
  obtain h y nk v b where X: "X = (h, y, nk, v, b)" by (metis surj_pair)
  show ?thesis
  proof (cases "k \<in> fst ` set (leaves T)")
    case False
    then have "b = False" "read_value m None v" using x(3) X m_remove_absent [OF n(3) False]
      by (auto simp: removed_as_def)
    moreover have "map_of (leaves T) k = None" using map_of_not_in [OF False] .
    ultimately show ?thesis
      using False n(1) x(1) X Some keeps_evolves [OF x(2)] root_is_keeps [OF x(2) R(1)] m_remove_absent [OF n(3) False]
      by (auto simp: t_Remove_def m_drop_def read_value_def)
  next
    case True
    then obtain Q q where q: "m_remove k T = (Q, q, the (map_of (leaves T) k), True)"
      using m_remove_present [OF n(3) True] by blast
    obtain z where z: "map_of (leaves T) k = Some z" using True by (metis map_of_eq_None_iff option.exhaust)
    have b: "b" "read_value m (Some z) v" using x(3) X q z by (auto simp: removed_as_def)
    have d: "m_drop k R = Q" using q Some by (simp add: m_drop_def)
    have "\<exists>w' r. t_Remove C k w = (Ok (v, True), w'\<lparr>w_tree := (w_tree w')\<lparr>t_root := r\<rparr>\<rparr>) \<and> keeps C m w w'
      \<and> (case Q of None \<Rightarrow> r = None | Some S \<Rightarrow> \<exists>x. r = Some x \<and> repr C m (view w) x S)"
    proof (cases "y = None \<and> h \<noteq> None")
      case True
      then obtain S where S: "Q = Some S" using x(3) X q by (cases Q) (auto simp: removed_as_def)
      then obtain g where g: "h = Some g" "stored C m (view w1) g S"
        using x(3) X q True keeps_view [OF x(2)] by (auto simp: removed_as_def child_def)
      obtain s w2 where "GetNode C (Some g) w1 = (Ok s, w2)" "keeps C m w1 w2" "repr C m (view w1) s S"
        using GetNode_stored [OF C(1) keeps_cache [OF x(2)] g(2)] by (auto simp: runs_def)
      then show ?thesis using n(1) x(1) X b(1) True g S keeps_view [OF x(2)] keeps_trans [OF x(2)]
        by (auto simp: t_Remove_def)
    next
      case False
      then have "t_Remove C k w = (Ok (v, True), w1\<lparr>w_tree := (w_tree w1)\<lparr>t_root := y\<rparr>\<rparr>)"
        using n(1) x(1) X b(1) by (auto simp: t_Remove_def)
      moreover have "case Q of None \<Rightarrow> y = None | Some S \<Rightarrow> \<exists>x. y = Some x \<and> repr C m (view w) x S"
        using x(3) X q False by (auto simp: removed_as_def child_def split: option.splits)
      ultimately show ?thesis using x(2) by blast
    qed
    then obtain w' r where w': "t_Remove C k w = (Ok (v, True), w'\<lparr>w_tree := (w_tree w')\<lparr>t_root := r\<rparr>\<rparr>)"
      "keeps C m w w'" "case Q of None \<Rightarrow> r = None | Some S \<Rightarrow> \<exists>x. r = Some x \<and> repr C m (view w) x S" by blast
    then have "root_is C m (w'\<lparr>w_tree := (w_tree w')\<lparr>t_root := r\<rparr>\<rparr>) (m_drop k R)"
      using d keeps_view [OF w'(2)] by (auto simp: root_is_def with_root(2) split: option.splits)
    then show ?thesis using w'(1) True b(2) z Some with_root(1) [OF w'(2)] by auto
  qed
qed

section \<open>Loading and saving\<close>

lemma t_Load_stored:
  assumes C: "arc_ok C" "cache_ok C m (w_db w)" and h: "stored C m (view w) h T" "h \<noteq> emptyRoot"
  shows "\<exists>w'. t_Load C (Some h) w = (Ok (), w') \<and> evolves C m w w' \<and> root_is C m w' (Some T)"
proof -
  obtain n w1 where "GetNode C (Some h) w = (Ok n, w1)" "keeps C m w w1" "repr C m (view w) n T"
    using GetNode_stored [OF C h(1)] by (auto simp: runs_def)
  then show ?thesis using h(2) with_root(1) [of C m w w1] keeps_view [of C m w w1]
    by (auto simp: t_Load_def root_is_def with_root(2))
qed

text \<open>
  The invariant of the database: every entry that is a node is the root of a tree of the
  universe, stored with all its nodes, and the cache is right.
\<close>

definition db_ok :: "mavl_env \<Rightarrow> mtree set \<Rightarrow> kvdb \<Rightarrow> bool" where
  "db_ok C U d \<longleftrightarrow> universe C U \<and> cache_ok C False d
     \<and> (\<forall>h n. db_node C (kd_map d) h = Some n \<longrightarrow> (\<exists>T \<in> U. stored C False (kd_map d) h T))"

lemma stored_det: "stored C False d h S \<Longrightarrow> stored C False d h T \<Longrightarrow> S = T"
proof (induction S arbitrary: h T)
  case (MLeaf k v)
  then show ?case by (cases T) (auto simp: stored.simps leaf_value_def)
next
  case (MInner k l r)
  then show ?case by (cases T) (auto simp: stored.simps)
qed

lemma db_ok_universe:
  assumes "db_ok C U d" "stored C False (kd_map d) h T" shows "T \<in> U"
proof -
  obtain n where "db_node C (kd_map d) h = Some n" using stored_node [OF assms(2)] by blast
  then obtain S where "S \<in> U" "stored C False (kd_map d) h S" using assms(1) by (auto simp: db_ok_def)
  then show ?thesis using stored_det [OF assms(2)] by blast
qed

lemma cache_ok_pending:
  assumes "db_ok C U d" shows "cache_pending C U [] d"
  unfolding cache_pending_def
proof (intro allI impI, elim conjE)
  fix hs k n assume "kd_cache d = Some hs" "hist_get hs k = Some n"
  then have 1: "db_node C (kd_map d) k = Some n" "2 < nheight n" using assms by (auto simp: db_ok_def cache_ok_def)
  then obtain T where T: "T \<in> U" "stored C False (kd_map d) k T" using assms by (auto simp: db_ok_def)
  have "nheight n = int (mheight T)" using stored_node [OF T(2)] repr_dims 1(1) by fastforce
  then show "db_node C (put_all [] (kd_map d)) k = Some n \<and> 2 < nheight n
    \<and> (\<exists>T \<in> U. placed C (kd_map d) [] k T \<and> nheight n = int (mheight T))"
    using 1 T(1) placed_stored [OF T(2)] by auto
qed

lemma commit_db_ok:
  assumes C: "env_ok C" and d: "db_ok C U d"
    and W: "\<And>h buf. (h, buf) \<in> set W \<Longrightarrow> \<exists>S \<in> U. written C (kd_map d) W h buf S"
    and d': "kd_map d' = put_all W (kd_map d)" and c: "cache_pending C U W (d'\<lparr>kd_map := kd_map d\<rparr>)"
  shows "db_ok C U d' \<and> (\<forall>h T. T \<in> U \<and> placed C (kd_map d) W h T \<longrightarrow> stored C False (kd_map d') h T)"
proof -
  have U: "universe C U" using d by (simp add: db_ok_def)
  have after: "stored C False (kd_map d') h T" if "T \<in> U" "placed C (kd_map d) W h T" for h T
    using placed_stored_after [OF env_okD(2,3) [OF C] U W that(2,1)] d' by simp
  have "cache_ok C False d'" unfolding cache_ok_def
  proof (intro allI impI, elim conjE)
    fix hs k n assume "kd_cache d' = Some hs" "hist_get hs k = Some n"
    then have "db_node C (put_all W (kd_map d)) k = Some n \<and> 2 < nheight n
      \<and> (\<exists>T \<in> U. placed C (kd_map d) W k T \<and> nheight n = int (mheight T))"
      using c unfolding cache_pending_def by simp
    then show "db_node C (kd_map d') k = Some n \<and> 2 < nheight n \<and> (\<exists>T. stored C False (kd_map d') k T)"
      using after d' by auto
  qed
  moreover have "\<exists>T \<in> U. stored C False (kd_map d') h T" if n: "db_node C (kd_map d') h = Some n" for h n
  proof (cases "\<exists>buf. (h, buf) \<in> set W")
    case True
    then obtain buf S where "(h, buf) \<in> set W" "S \<in> U" "written C (kd_map d) W h buf S" using W by blast
    then show ?thesis using after written_placed by blast
  next
    case False
    then have "db_node C (kd_map d) h = Some n" using n put_all_cases [of W "kd_map d" h] d' by (auto simp: db_node_def)
    then obtain T where "T \<in> U" "stored C False (kd_map d) h T" using d by (auto simp: db_ok_def)
    then show ?thesis using after placed_stored by blast
  qed
  ultimately show ?thesis using U after by (simp add: db_ok_def)
qed

lemma nd_save_Hash:
  "nhash n = None \<Longrightarrow> nd_Hash C (w_tree w) n = Ok n' \<Longrightarrow> nhash n' \<noteq> None \<Longrightarrow> nd_save C n w = nd_save C n' w"
  by (auto simp: nd_save.simps [of C n] nd_save.simps [of C n'])

lemma nd_save_root:
  assumes C: "env_ok C" and d: "db_ok C U (w_db w)"
    and n: "t_root (w_tree w) = Some n" "repr C False (kd_map (w_db w)) n T" "T \<in> U"
    and w: "pending w = Some []" "plain_config (w_tree w)"
  shows "\<exists>h n' c w'. nd_save C n w = (Ok (n', c), w') \<and> nhash n' = Some h \<and> saved_at C U w h T w'
    \<and> h = (case nhash n of None \<Rightarrow> mhash C T | Some g \<Rightarrow> g)"
proof -
  have U: "universe C U" using d by (simp add: db_ok_def)
  note c = cache_ok_pending [OF d]
  show ?thesis
  proof (cases "nhash n")
    case None
    obtain n' where n': "nd_Hash C (w_tree w) n = Ok n'" "repr C False (kd_map (w_db w)) n' T"
      "nhash n' = Some (mhash C T)" using nd_Hash_repr [OF env_okD(3) [OF C] n(1,2)] None by auto
    then show ?thesis using nd_save_Hash [OF None n'(1)]
        nd_save_hashed [OF env_okD(2,3) [OF C] U n(3) n'(2,3) w c] None by (auto simp: saved_node_def)
  next
    case (Some h)
    then show ?thesis using nd_save_hashed [OF env_okD(2,3) [OF C] U n(3,2) Some w c]
      by (auto simp: saved_node_def)
  qed
qed

lemma t_Save_root:
  assumes C: "env_ok C" and d: "db_ok C U (w_db w)" and R: "root_is C False w (Some T)" "T \<in> U"
    and w: "pending w = Some []" "plain_config (w_tree w)"
  shows "\<exists>h w'. t_Save C w = (Ok (Some h), w') \<and> db_ok C U (w_db w') \<and> stored C False (kd_map (w_db w')) h T
    \<and> (\<forall>g S. stored C False (kd_map (w_db w)) g S \<longrightarrow> stored C False (kd_map (w_db w')) g S)
    \<and> h = (case nhash (the (t_root (w_tree w))) of None \<Rightarrow> mhash C T | Some g \<Rightarrow> g)"
proof -
  obtain nd where nd: "t_ndb (w_tree w) = Some nd" using w(1) by (auto simp: pending_def split: option.splits)
  obtain n where n: "t_root (w_tree w) = Some n" "repr C False (kd_map (w_db w)) n T"
    using R(1) nd by (auto simp: root_is_def view_def)
  obtain h n' c w1 where s: "nd_save C n w = (Ok (n', c), w1)" "nhash n' = Some h" "saved_at C U w h T w1"
    "h = (case nhash n of None \<Rightarrow> mhash C T | Some g \<Rightarrow> g)" using nd_save_root [OF C d n R(2) w] by blast
  obtain W where W: "saves C U w w1 W" "placed C (kd_map (w_db w)) W h T"
    using s(3) w(1) by (auto simp: saved_at_def)
  obtain nd1 where nd1: "t_ndb (w_tree w1) = Some nd1" "nd_batch nd1 = Some W"
    using W(1) w(1) by (auto simp: saves_def pending_def split: option.splits)
  let ?d = "write_batch W (w_db w1)"
  have m: "kd_map (w_db w1) = kd_map (w_db w)" using W(1) by (simp add: saves_def)
  have k: "kd_map ?d = put_all W (kd_map (w_db w))" by (simp add: write_batch_def put_all_def m)
  have "?d\<lparr>kd_map := kd_map (w_db w)\<rparr> = w_db w1" using m by (simp add: write_batch_def)
  then have cp: "cache_pending C U W (?d\<lparr>kd_map := kd_map (w_db w)\<rparr>)" using W(1) w(1) by (auto simp: saves_def)
  have wr: "\<exists>S \<in> U. written C (kd_map (w_db w)) W g buf S" if "(g, buf) \<in> set W" for g buf
    using W(1) w(1) that by (auto simp: saves_def)
  note after = commit_db_ok [OF C d wr k cp]
  have old: "stored C False (kd_map ?d) g S" if "stored C False (kd_map (w_db w)) g S" for g S
    using after placed_stored [OF that] db_ok_universe [OF d that] by blast
  have "\<exists>w'. t_Save C w = (Ok (Some h), w') \<and> w_db w' = ?d"
    using n(1) nd s(1,2) nd1 by (simp add: t_Save_def ndb_Commit_def)
  moreover have "stored C False (kd_map ?d) h T" using after R(2) W(2) by blast
  ultimately show ?thesis using after old s(4) n(1) by fastforce
qed

section \<open>Versions\<close>

text \<open>
  A state hash stands for a tree: the nil hash and the zero hash for the empty tree, the hash of a
  stored root for the stored tree.
\<close>

definition version :: "mavl_env \<Rightarrow> kvdb \<Rightarrow> bytes option \<Rightarrow> mtree option \<Rightarrow> bool" where
  "version C d h R \<longleftrightarrow>
    (case R of None \<Rightarrow> h = None \<or> h = Some emptyRoot
     | Some T \<Rightarrow> (\<exists>b. h = Some b \<and> stored C False (kd_map d) b T))"

definition plain :: "TreeConfig option \<Rightarrow> bool" where
  "plain cfg \<longleftrightarrow> (case cfg of None \<Rightarrow> True | Some c \<Rightarrow> \<not> EnableMVCC c)"

lemma emptyRoot_length: "length emptyRoot = 32"
  by (simp add: emptyRoot_def)

lemma stored_not_emptyRoot:
  assumes "db_ok C U d" "stored C False (kd_map d) b T" shows "b \<noteq> emptyRoot"
proof
  assume "b = emptyRoot"
  then have "mhash C T = emptyRoot" using stored_hash [OF assms(2)] last_bytes_32' [OF emptyRoot_length] by simp
  moreover have "T \<in> U" "universe C U" using assms db_ok_universe by (auto simp: db_ok_def)
  ultimately show False by (auto simp: universe_def)
qed

lemma version_ok_tree: "db_ok C U d \<Longrightarrow> version C d h R \<Longrightarrow> ok_tree R"
  using db_ok_universe [of C U d _ "the R"]
  by (cases R) (auto simp: ok_tree_def version_def db_ok_def universe_def)

lemma t_Load_version:
  assumes C: "env_ok C" and d: "db_ok C U (w_db w)" and h: "version C (w_db w) h R"
    and w: "t_root (w_tree w) = None" "t_ndb (w_tree w) \<noteq> None"
  shows "\<exists>w'. t_Load C h w = (Ok (), w') \<and> evolves C False w w' \<and> root_is C False w' R"
proof -
  have c: "cache_ok C False (w_db w)" using d by (simp add: db_ok_def)
  have v: "view w = kd_map (w_db w)" using w(2) by (auto simp: view_def)
  show ?thesis
  proof (cases R)
    case None
    then show ?thesis using h w(1) evolves_refl [OF c] by (auto simp: version_def t_Load_def root_is_def)
  next
    case (Some T)
    then obtain b where "h = Some b" "stored C False (kd_map (w_db w)) b T" using h by (auto simp: version_def)
    then show ?thesis using t_Load_stored [OF env_okD(1) [OF C] c] stored_not_emptyRoot [OF d] v Some by metis
  qed
qed

lemma db_ok_evolves: "db_ok C U (w_db w) \<Longrightarrow> evolves C False w w' \<Longrightarrow> db_ok C U (w_db w')"
  by (simp add: db_ok_def evolves_def)

lemma version_same: "kd_map d' = kd_map d \<Longrightarrow> version C d' h R = version C d h R"
  by (cases R) (simp_all add: version_def)

text \<open>What a call on the database keeps: the invariant, and every version there was.\<close>

definition grows :: "mavl_env \<Rightarrow> mtree set \<Rightarrow> kvdb \<Rightarrow> kvdb \<Rightarrow> bool" where
  "grows C U d d' \<longleftrightarrow> db_ok C U d' \<and> (\<forall>g S. version C d g S \<longrightarrow> version C d' g S)"

lemma grows_evolves: "db_ok C U (w_db w) \<Longrightarrow> evolves C False w w' \<Longrightarrow> grows C U (w_db w) (w_db w')"
  using db_ok_evolves [of C U w w'] version_same [of "w_db w'" "w_db w" C]
  by (simp add: grows_def evolves_def)

lemma grows_trans: "grows C U d d' \<Longrightarrow> grows C U d' d'' \<Longrightarrow> grows C U d d''"
  by (simp add: grows_def)

text \<open>Saving whatever the root is, nothing included.\<close>

lemma t_Save_version:
  assumes C: "env_ok C" and d: "db_ok C U (w_db w)" and R: "root_is C False w R" "set_option R \<subseteq> U"
    and w: "pending w = Some []" "plain_config (w_tree w)"
  shows "\<exists>h w'. t_Save C w = (Ok h, w') \<and> grows C U (w_db w) (w_db w') \<and> version C (w_db w') h R
    \<and> ((\<exists>n. t_root (w_tree w) = Some n \<and> dirty n) \<longrightarrow> h = map_option (mhash C) R)"
proof (cases R)
  case None
  then show ?thesis using R(1) d by (simp add: root_is_def t_Save_def version_def grows_def)
next
  case (Some T)
  then obtain h w' where s: "t_Save C w = (Ok (Some h), w')" "db_ok C U (w_db w')" "stored C False (kd_map (w_db w')) h T"
    "\<forall>g S. stored C False (kd_map (w_db w)) g S \<longrightarrow> stored C False (kd_map (w_db w')) g S"
    "h = (case nhash (the (t_root (w_tree w))) of None \<Rightarrow> mhash C T | Some g \<Rightarrow> g)"
    using t_Save_root [OF C d _ _ w, of T] R by auto
  then have "grows C U (w_db w) (w_db w')" by (auto simp: grows_def version_def split: option.splits)
  with s Some show ?thesis by (auto simp: version_def dirty_def)
qed

definition new_world :: "kvdb \<Rightarrow> int \<Rightarrow> TreeConfig option \<Rightarrow> world" where
  "new_world d ht cfg = \<lparr>w_db = d, w_tree = SetBlockHeight ht (NewTree True cfg)\<rparr>"

lemma new_world_simps [simp]:
  "w_db (new_world d ht cfg) = d" "t_root (w_tree (new_world d ht cfg)) = None"
  "t_ndb (w_tree (new_world d ht cfg)) \<noteq> None" "pending (new_world d ht cfg) = Some []"
  "t_config (w_tree (new_world d ht cfg)) = cfg"
  by (simp_all add: new_world_def NewTree_def SetBlockHeight_def pending_def)

lemma NewTree_height: "\<lparr>w_db = d, w_tree = NewTree True cfg\<rparr> = new_world d 0 cfg"
  by (simp add: new_world_def NewTree_def SetBlockHeight_def)

lemma plain_world: "plain cfg \<Longrightarrow> evolves C False (new_world d ht cfg) w \<Longrightarrow> plain_config (w_tree w)"
  by (simp add: plain_def plain_config_def evolves_def)

lemma put_all_bound:
  "universe C U \<Longrightarrow> set_option (m_put_all kvs R) \<subseteq> U \<Longrightarrow> opt_size (m_put_all kvs R) + 1 < 2 ^ 31"
  by (cases "m_put_all kvs R") (auto simp: opt_size_def length_leaves universe_def)

lemma SetKVPair_version:
  assumes C: "env_ok C" and d: "db_ok C U d" and h: "version C d h R" and cfg: "plain cfg"
    and U: "set_option (m_put_all kvs R) \<subseteq> U"
  shows "\<exists>h' d'. SetKVPair C cfg h ht kvs d = (Ok h', d') \<and> grows C U d d'
    \<and> version C d' h' (m_put_all kvs R)
    \<and> (kvs \<noteq> [] \<longrightarrow> h' = map_option (mhash C) (m_put_all kvs R))"
proof -
  let ?w = "new_world d ht cfg"
  obtain w1 where w1: "t_Load C h ?w = (Ok (), w1)" "evolves C False ?w w1" "root_is C False w1 R"
    using t_Load_version [OF C, of U ?w h R] d h by auto
  have b: "opt_size (m_put_all kvs R) + 1 < 2 ^ 31" using put_all_bound [OF _ U, of C] d by (auto simp: db_ok_def)
  have c: "cache_ok C False (w_db w1)" using w1(2) by (simp add: evolves_def)
  obtain w2 where w2: "t_SetAll C kvs w1 = (Ok (), w2)" "evolves C False w1 w2" "root_is C False w2 (m_put_all kvs R)"
    "kvs \<noteq> [] \<longrightarrow> (\<exists>n. t_root (w_tree w2) = Some n \<and> dirty n)"
    using t_SetAll_root [OF env_okD(1) [OF C] c w1(3) version_ok_tree [OF d h] b] by blast
  have e: "evolves C False ?w w2" using evolves_trans [OF w1(2) w2(2)] .
  have d2: "db_ok C U (w_db w2)" using db_ok_evolves [OF _ e] d by simp
  have p: "pending w2 = Some []" using e by (simp add: evolves_def)
  obtain h' w3 where w3: "t_Save C w2 = (Ok h', w3)" "grows C U (w_db w2) (w_db w3)" "version C (w_db w3) h' (m_put_all kvs R)"
    "(\<exists>n. t_root (w_tree w2) = Some n \<and> dirty n) \<longrightarrow> h' = map_option (mhash C) (m_put_all kvs R)"
    using t_Save_version [OF C d2 w2(3) U p plain_world [OF cfg e]] by blast
  have "SetKVPair C cfg h ht kvs d = (Ok h', w_db w3)"
    using w1(1) w2(1) w3(1) by (simp add: SetKVPair_def with_tree_def new_world_def)
  moreover have "grows C U d (w_db w3)" using grows_trans [OF grows_evolves [OF _ e] w3(2)] d by simp
  ultimately show ?thesis using w3(3,4) w2(4) by blast
qed

lemma GetKVPair_version:
  assumes C: "env_ok C" and d: "db_ok C U d" and h: "version C d h R"
  shows "\<exists>d'. GetKVPair C cfg h keys d = (Ok (map (look_up (bindings R)) keys, None), d') \<and> grows C U d d'"
proof -
  let ?w = "new_world d 0 cfg"
  obtain w1 where w1: "t_Load C h ?w = (Ok (), w1)" "evolves C False ?w w1" "root_is C False w1 R"
    using t_Load_version [OF C, of U ?w h R] d h by auto
  have c: "cache_ok C False (w_db w1)" using w1(2) by (simp add: evolves_def)
  obtain w2 where w2: "t_GetAll C keys w1 = (Ok (map (look_up (bindings R)) keys), w2)" "keeps C False w1 w2"
    using t_GetAll_root [OF env_okD(1) [OF C] version_ok_tree [OF d h] c w1(3)] by blast
  have e: "evolves C False ?w w2" using evolves_trans [OF w1(2) keeps_evolves [OF w2(2)]] .
  have "GetKVPair C cfg h keys d = (Ok (map (look_up (bindings R)) keys, None), w_db w2)"
    using w1(1) w2(1) by (simp add: GetKVPair_def with_tree_def NewTree_height)
  then show ?thesis using grows_evolves [OF _ e] d by simp
qed

definition m_drop_all :: "bytes list \<Rightarrow> mtree option \<Rightarrow> mtree option" where
  "m_drop_all ks R = fold m_drop ks R"

fun dropped_values :: "bytes list \<Rightarrow> (bytes \<times> bytes) list \<Rightarrow> bytes list" where
  "dropped_values [] kvs = []"
| "dropped_values (k # ks) kvs = look_up kvs k # dropped_values ks (filter (\<lambda>p. fst p \<noteq> k) kvs)"

lemma t_RemoveAll_root:
  assumes C: "arc_ok C"
  shows "cache_ok C False (w_db w) \<Longrightarrow> root_is C False w R \<Longrightarrow> ok_tree R \<Longrightarrow>
    \<exists>w'. t_RemoveAll C ks w = (Ok (dropped_values ks (bindings R)), w') \<and> evolves C False w w'
      \<and> root_is C False w' (m_drop_all ks R)"
proof (induction ks arbitrary: w R)
  case Nil
  then show ?case using evolves_refl by (auto simp: m_drop_all_def)
next
  case (Cons k ks)
  obtain v w1 where s: "t_Remove C k w = (Ok (v, k \<in> fst ` set (bindings R)), w1)" "evolves C False w w1"
    "root_is C False w1 (m_drop k R)" "read_value False (map_of (bindings R) k) v"
    using t_Remove_root [OF C Cons.prems] by blast
  have c: "cache_ok C False (w_db w1)" using s(2) by (simp add: evolves_def)
  obtain w2 where w2: "t_RemoveAll C ks w1 = (Ok (dropped_values ks (bindings (m_drop k R))), w2)" "evolves C False w1 w2"
    "root_is C False w2 (m_drop_all ks (m_drop k R))"
    using Cons.IH [OF c s(3) ok_tree_drop [OF Cons.prems(3)]] by blast
  have "look_up (bindings R) k = (if k \<in> fst ` set (bindings R) then v else [])"
    using s(4) map_of_eq_None_iff [of "bindings R" k]
    by (auto simp: look_up_def read_value_def split: option.splits)
  then show ?case using s(1) w2 evolves_trans [OF s(2) w2(2)] bindings_drop [OF Cons.prems(3), of k]
    by (simp add: m_drop_all_def)
qed

lemma DelKVPair_version:
  assumes C: "env_ok C" and d: "db_ok C U d" and h: "version C d h R" and cfg: "plain cfg"
    and U: "set_option (m_drop_all ks R) \<subseteq> U"
  shows "\<exists>h' d'. DelKVPair C cfg h ks d = (Ok (h', dropped_values ks (bindings R)), d')
    \<and> grows C U d d' \<and> version C d' h' (m_drop_all ks R)"
proof -
  let ?w = "new_world d 0 cfg"
  obtain w1 where w1: "t_Load C h ?w = (Ok (), w1)" "evolves C False ?w w1" "root_is C False w1 R"
    using t_Load_version [OF C, of U ?w h R] d h by auto
  have c: "cache_ok C False (w_db w1)" using w1(2) by (simp add: evolves_def)
  obtain w2 where w2: "t_RemoveAll C ks w1 = (Ok (dropped_values ks (bindings R)), w2)" "evolves C False w1 w2"
    "root_is C False w2 (m_drop_all ks R)"
    using t_RemoveAll_root [OF env_okD(1) [OF C] c w1(3) version_ok_tree [OF d h]] by blast
  have e: "evolves C False ?w w2" using evolves_trans [OF w1(2) w2(2)] .
  have d2: "db_ok C U (w_db w2)" using db_ok_evolves [OF _ e] d by simp
  have p: "pending w2 = Some []" using e by (simp add: evolves_def)
  obtain h' w3 where w3: "t_Save C w2 = (Ok h', w3)" "grows C U (w_db w2) (w_db w3)" "version C (w_db w3) h' (m_drop_all ks R)"
    using t_Save_version [OF C d2 w2(3) U p plain_world [OF cfg e]] by blast
  have "DelKVPair C cfg h ks d = (Ok (h', dropped_values ks (bindings R)), w_db w3)"
    using w1(1) w2(1) w3(1) by (simp add: DelKVPair_def with_tree_def NewTree_height)
  moreover have "grows C U d (w_db w3)" using grows_trans [OF grows_evolves [OF _ e] w3(2)] d by simp
  ultimately show ?thesis using w3(3) by blast
qed

end
