(* ===== verification/Mavl_Proof.thy ===== *)
theory Mavl_Proof
  imports Mavl_Tree
begin

text \<open>
  Proofs that a binding is in a tree with a given root hash: a proof that the tree constructs is
  accepted, and a proof that is accepted, with no branch of height zero, shows a binding of the
  tree.  The branches have to be of positive height: leaf and inner nodes have the same
  encoding, and without the check a value that is itself a hash can be taken for a child.
\<close>

section \<open>Constructed proofs are accepted\<close>

lemma hashed_fields:
  assumes "repr C m d n (MInner k l r)" "nhash n \<noteq> None"
  shows "(case leftNode n of None \<Rightarrow> leftHash n \<noteq> None | Some x \<Rightarrow> nhash x \<noteq> None)
    \<and> (case rightNode n of None \<Rightarrow> rightHash n \<noteq> None | Some x \<Rightarrow> nhash x \<noteq> None)"
proof (cases "persisted n")
  case True
  then obtain h where "loaded C m d h n (MInner k l r)" using repr_persisted [OF assms(1)] by blast
  then show ?thesis by (auto simp: loaded.simps)
next
  case False
  then obtain h lh ln rh rn where
    n: "n = Node k [] (int (mheight (MInner k l r))) (int (msize (MInner k l r))) h lh ln rh rn False"
    and l: "case ln of None \<Rightarrow> (\<exists>b. lh = Some b \<and> stored C m d b l)
        | Some ln \<Rightarrow> repr C m d ln l \<and> (h \<noteq> None \<longrightarrow> lh \<noteq> None \<and> lh = nhash ln)"
    and r: "case rn of None \<Rightarrow> (\<exists>b. rh = Some b \<and> stored C m d b r)
        | Some rn \<Rightarrow> repr C m d rn r \<and> (h \<noteq> None \<longrightarrow> rh \<noteq> None \<and> rh = nhash rn)"
    using assms(1) unfolding repr.simps if_not_P [OF False] by blast
  have "case ln of None \<Rightarrow> lh \<noteq> None | Some x \<Rightarrow> nhash x \<noteq> None"
    using l assms(2) n by (cases ln) auto
  moreover have "case rn of None \<Rightarrow> rh \<noteq> None | Some x \<Rightarrow> nhash x \<noteq> None"
    using r assms(2) n by (cases rn) auto
  ultimately show ?thesis unfolding n by (simp only: Node.sel)
qed

lemma hashed_child:
  assumes "repr C m d n (MInner k l r)" "nhash n \<noteq> None"
  shows "is_child C m d (leftHash n) (leftNode n) l x \<Longrightarrow> nhash x \<noteq> None"
    and "is_child C m d (rightHash n) (rightNode n) r x \<Longrightarrow> nhash x \<noteq> None"
  using hashed_fields [OF assms] by (cases "leftNode n"; cases "rightNode n"; simp add: is_child_def)+

text \<open>The branches lead from the hash of the leaf to the hash of the tree.\<close>

definition int32_branch :: "InnerNode \<Rightarrow> bool" where
  "int32_branch b \<longleftrightarrow> in_i32 (in_Height b) \<and> in_i32 (in_Size b)"

definition leads :: "mavl_env \<Rightarrow> bytes \<Rightarrow> bytes \<Rightarrow> InnerNode list \<Rightarrow> mtree \<Rightarrow> bool" where
  "leads C key val bs T \<longleftrightarrow>
     foldl (InnerNodeProofHash C) (mhash C (MLeaf key val)) bs = mhash C T
     \<and> (\<forall>b \<in> set bs. int32_branch b)"

definition proves :: "mavl_env \<Rightarrow> bytes \<Rightarrow> mtree \<Rightarrow> MAVLProof \<Rightarrow> bool \<times> bytes \<times> MAVLProof \<Rightarrow> bool" where
  "proves C key T p0 X \<longleftrightarrow>
    (case X of (exists, _, p) \<Rightarrow>
      exists = (m_get key T \<noteq> None)
      \<and> (exists \<longrightarrow> mp_RootHash p = mp_RootHash p0
          \<and> (\<exists>bs. mp_InnerNodes p = mp_InnerNodes p0 @ bs \<and> leads C key (the (m_get key T)) bs T)))"

lemma leads_left:
  assumes "sha_ok C" "msize (MInner k l r) < 2 ^ 31" "leads C key val bs l" "last_bytes 32 rb = mhash C r"
  shows "leads C key val (bs @ [\<lparr>in_LeftHash = [], in_RightHash = rb,
    in_Height = int (mheight (MInner k l r)), in_Size = int (msize (MInner k l r))\<rparr>]) (MInner k l r)"
  using assms InnerNode_Hash_fits [OF assms(1), of "mhash C l" l rb r k] mhash_length [OF assms(1), of l]
    small_height [OF assms(2)]
  by (simp add: leads_def InnerNodeProofHash_def int32_branch_def in_i32_def)

lemma leads_right:
  assumes "sha_ok C" "msize (MInner k l r) < 2 ^ 31" "leads C key val bs r" "last_bytes 32 lb = mhash C l"
  shows "leads C key val (bs @ [\<lparr>in_LeftHash = lb, in_RightHash = [],
    in_Height = int (mheight (MInner k l r)), in_Size = int (msize (MInner k l r))\<rparr>]) (MInner k l r)"
  using assms InnerNode_Hash_fits [OF assms(1), of lb l "mhash C r" r k] mhash_length [OF assms(1), of r]
    strip_ne [OF assms(1,4)] small_height [OF assms(2)]
  by (simp add: leads_def InnerNodeProofHash_def int32_branch_def in_i32_def)

lemma runs_constructProof:
  assumes "arc_ok C" "sha_ok C" "cache_ok C m (w_db w)" "repr C m (view w) n T" "nhash n \<noteq> None" "mheight T < f"
    "msize T < 2 ^ 31"
  shows "runs C m w (nd_constructProof C f key n (v0, p0)) (proves C key T p0)"
  using assms(3-7)
proof (induction T arbitrary: n f w)
  case (MLeaf k v)
  then show ?case using repr_leaf [OF MLeaf.prems(2)]
    by (cases f) (auto simp: proves_def leads_def)
next
  case (MInner k l r)
  note C = assms(1,2)
  obtain f' where f: "f = Suc f'" using MInner.prems(4) by (cases f) auto
  note n = repr_inner [OF MInner.prems(2)] and s = repr_shape [OF MInner.prems(2)]
  note hd = repr_dims [OF MInner.prems(2)]
  have fits: "mheight l < f'" "mheight r < f'" "msize l < 2 ^ 31" "msize r < 2 ^ 31"
    using MInner.prems(4,5) f by auto
  show ?case
  proof (cases "key < k")
    case True
    have "runs C m w (nd_constructProof C (Suc f') key n (v0, p0)) (proves C key (MInner k l r) p0)"
      unfolding nd_constructProof.simps if_not_P [OF n(2)] n(1) if_P [OF True]
    proof (rule runs_bind [OF shape_left [OF C(1) MInner.prems(1) s]], rule runs_bind [OF MInner.IH(1)], goal_cases)
      case (6 x w1 X w2)
      then obtain ex v p where X: "X = (ex, v, p)" "proves C key l p0 (ex, v, p)" by (metis surj_pair)
      have w2: "cache_ok C m (w_db w2)" "view w2 = view w" using 6 by simp_all
      show ?case
      proof (cases ex)
        case False
        then show ?thesis using X w2 True by (simp add: proves_def)
      next
        case ex: True
        have "runs C m w2 (andThen (getRightNode C n) (\<lambda>r.
           returnO (True, v, p\<lparr>mp_InnerNodes := mp_InnerNodes p @
             [\<lparr>in_LeftHash = [], in_RightHash = raw (nhash r), in_Height = nheight n, in_Size = nsize n\<rparr>]\<rparr>)))
          (proves C key (MInner k l r) p0)"
        proof (rule runs_bind [OF shape_right [OF C(1) w2(1), of n k l r]])
          show "shape C m (view w2) n k l r" using s w2 by simp
          fix y and w3 :: world assume y: "is_child C m (view w2) (rightHash n) (rightNode n) r y" and "cache_ok C m (w_db w3)"
          moreover obtain rb where rb: "nhash y = Some rb" "last_bytes 32 rb = mhash C r"
            using hashed_child(2) [OF MInner.prems(2,3)] y w2(2) repr_hash [OF is_child_repr [OF y]] by auto
          ultimately show "runs C m w3 (returnO (True, v, p\<lparr>mp_InnerNodes := mp_InnerNodes p @
              [\<lparr>in_LeftHash = [], in_RightHash = raw (nhash y), in_Height = nheight n, in_Size = nsize n\<rparr>]\<rparr>))
            (proves C key (MInner k l r) p0)"
            using X ex True hd leads_left [OF C(2) MInner.prems(5) _ rb(2), of key "the (m_get key l)"]
            by (auto simp: proves_def simp del: mheight.simps msize.simps)
        qed
        then show ?thesis using X ex by simp
      qed
    qed (use fits MInner.prems hashed_child(1) [OF MInner.prems(2,3)] in \<open>auto dest: is_child_repr\<close>)
    then show ?thesis using f by simp
  next
    case False
    have "runs C m w (nd_constructProof C (Suc f') key n (v0, p0)) (proves C key (MInner k l r) p0)"
      unfolding nd_constructProof.simps if_not_P [OF n(2)] n(1) if_not_P [OF False]
    proof (rule runs_bind [OF shape_right [OF C(1) MInner.prems(1) s]], rule runs_bind [OF MInner.IH(2)], goal_cases)
      case (6 x w1 X w2)
      then obtain ex v p where X: "X = (ex, v, p)" "proves C key r p0 (ex, v, p)" by (metis surj_pair)
      have w2: "cache_ok C m (w_db w2)" "view w2 = view w" using 6 by simp_all
      show ?case
      proof (cases ex)
        case nex: False
        then show ?thesis using X w2 False by (simp add: proves_def)
      next
        case ex: True
        have "runs C m w2 (andThen (getLeftNode C n) (\<lambda>l.
           returnO (True, v, p\<lparr>mp_InnerNodes := mp_InnerNodes p @
             [\<lparr>in_LeftHash = raw (nhash l), in_RightHash = [], in_Height = nheight n, in_Size = nsize n\<rparr>]\<rparr>)))
          (proves C key (MInner k l r) p0)"
        proof (rule runs_bind [OF shape_left [OF C(1) w2(1), of n k l r]])
          show "shape C m (view w2) n k l r" using s w2 by simp
          fix y and w3 :: world assume y: "is_child C m (view w2) (leftHash n) (leftNode n) l y" and "cache_ok C m (w_db w3)"
          moreover obtain lb where lb: "nhash y = Some lb" "last_bytes 32 lb = mhash C l"
            using hashed_child(1) [OF MInner.prems(2,3)] y w2(2) repr_hash [OF is_child_repr [OF y]] by auto
          ultimately show "runs C m w3 (returnO (True, v, p\<lparr>mp_InnerNodes := mp_InnerNodes p @
              [\<lparr>in_LeftHash = raw (nhash y), in_RightHash = [], in_Height = nheight n, in_Size = nsize n\<rparr>]\<rparr>))
            (proves C key (MInner k l r) p0)"
            using X ex False hd leads_right [OF C(2) MInner.prems(5) _ lb(2), of key "the (m_get key r)"]
            by (auto simp: proves_def simp del: mheight.simps msize.simps)
        qed
        then show ?thesis using X ex by simp
      qed
    qed (use fits MInner.prems hashed_child(2) [OF MInner.prems(2,3)] in \<open>auto dest: is_child_repr\<close>)
    then show ?thesis using f by simp
  qed
qed

section \<open>The calls\<close>

definition proof_codec_ok :: "mavl_env \<Rightarrow> bool" where
  "proof_codec_ok C \<longleftrightarrow>
    (\<forall>p. (\<forall>b \<in> set (mp_InnerNodes p). int32_branch b) \<longrightarrow> me_ProofParse C (me_ProofBytes C p) = Some p)"

lemma t_Proof_root:
  assumes C: "env_ok C" "cache_ok C m (w_db w)" and R: "root_is C m w (Some T)" "mtree_ok T" "msize T < 2 ^ 31"
  shows "\<exists>v p w'. t_Proof C key w = (Ok (v, p, map_of (leaves T) key \<noteq> None), w') \<and> evolves C m w w'
    \<and> (\<forall>x. map_of (leaves T) key = Some x \<longrightarrow>
         (\<exists>bs. p = me_ProofBytes C \<lparr>mp_LeafHash = [], mp_InnerNodes = bs, mp_RootHash = []\<rparr>
            \<and> leads C key x bs T))"
proof -
  obtain n where n: "t_root (w_tree w) = Some n" "repr C m (view w) n T" using R(1) by (auto simp: root_is_def)
  obtain n' where n': "nd_Hash C (w_tree w) n = Ok n'" "repr C m (view w) n' T" "nhash n' \<noteq> None"
    using nd_Hash_repr [OF env_okD(3) [OF C(1)] n] by blast
  let ?w = "w\<lparr>w_tree := (w_tree w)\<lparr>t_root := Some n'\<rparr>\<rparr>"
  let ?p = "\<lparr>mp_LeafHash = [], mp_InnerNodes = [], mp_RootHash = raw (nhash n')\<rparr>"
  have w: "evolves C m w ?w" "view ?w = view w" "cache_ok C m (w_db ?w)"
    using with_root(1) [OF keeps_refl [OF C(2)]] with_root(2) C(2) by auto
  have "repr C m (view ?w) n' T" using n'(2) w(2) by simp
  from runs_constructProof [OF env_okD(1,3) [OF C(1)] w(3) this n'(3) fuel_enough [OF this] R(3)]
  obtain ex v p w1 where c: "nd_constructProof C (node_fuel n') key n' ([], ?p) ?w = (Ok (ex, v, p), w1)"
    "keeps C m ?w w1" "proves C key T ?p (ex, v, p)" unfolding runs_def by (metis prod_cases3)
  have g: "m_get key T = map_of (leaves T) key" using m_get_leaves R(2) by (simp add: mtree_ok_def)
  have ex: "ex = (map_of (leaves T) key \<noteq> None)" using c(3) g by (simp add: proves_def)
  have run: "t_Proof C key w = (if ex then (Ok (v, me_ProofBytes C \<lparr>mp_LeafHash = [],
      mp_InnerNodes = mp_InnerNodes p, mp_RootHash = []\<rparr>, True), w1) else (Ok ([], [], False), w1))"
    using n(1) n'(1) c(1) by (simp add: t_Proof_def t_ConstructProof_def)
  have e: "evolves C m w w1" using evolves_trans [OF w(1) keeps_evolves [OF c(2)]] .
  show ?thesis
  proof (cases ex)
    case True
    then show ?thesis using run e ex c(3) g by (auto simp: proves_def)
  next
    case False
    then show ?thesis using run e ex by auto
  qed
qed

lemma GetKVPairProof_version:
  assumes C: "env_ok C" and d: "db_ok C U d" and h: "version C d h (Some T)"
  shows "\<exists>p d'. GetKVPairProof C cfg h key d = (Ok p, d') \<and> grows C U d d'
    \<and> (case map_of (leaves T) key of None \<Rightarrow> p = None
       | Some v \<Rightarrow> \<exists>bs. p = Some (me_ProofBytes C \<lparr>mp_LeafHash = [], mp_InnerNodes = bs, mp_RootHash = []\<rparr>)
           \<and> leads C key v bs T)"
proof -
  let ?w = "new_world d 0 cfg"
  obtain w1 where w1: "t_Load C h ?w = (Ok (), w1)" "evolves C False ?w w1" "root_is C False w1 (Some T)"
    using t_Load_version [OF C, of U ?w h "Some T"] d h by auto
  have c: "cache_ok C False (w_db w1)" using w1(2) by (simp add: evolves_def)
  have T: "mtree_ok T" "msize T < 2 ^ 31" using version_ok_tree [OF d h] by (auto simp: ok_tree_def)
  obtain v p w2 where w2: "t_Proof C key w1 = (Ok (v, p, map_of (leaves T) key \<noteq> None), w2)" "evolves C False w1 w2"
    "\<forall>x. map_of (leaves T) key = Some x \<longrightarrow>
         (\<exists>bs. p = me_ProofBytes C \<lparr>mp_LeafHash = [], mp_InnerNodes = bs, mp_RootHash = []\<rparr>
            \<and> leads C key x bs T)"
    using t_Proof_root [OF C c w1(3) T, of key] by (elim exE conjE)
  have e: "evolves C False ?w w2" using evolves_trans [OF w1(2) w2(2)] .
  have "GetKVPairProof C cfg h key d = (Ok (if map_of (leaves T) key \<noteq> None then Some p else None), w_db w2)"
    using w1(1) w2(1) by (simp add: GetKVPairProof_def with_tree_def NewTree_height)
  moreover have "grows C U d (w_db w2)" using grows_evolves [OF _ e] d by simp
  moreover have "case map_of (leaves T) key of None \<Rightarrow> (if map_of (leaves T) key \<noteq> None then Some p else None) = None
     | Some v \<Rightarrow> \<exists>bs. (if map_of (leaves T) key \<noteq> None then Some p else None)
           = Some (me_ProofBytes C \<lparr>mp_LeafHash = [], mp_InnerNodes = bs, mp_RootHash = []\<rparr>)
         \<and> leads C key v bs T"
    using w2(3) by (cases "map_of (leaves T) key") simp_all
  ultimately show ?thesis by blast
qed

lemma Verify_leads:
  assumes "sha_ok C" "proof_codec_ok C" "leads C key v bs T"
  shows "VerifyKVPairProof C (mhash C T) (key, v)
    (me_ProofBytes C \<lparr>mp_LeafHash = [], mp_InnerNodes = bs, mp_RootHash = []\<rparr>) = Ok True"
  using assms mhash_length [OF assms(1), of "MLeaf key v"]
  by (simp add: VerifyKVPairProof_def ReadProof_def proof_Verify_def proof_codec_ok_def leads_def Let_def)

section \<open>Accepted proofs show bindings\<close>

text \<open>
  The messages \<^verbatim>\<open>LeafNode\<close> and \<^verbatim>\<open>InnerNode\<close> have fields of the same numbers and types,
  so they have the same encodings; encodings of different messages are different.
\<close>

definition leaf_as_inner :: "LeafNode \<Rightarrow> InnerNode" where
  "leaf_as_inner lf = \<lparr>in_LeftHash = lf_Key lf, in_RightHash = lf_Value lf,
     in_Height = lf_Height lf, in_Size = lf_Size lf\<rparr>"

definition wire_ok :: "mavl_env \<Rightarrow> bool" where
  "wire_ok C \<longleftrightarrow> (\<forall>lf. me_LeafBytes C lf = me_InnerBytes C (leaf_as_inner lf))
     \<and> inj_on (me_InnerBytes C) {i. int32_branch i}"

definition stripped :: "InnerNode \<Rightarrow> InnerNode" where
  "stripped i = i\<lparr>in_RightHash := last_bytes 32 (in_RightHash i), in_LeftHash := last_bytes 32 (in_LeftHash i)\<rparr>"

definition branch_node :: "bytes \<Rightarrow> InnerNode \<Rightarrow> InnerNode" where
  "branch_node x b = stripped
     (if in_LeftHash b = []
      then \<lparr>in_LeftHash = x, in_RightHash = in_RightHash b, in_Height = in_Height b, in_Size = in_Size b\<rparr>
      else \<lparr>in_LeftHash = in_LeftHash b, in_RightHash = x, in_Height = in_Height b, in_Size = in_Size b\<rparr>)"

lemma InnerNodeProofHash_node: "InnerNodeProofHash C x b = me_Sha256 C (me_InnerBytes C (branch_node x b))"
  by (simp add: InnerNodeProofHash_def InnerNode_Hash_def branch_node_def stripped_def)

text \<open>The message whose hash is the hash of a tree.\<close>

fun tree_node :: "mavl_env \<Rightarrow> mtree \<Rightarrow> InnerNode" where
  "tree_node C (MLeaf k v) = \<lparr>in_LeftHash = k, in_RightHash = v, in_Height = 0, in_Size = 1\<rparr>"
| "tree_node C (MInner k l r) = \<lparr>in_LeftHash = mhash C l, in_RightHash = mhash C r,
     in_Height = int (mheight (MInner k l r)), in_Size = int (msize (MInner k l r))\<rparr>"

lemma mhash_node:
  assumes "sha_ok C" "wire_ok C" shows "mhash C T = me_Sha256 C (me_InnerBytes C (tree_node C T))"
proof (cases T)
  case (MLeaf k v)
  then show ?thesis using assms(2) by (simp add: LeafNode_Hash_def wire_ok_def leaf_as_inner_def)
next
  case (MInner k l r)
  then show ?thesis using mhash_length [OF assms(1)] by (simp add: InnerNode_Hash_def)
qed

text \<open>The messages hashed when a proof is verified.\<close>

fun proof_nodes :: "mavl_env \<Rightarrow> bytes \<Rightarrow> InnerNode list \<Rightarrow> InnerNode set" where
  "proof_nodes C x [] = {}"
| "proof_nodes C x (b # bs) = insert (branch_node x b) (proof_nodes C (InnerNodeProofHash C x b) bs)"

lemma proof_nodes_snoc:
  "proof_nodes C x (bs @ [b]) = insert (branch_node (foldl (InnerNodeProofHash C) x bs) b) (proof_nodes C x bs)"
  by (induction bs arbitrary: x) auto

definition no_collision :: "mavl_env \<Rightarrow> InnerNode set \<Rightarrow> bool" where
  "no_collision C N \<longleftrightarrow> inj_on (\<lambda>i. me_Sha256 C (me_InnerBytes C i)) N"

lemma fold_hash_length:
  "sha_ok C \<Longrightarrow> length x = 32 \<Longrightarrow> length (foldl (InnerNodeProofHash C) x bs) = 32"
  by (induction bs arbitrary: x) (simp_all add: InnerNodeProofHash_node sha_ok_def)

lemma accepted_sound:
  assumes C: "sha_ok C" "wire_ok C" and N: "no_collision C N"
    and leaf: "tree_node C (MLeaf key val) \<in> N"
  shows "tree_node C ` subtrees T \<subseteq> N \<Longrightarrow> proof_nodes C (mhash C (MLeaf key val)) bs \<subseteq> N
    \<Longrightarrow> \<forall>b \<in> set bs. 0 < in_Height b
    \<Longrightarrow> foldl (InnerNodeProofHash C) (mhash C (MLeaf key val)) bs = mhash C T
    \<Longrightarrow> (key, val) \<in> set (leaves T)"
proof (induction bs arbitrary: T rule: rev_induct)
  case Nil
  have "T \<in> subtrees T" by simp
  then have "tree_node C T \<in> N" using Nil.prems(1) by blast
  moreover have "mhash C (MLeaf key val) = mhash C T" using Nil.prems(4) by simp
  ultimately have "tree_node C (MLeaf key val) = tree_node C T"
    using N leaf unfolding no_collision_def mhash_node [OF C] by (meson inj_onD)
  then show ?case by (cases T) auto
next
  case (snoc b bs)
  let ?x = "foldl (InnerNodeProofHash C) (mhash C (MLeaf key val)) bs"
  have lx: "length ?x = 32" using fold_hash_length [OF C(1)] mhash_length [OF C(1)] by blast
  have "tree_node C T \<in> N" using snoc.prems(1) subtrees_self [of T] by blast
  moreover have "branch_node ?x b \<in> N" using snoc.prems(2) by (simp add: proof_nodes_snoc)
  moreover have "me_Sha256 C (me_InnerBytes C (branch_node ?x b)) = me_Sha256 C (me_InnerBytes C (tree_node C T))"
    using snoc.prems(4) mhash_node [OF C, of T] InnerNodeProofHash_node [of C ?x b] by (simp del: mhash.simps)
  ultimately have e: "branch_node ?x b = tree_node C T"
    using N unfolding no_collision_def by (meson inj_onD)
  have "in_Height (branch_node ?x b) = in_Height b" by (simp add: branch_node_def stripped_def)
  then have "0 < in_Height (tree_node C T)" using e snoc.prems(3) by simp
  then obtain k l r where T: "T = MInner k l r" by (cases T) auto
  have IH: "(key, val) \<in> set (leaves S)" if "?x = mhash C S" "S \<in> subtrees T" for S
    using snoc.IH [of S] snoc.prems(1-3) that subtrees_trans by (fastforce simp: proof_nodes_snoc)
  have "?x = mhash C l \<or> ?x = mhash C r"
    using e lx T by (auto simp: branch_node_def stripped_def split: if_splits)
  then show ?case using IH T by fastforce
qed

section \<open>A leaf taken for an inner node\<close>

text \<open>
  Without the condition on the heights: a leaf whose value is the hash of a leaf that is not in the
  tree hashes like an inner node with that leaf as its right child.
\<close>

lemma leaf_as_branch:
  assumes "sha_ok C" "wire_ok C" "x \<noteq> []" "length x \<le> 32"
  shows "InnerNodeProofHash C (mhash C (MLeaf key val))
      \<lparr>in_LeftHash = x, in_RightHash = [], in_Height = 0, in_Size = 1\<rparr>
    = mhash C (MLeaf x (mhash C (MLeaf key val)))"
proof -
  have "last_bytes 32 (mhash C (MLeaf key val)) = mhash C (MLeaf key val)"
    using mhash_length [OF assms(1)] by (rule last_bytes_32')
  then show ?thesis unfolding mhash_node [OF assms(1,2), of "MLeaf x _"] InnerNodeProofHash_node
    using assms(3,4) by (simp add: branch_node_def stripped_def last_bytes_def del: mhash.simps)
qed

end
