(* ===== verification/Mavl_Store.thy ===== *)
theory Mavl_Store
  imports Mavl_Proof
begin

text \<open>
  The state store: \<^verbatim>\<open>system/store/mavl/mavl.go\<close> with its table of trees that are computed
  but not written yet, and the message handler and the list query of \<^verbatim>\<open>system/store/base.go\<close>.
  The handler runs each message in a goroutine of its own; the calls on the store are atomic here.
\<close>

section \<open>The store\<close>

record StoreSet =
  ss_StateHash :: "bytes option"
  ss_KV :: "kv list"
  ss_Height :: int

record StoreGet =
  sg_StateHash :: "bytes option"
  sg_Keys :: "bytes list"

text \<open>\<open>st_trees\<close> is the \<^verbatim>\<open>sync.Map\<close>: a hash may be absent, bound to nil or bound to a tree.\<close>

record mavl_store =
  st_db :: kvdb
  st_trees :: "bytes \<Rightarrow> Tree option option"
  st_cfg :: "TreeConfig option"

definition on_db :: "(kvdb, 'a) op \<Rightarrow> (mavl_store, 'a) op" where
  "on_db m s = (case m (st_db s) of (r, d) \<Rightarrow> (r, s\<lparr>st_db := d\<rparr>))"

definition st_Set :: "mavl_env \<Rightarrow> StoreSet \<Rightarrow> (mavl_store, bytes option) op" where
  "st_Set C datas s = on_db (SetKVPair C (st_cfg s) (ss_StateHash datas) (ss_Height datas) (ss_KV datas)) s"

text \<open>\<^verbatim>\<open>Get\<close> reads the pending tree of the hash if there is one, and returns nils when the root cannot be loaded.\<close>

definition st_Get :: "mavl_env \<Rightarrow> StoreGet \<Rightarrow> (mavl_store, bytes list) op" where
  "st_Get C datas s =
    (let search = raw (sg_StateHash datas); keys = sg_Keys datas in
     case st_trees s search of
       Some (Some t) \<Rightarrow>
         (case t_GetAll C keys \<lparr>w_db = st_db s, w_tree = t\<rparr> of
            (r, w) \<Rightarrow> (r, s\<lparr>st_db := w_db w, st_trees := (st_trees s)(search := Some (Some (w_tree w)))\<rparr>))
     | _ \<Rightarrow>
         on_db (with_tree (NewTree True (st_cfg s))
           (\<lambda>w. case t_Load C (sg_StateHash datas) w of
              (Ok _, w') \<Rightarrow> t_GetAll C keys w'
            | (Fail e, w') \<Rightarrow> (Ok (replicate (length keys) []), w')
            | (Panic, w') \<Rightarrow> (Panic, w'))) s)"

text \<open>The tree that \<^verbatim>\<open>MemSet\<close> computes: loaded, changed and hashed, but not saved.\<close>

definition mem_tree :: "mavl_env \<Rightarrow> StoreSet \<Rightarrow> (world, bytes option) op" where
  "mem_tree C datas =
    andThen (t_Load C (ss_StateHash datas)) (\<lambda>_. andThen (t_SetAll C (ss_KV datas)) (\<lambda>_. t_Hash C))"

definition st_MemSet :: "mavl_env \<Rightarrow> StoreSet \<Rightarrow> (mavl_store, bytes option) op" where
  "st_MemSet C datas s =
    (if ss_KV datas = [] then
       (Ok (ss_StateHash datas), s\<lparr>st_trees := (st_trees s)(raw (ss_StateHash datas) := Some None)\<rparr>)
     else
       (case mem_tree C datas \<lparr>w_db = st_db s, w_tree = SetBlockHeight (ss_Height datas) (NewTree True (st_cfg s))\<rparr> of
          (Ok h, w) \<Rightarrow>
            (Ok h, s\<lparr>st_db := w_db w, st_trees := (st_trees s)(raw h := Some (Some (w_tree w)))\<rparr>)
        | (Fail e, w) \<Rightarrow> (Fail e, s\<lparr>st_db := w_db w\<rparr>)
        | (Panic, w) \<Rightarrow> (Panic, s\<lparr>st_db := w_db w\<rparr>)))"

definition st_Commit :: "mavl_env \<Rightarrow> bytes option \<Rightarrow> (mavl_store, bytes option) op" where
  "st_Commit C req s =
    (case st_trees s (raw req) of
       None \<Rightarrow> (Fail ErrHashNotFound, s)
     | Some None \<Rightarrow> (Ok req, s\<lparr>st_trees := (st_trees s)(raw req := None)\<rparr>)
     | Some (Some t) \<Rightarrow>
         (case t_Save C \<lparr>w_db = st_db s, w_tree = t\<rparr> of
            (Ok h, w) \<Rightarrow>
              if h = None
              then (Fail ErrDataBaseDamage,
                    s\<lparr>st_db := w_db w, st_trees := (st_trees s)(raw req := Some (Some (w_tree w)))\<rparr>)
              else (Ok req, s\<lparr>st_db := w_db w, st_trees := (st_trees s)(raw req := None)\<rparr>)
          | (Fail e, w) \<Rightarrow> (Fail e, s\<lparr>st_db := w_db w\<rparr>)
          | (Panic, w) \<Rightarrow> (Panic, s\<lparr>st_db := w_db w\<rparr>)))"

definition st_MemSetUpgrade :: "mavl_env \<Rightarrow> StoreSet \<Rightarrow> (mavl_store, bytes option) op" where
  "st_MemSetUpgrade C datas s =
    (if ss_KV datas = [] then
       (Ok (ss_StateHash datas), s\<lparr>st_trees := (st_trees s)(raw (ss_StateHash datas) := Some None)\<rparr>)
     else on_db (with_tree (SetBlockHeight (ss_Height datas) (NewTree True (st_cfg s))) (mem_tree C datas)) s)"

definition st_CommitUpgrade :: "bytes option \<Rightarrow> (mavl_store, bytes option) op" where
  "st_CommitUpgrade req = returnO req"

definition st_Rollback :: "bytes option \<Rightarrow> (mavl_store, bytes option) op" where
  "st_Rollback req s =
    (case st_trees s (raw req) of
       None \<Rightarrow> (Fail ErrHashNotFound, s)
     | Some _ \<Rightarrow> (Ok req, s\<lparr>st_trees := (st_trees s)(raw req := None)\<rparr>))"

definition st_Del :: "(mavl_store, bytes option) op" where
  "st_Del = returnO None"

definition st_IterateRange :: "mavl_env \<Rightarrow> bytes option \<Rightarrow> bytes option \<Rightarrow> bytes option \<Rightarrow> bool
    \<Rightarrow> (bytes \<Rightarrow> bytes \<Rightarrow> 'c \<Rightarrow> bool \<times> 'c) \<Rightarrow> 'c \<Rightarrow> (mavl_store, 'c) op" where
  "st_IterateRange C statehash start stp ascending fn c s =
    on_db (IterateRangeByStateHash C (st_cfg s) statehash start stp ascending fn c) s"

section \<open>The list query\<close>

record StoreListReply =
  lr_Start :: "bytes option"
  lr_End :: "bytes option"
  lr_Suffix :: bytes
  lr_Count :: int
  lr_Mode :: int
  lr_Num :: int
  lr_NextKey :: bytes
  lr_Keys :: "bytes list"
  lr_Values :: "bytes list"

definition IterateCallBack :: "bytes \<Rightarrow> bytes \<Rightarrow> StoreListReply \<Rightarrow> bool \<times> StoreListReply" where
  "IterateCallBack key val t =
    (let add = t\<lparr>lr_Num := i64 (lr_Num t + 1), lr_Keys := lr_Keys t @ [key], lr_Values := lr_Values t @ [val]\<rparr> in
     if lr_Mode t = 1 then
       (if lr_Num t \<ge> lr_Count t then (True, t\<lparr>lr_NextKey := key\<rparr>) else (False, add))
     else if lr_Mode t = 2 then
       (if length key > length (lr_Suffix t) then
          (if drop (length key - length (lr_Suffix t)) key = lr_Suffix t then
             (if lr_Num add \<ge> lr_Count add then (True, add\<lparr>lr_NextKey := key\<rparr>) else (False, add))
           else (False, t))
        else (False, t))
     else (True, t))"

record StoreList =
  sl_StateHash :: "bytes option"
  sl_Start :: "bytes option"
  sl_End :: "bytes option"
  sl_Suffix :: bytes
  sl_Count :: int
  sl_Mode :: int

definition NewStoreListQuery :: "StoreList \<Rightarrow> StoreListReply" where
  "NewStoreListQuery req = \<lparr>lr_Start = sl_Start req, lr_End = sl_End req, lr_Suffix = sl_Suffix req, lr_Count = sl_Count req, lr_Mode = sl_Mode req,
     lr_Num = 0, lr_NextKey = [], lr_Keys = [], lr_Values = []\<rparr>"

definition query_Run :: "mavl_env \<Rightarrow> StoreList \<Rightarrow> (mavl_store, StoreListReply) op" where
  "query_Run C req =
    st_IterateRange C (sl_StateHash req) (sl_Start req) (sl_End req) True IterateCallBack (NewStoreListQuery req)"

text \<open>\<^verbatim>\<open>ReplyGetTotalCoins\<close>, over the balance of a decoded account.\<close>

record ReplyGetTotalCoins =
  tc_Count :: int
  tc_Num :: int
  tc_Amount :: int
  tc_NextKey :: bytes

definition coins_CallBack :: "(bytes \<Rightarrow> int option) \<Rightarrow> bytes \<Rightarrow> bytes \<Rightarrow> ReplyGetTotalCoins \<Rightarrow> bool \<times> ReplyGetTotalCoins" where
  "coins_CallBack balance key val t =
    (case balance val of
       None \<Rightarrow> (True, t)
     | Some b \<Rightarrow>
        if tc_Num t \<ge> tc_Count t then (True, t\<lparr>tc_NextKey := key\<rparr>)
        else (False, t\<lparr>tc_Num := i64 (tc_Num t + 1), tc_Amount := i64 (tc_Amount t + b)\<rparr>))"

section \<open>The message handler\<close>

datatype store_msg =
    EventStoreSet StoreSet
  | EventStoreGet StoreGet
  | EventStoreMemSet StoreSet bool
  | EventStoreCommit "bytes option" bool
  | EventStoreRollback "bytes option"
  | EventStoreGetTotalCoins "bytes option" "bytes option" "bytes option" int
  | EventStoreDel
  | EventStoreList StoreList
  | EventStoreOther

datatype store_reply =
    ReplyHash "bytes option"
  | ReplyErr err
  | ReplyValues "bytes list"
  | ReplyCoins ReplyGetTotalCoins
  | ReplyList StoreListReply

definition reply_hash :: "(mavl_store, bytes option) op \<Rightarrow> (err \<Rightarrow> err) \<Rightarrow> (mavl_store, store_reply) op" where
  "reply_hash m f s =
    (case m s of
       (Ok h, s') \<Rightarrow> (Ok (ReplyHash h), s')
     | (Fail e, s') \<Rightarrow> (Ok (ReplyErr (f e)), s')
     | (Panic, s') \<Rightarrow> (Panic, s'))"

definition processMessage :: "mavl_env \<Rightarrow> (bytes \<Rightarrow> int option) \<Rightarrow> store_msg \<Rightarrow> (mavl_store, store_reply) op" where
  "processMessage C balance msg =
    (case msg of
       EventStoreSet datas \<Rightarrow> reply_hash (st_Set C datas) id
     | EventStoreGet datas \<Rightarrow> andThen (st_Get C datas) (\<lambda>vs. returnO (ReplyValues vs))
     | EventStoreMemSet datas upgrade \<Rightarrow>
         reply_hash (if upgrade then st_MemSetUpgrade C datas else st_MemSet C datas) id
     | EventStoreCommit req upgrade \<Rightarrow>
         (\<lambda>s. case (if upgrade then st_CommitUpgrade req else st_Commit C req) s of
            (Ok h, s') \<Rightarrow> (Ok (if h = None then ReplyErr ErrHashNotFound else ReplyHash h), s')
          | (Fail e, s') \<Rightarrow> (Ok (ReplyErr ErrHashNotFound), s')
          | (Panic, s') \<Rightarrow> (Panic, s'))
     | EventStoreRollback req \<Rightarrow> reply_hash (st_Rollback req) (\<lambda>_. ErrHashNotFound)
     | EventStoreGetTotalCoins h start stp cnt \<Rightarrow>
         andThen (st_IterateRange C h start stp True (coins_CallBack balance)
           \<lparr>tc_Count = cnt, tc_Num = 0, tc_Amount = 0, tc_NextKey = []\<rparr>) (\<lambda>r. returnO (ReplyCoins r))
     | EventStoreDel \<Rightarrow> reply_hash st_Del (\<lambda>_. ErrHashNotFound)
     | EventStoreList req \<Rightarrow> andThen (query_Run C req) (\<lambda>r. returnO (ReplyList r))
     | EventStoreOther \<Rightarrow> returnO (ReplyErr ErrActionNotSupport))"

section \<open>The invariant of the store\<close>

text \<open>A pending tree represents a tree of the universe, has its hash, and has nothing in its batch.\<close>

definition pending_tree :: "mavl_env \<Rightarrow> kvdb \<Rightarrow> bytes \<Rightarrow> Tree \<Rightarrow> mtree \<Rightarrow> bool" where
  "pending_tree C d h t T \<longleftrightarrow>
    (\<exists>n. t_root t = Some n \<and> nhash n = Some h \<and> repr C False (kd_map d) n T)
    \<and> pending \<lparr>w_db = d, w_tree = t\<rparr> = Some [] \<and> plain_config t"

definition store_ok :: "mavl_env \<Rightarrow> mtree set \<Rightarrow> mavl_store \<Rightarrow> bool" where
  "store_ok C U s \<longleftrightarrow> db_ok C U (st_db s) \<and> plain (st_cfg s)
     \<and> (\<forall>h t. st_trees s h = Some (Some t) \<longrightarrow> (\<exists>T \<in> U. pending_tree C (st_db s) h t T))"

lemma grows_stored:
  assumes "grows C U d d'" "stored C False (kd_map d) h T" shows "stored C False (kd_map d') h T"
proof -
  have "version C d (Some h) (Some T)" using assms(2) by (simp add: version_def)
  then have "version C d' (Some h) (Some T)" using assms(1) by (simp only: grows_def)
  then show ?thesis by (simp add: version_def)
qed

lemma pending_tree_grows:
  assumes "grows C U d d'" "pending_tree C d h t T" shows "pending_tree C d' h t T"
proof -
  have "repr C False (kd_map d') n T" if "repr C False (kd_map d) n T" for n
    using repr_mono [OF that] grows_stored [OF assms(1)] by blast
  then show ?thesis using assms(2) by (auto simp: pending_tree_def pending_def)
qed

text \<open>Growing the database keeps the pending trees; forgetting one keeps the others.\<close>

lemma store_ok_grows:
  assumes "store_ok C U s" "grows C U (st_db s) d"
    and "\<And>h t. tr h = Some (Some t) \<Longrightarrow> st_trees s h = Some (Some t) \<or> (\<exists>T \<in> U. pending_tree C d h t T)"
  shows "store_ok C U (s\<lparr>st_db := d, st_trees := tr\<rparr>)"
  using assms pending_tree_grows [OF assms(2)] unfolding store_ok_def grows_def by fastforce

lemma grows_refl: "db_ok C U d \<Longrightarrow> grows C U d d"
  by (simp add: grows_def)

lemma pending_world:
  assumes "pending_tree C d h t T"
  shows "root_is C False \<lparr>w_db = d, w_tree = t\<rparr> (Some T)" "view \<lparr>w_db = d, w_tree = t\<rparr> = kd_map d"
proof -
  show "view \<lparr>w_db = d, w_tree = t\<rparr> = kd_map d"
    using assms by (auto simp: pending_tree_def pending_def view_def split: option.splits)
  then show "root_is C False \<lparr>w_db = d, w_tree = t\<rparr> (Some T)"
    using assms by (auto simp: pending_tree_def root_is_def)
qed

lemma t_Hash_root:
  assumes C: "sha_ok C" "cache_ok C m (w_db w)" and n: "t_root (w_tree w) = Some n" "dirty n" "repr C m (view w) n T"
  shows "\<exists>n' w'. t_Hash C w = (Ok (Some (mhash C T)), w') \<and> evolves C m w w'
    \<and> t_root (w_tree w') = Some n' \<and> nhash n' = Some (mhash C T) \<and> repr C m (view w) n' T"
proof -
  obtain n' where "nd_Hash C (w_tree w) n = Ok n'" "repr C m (view w) n' T" "nhash n' = Some (mhash C T)"
    using nd_Hash_repr [OF C(1) n(1,3)] n(2) by (auto simp: dirty_def)
  then show ?thesis using n(1) with_root(1) [OF keeps_refl [OF C(2)]]
    by (simp add: t_Hash_def)
qed

lemma mem_tree_version:
  assumes C: "env_ok C" and d: "db_ok C U d" and h: "version C d (ss_StateHash q) R" and cfg: "plain cfg"
    and kv: "ss_KV q \<noteq> []" and T: "m_put_all (ss_KV q) R = Some T" "T \<in> U"
  shows "\<exists>w. mem_tree C q (new_world d ht cfg) = (Ok (Some (mhash C T)), w) \<and> grows C U d (w_db w)
    \<and> kd_map (w_db w) = kd_map d \<and> pending_tree C (w_db w) (mhash C T) (w_tree w) T"
proof -
  let ?w = "new_world d ht cfg"
  obtain w1 where w1: "t_Load C (ss_StateHash q) ?w = (Ok (), w1)" "evolves C False ?w w1" "root_is C False w1 R"
    using t_Load_version [OF C, of U ?w "ss_StateHash q" R] d h by auto
  have b: "opt_size (m_put_all (ss_KV q) R) + 1 < 2 ^ 31"
    using put_all_bound [of C U "ss_KV q" R] T d by (auto simp: db_ok_def)
  have c: "cache_ok C False (w_db w1)" using w1(2) by (simp add: evolves_def)
  obtain w2 n where w2: "t_SetAll C (ss_KV q) w1 = (Ok (), w2)" "evolves C False w1 w2" "root_is C False w2 (Some T)"
    "t_root (w_tree w2) = Some n" "dirty n"
    using t_SetAll_root [OF env_okD(1) [OF C] c w1(3) version_ok_tree [OF d h] b] T(1) kv by auto
  have e2: "evolves C False ?w w2" using evolves_trans [OF w1(2) w2(2)] .
  have r: "repr C False (view w2) n T" using w2(3,4) by (simp add: root_is_def)
  have c2: "cache_ok C False (w_db w2)" using e2 by (simp add: evolves_def)
  obtain n' w3 where w3: "t_Hash C w2 = (Ok (Some (mhash C T)), w3)" "evolves C False w2 w3"
    "t_root (w_tree w3) = Some n'" "nhash n' = Some (mhash C T)" "repr C False (view w2) n' T"
    using t_Hash_root [OF env_okD(3) [OF C] c2 w2(4,5) r] by blast
  have e3: "evolves C False ?w w3" using evolves_trans [OF e2 w3(2)] .
  have v: "view w2 = kd_map (w_db w3)"
    using e2 w3(2) by (auto simp: evolves_def view_def new_world_def NewTree_def SetBlockHeight_def)
  have p: "pending \<lparr>w_db = w_db w3, w_tree = w_tree w3\<rparr> = Some []"
    using e3 by (simp add: evolves_def pending_def new_world_def NewTree_def SetBlockHeight_def)
  have "pending_tree C (w_db w3) (mhash C T) (w_tree w3) T"
    using w3(3-5) v p plain_world [OF cfg e3] by (simp add: pending_tree_def)
  moreover have "mem_tree C q ?w = (Ok (Some (mhash C T)), w3)" using w1(1) w2(1) w3(1) by (simp add: mem_tree_def)
  moreover have "grows C U d (w_db w3)" using grows_evolves [OF _ e3] d by simp
  moreover have "kd_map (w_db w3) = kd_map d" using e3 by (simp add: evolves_def)
  ultimately show ?thesis by blast
qed

section \<open>The two phases of a block\<close>

lemma st_MemSet_version:
  assumes C: "env_ok C" and s: "store_ok C U s" and h: "version C (st_db s) (ss_StateHash q) R"
    and kv: "ss_KV q \<noteq> []" and T: "m_put_all (ss_KV q) R = Some T" "T \<in> U"
  shows "\<exists>s'. st_MemSet C q s = (Ok (Some (mhash C T)), s') \<and> store_ok C U s' \<and> grows C U (st_db s) (st_db s')
    \<and> (\<exists>t. st_trees s' = (st_trees s)(mhash C T := Some (Some t)) \<and> pending_tree C (st_db s') (mhash C T) t T)
    \<and> kd_map (st_db s') = kd_map (st_db s) \<and> st_cfg s' = st_cfg s"
proof -
  have d: "db_ok C U (st_db s)" and cfg: "plain (st_cfg s)" using s by (auto simp: store_ok_def)
  obtain w where w: "mem_tree C q (new_world (st_db s) (ss_Height q) (st_cfg s)) = (Ok (Some (mhash C T)), w)"
    "grows C U (st_db s) (w_db w)" "pending_tree C (w_db w) (mhash C T) (w_tree w) T" "kd_map (w_db w) = kd_map (st_db s)"
    using mem_tree_version [OF C d h cfg kv T] by blast
  let ?tr = "(st_trees s)(mhash C T := Some (Some (w_tree w)))"
  have "st_MemSet C q s = (Ok (Some (mhash C T)), s\<lparr>st_db := w_db w, st_trees := ?tr\<rparr>)"
    using kv w(1) by (simp add: st_MemSet_def new_world_def)
  moreover have "store_ok C U (s\<lparr>st_db := w_db w, st_trees := ?tr\<rparr>)"
    using w(3) T(2) by (intro store_ok_grows [OF s w(2)]) (auto split: if_splits)
  ultimately show ?thesis using w(2-4) by auto
qed

lemma st_Commit_pending:
  assumes C: "env_ok C" and s: "store_ok C U s" and t: "st_trees s h = Some (Some t)"
    and T: "T \<in> U" "pending_tree C (st_db s) h t T"
  shows "\<exists>s'. st_Commit C (Some h) s = (Ok (Some h), s') \<and> store_ok C U s' \<and> grows C U (st_db s) (st_db s')
    \<and> st_trees s' = (st_trees s)(h := None) \<and> version C (st_db s') (Some h) (Some T) \<and> st_cfg s' = st_cfg s"
proof -
  let ?w = "\<lparr>w_db = st_db s, w_tree = t\<rparr>"
  have d: "db_ok C U (w_db ?w)" using s by (simp add: store_ok_def)
  obtain n where n: "t_root t = Some n" "nhash n = Some h" using T(2) by (auto simp: pending_tree_def)
  have p: "pending ?w = Some []" "plain_config (w_tree ?w)" using T(2) by (auto simp: pending_tree_def)
  obtain g w where g: "t_Save C ?w = (Ok (Some g), w)" "db_ok C U (w_db w)" "stored C False (kd_map (w_db w)) g T"
    "\<forall>g S. stored C False (kd_map (w_db ?w)) g S \<longrightarrow> stored C False (kd_map (w_db w)) g S"
    "g = (case nhash (the (t_root (w_tree ?w))) of None \<Rightarrow> mhash C T | Some g \<Rightarrow> g)"
    using t_Save_root [OF C d pending_world(1) [OF T(2)] T(1) p] by auto
  have gh: "g = h" using g(5) n by simp
  have gr: "grows C U (st_db s) (w_db w)" using g(2,4) by (auto simp: grows_def version_def split: option.splits)
  have "st_Commit C (Some h) s = (Ok (Some h), s\<lparr>st_db := w_db w, st_trees := (st_trees s)(h := None)\<rparr>)"
    using t g(1) by (simp add: st_Commit_def)
  moreover have "store_ok C U (s\<lparr>st_db := w_db w, st_trees := (st_trees s)(h := None)\<rparr>)"
    by (intro store_ok_grows [OF s gr]) (auto split: if_splits)
  ultimately show ?thesis using gr g(3) gh by (auto simp: version_def)
qed

lemma st_Rollback_pending:
  assumes "store_ok C U s" "st_trees s h = Some x"
  shows "st_Rollback (Some h) s = (Ok (Some h), s\<lparr>st_trees := (st_trees s)(h := None)\<rparr>)
    \<and> store_ok C U (s\<lparr>st_trees := (st_trees s)(h := None)\<rparr>)"
  using assms by (auto simp: st_Rollback_def store_ok_def)

lemma pending_tree_keeps:
  assumes "keeps C False \<lparr>w_db = d, w_tree = t\<rparr> w" "pending_tree C d h t T"
  shows "pending_tree C (w_db w) h (w_tree w) T"
  using assms keeps_pending [OF assms(1)]
  by (auto simp: pending_tree_def keeps_def pending_def plain_config_def)

text \<open>What the store returns for a hash: the pending tree goes before the database.\<close>

definition readable :: "mavl_env \<Rightarrow> mavl_store \<Rightarrow> bytes option \<Rightarrow> mtree option \<Rightarrow> bool" where
  "readable C s h R \<longleftrightarrow>
    (case st_trees s (raw h) of
       Some (Some t) \<Rightarrow> (\<exists>T. R = Some T \<and> pending_tree C (st_db s) (raw h) t T)
     | _ \<Rightarrow> version C (st_db s) h R)"

lemma st_Get_readable:
  assumes C: "env_ok C" and s: "store_ok C U s" and h: "readable C s (sg_StateHash q) R" and U: "set_option R \<subseteq> U"
  shows "\<exists>s'. st_Get C q s = (Ok (map (look_up (bindings R)) (sg_Keys q)), s')
    \<and> store_ok C U s' \<and> grows C U (st_db s) (st_db s')"
proof -
  have d: "db_ok C U (st_db s)" using s by (simp add: store_ok_def)
  show ?thesis
  proof (cases "\<exists>t. st_trees s (raw (sg_StateHash q)) = Some (Some t)")
    case True
    then obtain t T where t: "st_trees s (raw (sg_StateHash q)) = Some (Some t)" "R = Some T"
      "pending_tree C (st_db s) (raw (sg_StateHash q)) t T" using h by (auto simp: readable_def)
    let ?w = "\<lparr>w_db = st_db s, w_tree = t\<rparr>"
    have c: "cache_ok C False (w_db ?w)" using d by (simp add: db_ok_def)
    have ok: "ok_tree (Some T)" using d U t(2) by (auto simp: ok_tree_def db_ok_def universe_def)
    obtain w where w: "t_GetAll C (sg_Keys q) ?w = (Ok (map (look_up (bindings (Some T))) (sg_Keys q)), w)" "keeps C False ?w w"
      using t_GetAll_root [OF env_okD(1) [OF C] ok c pending_world(1) [OF t(3)]] by blast
    have gr: "grows C U (st_db s) (w_db w)" using grows_evolves [OF _ keeps_evolves [OF w(2)], of U] d by simp
    have p: "pending_tree C (w_db w) (raw (sg_StateHash q)) (w_tree w) T" using pending_tree_keeps [OF w(2)] t(3) by simp
    let ?s = "s\<lparr>st_db := w_db w, st_trees := (st_trees s)(raw (sg_StateHash q) := Some (Some (w_tree w)))\<rparr>"
    have "store_ok C U ?s" using p U t(2) by (intro store_ok_grows [OF s gr]) (auto split: if_splits)
    moreover have "st_Get C q s = (Ok (map (look_up (bindings R)) (sg_Keys q)), ?s)"
      using t w(1) by (simp add: st_Get_def Let_def)
    ultimately show ?thesis using gr by auto
  next
    case False
    then have v: "version C (st_db s) (sg_StateHash q) R" using h by (auto simp: readable_def split: option.splits)
    let ?w = "new_world (st_db s) 0 (st_cfg s)"
    obtain w1 where w1: "t_Load C (sg_StateHash q) ?w = (Ok (), w1)" "evolves C False ?w w1" "root_is C False w1 R"
      using t_Load_version [OF C, of U ?w "sg_StateHash q" R] d v by auto
    have c: "cache_ok C False (w_db w1)" using w1(2) by (simp add: evolves_def)
    obtain w2 where w2: "t_GetAll C (sg_Keys q) w1 = (Ok (map (look_up (bindings R)) (sg_Keys q)), w2)" "keeps C False w1 w2"
      using t_GetAll_root [OF env_okD(1) [OF C] version_ok_tree [OF d v] c w1(3)] by blast
    have e: "evolves C False ?w w2" using evolves_trans [OF w1(2) keeps_evolves [OF w2(2)]] .
    have "st_Get C q s = (Ok (map (look_up (bindings R)) (sg_Keys q)), s\<lparr>st_db := w_db w2\<rparr>)"
      using False w1(1) w2(1)
      by (cases "st_trees s (raw (sg_StateHash q))")
        (auto simp: st_Get_def Let_def on_db_def with_tree_def NewTree_height)
    moreover have gr: "grows C U (st_db s) (w_db w2)" using grows_evolves [OF _ e, of U] d by simp
    moreover have "store_ok C U (s\<lparr>st_db := w_db w2\<rparr>)" using store_ok_grows [OF s gr, of "st_trees s"] by simp
    ultimately show ?thesis by auto
  qed
qed

end
