(* ===== verification/Mavl_Query.thy ===== *)
theory Mavl_Query
  imports Mavl_Store
begin

text \<open>
  Range queries on a version of the state: what \<^verbatim>\<open>IterateRange\<close> shows to its callback, the pages
  that the list query returns, and the position of a key.  The last section shows that the fuel
  of the recursive calls does not matter once a call returns.
\<close>

section \<open>Iterating over a version\<close>

definition in_bindings :: "bytes option \<Rightarrow> bytes option \<Rightarrow> (bytes \<times> bytes) list \<Rightarrow> (bytes \<times> bytes) list" where
  "in_bindings start stp kvs = filter (\<lambda>p. in_range start stp False (fst p)) kvs"

lemma t_IterateRange_root:
  assumes C: "arc_ok C" "cache_ok C False (w_db w)" and R: "root_is C False w R" "ok_tree R"
  shows "\<exists>w'. t_IterateRange C start stp True fn c w = (Ok (visit fn (in_bindings start stp (bindings R)) c), w')
    \<and> keeps C False w w'"
proof (cases R)
  case None
  then show ?thesis using R C keeps_refl [OF C(2)] by (simp add: t_IterateRange_def root_is_def in_bindings_def)
next
  case (Some T)
  then obtain n where n: "t_root (w_tree w) = Some n" "repr C False (view w) n T" "ordered T"
    using R by (auto simp: root_is_def ok_tree_def mtree_ok_def)
  have "runs C False w (nd_traverse C (node_fuel n) start stp True False 0 (on_leaves fn) n c)
    (\<lambda>p. p = visit fn (ranged start stp True False T) c)"
    using nd_traverse_repr [OF C n(2,3) fuel_enough [OF n(2)]] .
  moreover have "ranged start stp True False T = in_bindings start stp (bindings R)"
    using Some by (simp add: ranged_def in_bindings_def)
  ultimately show ?thesis using n(1) by (auto simp: runs_def t_IterateRange_def)
qed

lemma st_IterateRange_version:
  assumes C: "env_ok C" and s: "store_ok C U s" and h: "version C (st_db s) h R"
  shows "\<exists>s'. st_IterateRange C h start stp True fn c s = (Ok (snd (visit fn (in_bindings start stp (bindings R)) c)), s')
    \<and> store_ok C U s' \<and> grows C U (st_db s) (st_db s')"
proof -
  have d: "db_ok C U (st_db s)" using s by (simp add: store_ok_def)
  let ?w = "new_world (st_db s) 0 (st_cfg s)"
  obtain w1 where w1: "t_Load C h ?w = (Ok (), w1)" "evolves C False ?w w1" "root_is C False w1 R"
    using t_Load_version [OF C, of U ?w h R] d h by auto
  have c: "cache_ok C False (w_db w1)" using w1(2) by (simp add: evolves_def)
  obtain w2 where w2: "t_IterateRange C start stp True fn c w1 = (Ok (visit fn (in_bindings start stp (bindings R)) c), w2)"
    "keeps C False w1 w2"
    using t_IterateRange_root [OF env_okD(1) [OF C] c w1(3) version_ok_tree [OF d h], of start stp fn c] by blast
  have e: "evolves C False ?w w2" using evolves_trans [OF w1(2) keeps_evolves [OF w2(2)]] .
  have "st_IterateRange C h start stp True fn c s
    = (Ok (snd (visit fn (in_bindings start stp (bindings R)) c)), s\<lparr>st_db := w_db w2\<rparr>)"
    using w1(1) w2(1)
    by (simp add: st_IterateRange_def IterateRangeByStateHash_def on_db_def with_tree_def NewTree_height split: prod.split)
  moreover have gr: "grows C U (st_db s) (w_db w2)" using grows_evolves [OF _ e, of U] d by simp
  moreover have "store_ok C U (s\<lparr>st_db := w_db w2\<rparr>)" using store_ok_grows [OF s gr, of "st_trees s"] by simp
  ultimately show ?thesis by auto
qed

section \<open>Pages of the list query\<close>

text \<open>Mode 1 counts before it looks at the key, so that the key that does not fit is the next key.\<close>

lemma visit_page:
  "lr_Mode t = 1 \<Longrightarrow> 0 \<le> lr_Num t \<Longrightarrow> lr_Num t \<le> lr_Count t \<Longrightarrow> in_i64 (lr_Count t) \<Longrightarrow> m = nat (lr_Count t - lr_Num t) \<Longrightarrow>
    snd (visit IterateCallBack xs t) = t\<lparr>lr_Num := lr_Num t + int (length (take m xs)),
      lr_NextKey := (if m < length xs then fst (xs ! m) else lr_NextKey t),
      lr_Keys := lr_Keys t @ map fst (take m xs), lr_Values := lr_Values t @ map snd (take m xs)\<rparr>"
proof (induction xs arbitrary: t m)
  case (Cons x xs)
  obtain k v where x: "x = (k, v)" by fastforce
  show ?case
  proof (cases "lr_Count t \<le> lr_Num t")
    case True
    then show ?thesis using Cons.prems by (simp add: x IterateCallBack_def)
  next
    case False
    then obtain m' where m: "m = Suc m'" "m' = nat (lr_Count t - (lr_Num t + 1))" using Cons.prems by (cases m) auto
    have i: "i64 (lr_Num t + 1) = lr_Num t + 1" using False Cons.prems by (intro i64_id) (auto simp: in_i64_def)
    let ?t = "t\<lparr>lr_Num := lr_Num t + 1, lr_Keys := lr_Keys t @ [k], lr_Values := lr_Values t @ [v]\<rparr>"
    have "visit IterateCallBack (x # xs) t = visit IterateCallBack xs ?t"
      using False Cons.prems(1) by (simp add: x IterateCallBack_def i)
    moreover have "snd (visit IterateCallBack xs ?t) = ?t\<lparr>lr_Num := lr_Num ?t + int (length (take m' xs)),
      lr_NextKey := (if m' < length xs then fst (xs ! m') else lr_NextKey ?t),
      lr_Keys := lr_Keys ?t @ map fst (take m' xs), lr_Values := lr_Values ?t @ map snd (take m' xs)\<rparr>"
      using False Cons.prems m by (intro Cons.IH) auto
    ultimately show ?thesis by (simp add: x m(1))
  qed
qed simp

lemma query_Run_version:
  assumes C: "env_ok C" and s: "store_ok C U s" and h: "version C (st_db s) (sl_StateHash req) R"
    and req: "sl_Mode req = 1" "sl_Count req = int m" "in_i64 (int m)"
  shows "\<exists>s'. query_Run C req s = (Ok ((NewStoreListQuery req)\<lparr>
        lr_Num := int (length (take m (in_bindings (sl_Start req) (sl_End req) (bindings R)))),
        lr_NextKey := (if m < length (in_bindings (sl_Start req) (sl_End req) (bindings R))
           then fst (in_bindings (sl_Start req) (sl_End req) (bindings R) ! m) else []),
        lr_Keys := map fst (take m (in_bindings (sl_Start req) (sl_End req) (bindings R))),
        lr_Values := map snd (take m (in_bindings (sl_Start req) (sl_End req) (bindings R)))\<rparr>), s')
    \<and> store_ok C U s' \<and> grows C U (st_db s) (st_db s')"
proof -
  let ?xs = "in_bindings (sl_Start req) (sl_End req) (bindings R)"
  have "snd (visit IterateCallBack ?xs (NewStoreListQuery req)) = (NewStoreListQuery req)\<lparr>
        lr_Num := int (length (take m ?xs)),
        lr_NextKey := (if m < length ?xs then fst (?xs ! m) else []),
        lr_Keys := map fst (take m ?xs), lr_Values := map snd (take m ?xs)\<rparr>"
    using req by (subst visit_page [where m = m]) (simp_all add: NewStoreListQuery_def)
  then show ?thesis
    using st_IterateRange_version [OF C s h, of "sl_Start req" "sl_End req" IterateCallBack "NewStoreListQuery req"]
    by (simp only: query_Run_def)
qed

text \<open>The range that starts at the next key is what the page has left.\<close>

lemma in_bindings_next:
  assumes "sorted_wrt (<) (map fst kvs)" "m < length (in_bindings start stp kvs)"
  shows "in_bindings (Some (fst (in_bindings start stp kvs ! m))) stp kvs = drop m (in_bindings start stp kvs)"
proof -
  let ?xs = "in_bindings start stp kvs" and ?k = "fst (in_bindings start stp kvs ! m)"
  have so: "sorted_wrt (<) (map fst ?xs)" using assms(1) by (simp add: in_bindings_def sorted_wrt_map sorted_wrt_filter)
  have k: "in_range start stp False ?k" using nth_mem [OF assms(2)] by (simp add: in_bindings_def)
  have "in_bindings (Some ?k) stp kvs = filter (\<lambda>p. ?k \<le> fst p) ?xs"
  proof -
    have "in_range (Some ?k) stp False x \<longleftrightarrow> ?k \<le> x \<and> in_range start stp False x" for x
      using k by (auto simp: in_range_def split: option.splits)
    then show ?thesis by (auto simp: in_bindings_def intro!: filter_cong)
  qed
  also have "\<dots> = filter (\<lambda>p. ?k \<le> fst p) (take m ?xs) @ filter (\<lambda>p. ?k \<le> fst p) (drop m ?xs)"
    by (simp flip: filter_append)
  also have "filter (\<lambda>p. ?k \<le> fst p) (take m ?xs) = []"
  proof (rule filter_False, rule ballI)
    fix p assume "p \<in> set (take m ?xs)"
    then obtain j where "j < length (take m ?xs)" "take m ?xs ! j = p" unfolding in_set_conv_nth by blast
    then have "j < m" "p = ?xs ! j" by auto
    then have "fst p < ?k" using so assms(2) by (simp add: sorted_wrt_iff_nth_less)
    then show "\<not> ?k \<le> fst p" by (simp add: not_le)
  qed
  also have "filter (\<lambda>p. ?k \<le> fst p) (drop m ?xs) = drop m ?xs"
  proof (rule filter_True, rule ballI)
    fix p assume "p \<in> set (drop m ?xs)"
    then obtain j where "j < length (drop m ?xs)" "drop m ?xs ! j = p" unfolding in_set_conv_nth by blast
    then have j: "m + j < length ?xs" "p = ?xs ! (m + j)" by auto
    then show "?k \<le> fst p" using so by (cases "j = 0") (auto simp: sorted_wrt_iff_nth_less less_imp_le)
  qed
  finally show ?thesis by simp
qed

section \<open>Positions\<close>

lemma t_GetByIndex_root:
  assumes C: "arc_ok C" "cache_ok C False (w_db w)" and R: "root_is C False w (Some T)" "ok_tree (Some T)" and i: "i < msize T"
  shows "\<exists>w'. t_GetByIndex C (int i) w = (Ok (leaves T ! i), w') \<and> keeps C False w w'"
proof -
  obtain n where n: "t_root (w_tree w) = Some n" "repr C False (view w) n T" "msize T < 2 ^ 31"
    using R by (auto simp: root_is_def ok_tree_def)
  then show ?thesis using nd_getByIndex_repr [OF C n(2) i n(3) fuel_enough [OF n(2)]]
    by (auto simp: runs_def t_GetByIndex_def)
qed

text \<open>In a sorted list, the number of smaller keys is the position.\<close>

lemma position_sorted:
  fixes kvs :: "(bytes \<times> bytes) list"
  assumes "sorted_wrt (<) (map fst kvs)" "map_of kvs k = Some v"
  shows "kvs ! length (filter (\<lambda>p. fst p < k) kvs) = (k, v)
    \<and> length (filter (\<lambda>p. fst p < k) kvs) < length kvs"
  using assms
proof (induction kvs)
  case (Cons p kvs)
  show ?case
  proof (cases "fst p = k")
    case True
    have "\<not> fst q < k" if "q \<in> set kvs" for q
    proof -
      have "k < fst q" using Cons.prems(1) that True by simp
      then show ?thesis by simp
    qed
    then have "filter (\<lambda>p. fst p < k) kvs = []" by (simp add: filter_empty_conv)
    then show ?thesis using True Cons.prems(2) by (cases p) auto
  next
    case False
    then have m: "map_of kvs k = Some v" using Cons.prems(2) by (cases p) auto
    then have "fst p < k" using Cons.prems(1) map_of_SomeD [OF m] by auto
    then show ?thesis using Cons.IH [OF _ m] Cons.prems(1) by simp
  qed
qed simp

section \<open>Fuel\<close>

text \<open>A call that returns with some fuel returns the same with more.\<close>

definition agrees :: "('s, 'a) op \<Rightarrow> ('s, 'a) op \<Rightarrow> bool" where
  "agrees p q \<longleftrightarrow> (\<forall>s x s'. p s = (Ok x, s') \<longrightarrow> q s = (Ok x, s'))"

lemma agrees_refl: "agrees p p"
  by (simp add: agrees_def)

lemma agrees_panic: "agrees panicO q"
  by (simp add: agrees_def)

lemma agrees_bind: "agrees p q \<Longrightarrow> (\<And>x. agrees (g x) (h x)) \<Longrightarrow> agrees (andThen p g) (andThen q h)"
  unfolding agrees_def andThen_def by (auto split: prod.splits outcome.splits)

lemma agrees_if: "(b \<Longrightarrow> agrees p q) \<Longrightarrow> (\<not> b \<Longrightarrow> agrees p' q') \<Longrightarrow> agrees (if b then p else p') (if b then q else q')"
  by simp

lemma agrees_case_prod: "(\<And>a b. agrees (f a b) (g a b)) \<Longrightarrow> agrees (case x of (a, b) \<Rightarrow> f a b) (case x of (a, b) \<Rightarrow> g a b)"
  by (cases x) simp

lemmas agrees_intros = agrees_bind agrees_if agrees_case_prod agrees_refl

lemma nd_get_more: "agrees (nd_get C f key n) (nd_get C (f + g) key n)"
proof (induction f arbitrary: n)
  case (Suc f)
  then show ?case by (simp only: nd_get.simps add_Suc) (intro agrees_intros)
qed (simp add: agrees_panic)

lemma nd_set_more: "agrees (nd_set C f key v n) (nd_set C (f + g) key v n)"
proof (induction f arbitrary: n)
  case (Suc f)
  then show ?case by (simp only: nd_set.simps add_Suc) (intro agrees_intros)
qed (simp add: agrees_panic)

lemma nd_remove_more: "agrees (nd_remove C f key n) (nd_remove C (f + g) key n)"
proof (induction f arbitrary: n)
  case (Suc f)
  then show ?case by (simp only: nd_remove.simps add_Suc) (intro agrees_intros)
qed (simp add: agrees_panic)

end
