(* ===== verification/Version_Store.thy ===== *)
theory Version_Store
  imports Mavl_Store
begin

text \<open>
  The contract of a versioned state store, as the chain uses it: applying a batch of writes to
  a version gives a new version, reading a version returns its contents, and no call changes
  what an older version holds.  The contract is interpreted on the database calls of the MAVL
  tree and on the two-phase calls of the store.
\<close>

section \<open>The contract\<close>

text \<open>A chain of blocks: each batch is applied to the version that the one before has returned.\<close>

fun put_chain :: "('h \<Rightarrow> 'b \<Rightarrow> ('s, 'h) op) \<Rightarrow> 'h \<Rightarrow> 'b list \<Rightarrow> ('s, 'h list) op" where
  "put_chain put h [] = returnO [h]"
| "put_chain put h (b # bs) =
    andThen (put h b) (\<lambda>h'. andThen (put_chain put h' bs) (\<lambda>hs. returnO (h # hs)))"

fun contents_after :: "('b \<Rightarrow> 'v \<Rightarrow> 'v) \<Rightarrow> 'v \<Rightarrow> 'b list \<Rightarrow> 'v list" where
  "contents_after upd v [] = [v]"
| "contents_after upd v (b # bs) = v # contents_after upd (upd b v) bs"

lemma length_contents_after [simp]: "length (contents_after upd v bs) = Suc (length bs)"
  by (induction bs arbitrary: v) auto

locale version_store =
  fixes ok :: "'s \<Rightarrow> bool"
    and holds :: "'s \<Rightarrow> 'h \<Rightarrow> 'v \<Rightarrow> bool"
    and fits :: "'v \<Rightarrow> bool"
    and upd :: "'b \<Rightarrow> 'v \<Rightarrow> 'v"
    and contents :: "'v \<Rightarrow> (bytes \<times> bytes) list"
    and put :: "'h \<Rightarrow> 'b \<Rightarrow> ('s, 'h) op"
    and get :: "'h \<Rightarrow> bytes list \<Rightarrow> ('s, bytes list) op"
  assumes put_version: "ok s \<Longrightarrow> holds s h v \<Longrightarrow> fits (upd b v) \<Longrightarrow>
      \<exists>h' s'. put h b s = (Ok h', s') \<and> ok s' \<and> holds s' h' (upd b v) \<and> (\<forall>g u. holds s g u \<longrightarrow> holds s' g u)"
    and get_version: "ok s \<Longrightarrow> holds s h v \<Longrightarrow>
      \<exists>s'. get h ks s = (Ok (map (look_up (contents v)) ks), s') \<and> ok s' \<and> (\<forall>g u. holds s g u \<longrightarrow> holds s' g u)"
begin

lemma chain_versions:
  "ok s \<Longrightarrow> holds s h v \<Longrightarrow> (\<And>u. u \<in> set (contents_after upd v bs) \<Longrightarrow> fits u) \<Longrightarrow>
    \<exists>hs s'. put_chain put h bs s = (Ok hs, s') \<and> ok s' \<and> list_all2 (holds s') hs (contents_after upd v bs)
      \<and> (\<forall>g u. holds s g u \<longrightarrow> holds s' g u)"
proof (induction bs arbitrary: s h v)
  case (Cons b bs)
  have "upd b v \<in> set (contents_after upd v (b # bs))" by (cases bs) auto
  then obtain h' s1 where 1: "put h b s = (Ok h', s1)" "ok s1" "holds s1 h' (upd b v)" "\<And>g u. holds s g u \<Longrightarrow> holds s1 g u"
    using put_version [OF Cons.prems(1,2)] Cons.prems(3) by blast
  obtain hs s2 where 2: "put_chain put h' bs s1 = (Ok hs, s2)" "ok s2" "list_all2 (holds s2) hs (contents_after upd (upd b v) bs)"
    "\<And>g u. holds s1 g u \<Longrightarrow> holds s2 g u"
    using Cons.IH [OF 1(2,3)] Cons.prems(3) by auto
  then show ?case using 1 Cons.prems(2) by auto
qed simp

text \<open>After the chain, every version reads as it was when it was made.\<close>

lemma chain_reads:
  assumes "ok s" "holds s h v" "\<And>u. u \<in> set (contents_after upd v bs) \<Longrightarrow> fits u"
  shows "\<exists>hs s'. put_chain put h bs s = (Ok hs, s') \<and> length hs = Suc (length bs)
    \<and> (\<forall>i \<le> length bs. \<forall>ks. \<exists>s''. get (hs ! i) ks s'
        = (Ok (map (look_up (contents (contents_after upd v bs ! i))) ks), s''))"
proof -
  obtain hs s' where c: "put_chain put h bs s = (Ok hs, s')" "ok s'" "list_all2 (holds s') hs (contents_after upd v bs)"
    using chain_versions [OF assms] by blast
  have l: "length hs = Suc (length bs)" using list_all2_lengthD [OF c(3)] by simp
  have "\<exists>s''. get (hs ! i) ks s' = (Ok (map (look_up (contents (contents_after upd v bs ! i))) ks), s'')"
    if "i \<le> length bs" for i ks
  proof -
    have "holds s' (hs ! i) (contents_after upd v bs ! i)" using list_all2_nthD [OF c(3), of i] that l by simp
    then show ?thesis using get_version [OF c(2)] by blast
  qed
  then show ?thesis using c(1) l by blast
qed

end

section \<open>The database calls\<close>

definition db_put :: "mavl_env \<Rightarrow> TreeConfig option \<Rightarrow> bytes option \<Rightarrow> int \<times> kv list \<Rightarrow> (kvdb, bytes option) op" where
  "db_put C cfg h b = SetKVPair C cfg h (fst b) (snd b)"

definition db_get :: "mavl_env \<Rightarrow> TreeConfig option \<Rightarrow> bytes option \<Rightarrow> bytes list \<Rightarrow> (kvdb, bytes list) op" where
  "db_get C cfg h ks = andThen (GetKVPair C cfg h ks) (\<lambda>(vs, e). returnO vs)"

abbreviation upd_batch :: "int \<times> kv list \<Rightarrow> mtree option \<Rightarrow> mtree option" where
  "upd_batch b R \<equiv> m_put_all (snd b) R"

interpretation mavl_db: version_store
  "\<lambda>d. env_ok C \<and> plain cfg \<and> db_ok C U d" "version C" "\<lambda>R. set_option R \<subseteq> U" upd_batch bindings
  "db_put C cfg" "db_get C cfg" for C cfg U
proof (unfold_locales, goal_cases)
  case (1 d h R b)
  then show ?case using SetKVPair_version [of C U d h R cfg "snd b" "fst b"]
    by (auto simp: db_put_def grows_def)
next
  case (2 d h R ks)
  then obtain d' where "GetKVPair C cfg h ks d = (Ok (map (look_up (bindings R)) ks, None), d')" "grows C U d d'"
    using GetKVPair_version [of C U d h R cfg ks] by blast
  then show ?case using 2 by (auto simp: db_get_def grows_def)
qed

section \<open>The calls of the store\<close>

definition st_put :: "mavl_env \<Rightarrow> bytes option \<Rightarrow> int \<times> kv list \<Rightarrow> (mavl_store, bytes option) op" where
  "st_put C h b = andThen (st_MemSet C \<lparr>ss_StateHash = h, ss_KV = snd b, ss_Height = fst b\<rparr>) (st_Commit C)"

definition st_get :: "mavl_env \<Rightarrow> bytes option \<Rightarrow> bytes list \<Rightarrow> (mavl_store, bytes list) op" where
  "st_get C h ks = st_Get C \<lparr>sg_StateHash = h, sg_Keys = ks\<rparr>"

text \<open>A version that is both written and pending reads the same, because hashes do not collide.\<close>

lemma version_readable:
  assumes C: "env_ok C" and s: "store_ok C U s" and h: "version C (st_db s) h R"
  shows "readable C s h R \<and> set_option R \<subseteq> U"
proof -
  have d: "db_ok C U (st_db s)" using s by (simp add: store_ok_def)
  have U: "universe C U" using d by (simp add: db_ok_def)
  have R: "set_option R \<subseteq> U" using h db_ok_universe [OF d] by (cases R) (auto simp: version_def)
  have "\<exists>S. R = Some S \<and> pending_tree C (st_db s) (raw h) t S"
    if t: "st_trees s (raw h) = Some (Some t)" for t
  proof -
    obtain T where T: "T \<in> U" "pending_tree C (st_db s) (raw h) t T" using s t by (auto simp: store_ok_def)
    then have hs: "last_bytes 32 (raw h) = mhash C T" using repr_hash by (auto simp: pending_tree_def)
    show ?thesis
    proof (cases R)
      case None
      have "mhash C T \<noteq> emptyRoot" using U T(1) by (auto simp: universe_def)
      moreover have "last_bytes 32 (raw h) = [] \<or> last_bytes 32 (raw h) = emptyRoot"
        using h None last_bytes_32' [OF emptyRoot_length] by (auto simp: version_def raw_def last_bytes_def)
      ultimately show ?thesis using hs mhash_length [OF env_okD(3) [OF C], of T] by auto
    next
      case (Some S)
      then obtain b where b: "h = Some b" "stored C False (kd_map (st_db s)) b S" using h by (auto simp: version_def)
      then have "mhash C S = mhash C T" using hs stored_hash [OF b(2)] by simp
      then show ?thesis using universe_inj [OF env_okD(3) [OF C] U _ T(1), of S] R Some T(2) by simp
    qed
  qed
  then show ?thesis using h R by (auto simp: readable_def split: option.splits)
qed

lemma st_put_version:
  assumes C: "env_ok C" and s: "store_ok C U s" and h: "version C (st_db s) h R" and U: "set_option (upd_batch b R) \<subseteq> U"
  shows "\<exists>h' s'. st_put C h b s = (Ok h', s') \<and> store_ok C U s' \<and> grows C U (st_db s) (st_db s')
    \<and> version C (st_db s') h' (upd_batch b R)"
proof (cases "snd b = []")
  case True
  let ?s = "s\<lparr>st_trees := (st_trees s)(raw h := None)\<rparr>"
  have "st_put C h b s = (Ok h, ?s)" using True by (simp add: st_put_def st_MemSet_def st_Commit_def)
  moreover have "store_ok C U ?s" using s by (auto simp: store_ok_def)
  moreover have "upd_batch b R = R" using True by (simp add: m_put_all_def)
  ultimately show ?thesis using h s grows_refl by (auto simp: store_ok_def)
next
  case False
  let ?q = "\<lparr>ss_StateHash = h, ss_KV = snd b, ss_Height = fst b\<rparr>"
  have "fold (\<lambda>(k, v). m_put k v) kvs R \<noteq> None" if "kvs \<noteq> []" for kvs
    using that by (induction kvs rule: rev_induct) (auto simp: m_put_def split: option.splits)
  from this [OF False] have "m_put_all (snd b) R \<noteq> None" by (simp add: m_put_all_def)
  then obtain T where T: "m_put_all (ss_KV ?q) R = Some T" "T \<in> U" using U by auto
  obtain s1 t where s1: "st_MemSet C ?q s = (Ok (Some (mhash C T)), s1)" "store_ok C U s1" "grows C U (st_db s) (st_db s1)"
    "st_trees s1 (mhash C T) = Some (Some t)" "pending_tree C (st_db s1) (mhash C T) t T"
    using st_MemSet_version [OF C s _ _ T] h False by auto
  obtain s2 where s2: "st_Commit C (Some (mhash C T)) s1 = (Ok (Some (mhash C T)), s2)" "store_ok C U s2"
    "grows C U (st_db s1) (st_db s2)" "version C (st_db s2) (Some (mhash C T)) (Some T)"
    using st_Commit_pending [OF C s1(2,4) T(2) s1(5)] by blast
  then show ?thesis using s1 T(1) grows_trans [OF s1(3) s2(3)] by (auto simp: st_put_def)
qed

lemma st_Get_store_ok:
  assumes C: "env_ok C" and s: "store_ok C U s" and h: "version C (st_db s) (sg_StateHash q) R"
  shows "\<exists>s'. st_Get C q s = (Ok (map (look_up (bindings R)) (sg_Keys q)), s')
    \<and> store_ok C U s' \<and> grows C U (st_db s) (st_db s')"
  using st_Get_readable [OF C s] version_readable [OF C s h] by blast

interpretation mavl_two_phase: version_store
  "\<lambda>s. env_ok C \<and> store_ok C U s" "\<lambda>s. version C (st_db s)" "\<lambda>R. set_option R \<subseteq> U" upd_batch bindings
  "st_put C" "st_get C" for C U
proof (unfold_locales, goal_cases)
  case (1 s h R b)
  then show ?case using st_put_version [of C U s h R b] by (auto simp: grows_def)
next
  case (2 s h R ks)
  then show ?case using st_Get_store_ok [of C U s "\<lparr>sg_StateHash = h, sg_Keys = ks\<rparr>" R]
    by (auto simp: st_get_def grows_def)
qed

end
