(* ===== verification/Mavl_Handler.thy ===== *)
theory Mavl_Handler
  imports Mavl_Query Version_Store
begin

text \<open>
  The store as a state machine: the messages that \<^verbatim>\<open>processMessage\<close> answers, one after the other
  in any order, and what stays true of the store whatever the sequence is.
\<close>

section \<open>Messages\<close>

text \<open>
  A message is admissible when the version it names exists and the tree it makes is one of the
  universe.  Commits and rollbacks may name any hash.
\<close>

fun admissible :: "mavl_env \<Rightarrow> mtree set \<Rightarrow> mavl_store \<Rightarrow> store_msg \<Rightarrow> bool" where
  "admissible C U s (EventStoreSet q) =
     (\<exists>R. version C (st_db s) (ss_StateHash q) R \<and> set_option (m_put_all (ss_KV q) R) \<subseteq> U)"
| "admissible C U s (EventStoreMemSet q upgrade) =
     (\<exists>R. version C (st_db s) (ss_StateHash q) R \<and> set_option (m_put_all (ss_KV q) R) \<subseteq> U)"
| "admissible C U s (EventStoreGet q) = (\<exists>R. readable C s (sg_StateHash q) R \<and> set_option R \<subseteq> U)"
| "admissible C U s (EventStoreGetTotalCoins h start stp cnt) = (\<exists>R. version C (st_db s) h R)"
| "admissible C U s (EventStoreList q) = (\<exists>R. version C (st_db s) (sl_StateHash q) R)"
| "admissible C U s (EventStoreCommit req upgrade) = True"
| "admissible C U s (EventStoreRollback req) = True"
| "admissible C U s EventStoreDel = True"
| "admissible C U s EventStoreOther = True"

inductive store_reach :: "mavl_env \<Rightarrow> mtree set \<Rightarrow> (bytes \<Rightarrow> int option) \<Rightarrow> mavl_store \<Rightarrow> mavl_store \<Rightarrow> bool"
  for C :: mavl_env and U :: "mtree set" and balance :: "bytes \<Rightarrow> int option" where
  reach_start: "store_reach C U balance s s"
| reach_step: "store_reach C U balance s s' \<Longrightarrow> admissible C U s' msg \<Longrightarrow>
    processMessage C balance msg s' = (r, s'') \<Longrightarrow> store_reach C U balance s s''"

section \<open>Every admissible message is answered\<close>

definition answered :: "mavl_env \<Rightarrow> mtree set \<Rightarrow> (mavl_store, 'a) op \<Rightarrow> mavl_store \<Rightarrow> bool" where
  "answered C U p s \<longleftrightarrow>
    (\<exists>r s'. p s = (r, s') \<and> r \<noteq> Panic \<and> store_ok C U s' \<and> grows C U (st_db s) (st_db s'))"

lemma answeredI:
  "p s = (Ok r, s') \<Longrightarrow> store_ok C U s' \<Longrightarrow> grows C U (st_db s) (st_db s') \<Longrightarrow> answered C U p s"
  by (simp add: answered_def)

lemma put_all_nonempty: "kvs \<noteq> [] \<Longrightarrow> m_put_all kvs R \<noteq> None"
  by (cases kvs rule: rev_cases) (auto simp: m_put_all_def m_put_def split: option.splits prod.splits)

lemma answered_Set:
  assumes C: "env_ok C" and s: "store_ok C U s" and q: "admissible C U s (EventStoreSet q)"
  shows "answered C U (st_Set C q) s"
proof -
  obtain R where R: "version C (st_db s) (ss_StateHash q) R" "set_option (m_put_all (ss_KV q) R) \<subseteq> U"
    using q by auto
  have d: "db_ok C U (st_db s)" "plain (st_cfg s)" using s by (auto simp: store_ok_def)
  obtain h' d' where r: "SetKVPair C (st_cfg s) (ss_StateHash q) (ss_Height q) (ss_KV q) (st_db s) = (Ok h', d')"
    "grows C U (st_db s) d'" using SetKVPair_version [OF C d(1) R(1) d(2) R(2)] by blast
  then have "st_Set C q s = (Ok h', s\<lparr>st_db := d'\<rparr>)" by (simp add: st_Set_def on_db_def)
  moreover have "store_ok C U (s\<lparr>st_db := d'\<rparr>)" using store_ok_grows [OF s r(2), of "st_trees s"] by simp
  ultimately show ?thesis using r(2) by (simp add: answered_def)
qed

lemma answered_no_batch:
  "store_ok C U s \<Longrightarrow> answered C U (\<lambda>s. (Ok h, s\<lparr>st_trees := (st_trees s)(k := Some None)\<rparr>)) s"
  by (auto simp: answered_def store_ok_def grows_def split: if_splits)

lemma answered_MemSet:
  assumes C: "env_ok C" and s: "store_ok C U s" and q: "admissible C U s (EventStoreMemSet q upgrade)"
  shows "answered C U (st_MemSet C q) s" "answered C U (st_MemSetUpgrade C q) s"
proof -
  obtain R where R: "version C (st_db s) (ss_StateHash q) R" "set_option (m_put_all (ss_KV q) R) \<subseteq> U"
    using q by auto
  have d: "db_ok C U (st_db s)" "plain (st_cfg s)" using s by (auto simp: store_ok_def)
  show "answered C U (st_MemSet C q) s"
  proof (cases "ss_KV q = []")
    case True
    then show ?thesis using answered_no_batch [OF s] by (simp add: answered_def st_MemSet_def)
  next
    case False
    then obtain T where "m_put_all (ss_KV q) R = Some T" "T \<in> U" using R(2) put_all_nonempty [of "ss_KV q" R] by auto
    then show ?thesis using st_MemSet_version [OF C s R(1) False] by (blast intro: answeredI)
  qed
  show "answered C U (st_MemSetUpgrade C q) s"
  proof (cases "ss_KV q = []")
    case True
    then show ?thesis using answered_no_batch [OF s] by (simp add: answered_def st_MemSetUpgrade_def)
  next
    case False
    then obtain T where T: "m_put_all (ss_KV q) R = Some T" "T \<in> U" using R(2) put_all_nonempty [of "ss_KV q" R] by auto
    obtain w where w: "mem_tree C q (new_world (st_db s) (ss_Height q) (st_cfg s)) = (Ok (Some (mhash C T)), w)"
      "grows C U (st_db s) (w_db w)" using mem_tree_version [OF C d(1) R(1) d(2) False T] by blast
    then have "st_MemSetUpgrade C q s = (Ok (Some (mhash C T)), s\<lparr>st_db := w_db w\<rparr>)"
      using False by (simp add: st_MemSetUpgrade_def on_db_def with_tree_def new_world_def)
    moreover have "store_ok C U (s\<lparr>st_db := w_db w\<rparr>)" using store_ok_grows [OF s w(2), of "st_trees s"] by simp
    ultimately show ?thesis using w(2) by (simp add: answered_def)
  qed
qed

lemma answered_drop:
  "store_ok C U s \<Longrightarrow> store_ok C U (s\<lparr>st_trees := (st_trees s)(k := None)\<rparr>) \<and> grows C U (st_db s) (st_db s)"
  by (auto simp: store_ok_def grows_def)

lemma answered_Commit:
  assumes C: "env_ok C" and s: "store_ok C U s"
  shows "answered C U (st_Commit C req) s" "answered C U (st_Rollback req) s"
proof -
  show "answered C U (st_Commit C req) s"
  proof (cases "\<exists>t. st_trees s (raw req) = Some (Some t)")
    case True
    then obtain t T where t: "st_trees s (raw req) = Some (Some t)" "T \<in> U" "pending_tree C (st_db s) (raw req) t T"
      using s unfolding store_ok_def by blast
    have "last_bytes 32 (raw req) = mhash C T" using t(3) repr_hash by (auto simp: pending_tree_def)
    then have "raw req \<noteq> []" using mhash_length [OF env_okD(3) [OF C], of T] by (auto simp: last_bytes_def)
    then obtain h where h: "req = Some h" "raw req = h" by (cases req) (auto simp: raw_def)
    show ?thesis using st_Commit_pending [OF C s _ t(2), of h t] t h by (auto intro: answeredI)
  next
    case False
    then show ?thesis using answered_drop [OF s, of "raw req"] s
      by (cases "st_trees s (raw req)") (auto simp: answered_def st_Commit_def)
  qed
  show "answered C U (st_Rollback req) s"
    using answered_drop [OF s, of "raw req"] s
    by (cases "st_trees s (raw req)") (auto simp: answered_def st_Rollback_def)
qed

lemma answered_reply:
  assumes "answered C U m s" shows "\<exists>r s'. reply_hash m f s = (Ok r, s') \<and> store_ok C U s' \<and> grows C U (st_db s) (st_db s')"
proof -
  obtain r s' where "m s = (r, s')" "r \<noteq> Panic" "store_ok C U s'" "grows C U (st_db s) (st_db s')"
    using assms by (auto simp: answered_def)
  then show ?thesis by (cases r) (auto simp: reply_hash_def)
qed

lemma answered_return: "store_ok C U s \<Longrightarrow> answered C U (returnO x) s"
  using answered_drop [of C U s] by (auto simp: answered_def)

lemma processMessage_ok:
  assumes C: "env_ok C" and s: "store_ok C U s" and msg: "admissible C U s msg"
  shows "\<exists>r s'. processMessage C balance msg s = (Ok r, s') \<and> store_ok C U s' \<and> grows C U (st_db s) (st_db s')"
proof (cases msg)
  case (EventStoreSet q)
  then show ?thesis using answered_reply [OF answered_Set [OF C s]] msg by (simp add: processMessage_def)
next
  case (EventStoreMemSet q upgrade)
  then have "admissible C U s (EventStoreMemSet q upgrade)" using msg by simp
  note a = answered_MemSet [OF C s this]
  show ?thesis using answered_reply [OF a(1)] answered_reply [OF a(2)] EventStoreMemSet
    by (cases upgrade) (simp_all add: processMessage_def)
next
  case (EventStoreGet q)
  then obtain R where "readable C s (sg_StateHash q) R" "set_option R \<subseteq> U" using msg by auto
  then show ?thesis using st_Get_readable [OF C s, of q R] EventStoreGet by (auto simp: processMessage_def)
next
  case (EventStoreCommit req upgrade)
  have "answered C U (if upgrade then st_CommitUpgrade req else st_Commit C req) s"
    using answered_Commit(1) [OF C s, of req] answered_return [OF s, of req] by (simp add: st_CommitUpgrade_def)
  then obtain r s' where r: "(if upgrade then st_CommitUpgrade req else st_Commit C req) s = (r, s')" "r \<noteq> Panic"
    "store_ok C U s'" "grows C U (st_db s) (st_db s')" unfolding answered_def by blast
  then show ?thesis using EventStoreCommit by (cases r) (auto simp: processMessage_def)
next
  case (EventStoreRollback req)
  then show ?thesis using answered_reply [OF answered_Commit(2) [OF C s]] by (simp add: processMessage_def)
next
  case (EventStoreGetTotalCoins h start stp cnt)
  then obtain R where "version C (st_db s) h R" using msg by auto
  then show ?thesis using EventStoreGetTotalCoins
      st_IterateRange_version [OF C s, of h R start stp "coins_CallBack balance"
        "\<lparr>tc_Count = cnt, tc_Num = 0, tc_Amount = 0, tc_NextKey = []\<rparr>"] by (auto simp: processMessage_def)
next
  case EventStoreDel
  then show ?thesis using answered_reply [OF answered_return [OF s]] by (simp add: processMessage_def st_Del_def)
next
  case (EventStoreList q)
  then obtain R where "version C (st_db s) (sl_StateHash q) R" using msg by auto
  then show ?thesis using EventStoreList st_IterateRange_version [OF C s, of "sl_StateHash q" R "sl_Start q" "sl_End q"
      IterateCallBack "NewStoreListQuery q"] by (auto simp: processMessage_def query_Run_def)
next
  case EventStoreOther
  then show ?thesis using answered_drop [OF s] s by (simp add: processMessage_def)
qed

lemma reach_ok:
  assumes "env_ok C" "store_reach C U balance s s'" "store_ok C U s"
  shows "store_ok C U s' \<and> (\<forall>g S. version C (st_db s) g S \<longrightarrow> version C (st_db s') g S)"
  using assms(2,3)
proof induction
  case (reach_step s s' msg r s'')
  then show ?case using processMessage_ok [OF assms(1), of U s' msg balance] by (auto simp: grows_def)
qed simp

end
