(* ===== verification/Mavl_Sample.thy ===== *)
theory Mavl_Sample
  imports Version_Store
begin

text \<open>
  A concrete environment for the MAVL store, used by the witnesses: an encoding of messages that
  can be parsed, a function with results of 32 bytes in place of SHA-256, and a cache that never
  drops an entry.  It shows that the assumptions on the code outside the repository can hold
  together.
\<close>

section \<open>An encoding\<close>

fun enc_bytes :: "bytes \<Rightarrow> bytes" where
  "enc_bytes [] = [CHR 0x00]"
| "enc_bytes (c # cs) = CHR 0x01 # c # enc_bytes cs"

fun dec_bytes :: "bytes \<Rightarrow> (bytes \<times> bytes) option" where
  "dec_bytes [] = None"
| "dec_bytes [x] = (if x = CHR 0x00 then Some ([], []) else None)"
| "dec_bytes (x # y # r) =
    (if x = CHR 0x00 then Some ([], y # r)
     else if x = CHR 0x01 then (case dec_bytes r of None \<Rightarrow> None | Some (b, s) \<Rightarrow> Some (y # b, s))
     else None)"

fun dec_nat :: "bytes \<Rightarrow> (nat \<times> bytes) option" where
  "dec_nat [] = None"
| "dec_nat (x # r) =
    (if x = CHR 0x05 then Some (0, r)
     else if x = CHR 0x04 then (case dec_nat r of None \<Rightarrow> None | Some (n, s) \<Rightarrow> Some (Suc n, s))
     else None)"

definition enc_int :: "int \<Rightarrow> bytes" where
  "enc_int z = (if z < 0 then CHR 0x03 else CHR 0x02) # replicate (nat \<bar>z\<bar>) (CHR 0x04) @ [CHR 0x05]"

definition dec_int :: "bytes \<Rightarrow> (int \<times> bytes) option" where
  "dec_int b = (case b of [] \<Rightarrow> None
     | x # r \<Rightarrow> (case dec_nat r of None \<Rightarrow> None
         | Some (n, s) \<Rightarrow> Some (if x = CHR 0x03 then - int n else int n, s)))"

lemma dec_enc_bytes [simp]: "dec_bytes (enc_bytes b @ r) = Some (b, r)"
proof (induction b)
  case Nil
  then show ?case by (cases r) auto
qed simp

lemma dec_enc_bytes_end [simp]: "dec_bytes (enc_bytes b) = Some (b, [])"
  using dec_enc_bytes [of b "[]"] by simp

lemma dec_enc_nat [simp]: "dec_nat (replicate n (CHR 0x04) @ CHR 0x05 # r) = Some (n, r)"
  by (induction n) auto

lemma dec_enc_int [simp]: "dec_int (enc_int z @ r) = Some (z, r)"
  by (simp add: dec_int_def enc_int_def)

section \<open>Messages\<close>

definition sample_inner :: "InnerNode \<Rightarrow> bytes" where
  "sample_inner i = enc_int (in_Height i) @ enc_int (in_Size i) @ enc_bytes (in_RightHash i) @ enc_bytes (in_LeftHash i)"

definition parse_inner :: "bytes \<Rightarrow> (InnerNode \<times> bytes) option" where
  "parse_inner b =
    (case dec_int b of None \<Rightarrow> None | Some (h, b) \<Rightarrow>
     (case dec_int b of None \<Rightarrow> None | Some (z, b) \<Rightarrow>
     (case dec_bytes b of None \<Rightarrow> None | Some (r, b) \<Rightarrow>
     (case dec_bytes b of None \<Rightarrow> None | Some (l, b) \<Rightarrow>
        Some (\<lparr>in_LeftHash = l, in_RightHash = r, in_Height = h, in_Size = z\<rparr>, b)))))"

definition sample_store :: "StoreNode \<Rightarrow> bytes" where
  "sample_store s = enc_int (sn_Height s) @ enc_int (sn_Size s) @ enc_bytes (sn_Key s) @ enc_bytes (sn_Value s)
     @ enc_bytes (sn_LeftHash s) @ enc_bytes (sn_RightHash s)"

definition parse_store :: "bytes \<Rightarrow> StoreNode option" where
  "parse_store b =
    (case dec_int b of None \<Rightarrow> None | Some (h, b) \<Rightarrow>
     (case dec_int b of None \<Rightarrow> None | Some (z, b) \<Rightarrow>
     (case dec_bytes b of None \<Rightarrow> None | Some (k, b) \<Rightarrow>
     (case dec_bytes b of None \<Rightarrow> None | Some (v, b) \<Rightarrow>
     (case dec_bytes b of None \<Rightarrow> None | Some (l, b) \<Rightarrow>
     (case dec_bytes b of None \<Rightarrow> None | Some (r, b) \<Rightarrow>
        Some \<lparr>sn_Key = k, sn_Value = v, sn_LeftHash = l, sn_RightHash = r, sn_Height = h, sn_Size = z\<rparr>))))))"

fun enc_branches :: "InnerNode list \<Rightarrow> bytes" where
  "enc_branches [] = [CHR 0x00]"
| "enc_branches (i # is) = CHR 0x01 # sample_inner i @ enc_branches is"

fun dec_branches :: "nat \<Rightarrow> bytes \<Rightarrow> (InnerNode list \<times> bytes) option" where
  "dec_branches 0 b = None"
| "dec_branches (Suc f) [] = None"
| "dec_branches (Suc f) (x # b) =
    (if x = CHR 0x00 then Some ([], b)
     else (case parse_inner b of None \<Rightarrow> None
           | Some (i, b) \<Rightarrow> (case dec_branches f b of None \<Rightarrow> None | Some (is, b) \<Rightarrow> Some (i # is, b))))"

definition sample_proof :: "MAVLProof \<Rightarrow> bytes" where
  "sample_proof p = enc_bytes (mp_LeafHash p) @ enc_bytes (mp_RootHash p) @ enc_branches (mp_InnerNodes p)"

definition parse_proof :: "bytes \<Rightarrow> MAVLProof option" where
  "parse_proof b =
    (case dec_bytes b of None \<Rightarrow> None | Some (l, b) \<Rightarrow>
     (case dec_bytes b of None \<Rightarrow> None | Some (r, b) \<Rightarrow>
     (case dec_branches (length b) b of None \<Rightarrow> None | Some (is, _) \<Rightarrow>
        Some \<lparr>mp_LeafHash = l, mp_InnerNodes = is, mp_RootHash = r\<rparr>)))"

lemma parse_sample_inner [simp]: "parse_inner (sample_inner i @ b) = Some (i, b)"
  by (simp add: parse_inner_def sample_inner_def)

lemma dec_enc_branches:
  "length (enc_branches is) \<le> f \<Longrightarrow> dec_branches f (enc_branches is) = Some (is, [])"
proof (induction "is" arbitrary: f)
  case Nil
  then show ?case by (cases f) auto
next
  case (Cons i "is")
  then obtain g where "f = Suc g" by (cases f) auto
  then show ?case using Cons by simp
qed

definition sample_sha :: "bytes \<Rightarrow> bytes" where
  "sample_sha b = take 32 (b @ replicate 32 (CHR 0x00))"

definition sample_mavl :: mavl_env where
  "sample_mavl = \<lparr>me_Sha256 = sample_sha,
     me_LeafBytes = (\<lambda>lf. sample_inner (leaf_as_inner lf)), me_InnerBytes = sample_inner,
     me_StoreBytes = sample_store, me_StoreParse = parse_store,
     me_ProofBytes = sample_proof, me_ProofParse = parse_proof,
     me_Arc = hist_get\<rparr>"

lemma sample_inner_inj: "inj sample_inner"
proof (rule injI)
  fix i j :: InnerNode assume "sample_inner i = sample_inner j"
  then have "parse_inner (sample_inner i @ []) = parse_inner (sample_inner j @ [])" by simp
  then show "i = j" by (simp only: parse_sample_inner option.inject prod.inject)
qed

lemma sample_env_ok: "env_ok sample_mavl"
  unfolding env_ok_def arc_ok_def store_codec_ok_def sha_ok_def
  by (simp add: sample_mavl_def sample_store_def parse_store_def sample_sha_def)
    (auto simp: enc_int_def min_def)

lemma sample_wire_ok: "wire_ok sample_mavl"
  using inj_on_subset [OF sample_inner_inj] by (simp add: wire_ok_def sample_mavl_def)

lemma sample_proof_codec_ok: "proof_codec_ok sample_mavl"
  by (simp add: proof_codec_ok_def sample_mavl_def sample_proof_def parse_proof_def dec_enc_branches)

section \<open>A small universe\<close>

definition tree1 :: mtree where
  "tree1 = MInner ''b'' (MLeaf ''a'' ''1'') (MLeaf ''b'' ''2'')"

definition tree2 :: mtree where
  "tree2 = MInner ''b'' (MLeaf ''a'' ''1'') (MLeaf ''b'' ''3'')"

definition trees :: "mtree list" where
  "trees = [tree1, tree2, MLeaf ''a'' ''1'', MLeaf ''b'' ''2'', MLeaf ''b'' ''3'']"

definition empty_db :: kvdb where
  "empty_db = \<lparr>kd_map = (\<lambda>_. None), kd_cache = Some []\<rparr>"

definition batch1 :: "kv list" where
  "batch1 = [(''a'', ''1''), (''b'', ''2'')]"

definition batch2 :: "kv list" where
  "batch2 = [(''b'', ''3'')]"

lemma trees_distinct: "distinct (map (mhash sample_mavl) trees)" "emptyRoot \<notin> set (map (mhash sample_mavl) trees)"
  by code_simp+

lemma trees_ok: "\<forall>T \<in> set trees. mtree_ok T"
  by code_simp

lemma trees_universe: "universe sample_mavl (set trees)"
proof -
  have "inj_on (mhash sample_mavl) (set trees)" using trees_distinct(1) by (simp add: distinct_map)
  moreover have "\<forall>T \<in> set trees. mhash sample_mavl T \<noteq> emptyRoot" using trees_distinct(2) by (metis image_eqI set_map)
  moreover have "\<forall>T \<in> set trees. subtrees T \<subseteq> set trees \<and> msize T + 1 < 2 ^ 31"
    by (simp add: trees_def tree1_def tree2_def)
  ultimately show ?thesis using trees_ok env_okD(3) [OF sample_env_ok] by (blast intro: universeI)
qed

lemma empty_db_ok: "db_ok sample_mavl (set trees) empty_db"
  using trees_universe by (simp add: db_ok_def empty_db_def cache_ok_def db_node_def)

lemma batches: "m_put_all batch1 None = Some tree1" "m_put_all batch2 (Some tree1) = Some tree2"
  by code_simp+

lemma batches_ne [simp]: "batch1 \<noteq> []" "batch2 \<noteq> []"
  by (simp_all add: batch1_def batch2_def)

lemma trees_mem [simp]: "tree1 \<in> set trees" "tree2 \<in> set trees"
  by (simp_all add: trees_def)

lemma tree1_ok: "ok_tree (Some tree1)"
  using trees_universe by (simp add: ok_tree_def universe_def)

text \<open>The database after the first batch.\<close>

definition sample_db :: kvdb where
  "sample_db = snd (SetKVPair sample_mavl None None 1 batch1 empty_db)"

definition sample_root :: bytes where
  "sample_root = mhash sample_mavl tree1"

lemma sample_db_ok:
  "db_ok sample_mavl (set trees) sample_db \<and> version sample_mavl sample_db (Some sample_root) (Some tree1)"
proof -
  obtain h d where "SetKVPair sample_mavl None None 1 batch1 empty_db = (Ok h, d)" "grows sample_mavl (set trees) empty_db d"
    "version sample_mavl d h (Some tree1)" "h = Some (mhash sample_mavl tree1)"
    using SetKVPair_version [OF sample_env_ok empty_db_ok, of None None None batch1 1]
    by (auto simp: batches version_def plain_def)
  then show ?thesis by (simp add: sample_db_def sample_root_def grows_def)
qed

definition sample_st :: mavl_store where
  "sample_st = \<lparr>st_db = sample_db, st_trees = (\<lambda>_. None), st_cfg = None\<rparr>"

lemma sample_st_ok: "store_ok sample_mavl (set trees) sample_st \<and> version sample_mavl (st_db sample_st) (Some sample_root) (Some tree1)"
  using sample_db_ok by (simp add: store_ok_def sample_st_def plain_def)

text \<open>A tree loaded from that database.\<close>

lemma sample_world:
  "\<exists>w. root_is sample_mavl False w (Some tree1) \<and> cache_ok sample_mavl False (w_db w)"
proof -
  obtain w where "t_Load sample_mavl (Some sample_root) (new_world sample_db 0 None) = (Ok (), w)"
    "evolves sample_mavl False (new_world sample_db 0 None) w" "root_is sample_mavl False w (Some tree1)"
    using t_Load_version [OF sample_env_ok, of "set trees" "new_world sample_db 0 None" "Some sample_root" "Some tree1"]
      sample_db_ok by auto
  then show ?thesis by (auto simp: evolves_def)
qed

end
