(* ===== verification/Mavl_Props.thy ===== *)
theory Mavl_Props
  imports Mavl_Handler Mavl_Sample
begin

text \<open>
  The properties of the state store: versions of the state stay readable across blocks, the
  tree under them stays sorted and balanced, hashes and proofs commit to the contents, and the
  recursive calls return.
\<close>

section \<open>Contents of a version\<close>

text \<open>What a key holds after a list of writes on top of some bindings.\<close>

definition last_write :: "kv list \<Rightarrow> (bytes \<times> bytes) list \<Rightarrow> bytes \<Rightarrow> bytes" where
  "last_write kvs base k = (case map_of (rev kvs) k of None \<Rightarrow> look_up base k | Some v \<Rightarrow> v)"

lemma contents_after_nth:
  "i \<le> length bs \<Longrightarrow> contents_after upd_batch R bs ! i = m_put_all (concat (map snd (take i bs))) R"
proof (induction bs arbitrary: R i)
  case Nil
  then show ?case by (simp add: m_put_all_def)
next
  case (Cons b bs)
  then show ?case by (cases i) (simp_all add: m_put_all_def)
qed

lemma ok_tree_sorted: "ok_tree R \<Longrightarrow> sorted_wrt (<) (map fst (bindings R))"
  by (cases R) (auto simp: ok_tree_def mtree_ok_def ordered_def)

lemma map_of_ins_all:
  "sorted_wrt (<) (map fst xs) \<Longrightarrow>
    sorted_wrt (<) (map fst (fold (\<lambda>(k, v). ins_kv k v) kvs xs)) \<and>
    look_up (fold (\<lambda>(k, v). ins_kv k v) kvs xs) k = last_write kvs xs k"
proof (induction kvs rule: rev_induct)
  case (snoc p kvs)
  obtain a v where p: "p = (a, v)" by fastforce
  show ?case using snoc ins_kv_sorted map_of_ins_kv
    by (auto simp: p last_write_def look_up_def)
qed (simp add: last_write_def)

lemma look_up_put_all:
  assumes "ok_tree R" "opt_size (m_put_all kvs R) + 1 < 2 ^ 31"
  shows "look_up (bindings (m_put_all kvs R)) = last_write kvs (bindings R)"
  using bindings_put_all [OF assms] map_of_ins_all [OF ok_tree_sorted [OF assms(1)]] by auto

section \<open>Versions of the state\<close>

text \<open>C26: every block that is set and committed on top of the one before gets a root hash, and
  after the whole chain each of those hashes still reads the state as of its block: a key holds
  the last value written to it up to that block, and an older block never sees a later write.\<close>

theorem versions_stay_readable:
  assumes C: "env_ok C" and s: "store_ok C U s" and h: "version C (st_db s) h R"
    and U: "\<forall>S \<in> set (contents_after upd_batch R bs). set_option S \<subseteq> U"
  shows "\<exists>hs s'. put_chain (st_put C) h bs s = (Ok hs, s') \<and> length hs = Suc (length bs)
    \<and> (\<forall>i \<le> length bs. \<forall>ks. \<exists>s''. st_Get C \<lparr>sg_StateHash = hs ! i, sg_Keys = ks\<rparr> s'
        = (Ok (map (last_write (concat (map snd (take i bs))) (bindings R)) ks), s''))"
proof -
  have d: "db_ok C U (st_db s)" using s by (simp add: store_ok_def)
  obtain hs s' where hs: "put_chain (st_put C) h bs s = (Ok hs, s')" "length hs = Suc (length bs)"
    "\<And>i ks. i \<le> length bs \<Longrightarrow> \<exists>s''. st_get C (hs ! i) ks s'
        = (Ok (map (look_up (bindings (contents_after upd_batch R bs ! i))) ks), s'')"
    using mavl_two_phase.chain_reads [of C U s h R bs] C s h U by blast
  have "look_up (bindings (contents_after upd_batch R bs ! i)) = last_write (concat (map snd (take i bs))) (bindings R)"
    if i: "i \<le> length bs" for i
  proof -
    have "contents_after upd_batch R bs ! i \<in> set (contents_after upd_batch R bs)" using i by simp
    then have "set_option (m_put_all (concat (map snd (take i bs))) R) \<subseteq> U"
      using U contents_after_nth [OF i, of R] by auto
    then show ?thesis
      using look_up_put_all [OF version_ok_tree [OF d h]] put_all_bound contents_after_nth [OF i] d
      by (auto simp: db_ok_def)
  qed
  then show ?thesis using hs by (auto simp: st_get_def)
qed

theorem versions_stay_readable_witness:
  "\<exists>hs s'. put_chain (st_put sample_mavl) (Some sample_root) [(2, batch2)] sample_st = (Ok hs, s') \<and> length hs = 2
    \<and> (\<exists>s''. st_Get sample_mavl \<lparr>sg_StateHash = hs ! 0, sg_Keys = [''b'']\<rparr> s' = (Ok [''2''], s''))
    \<and> (\<exists>s''. st_Get sample_mavl \<lparr>sg_StateHash = hs ! 1, sg_Keys = [''b'']\<rparr> s' = (Ok [''3''], s''))"
proof -
  have U: "\<forall>S \<in> set (contents_after upd_batch (Some tree1) [(2, batch2)]). set_option S \<subseteq> set trees"
    by (simp add: batches trees_def)
  have v: "map (last_write (concat (map snd (take 0 [(2::int, batch2)]))) (bindings (Some tree1))) [''b''] = [''2'']"
    "map (last_write (concat (map snd (take 1 [(2::int, batch2)]))) (bindings (Some tree1))) [''b''] = [''3'']"
    by code_simp+
  from versions_stay_readable [OF sample_env_ok sample_st_ok [THEN conjunct1] sample_st_ok [THEN conjunct2] U]
  obtain hs s' where hs: "put_chain (st_put sample_mavl) (Some sample_root) [(2, batch2)] sample_st = (Ok hs, s')" "length hs = Suc (length [(2::int, batch2)])"
    "\<And>i ks. i \<le> length [(2::int, batch2)] \<Longrightarrow> \<exists>s''. st_Get sample_mavl \<lparr>sg_StateHash = hs ! i, sg_Keys = ks\<rparr> s'
        = (Ok (map (last_write (concat (map snd (take i [(2::int, batch2)]))) (bindings (Some tree1))) ks), s'')"
    by blast
  show ?thesis using hs(1,2) hs(3) [of 0 "[''b'']", unfolded v] hs(3) [of 1 "[''b'']", unfolded v] by simp
qed

text \<open>C27: from a well-formed store, every sequence of admissible messages leads to a well-formed
  store again: each database entry that is a node is the root of a complete, sorted and balanced
  tree, the cache agrees with the database and every pending tree has its hash.  All versions
  there were are still there, and the next admissible message is answered without a panic.\<close>

theorem reachable_store_ok:
  assumes C: "env_ok C" and s: "store_ok C U s" and r: "store_reach C U balance s s'"
  shows "store_ok C U s' \<and> (\<forall>g S. version C (st_db s) g S \<longrightarrow> version C (st_db s') g S)
    \<and> (\<forall>msg. admissible C U s' msg \<longrightarrow> (\<exists>reply s''. processMessage C balance msg s' = (Ok reply, s'') \<and> store_ok C U s''))"
  using reach_ok [OF C r s] processMessage_ok [OF C, of U s' _ balance] by blast

theorem reachable_store_ok_witness:
  "\<exists>s'. processMessage sample_mavl (\<lambda>_. None)
      (EventStoreMemSet \<lparr>ss_StateHash = Some sample_root, ss_KV = batch2, ss_Height = 2\<rparr> False) sample_st
      = (Ok (ReplyHash (Some (mhash sample_mavl tree2))), s')
    \<and> store_ok sample_mavl (set trees) s' \<and> version sample_mavl (st_db s') (Some sample_root) (Some tree1)"
proof -
  let ?q = "\<lparr>ss_StateHash = Some sample_root, ss_KV = batch2, ss_Height = 2\<rparr>"
  obtain s' where s': "st_MemSet sample_mavl ?q sample_st = (Ok (Some (mhash sample_mavl tree2)), s')"
    using st_MemSet_version [OF sample_env_ok sample_st_ok [THEN conjunct1], of ?q "Some tree1" tree2]
      sample_st_ok by (auto simp: batches)
  then have p: "processMessage sample_mavl (\<lambda>_. None) (EventStoreMemSet ?q False) sample_st
      = (Ok (ReplyHash (Some (mhash sample_mavl tree2))), s')"
    by (simp add: processMessage_def reply_hash_def)
  have "admissible sample_mavl (set trees) sample_st (EventStoreMemSet ?q False)"
    using sample_st_ok by (auto simp: batches intro!: exI [of _ "Some tree1"])
  then have "store_reach sample_mavl (set trees) (\<lambda>_. None) sample_st s'"
    using reach_step [OF reach_start _ p] by blast
  from reachable_store_ok [OF sample_env_ok sample_st_ok [THEN conjunct1] this] sample_st_ok p
  show ?thesis by blast
qed

text \<open>C28: rolling back what \<^verbatim>\<open>MemSet\<close> has computed leaves the database entries as they were and
  only the pending tree of that hash is gone, so that the next \<^verbatim>\<open>Commit\<close> of the hash fails.\<close>

theorem rollback_forgets_batch:
  assumes C: "env_ok C" and s: "store_ok C U s" and h: "version C (st_db s) (ss_StateHash q) R"
    and q: "ss_KV q \<noteq> []" "set_option (m_put_all (ss_KV q) R) \<subseteq> U"
  shows "\<exists>b s' s''. st_MemSet C q s = (Ok (Some b), s') \<and> st_Rollback (Some b) s' = (Ok (Some b), s'')
    \<and> kd_map (st_db s'') = kd_map (st_db s) \<and> st_trees s'' = (st_trees s)(b := None)
    \<and> store_ok C U s'' \<and> fst (st_Commit C (Some b) s'') = Fail ErrHashNotFound"
proof -
  obtain T where T: "m_put_all (ss_KV q) R = Some T" "T \<in> U" using q put_all_nonempty [of "ss_KV q" R] by auto
  obtain s' t where s': "st_MemSet C q s = (Ok (Some (mhash C T)), s')" "store_ok C U s'"
    "st_trees s' = (st_trees s)(mhash C T := Some (Some t))" "kd_map (st_db s') = kd_map (st_db s)"
    using st_MemSet_version [OF C s h q(1) T] by blast
  then show ?thesis using st_Rollback_pending [OF s'(2), of "mhash C T" "Some t"]
    by (auto simp: st_Commit_def raw_def)
qed

theorem rollback_forgets_batch_witness:
  "\<exists>b s' s''. st_MemSet sample_mavl \<lparr>ss_StateHash = Some sample_root, ss_KV = batch2, ss_Height = 2\<rparr> sample_st = (Ok (Some b), s')
    \<and> st_Rollback (Some b) s' = (Ok (Some b), s'') \<and> kd_map (st_db s'') = kd_map (st_db sample_st)"
  using rollback_forgets_batch [OF sample_env_ok sample_st_ok [THEN conjunct1],
      of "\<lparr>ss_StateHash = Some sample_root, ss_KV = batch2, ss_Height = 2\<rparr>" "Some tree1"] sample_st_ok
  by (auto simp: batches)

section \<open>The tree\<close>

lemma length_ins_kv: "length (ins_kv k v xs) \<le> Suc (length xs)"
  by (induction k v xs rule: ins_kv.induct) auto

text \<open>C29: setting a key in a tree whose nodes are in memory, in the cache or in the database
  reports whether the key was there, and leaves the sorted bindings with the pair inserted.  The
  new tree is again sorted, has the first key of the right subtree in every inner node and
  heights that differ by at most one at every node.\<close>

theorem set_keeps_tree:
  assumes C: "arc_ok C" "cache_ok C m (w_db w)" and R: "root_is C m w R" "ok_tree R"
    and z: "length (bindings R) + 2 < 2 ^ 31"
  shows "\<exists>w' R'. t_Set C k v w = (Ok (k \<in> fst ` set (bindings R)), w') \<and> root_is C m w' R' \<and> ok_tree R'
    \<and> bindings R' = ins_kv k v (bindings R) \<and> cache_ok C m (w_db w') \<and> kd_map (w_db w') = kd_map (w_db w)"
proof -
  obtain w' n where w': "t_Set C k v w = (Ok (k \<in> fst ` set (bindings R)), w')" "evolves C m w w'"
    "root_is C m w' (m_put k v R)" using t_Set_root [OF C R] by blast
  have b: "bindings (m_put k v R) = ins_kv k v (bindings R)" using bindings_put [OF R(2)] .
  from length_ins_kv [of k v "bindings R"] have "opt_size (m_put k v R) + 1 < 2 ^ 31" using z b by (simp add: opt_size_def)
  then show ?thesis using w' b ok_tree_put [OF R(2)] by (auto simp: evolves_def)
qed

theorem set_keeps_tree_witness:
  "\<exists>w w' R'. root_is sample_mavl False w (Some tree1) \<and> t_Set sample_mavl ''c'' ''9'' w = (Ok False, w')
    \<and> root_is sample_mavl False w' R' \<and> bindings R' = [(''a'', ''1''), (''b'', ''2''), (''c'', ''9'')]"
proof -
  obtain w where w: "root_is sample_mavl False w (Some tree1)" "cache_ok sample_mavl False (w_db w)"
    using sample_world by blast
  have "bindings (Some tree1) = [(''a'', ''1''), (''b'', ''2'')]" by (simp add: tree1_def)
  moreover have "ins_kv ''c'' ''9'' [(''a'', ''1''), (''b'', ''2'')] = [(''a'', ''1''), (''b'', ''2''), (''c'', ''9'')]" by code_simp
  ultimately show ?thesis
    using set_keeps_tree [OF env_okD(1) [OF sample_env_ok] w(2,1) tree1_ok, of "''c''" "''9''"] w(1) by auto
qed

text \<open>C30: removing a key returns its value and whether it was there, and leaves the bindings of
  the other keys; the tree stays sorted and balanced, and the key in the inner nodes above the
  removed leaf is the first key of the right subtree again.\<close>

theorem remove_keeps_tree:
  assumes C: "arc_ok C" "cache_ok C False (w_db w)" and R: "root_is C False w R" "ok_tree R"
  shows "\<exists>w' R'. t_Remove C k w = (Ok (look_up (bindings R) k, k \<in> fst ` set (bindings R)), w')
    \<and> root_is C False w' R' \<and> ok_tree R' \<and> bindings R' = filter (\<lambda>p. fst p \<noteq> k) (bindings R)
    \<and> cache_ok C False (w_db w') \<and> kd_map (w_db w') = kd_map (w_db w)"
proof -
  obtain v w' where w': "t_Remove C k w = (Ok (v, k \<in> fst ` set (bindings R)), w')" "evolves C False w w'"
    "root_is C False w' (m_drop k R)" "read_value False (map_of (bindings R) k) v"
    using t_Remove_root [OF C R] by blast
  then have "v = look_up (bindings R) k" by (auto simp: read_value_def look_up_def split: option.splits)
  then show ?thesis using w' bindings_drop [OF R(2)] ok_tree_drop [OF R(2)] by (auto simp: evolves_def)
qed

theorem remove_keeps_tree_witness:
  "\<exists>w w' R'. root_is sample_mavl False w (Some tree1) \<and> t_Remove sample_mavl ''a'' w = (Ok (''1'', True), w')
    \<and> root_is sample_mavl False w' R' \<and> bindings R' = [(''b'', ''2'')]"
proof -
  obtain w where w: "root_is sample_mavl False w (Some tree1)" "cache_ok sample_mavl False (w_db w)"
    using sample_world by blast
  have "bindings (Some tree1) = [(''a'', ''1''), (''b'', ''2'')]" by (simp add: tree1_def)
  then show ?thesis
    using remove_keeps_tree [OF env_okD(1) [OF sample_env_ok] w(2,1) tree1_ok, of "''a''"] w(1) by (auto simp: look_up_def)
qed

text \<open>Calls on a tree, and what they do to the map from keys to values.\<close>

datatype tree_call = TSet bytes bytes | TRemove bytes

fun run_tree :: "mavl_env \<Rightarrow> tree_call list \<Rightarrow> (world, unit) op" where
  "run_tree C [] = returnO ()"
| "run_tree C (TSet k v # cs) = andThen (t_Set C k v) (\<lambda>_. run_tree C cs)"
| "run_tree C (TRemove k # cs) = andThen (t_Remove C k) (\<lambda>_. run_tree C cs)"

fun call_map :: "tree_call \<Rightarrow> (bytes \<rightharpoonup> bytes) \<Rightarrow> bytes \<rightharpoonup> bytes" where
  "call_map (TSet k v) f = f(k \<mapsto> v)"
| "call_map (TRemove k) f = f(k := None)"

lemma run_tree_root:
  assumes C: "arc_ok C" and "cache_ok C m (w_db w)" "root_is C m w R" "ok_tree R"
    and "length (bindings R) + length cs + 1 < 2 ^ 31"
  shows "\<exists>w' R'. run_tree C cs w = (Ok (), w') \<and> root_is C m w' R' \<and> ok_tree R'
    \<and> map_of (bindings R') = fold call_map cs (map_of (bindings R))"
  using assms(2-)
proof (induction cs arbitrary: w R)
  case (Cons c cs)
  show ?case
  proof (cases c)
    case (TSet k v)
    obtain w1 where w1: "t_Set C k v w = (Ok (k \<in> fst ` set (bindings R)), w1)" "evolves C m w w1"
      "root_is C m w1 (m_put k v R)" using t_Set_root [OF C Cons.prems(1-3)] by blast
    have b: "bindings (m_put k v R) = ins_kv k v (bindings R)" using bindings_put [OF Cons.prems(3)] .
    have l: "length (bindings (m_put k v R)) + length cs + 1 < 2 ^ 31"
      using Cons.prems(4) length_ins_kv [of k v "bindings R"] by (simp add: b)
    then have ok: "ok_tree (m_put k v R)" using ok_tree_put [OF Cons.prems(3)] by (simp add: opt_size_def)
    have "call_map c (map_of (bindings R)) = map_of (bindings (m_put k v R))"
      by (simp add: TSet b map_of_ins_kv [OF ok_tree_sorted [OF Cons.prems(3)]])
    moreover have "run_tree C (c # cs) w = run_tree C cs w1" "cache_ok C m (w_db w1)"
      using w1(1,2) by (simp_all add: TSet evolves_def)
    ultimately show ?thesis using Cons.IH [OF _ w1(3) ok l] by simp
  next
    case (TRemove k)
    obtain x w1 where w1: "t_Remove C k w = (Ok x, w1)" "evolves C m w w1" "root_is C m w1 (m_drop k R)"
      using t_Remove_root [OF C Cons.prems(1-3)] by blast
    have b: "bindings (m_drop k R) = filter (\<lambda>p. fst p \<noteq> k) (bindings R)" using bindings_drop [OF Cons.prems(3)] .
    have "length (bindings (m_drop k R)) + length cs + 1 < 2 ^ 31"
      using Cons.prems(4) length_filter_le [of "\<lambda>p. fst p \<noteq> k" "bindings R"] by (simp add: b del: length_filter_le)
    moreover have "call_map c (map_of (bindings R)) = map_of (bindings (m_drop k R))"
      by (simp add: TRemove b map_of_filter_key)
    moreover have "run_tree C (c # cs) w = run_tree C cs w1" "cache_ok C m (w_db w1)"
      using w1(1,2) by (simp_all add: TRemove evolves_def)
    ultimately show ?thesis using Cons.IH [OF _ w1(3) ok_tree_drop [OF Cons.prems(3)]] by simp
  qed
qed auto

lemma root_dims:
  assumes R: "root_is C m w R" "ok_tree R"
  shows "t_Size (w_tree w) = int (length (bindings R)) \<and> 0 \<le> t_Height (w_tree w)
    \<and> 2 ^ nat (t_Height (w_tree w)) \<le> max 1 (length (bindings R)) ^ 2
    \<and> in_i32 (t_Size (w_tree w)) \<and> in_i32 (t_Height (w_tree w))"
proof (cases R)
  case None
  then show ?thesis using R(1) by (simp add: root_is_def t_Size_def t_Height_def in_i32_def)
next
  case (Some T)
  then obtain n where n: "t_root (w_tree w) = Some n" "repr C m (view w) n T" using R(1) by (auto simp: root_is_def)
  have T: "mtree_ok T" "msize T + 1 < 2 ^ 31" using R(2) Some by (auto simp: ok_tree_def)
  have sq: "2 ^ mheight T \<le> msize T * msize T" using avl_size_square [of T] T(1) by (simp add: mtree_ok_def)
  have "mheight T < msize T" by (induction T) auto
  then show ?thesis using n repr_dims [OF n(2)] T(2) sq Some
    by (auto simp: t_Size_def t_Height_def length_leaves power2_eq_square in_i32_def max_def)
qed

text \<open>C31: the size and height that the nodes keep are right after any sequence of calls.  Start
  from an empty tree, or from any tree whose nodes are in memory, in the cache or in the database,
  and make any sequence of \<^verbatim>\<open>Set\<close> and \<^verbatim>\<open>Remove\<close> calls (keys at the start and calls together
  fewer than $2^{31} - 1$): all of them return, the size that the tree reports is the number of keys that the
  calls leave, the height is logarithmic in it (two to the power of the height is at most the
  square of the size), and both are within their 32-bit fields.\<close>

theorem height_is_logarithmic:
  assumes C: "arc_ok C" "cache_ok C m (w_db w)" and R: "root_is C m w R" "ok_tree R"
    and z: "length (bindings R) + length cs + 1 < 2 ^ 31"
    and N: "N = card (dom (fold call_map cs (map_of (bindings R))))"
  shows "\<exists>w'. run_tree C cs w = (Ok (), w') \<and> t_Size (w_tree w') = int N \<and> 0 \<le> t_Height (w_tree w')
    \<and> 2 ^ nat (t_Height (w_tree w')) \<le> max 1 N ^ 2
    \<and> in_i32 (t_Size (w_tree w')) \<and> in_i32 (t_Height (w_tree w'))"
proof -
  obtain w' R' where w': "run_tree C cs w = (Ok (), w')" "root_is C m w' R'" "ok_tree R'"
    "map_of (bindings R') = fold call_map cs (map_of (bindings R))" using run_tree_root [OF C R z] by blast
  have "distinct (map fst (bindings R'))" using ok_tree_sorted [OF w'(3)] by (simp add: strict_sorted_iff)
  then have "N = length (bindings R')"
    unfolding N w'(4) [symmetric] dom_map_of_conv_image_fst by (metis distinct_card length_map set_map)
  then show ?thesis using w'(1) root_dims [OF w'(2,3)] by auto
qed

theorem height_is_logarithmic_witness:
  "\<exists>w w'. root_is sample_mavl False w (Some tree1)
    \<and> run_tree sample_mavl [TSet ''c'' ''9'', TRemove ''a'', TSet ''c'' ''8'', TSet ''d'' ''7''] w = (Ok (), w')
    \<and> t_Size (w_tree w') = 3 \<and> 2 ^ nat (t_Height (w_tree w')) \<le> (3 :: nat) ^ 2"
proof -
  let ?cs = "[TSet ''c'' ''9'', TRemove ''a'', TSet ''c'' ''8'', TSet ''d'' ''7'']"
  obtain w where w: "root_is sample_mavl False w (Some tree1)" "cache_ok sample_mavl False (w_db w)"
    using sample_world by blast
  have "dom (fold call_map ?cs (map_of (bindings (Some tree1)))) = {''b'', ''c'', ''d''}"
    by (auto simp: tree1_def split: if_splits)
  then have "3 = card (dom (fold call_map ?cs (map_of (bindings (Some tree1)))))" by simp
  moreover have "length (bindings (Some tree1)) + length ?cs + 1 < 2 ^ 31" by (simp add: tree1_def)
  ultimately show ?thesis
    using height_is_logarithmic [OF env_okD(1) [OF sample_env_ok] w(2,1) tree1_ok] w(1) by fastforce
qed

text \<open>C32: the root hash depends on the resulting tree only, not on the database, the block
  height, the configured prefixes or the root it was computed from, and it commits to the
  bindings: writes to two databases return the same hash exactly when they end in the same tree,
  and then the two versions have the same bindings.  The hypothesis on hashing is about single
  node messages: in the set that contains the trees and their subtrees, different messages have
  different encodings and no two of the encodings have the same SHA-256 hash.\<close>

theorem root_hash_commits:
  assumes C: "env_ok C" and d: "db_ok C U d1" "db_ok C U d2" and cfg: "plain cfg1" "plain cfg2"
    and h: "version C d1 h1 R1" "version C d2 h2 R2" and kv: "kvs1 \<noteq> []" "kvs2 \<noteq> []"
    and U: "set_option (m_put_all kvs1 R1) \<subseteq> U" "set_option (m_put_all kvs2 R2) \<subseteq> U"
  shows "(fst (SetKVPair C cfg1 h1 ht1 kvs1 d1) = fst (SetKVPair C cfg2 h2 ht2 kvs2 d2))
      = (m_put_all kvs1 R1 = m_put_all kvs2 R2)
    \<and> (fst (SetKVPair C cfg1 h1 ht1 kvs1 d1) = fst (SetKVPair C cfg2 h2 ht2 kvs2 d2)
       \<longrightarrow> last_write kvs1 (bindings R1) = last_write kvs2 (bindings R2))"
proof -
  let ?S1 = "m_put_all kvs1 R1" and ?S2 = "m_put_all kvs2 R2"
  have V: "universe C U" using d(1) by (simp add: db_ok_def)
  have f: "fst (SetKVPair C cfg1 h1 ht1 kvs1 d1) = Ok (map_option (mhash C) ?S1)"
    "fst (SetKVPair C cfg2 h2 ht2 kvs2 d2) = Ok (map_option (mhash C) ?S2)"
    using SetKVPair_version [OF C d(1) h(1) cfg(1) U(1), of ht1] SetKVPair_version [OF C d(2) h(2) cfg(2) U(2), of ht2] kv by auto
  have "map_option (mhash C) ?S1 = map_option (mhash C) ?S2 \<Longrightarrow> ?S1 = ?S2"
    using universe_inj [OF env_okD(3) [OF C] V] U by (cases ?S1; cases ?S2) auto
  then have e: "(fst (SetKVPair C cfg1 h1 ht1 kvs1 d1) = fst (SetKVPair C cfg2 h2 ht2 kvs2 d2)) = (?S1 = ?S2)" using f by auto
  have "?S1 = ?S2 \<Longrightarrow> last_write kvs1 (bindings R1) = last_write kvs2 (bindings R2)"
    using look_up_put_all [OF version_ok_tree [OF d(1) h(1)] put_all_bound [OF V U(1)]]
      look_up_put_all [OF version_ok_tree [OF d(2) h(2)] put_all_bound [OF V U(2)]] by simp
  then show ?thesis using e by blast
qed

theorem root_hash_commits_witness:
  "fst (SetKVPair sample_mavl None None 7 (batch1 @ batch2) empty_db)
     = fst (SetKVPair sample_mavl None (Some sample_root) 2 batch2 sample_db)
   \<and> fst (SetKVPair sample_mavl None None 7 batch1 empty_db)
     \<noteq> fst (SetKVPair sample_mavl None (Some sample_root) 2 batch2 sample_db)"
proof -
  have a: "m_put_all (batch1 @ batch2) None = Some tree2" by code_simp
  have ne: "tree1 \<noteq> tree2" by (simp add: tree1_def tree2_def)
  have v: "version sample_mavl empty_db None None" by (simp add: version_def)
  note r = root_hash_commits [OF sample_env_ok empty_db_ok sample_db_ok [THEN conjunct1] _ _ v sample_db_ok [THEN conjunct2]]
  show ?thesis
    using r [of None None "batch1 @ batch2" batch2 7 2] r [of None None batch1 batch2 7 2] a ne
    by (simp add: plain_def batches)
qed

section \<open>Proofs of bindings\<close>

text \<open>C33: the proof that \<^verbatim>\<open>GetKVPairProof\<close> returns for a key of a version is accepted by
  \<^verbatim>\<open>VerifyKVPairProof\<close> for the root hash, the key and its value; there is no proof for a key that
  the version does not have.\<close>

theorem proof_round_trip:
  assumes C: "env_ok C" "proof_codec_ok C" and d: "db_ok C U d" and h: "version C d (Some h) (Some T)"
  shows "\<exists>p d'. GetKVPairProof C cfg (Some h) key d = (Ok p, d')
    \<and> (case map_of (leaves T) key of None \<Rightarrow> p = None
       | Some v \<Rightarrow> \<exists>pf. p = Some pf \<and> VerifyKVPairProof C (last_bytes 32 h) (key, v) pf = Ok True)"
proof -
  have "stored C False (kd_map d) h T" using h by (simp add: version_def)
  then have hh: "last_bytes 32 h = mhash C T" by (rule stored_hash)
  show ?thesis using GetKVPairProof_version [OF C(1) d h, of cfg key] Verify_leads [OF env_okD(3) [OF C(1)] C(2), of key _ _ T]
    unfolding hh by (cases "map_of (leaves T) key") auto
qed

theorem proof_round_trip_witness:
  "\<exists>pf d'. GetKVPairProof sample_mavl None (Some sample_root) ''b'' sample_db = (Ok (Some pf), d')
    \<and> VerifyKVPairProof sample_mavl (last_bytes 32 sample_root) (''b'', ''2'') pf = Ok True"
proof -
  have "map_of (leaves tree1) ''b'' = Some ''2''" by (simp add: tree1_def)
  then show ?thesis
    using proof_round_trip [OF sample_env_ok sample_proof_codec_ok sample_db_ok [THEN conjunct1] sample_db_ok [THEN conjunct2],
        of None "''b''"] by auto
qed

text \<open>C34: an accepted proof is a proof: if no two of the messages involved (the nodes of the tree, the
  leaf and the steps of the proof) have the same hash and every step of the proof has a positive
  height, then a pair for which \<^verbatim>\<open>VerifyKVPairProof\<close> returns true under the root hash of a tree
  is a binding of the tree.\<close>

theorem proof_sound:
  assumes C: "sha_ok C" "wire_ok C" and p: "me_ProofParse C pf = Some p" and b: "\<forall>b \<in> set (mp_InnerNodes p). 0 < in_Height b"
    and N: "no_collision C (tree_node C ` subtrees T \<union> {tree_node C (MLeaf key val)}
      \<union> proof_nodes C (mhash C (MLeaf key val)) (mp_InnerNodes p))"
    and v: "VerifyKVPairProof C (mhash C T) (key, val) pf = Ok True"
  shows "(key, val) \<in> set (leaves T)"
proof (rule accepted_sound [OF C N _ _ _ b])
  show "foldl (InnerNodeProofHash C) (mhash C (MLeaf key val)) (mp_InnerNodes p) = mhash C T"
    using v p by (auto simp: VerifyKVPairProof_def ReadProof_def proof_Verify_def Let_def split: if_splits)
qed auto

definition sample_branch :: InnerNode where
  "sample_branch = \<lparr>in_LeftHash = mhash sample_mavl (MLeaf ''a'' ''1''), in_RightHash = [], in_Height = 1, in_Size = 2\<rparr>"

theorem proof_sound_witness:
  "VerifyKVPairProof sample_mavl (mhash sample_mavl tree1) (''b'', ''2'')
      (me_ProofBytes sample_mavl \<lparr>mp_LeafHash = [], mp_InnerNodes = [sample_branch], mp_RootHash = []\<rparr>) = Ok True
    \<and> (''b'', ''2'') \<in> set (leaves tree1)"
proof -
  let ?p = "\<lparr>mp_LeafHash = [], mp_InnerNodes = [sample_branch], mp_RootHash = []\<rparr>"
  let ?ns = "map (tree_node sample_mavl) [tree1, MLeaf ''a'' ''1'', MLeaf ''b'' ''2'']"
  have d: "distinct (map (\<lambda>i. me_Sha256 sample_mavl (me_InnerBytes sample_mavl i)) ?ns)" by code_simp
  have s: "subtrees tree1 = set [tree1, MLeaf ''a'' ''1'', MLeaf ''b'' ''2'']" by (auto simp: tree1_def)
  have "branch_node (mhash sample_mavl (MLeaf ''b'' ''2'')) sample_branch = tree_node sample_mavl tree1" by code_simp
  then have N: "no_collision sample_mavl (tree_node sample_mavl ` subtrees tree1 \<union> {tree_node sample_mavl (MLeaf ''b'' ''2'')}
      \<union> proof_nodes sample_mavl (mhash sample_mavl (MLeaf ''b'' ''2'')) (mp_InnerNodes ?p))"
    using d unfolding s no_collision_def distinct_map by (auto simp: inj_on_def)
  have v: "VerifyKVPairProof sample_mavl (mhash sample_mavl tree1) (''b'', ''2'') (me_ProofBytes sample_mavl ?p) = Ok True"
    by code_simp
  have p: "me_ProofParse sample_mavl (me_ProofBytes sample_mavl ?p) = Some ?p" by code_simp
  have h: "\<forall>b \<in> set (mp_InnerNodes ?p). 0 < in_Height b" by (simp add: sample_branch_def)
  show ?thesis using proof_sound [OF env_okD(3) [OF sample_env_ok] sample_wire_ok p h N v] v by blast
qed

text \<open>C35: without the condition on the heights the verification accepts pairs that are not in the tree:
  the messages of leaves and inner nodes have the same encoding, so a leaf whose value is the
  hash of some other leaf counts as an inner node with that leaf below it.  Whoever can write
  such a value under a key of 1 to 32 bytes can prove any binding; a longer key is cut to its last 32
  bytes when it is hashed as the left child of an inner node.\<close>

theorem forged_proof_accepted:
  assumes C: "env_ok C" "proof_codec_ok C" "wire_ok C" and d: "db_ok C U d" and h: "version C d (Some h) (Some T)"
    and x: "map_of (leaves T) x = Some (mhash C (MLeaf key val))" "x \<noteq> []" "length x \<le> 32"
  shows "\<exists>pf. VerifyKVPairProof C (last_bytes 32 h) (key, val) pf = Ok True"
proof -
  have "stored C False (kd_map d) h T" using h by (simp add: version_def)
  then have hh: "last_bytes 32 h = mhash C T" by (rule stored_hash)
  obtain bs where bs: "leads C x (mhash C (MLeaf key val)) bs T"
    using GetKVPairProof_version [OF C(1) d h, of None x] x(1) by auto
  let ?b = "\<lparr>in_LeftHash = x, in_RightHash = [], in_Height = 0, in_Size = 1\<rparr>"
  have "leads C key val (?b # bs) T"
    using bs leaf_as_branch [OF env_okD(3) [OF C(1)] C(3) x(2,3), of key val]
    by (simp add: leads_def int32_branch_def in_i32_def del: mhash.simps)
  from Verify_leads [OF env_okD(3) [OF C(1)] C(2) this] show ?thesis unfolding hh by blast
qed

definition bait :: mtree where
  "bait = MLeaf ''x'' (mhash sample_mavl (MLeaf ''k'' ''v''))"

theorem forged_proof_accepted_witness:
  "(''k'', ''v'') \<notin> set (leaves bait)
    \<and> (\<exists>pf. VerifyKVPairProof sample_mavl (last_bytes 32 (mhash sample_mavl bait)) (''k'', ''v'') pf = Ok True)"
proof -
  have U: "universe sample_mavl {bait}"
  proof -
    have "mhash sample_mavl bait \<noteq> emptyRoot" by code_simp
    then show ?thesis
      by (intro universeI [OF env_okD(3) [OF sample_env_ok]]) (simp_all add: bait_def mtree_ok_def ordered_def del: mhash.simps)
  qed
  have e: "db_ok sample_mavl {bait} empty_db" using U by (simp add: db_ok_def empty_db_def cache_ok_def db_node_def)
  have p: "m_put_all [(''x'', mhash sample_mavl (MLeaf ''k'' ''v''))] None = Some bait"
    by (simp add: m_put_all_def m_put_def bait_def)
  obtain h d where d: "grows sample_mavl {bait} empty_db d" "version sample_mavl d (Some (mhash sample_mavl bait)) (Some bait)"
    using SetKVPair_version [OF sample_env_ok e, of None None None "[(''x'', mhash sample_mavl (MLeaf ''k'' ''v''))]" 1] p
    by (auto simp: version_def plain_def)
  have x: "map_of (leaves bait) ''x'' = Some (mhash sample_mavl (MLeaf ''k'' ''v''))" by (simp add: bait_def)
  have "db_ok sample_mavl {bait} d" using d(1) by (simp add: grows_def)
  from forged_proof_accepted [OF sample_env_ok sample_proof_codec_ok sample_wire_ok this d(2) x]
  show ?thesis by (simp add: bait_def)
qed

section \<open>Range queries\<close>

text \<open>C36: a list query of mode 1 on a version returns the first keys of the range, as many as
  asked for, with their values, in the order of the keys, and the key that follows them.  The same
  query started at that next key returns the keys that come after, so that the pages of a range
  neither skip nor repeat a key.\<close>

theorem list_query_pages:
  assumes C: "env_ok C" and s: "store_ok C U s" and h: "version C (st_db s) (sl_StateHash req) R"
    and req: "sl_Mode req = 1" "sl_Count req = int m" "in_i64 (int m)"
    and xs: "xs = filter (\<lambda>p. in_range (sl_Start req) (sl_End req) False (fst p)) (bindings R)" "m < length xs"
  shows "\<exists>r r' s' s''. processMessage C balance (EventStoreList req) s = (Ok (ReplyList r), s')
    \<and> lr_Keys r = map fst (take m xs) \<and> lr_Values r = map snd (take m xs) \<and> lr_NextKey r = fst (xs ! m)
    \<and> processMessage C balance (EventStoreList (req\<lparr>sl_Start := Some (lr_NextKey r)\<rparr>)) s' = (Ok (ReplyList r'), s'')
    \<and> lr_Keys r' = map fst (take m (drop m xs)) \<and> lr_Values r' = map snd (take m (drop m xs))"
proof -
  let ?req = "req\<lparr>sl_Start := Some (fst (xs ! m))\<rparr>"
  have d: "db_ok C U (st_db s)" using s by (simp add: store_ok_def)
  have x: "in_bindings (sl_Start req) (sl_End req) (bindings R) = xs" using xs(1) by (simp add: in_bindings_def)
  have y: "in_bindings (sl_Start ?req) (sl_End ?req) (bindings R) = drop m xs"
    using in_bindings_next [OF ok_tree_sorted [OF version_ok_tree [OF d h]], of m "sl_Start req" "sl_End req"] xs(2) by (simp add: x)
  obtain r s' where r: "query_Run C req s = (Ok r, s')" "store_ok C U s'" "grows C U (st_db s) (st_db s')"
    "lr_Keys r = map fst (take m xs)" "lr_Values r = map snd (take m xs)" "lr_NextKey r = fst (xs ! m)"
    using query_Run_version [OF C s h req] xs(2) unfolding x by auto
  have h': "version C (st_db s') (sl_StateHash ?req) R" using r(3) h by (simp add: grows_def)
  obtain r' s'' where "query_Run C ?req s' = (Ok r', s'')" "lr_Keys r' = map fst (take m (drop m xs))"
    "lr_Values r' = map snd (take m (drop m xs))"
    using query_Run_version [OF C r(2) h', of m] req unfolding y by auto
  then show ?thesis using r by (auto simp: processMessage_def)
qed

theorem list_query_pages_witness:
  "\<exists>r r' s' s''. processMessage sample_mavl (\<lambda>_. None) (EventStoreList
        \<lparr>sl_StateHash = Some sample_root, sl_Start = None, sl_End = None, sl_Suffix = [], sl_Count = 1, sl_Mode = 1\<rparr>) sample_st
      = (Ok (ReplyList r), s') \<and> lr_Keys r = [''a''] \<and> lr_NextKey r = ''b''
    \<and> processMessage sample_mavl (\<lambda>_. None) (EventStoreList
        \<lparr>sl_StateHash = Some sample_root, sl_Start = Some (lr_NextKey r), sl_End = None, sl_Suffix = [], sl_Count = 1, sl_Mode = 1\<rparr>) s'
      = (Ok (ReplyList r'), s'') \<and> lr_Keys r' = [''b'']"
proof -
  let ?req = "\<lparr>sl_StateHash = Some sample_root, sl_Start = None, sl_End = None, sl_Suffix = [], sl_Count = 1, sl_Mode = 1\<rparr>"
  have x: "[(''a'', ''1''), (''b'', ''2'')] = filter (\<lambda>p. in_range (sl_Start ?req) (sl_End ?req) False (fst p)) (bindings (Some tree1))"
    by (simp add: tree1_def in_range_def)
  show ?thesis
    using list_query_pages [OF sample_env_ok sample_st_ok [THEN conjunct1], of ?req "Some tree1" 1, OF _ _ _ _ x, of "\<lambda>_. None"]
      sample_st_ok by (auto simp: in_i64_def)
qed

section \<open>Termination\<close>

text \<open>C37: reading, setting and removing a key of a tree return: the recursion along the path ends
  with a fuel of one more than the height field of the root, and any larger fuel gives the same
  result and state.\<close>

theorem recursion_terminates:
  assumes C: "arc_ok C" "cache_ok C m (w_db w)" and n: "repr C m (view w) n T" "mtree_ok T" "msize T + 1 < 2 ^ 31"
    and f: "nat (nheight n) < f"
  shows "(\<exists>x w'. nd_get C f key n w = (Ok x, w') \<and> nd_get C (node_fuel n) key n w = (Ok x, w'))
    \<and> (\<exists>x w'. nd_set C f key v n w = (Ok x, w') \<and> nd_set C (node_fuel n) key v n w = (Ok x, w'))
    \<and> (\<exists>x w'. nd_remove C f key n w = (Ok x, w') \<and> nd_remove C (node_fuel n) key n w = (Ok x, w'))"
proof -
  have o: "ordered T" "msize T < 2 ^ 31" using n(2,3) by (auto simp: mtree_ok_def)
  have ff: "f = node_fuel n + (f - node_fuel n)" using f by (simp add: node_fuel_def)
  note h = fuel_enough [OF n(1)]
  have "\<exists>x w'. nd_get C (node_fuel n) key n w = (Ok x, w')" "\<exists>x w'. nd_set C (node_fuel n) key v n w = (Ok x, w')"
    "\<exists>x w'. nd_remove C (node_fuel n) key n w = (Ok x, w')"
    using nd_get_repr [OF C n(1) o h, of key] runs_nd_set [OF C n(1,3) h, of key v] runs_nd_remove [OF C n(1) o(2) h, of key]
    by (auto simp: runs_def)
  then show ?thesis
    using nd_get_more [of C "node_fuel n" key n "f - node_fuel n"] nd_set_more [of C "node_fuel n" key v n "f - node_fuel n"]
      nd_remove_more [of C "node_fuel n" key n "f - node_fuel n"]
    unfolding agrees_def ff [symmetric] by blast
qed

theorem recursion_terminates_witness:
  "\<exists>w n x w'. t_root (w_tree w) = Some n \<and> repr sample_mavl False (view w) n tree1 \<and> nheight n = 1
    \<and> nd_get sample_mavl 100 ''b'' n w = (Ok x, w') \<and> nd_get sample_mavl (node_fuel n) ''b'' n w = (Ok x, w')"
proof -
  obtain w where w: "root_is sample_mavl False w (Some tree1)" "cache_ok sample_mavl False (w_db w)"
    using sample_world by blast
  then obtain n where n: "t_root (w_tree w) = Some n" "repr sample_mavl False (view w) n tree1" by (auto simp: root_is_def)
  have h: "nheight n = 1" using repr_dims [OF n(2)] by (simp add: tree1_def)
  have T: "mtree_ok tree1" "msize tree1 + 1 < 2 ^ 31" using tree1_ok by (simp_all add: ok_tree_def)
  have f: "nat (nheight n) < 100" using h by simp
  show ?thesis
    using recursion_terminates [OF env_okD(1) [OF sample_env_ok] w(2) n(2) T f, of "''b''" "[]"] n h by blast
qed

end
