(* ===== verification/Tx.thy ===== *)
theory Tx
  imports Exec_Account
begin

text \<open>
  Transactions and transaction groups, \<^verbatim>\<open>types/tx.go\<close>: hashes, fees, expiry, building a group
  and checking it. The wire format (protobuf), SHA-256, the address of a public key and the
  signature schemes are outside the model; they are the fields of \<open>tx_env\<close>.
\<close>

section \<open>Transactions\<close>

record Signature =
  sigTy :: int
  Pubkey :: bytes
  sigBytes :: bytes

record Transaction =
  Execer :: bytes
  Payload :: bytes
  TxSignature :: "Signature option"
  Fee :: int
  Expire :: int
  Nonce :: int
  To :: string
  GroupCount :: int
  Header :: "bytes option"
  Next :: "bytes option"

record tx_env =
  te_Encode :: "Transaction \<Rightarrow> bytes"
  te_Size :: "Transaction \<Rightarrow> int"
  te_EncodeTxs :: "Transaction list \<Rightarrow> bytes"
  te_DecodeTxs :: "bytes \<Rightarrow> Transaction list outcome"
  te_Sha256 :: "bytes \<Rightarrow> bytes"
  te_PubKeyToAddr :: "bytes \<Rightarrow> string"
  te_CheckSign :: "bytes \<Rightarrow> bytes \<Rightarrow> Signature \<Rightarrow> bool"

text \<open>What the code reads of the chain configuration.\<close>

record tx_cfg =
  tc_IsFork :: "int \<Rightarrow> string \<Rightarrow> bool"
  tc_TxHeight :: bool \<comment> \<open>\<^verbatim>\<open>cfg.IsEnable("TxHeight")\<close>\<close>
  tc_IsPara :: bool

definition MaxTxSize :: int where "MaxTxSize = 100000"
definition MaxTxGroupSize :: int where "MaxTxGroupSize = 20"
definition TxHeightFlag :: int where "TxHeightFlag = 2 ^ 62"
definition LowAllowPackHeight :: int where "LowAllowPackHeight = 30"
definition HighAllowPackHeight :: int where "HighAllowPackHeight = 90"
definition ExpireBound :: int where "ExpireBound = 1000000000"

text \<open>\<^verbatim>\<open>bytes.Equal\<close> does not distinguish nil from empty.\<close>

definition raw :: "bytes option \<Rightarrow> bytes" where
  "raw b = (case b of None \<Rightarrow> [] | Some x \<Rightarrow> x)"

definition tx_Hash :: "tx_env \<Rightarrow> Transaction \<Rightarrow> bytes" where
  "tx_Hash env tx = te_Sha256 env (te_Encode env (tx\<lparr>TxSignature := None, Header := None\<rparr>))"

definition HashSign :: "tx_env \<Rightarrow> Transaction \<Rightarrow> bytes" where
  "HashSign env tx = te_Sha256 env (te_Encode env (tx\<lparr>TxSignature := None\<rparr>))"

definition FullHash :: "tx_env \<Rightarrow> Transaction \<Rightarrow> bytes" where
  "FullHash env tx = te_Sha256 env (te_Encode env tx)"

definition tx_From :: "tx_env \<Rightarrow> Transaction \<Rightarrow> string" where
  "tx_From env tx =
     te_PubKeyToAddr env (case TxSignature tx of None \<Rightarrow> [] | Some s \<Rightarrow> Pubkey s)"

definition GetRealFee :: "tx_env \<Rightarrow> Transaction \<Rightarrow> int \<Rightarrow> int outcome" where
  "GetRealFee env tx minFee =
     (let txSize = te_Size env tx + (if TxSignature tx = None then 300 else 0) in
      if txSize > MaxTxSize then Fail ErrTxMsgSizeTooBig
      else Ok (i64 ((txSize div 1000 + 1) * minFee)))"

definition SetRealFee :: "tx_env \<Rightarrow> int \<Rightarrow> (Transaction, unit) op" where
  "SetRealFee env minFee tx =
     (if Fee tx = 0 then
        (case GetRealFee env tx minFee of
           Ok fee \<Rightarrow> (Ok (), tx\<lparr>Fee := fee\<rparr>) | Fail e \<Rightarrow> (Fail e, tx) | Panic \<Rightarrow> (Panic, tx))
      else (Ok (), tx))"

definition tx_check :: "tx_env \<Rightarrow> tx_cfg \<Rightarrow> Transaction \<Rightarrow> int \<Rightarrow> int \<Rightarrow> int \<Rightarrow> unit outcome" where
  "tx_check env cfg tx height minfee maxFee =
     (if minfee = 0 then Ok ()
      else case GetRealFee env tx minfee of
        Fail e \<Rightarrow> Fail e
      | Panic \<Rightarrow> Panic
      | Ok realFee \<Rightarrow>
          if Fee tx < realFee then Fail ErrTxFeeTooLow
          else if Fee tx > maxFee \<and> maxFee > 0 \<and> tc_IsFork cfg height ''ForkBlockCheck''
          then Fail ErrTxFeeTooHigh
          else Ok ())"

section \<open>Expiry\<close>

definition GetTxHeight :: "tx_cfg \<Rightarrow> int \<Rightarrow> int \<Rightarrow> int" where
  "GetTxHeight cfg valid height =
     (if tc_IsPara cfg then -1
      else if tc_TxHeight cfg \<and> tc_IsFork cfg height ''ForkTxHeight'' \<and> valid > TxHeightFlag
      then i64 (valid - TxHeightFlag)
      else -1)"

definition tx_isExpire :: "tx_cfg \<Rightarrow> Transaction \<Rightarrow> int \<Rightarrow> int \<Rightarrow> bool" where
  "tx_isExpire cfg tx height blocktime =
     (let valid = Expire tx in
      if valid = 0 then False
      else if valid \<le> ExpireBound then valid \<le> height
      else let txHeight = GetTxHeight cfg valid height in
        if txHeight > 0 then
          \<not> (i64 (txHeight - LowAllowPackHeight) \<le> height \<and> height \<le> i64 (txHeight + HighAllowPackHeight))
        else valid \<le> blocktime)"

text \<open>\<open>expire\<close> is a duration in nanoseconds; \<open>now\<close> is the clock in seconds.\<close>

definition tx_SetExpire :: "tx_cfg \<Rightarrow> int \<Rightarrow> int \<Rightarrow> Transaction \<Rightarrow> Transaction" where
  "tx_SetExpire cfg now expire tx =
     (if tc_TxHeight cfg \<and> expire > TxHeightFlag then tx\<lparr>Expire := expire\<rparr>
      else if expire > ExpireBound then
        (let expire1 = (if expire < 120 * 10 ^ 9 then 120 * 10 ^ 9 else expire) in
         tx\<lparr>Expire := i64 (now + expire1 div 10 ^ 9)\<rparr>)
      else tx\<lparr>Expire := expire\<rparr>)"

section \<open>Groups\<close>

definition GetTxGroup :: "tx_env \<Rightarrow> Transaction \<Rightarrow> Transaction list option outcome" where
  "GetTxGroup env tx =
     (if GroupCount tx < 0 \<or> GroupCount tx = 1 \<or> GroupCount tx > 20 then Fail ErrTxGroupCount
      else if GroupCount tx > 0 then
        (case te_DecodeTxs env (raw (Header tx)) of
           Ok txs \<Rightarrow> Ok (Some txs) | Fail e \<Rightarrow> Fail e | Panic \<Rightarrow> Panic)
      else if Next tx \<noteq> None \<or> Header tx \<noteq> None then Fail ErrNomalTx
      else Ok None)"

definition group_Tx :: "tx_env \<Rightarrow> Transaction list \<Rightarrow> Transaction option" where
  "group_Tx env txs =
     (if length txs < 2 then None else Some ((hd txs)\<lparr>Header := Some (te_EncodeTxs env txs)\<rparr>))"

definition group_IsExpire :: "tx_cfg \<Rightarrow> Transaction list \<Rightarrow> int \<Rightarrow> int \<Rightarrow> bool" where
  "group_IsExpire cfg txs height blocktime = list_ex (\<lambda>tx. tx_isExpire cfg tx height blocktime) txs"

definition tx_IsExpire :: "tx_env \<Rightarrow> tx_cfg \<Rightarrow> Transaction \<Rightarrow> int \<Rightarrow> int \<Rightarrow> bool" where
  "tx_IsExpire env cfg tx height blocktime =
     (case GetTxGroup env tx of
        Ok (Some txs) \<Rightarrow> group_IsExpire cfg txs height blocktime
      | _ \<Rightarrow> tx_isExpire cfg tx height blocktime)"

definition GetTxFee :: "tx_env \<Rightarrow> Transaction \<Rightarrow> int outcome" where
  "GetTxFee env tx =
     (case GetTxGroup env tx of
        Ok (Some []) \<Rightarrow> Panic
      | Ok (Some (t # ts)) \<Rightarrow> Ok (Fee t)
      | _ \<Rightarrow> Ok (Fee tx))"

definition tx_checkSign :: "tx_env \<Rightarrow> Transaction \<Rightarrow> bool" where
  "tx_checkSign env tx =
     (case TxSignature tx of
        None \<Rightarrow> False
      | Some s \<Rightarrow> te_CheckSign env (te_Encode env (tx\<lparr>TxSignature := None\<rparr>)) (Execer tx) s)"

definition group_CheckSign :: "tx_env \<Rightarrow> Transaction list \<Rightarrow> bool" where
  "group_CheckSign env txs = list_all (tx_checkSign env) txs"

text \<open>
  Building a group walks from the last transaction to the first. \<open>todo\<close> holds the
  transactions still to come, last one first, and \<open>built\<close> those already linked; the list of
  pointers after an error is what the walk has changed so far.
\<close>

fun create_loop ::
  "tx_env \<Rightarrow> int \<Rightarrow> int \<Rightarrow> bytes \<Rightarrow> int \<Rightarrow> int \<Rightarrow> Transaction list \<Rightarrow> Transaction list \<Rightarrow>
   bytes outcome \<times> Transaction list" where
  "create_loop env feeRate n header totalfee minfee [] built = (Ok header, built)"
| "create_loop env feeRate n header totalfee minfee (tx # todo) built =
     (let totalfee1 = i64 (totalfee + Fee tx);
          tx1 = tx\<lparr>GroupCount := n, Header := Some header, Fee := (if todo = [] then 2 ^ 62 else 0)\<rparr> in
      case GetRealFee env tx1 feeRate of
        Fail e \<Rightarrow> (Fail e, rev todo @ tx1 # built)
      | Panic \<Rightarrow> (Panic, rev todo @ tx1 # built)
      | Ok realfee \<Rightarrow>
          let minfee1 = i64 (minfee + realfee) in
          (case todo of
             [] \<Rightarrow>
               let tx2 = tx1\<lparr>Fee := (if totalfee1 < minfee1 then minfee1 else totalfee1)\<rparr> in
               (Ok (tx_Hash env tx2), tx2 # built)
           | prev # rest \<Rightarrow>
               create_loop env feeRate n header totalfee1 minfee1
                 (prev\<lparr>Next := Some (tx_Hash env tx1)\<rparr> # rest) (tx1 # built)))"

definition CreateTxGroup ::
  "tx_env \<Rightarrow> Transaction list \<Rightarrow> int \<Rightarrow> Transaction list outcome \<times> Transaction list" where
  "CreateTxGroup env txs feeRate =
     (if length txs < 2 then (Fail ErrTxGroupCountLessThanTwo, txs)
      else case create_loop env feeRate (i32 (int (length txs))) (tx_Hash env (hd txs)) 0 0 (rev txs) [] of
        (Ok header, txs') \<Rightarrow>
          let txs'' = map (\<lambda>tx. tx\<lparr>Header := Some header\<rparr>) txs' in (Ok txs'', txs'')
      | (Fail e, txs') \<Rightarrow> (Fail e, txs')
      | (Panic, txs') \<Rightarrow> (Panic, txs'))"

text \<open>The same walk without the fees.\<close>

fun rebuilt_loop :: "tx_env \<Rightarrow> bytes \<Rightarrow> Transaction list \<Rightarrow> Transaction list \<Rightarrow> bytes \<times> Transaction list" where
  "rebuilt_loop env header [] built = (header, built)"
| "rebuilt_loop env header (tx # todo) built =
     (let tx1 = tx\<lparr>Header := Some header\<rparr> in
      case todo of
        [] \<Rightarrow> (tx_Hash env tx1, tx1 # built)
      | prev # rest \<Rightarrow>
          rebuilt_loop env header (prev\<lparr>Next := Some (tx_Hash env tx1)\<rparr> # rest) (tx1 # built))"

definition RebuiltGroup :: "tx_env \<Rightarrow> (Transaction list, unit) op" where
  "RebuiltGroup env txs =
     (case txs of [] \<Rightarrow> (Panic, txs)
      | t # ts \<Rightarrow>
          (case rebuilt_loop env (tx_Hash env t) (rev txs) [] of
             (header, txs') \<Rightarrow> (Ok (), map (\<lambda>tx. tx\<lparr>Header := Some header\<rparr>) txs')))"

section \<open>Checking a group\<close>

definition GetParaExecTitleName :: "string \<Rightarrow> string option" where
  "GetParaExecTitleName exec =
     (if IsParaExecName exec then
        (let rest = drop 7 exec in
         if CHR ''.'' \<in> set rest then Some (''user.p.'' @ takeWhile (\<lambda>c. c \<noteq> CHR ''.'') rest @ ''.'')
         else None)
      else None)"

text \<open>The first loop: no entry may be nil, and the titles of parallel chains are collected.\<close>

fun scan_txs ::
  "tx_env \<Rightarrow> tx_cfg \<Rightarrow> int \<Rightarrow> int \<Rightarrow> Transaction option list \<Rightarrow> (Transaction list \<times> string list) outcome" where
  "scan_txs env cfg height maxFee [] = Ok ([], [])"
| "scan_txs env cfg height maxFee (None # ts) = Fail ErrTxGroupEmpty"
| "scan_txs env cfg height maxFee (Some tx # ts) =
     (case tx_check env cfg tx height 0 maxFee of
        Fail e \<Rightarrow> Fail e
      | Panic \<Rightarrow> Panic
      | Ok _ \<Rightarrow>
          (case scan_txs env cfg height maxFee ts of
             Ok (txs, para) \<Rightarrow>
               Ok (tx # txs, case GetParaExecTitleName (Execer tx) of None \<Rightarrow> para | Some t \<Rightarrow> t # para)
           | Fail e \<Rightarrow> Fail e
           | Panic \<Rightarrow> Panic))"

fun sum_fees :: "tx_env \<Rightarrow> int \<Rightarrow> int \<Rightarrow> Transaction list \<Rightarrow> int outcome" where
  "sum_fees env minfee acc [] = Ok acc"
| "sum_fees env minfee acc (tx # txs) =
     (case GetRealFee env tx minfee of
        Ok fee \<Rightarrow> sum_fees env minfee (i64 (acc + fee)) txs
      | Fail e \<Rightarrow> Fail e
      | Panic \<Rightarrow> Panic)"

text \<open>The last loop: the header hash, the group count and the link to the next transaction.\<close>

fun check_links :: "tx_env \<Rightarrow> int \<Rightarrow> Transaction \<Rightarrow> bool \<Rightarrow> Transaction list \<Rightarrow> unit outcome" where
  "check_links env n head first [] = Ok ()"
| "check_links env n head first (tx # txs) =
     (if first \<and> tx_Hash env tx \<noteq> raw (Header tx) then Fail ErrTxGroupHeader
      else if \<not> first \<and> raw (Header head) \<noteq> raw (Header tx) then Fail ErrTxGroupHeader
      else if GroupCount tx > MaxTxGroupSize then Fail ErrTxGroupCountBigThanMaxSize
      else if GroupCount tx \<noteq> n then Fail ErrTxGroupCount
      else case txs of
          t # ts \<Rightarrow>
            if raw (Next tx) \<noteq> tx_Hash env t then Fail ErrTxGroupNext
            else check_links env n head False txs
        | [] \<Rightarrow> if Next tx \<noteq> None then Fail ErrTxGroupNext else Ok ())"

declare check_links.simps(2) [simp del]

definition CheckWithFork ::
  "tx_env \<Rightarrow> tx_cfg \<Rightarrow> Transaction option list \<Rightarrow> bool \<Rightarrow> bool \<Rightarrow> int \<Rightarrow> int \<Rightarrow> int \<Rightarrow> unit outcome" where
  "CheckWithFork env cfg txgroup checkFork paraFork height minfee maxFee =
     (if length txgroup < 2 then Fail ErrTxGroupCountLessThanTwo
      else case scan_txs env cfg height maxFee txgroup of
        Fail e \<Rightarrow> Fail e
      | Panic \<Rightarrow> Panic
      | Ok (txs, para) \<Rightarrow>
          if paraFork \<and> length (remdups para) > 1 then Fail ErrTxGroupParaCount
          else if paraFork \<and> length (remdups para) > 0 \<and> list_ex (\<lambda>tx. \<not> IsParaExecName (Execer tx)) txs
          then Fail ErrTxGroupParaMainMixed
          else if list_ex (\<lambda>tx. Fee tx \<noteq> 0) (tl txs) then Fail ErrTxGroupFeeNotZero
          else case sum_fees env minfee 0 txs of
            Fail e \<Rightarrow> Fail e
          | Panic \<Rightarrow> Panic
          | Ok totalfee \<Rightarrow>
              if Fee (hd txs) < totalfee then Fail ErrTxFeeTooLow
              else if Fee (hd txs) > maxFee \<and> maxFee > 0 \<and> checkFork then Fail ErrTxFeeTooHigh
              else check_links env (i32 (int (length txs))) (hd txs) True txs)"

definition group_Check ::
  "tx_env \<Rightarrow> tx_cfg \<Rightarrow> Transaction option list \<Rightarrow> int \<Rightarrow> int \<Rightarrow> int \<Rightarrow> unit outcome" where
  "group_Check env cfg txgroup height minfee maxFee =
     CheckWithFork env cfg txgroup (tc_IsFork cfg height ''ForkBlockCheck'')
       (tc_IsFork cfg height ''ForkTxGroupPara'') height minfee maxFee"

definition tx_Check :: "tx_env \<Rightarrow> tx_cfg \<Rightarrow> Transaction \<Rightarrow> int \<Rightarrow> int \<Rightarrow> int \<Rightarrow> unit outcome" where
  "tx_Check env cfg tx height minfee maxFee =
     (case GetTxGroup env tx of
        Fail e \<Rightarrow> Fail e
      | Panic \<Rightarrow> Panic
      | Ok None \<Rightarrow> tx_check env cfg tx height minfee maxFee
      | Ok (Some txs) \<Rightarrow> group_Check env cfg (map Some txs) height minfee maxFee)"

section \<open>A group commits to its transactions\<close>

lemma tx_Hash_fields [simp]:
  "tx_Hash env (tx\<lparr>Header := h\<rparr>) = tx_Hash env tx"
  "tx_Hash env (tx\<lparr>TxSignature := s\<rparr>) = tx_Hash env tx"
  by (simp_all add: tx_Hash_def)

text \<open>What the hash leaves out.\<close>

definition unsigned :: "Transaction \<Rightarrow> Transaction" where
  "unsigned tx = tx\<lparr>TxSignature := None, Header := None\<rparr>"

lemma unsigned_Next: "unsigned t = unsigned u \<Longrightarrow> Next t = Next u"
  by (metis Transaction.select_convs(10) Transaction.surjective Transaction.update_convs(3,9) unsigned_def)

lemma check_links_next:
  "check_links env n head first (tx # t # ts) = Ok () \<Longrightarrow>
   raw (Next tx) = tx_Hash env t \<and> check_links env n head False (t # ts) = Ok ()"
  by (subst (asm) check_links.simps(2)) (auto split: if_splits)

lemma check_links_last: "check_links env n head first [tx] = Ok () \<Longrightarrow> Next tx = None"
  by (auto simp: check_links.simps(2) split: if_splits)

lemma check_links_commit:
  assumes "check_links env n head first ts = Ok ()" and "check_links env m head' first' us = Ok ()"
    and "ts \<noteq> []" and "us \<noteq> []" and "unsigned (hd ts) = unsigned (hd us)"
    and "\<And>t u. t \<in> set ts \<Longrightarrow> u \<in> set us \<Longrightarrow> tx_Hash env t = tx_Hash env u \<Longrightarrow> unsigned t = unsigned u"
    and sha: "\<And>x. te_Sha256 env x \<noteq> []"
  shows "map unsigned ts = map unsigned us"
  using assms(1-6)
proof (induction ts arbitrary: us first first')
  case (Cons t ts)
  obtain u us' where us: "us = u # us'" using Cons.prems(4) by (meson neq_Nil_conv)
  have head: "unsigned t = unsigned u" and nxt: "Next t = Next u"
    using Cons.prems(5) unsigned_Next [of t u] by (simp_all add: us)
  have hash: "tx_Hash env x \<noteq> []" for x using sha by (simp add: tx_Hash_def)
  show ?case
  proof (cases ts)
    case Nil
    then have "Next u = None" using Cons.prems(1) nxt check_links_last by metis
    moreover have "raw (Next u) \<noteq> []" if "us' = v # vs" for v vs
      using check_links_next [of env m head' first' u v vs] Cons.prems(2) hash that by (simp add: us)
    ultimately have "us' = []" by (cases us') (auto simp: raw_def)
    then show ?thesis by (simp add: Nil us head)
  next
    case (Cons t' ts')
    have t': "raw (Next t) = tx_Hash env t'" "check_links env n head False ts = Ok ()"
      using check_links_next [of env n head first t t' ts'] Cons.prems(1) Cons by simp_all
    have "Next u \<noteq> None"
      using t'(1) nxt hash [of t'] by (cases "Next u") (simp_all add: raw_def)
    then have "us' \<noteq> []"
      using check_links_last [of env m head' first' u] Cons.prems(2) by (auto simp: us)
    then obtain u' us'' where u: "us' = u' # us''" by (meson neq_Nil_conv)
    have u': "raw (Next u) = tx_Hash env u'" "check_links env m head' False us' = Ok ()"
      using check_links_next [of env m head' first' u u' us''] Cons.prems(2) by (simp_all add: us u)
    have "unsigned t' = unsigned u'"
      using Cons.prems(6) [of t' u'] t' u' nxt by (simp add: Cons us u)
    then have "map unsigned ts = map unsigned us'"
      using Cons.prems(6) by (intro Cons.IH [OF t'(2) u'(2)]) (simp_all add: Cons us u)
    with head show ?thesis by (simp add: us)
  qed
qed simp

lemma scan_txs_some:
  "scan_txs env cfg height maxFee (map Some txs) =
   Ok (txs, List.map_filter (\<lambda>tx. GetParaExecTitleName (Execer tx)) txs)"
  by (induction txs) (simp_all add: tx_check_def List.map_filter_simps split: option.splits)

lemma CheckWithFork_links:
  assumes "CheckWithFork env cfg (map Some txs) checkFork paraFork height minfee maxFee = Ok ()"
  shows "check_links env (i32 (int (length txs))) (hd txs) True txs = Ok ()" and "2 \<le> length txs"
  using assms by (auto simp: CheckWithFork_def scan_txs_some split: if_splits outcome.splits)

lemma check_links_header:
  "check_links env n head True (t # ts) = Ok () \<Longrightarrow> raw (Header t) = tx_Hash env t"
  by (subst (asm) check_links.simps(2)) (auto split: if_splits)

text \<open>
  C9: The header hash of a transaction group commits to the whole group. If two groups both pass
  the group check and their first transactions carry the same header hash, then they are the
  same transactions in the same order, up to signatures and the header field itself: nobody can
  drop, add, reorder or change a transaction of a group that still checks, short of a collision
  of the transaction hash among the transactions of the two groups.
\<close>
theorem group_header_commits:
  assumes "CheckWithFork env cfg (map Some txs) cf pf height minfee maxFee = Ok ()"
    and "CheckWithFork env cfg (map Some txs') cf' pf' height' minfee' maxFee' = Ok ()"
    and "raw (Header (hd txs)) = raw (Header (hd txs'))"
    and "\<forall>t\<in>set txs. \<forall>u\<in>set txs'. tx_Hash env t = tx_Hash env u \<longrightarrow> unsigned t = unsigned u"
    and "\<forall>x. te_Sha256 env x \<noteq> []"
  shows "map unsigned txs = map unsigned txs'"
proof -
  note l = CheckWithFork_links [OF assms(1)] and l' = CheckWithFork_links [OF assms(2)]
  have ne: "txs \<noteq> []" "txs' \<noteq> []" using l(2) l'(2) by auto
  then have "tx_Hash env (hd txs) = tx_Hash env (hd txs')"
    using check_links_header l(1) l'(1) assms(3) by (metis list.exhaust_sel)
  then have "unsigned (hd txs) = unsigned (hd txs')"
    using assms(4) ne by simp
  then show ?thesis
    by (rule check_links_commit [OF l(1) l'(1) ne]) (use assms(4,5) in auto)
qed

section \<open>A created group passes the check\<close>

text \<open>
  What the fee computation relies on in the wire format: sizes are not negative, the size
  depends on the header field only through its length, and a fee of $2^{62}$ takes at least as
  much room as any smaller one. Hashes have a fixed length.
\<close>

definition env_ok :: "tx_env \<Rightarrow> bool" where
  "env_ok env \<longleftrightarrow>
     (\<forall>tx. 0 \<le> te_Size env tx) \<and>
     (\<forall>tx h h'. length h = length h' \<longrightarrow>
        te_Size env (tx\<lparr>Header := Some h\<rparr>) = te_Size env (tx\<lparr>Header := Some h'\<rparr>)) \<and>
     (\<forall>tx f. 0 \<le> f \<longrightarrow> f \<le> 2 ^ 62 \<longrightarrow>
        te_Size env (tx\<lparr>Fee := f\<rparr>) \<le> te_Size env (tx\<lparr>Fee := 2 ^ 62\<rparr>)) \<and>
     (\<forall>x y. length (te_Sha256 env x) = length (te_Sha256 env y))"

definition charged :: "tx_env \<Rightarrow> Transaction \<Rightarrow> int" where
  "charged env tx = te_Size env tx + (if TxSignature tx = None then 300 else 0)"

definition real_fee :: "tx_env \<Rightarrow> int \<Rightarrow> Transaction \<Rightarrow> int" where
  "real_fee env rate tx = (charged env tx div 1000 + 1) * rate"

lemma real_fee_bounds:
  assumes "env_ok env" and "0 \<le> rate" and "charged env tx \<le> MaxTxSize"
  shows "0 \<le> real_fee env rate tx" and "real_fee env rate tx \<le> 101 * rate"
proof -
  have "0 \<le> charged env tx" using assms(1) by (auto simp: env_ok_def charged_def)
  then have "0 \<le> charged env tx div 1000 + 1" "charged env tx div 1000 + 1 \<le> 101"
    using assms(3) zdiv_mono1 [of "charged env tx" 100000 1000]
    by (simp_all add: MaxTxSize_def pos_imp_zdiv_nonneg_iff add_nonneg_nonneg)
  then show "0 \<le> real_fee env rate tx" and "real_fee env rate tx \<le> 101 * rate"
    using assms(2) by (simp_all add: real_fee_def mult_right_mono)
qed

lemma GetRealFee_real_fee:
  assumes "env_ok env" and "0 \<le> rate" and "2020 * rate \<le> 2 ^ 62"
  shows "GetRealFee env tx rate =
    (if charged env tx \<le> MaxTxSize then Ok (real_fee env rate tx) else Fail ErrTxMsgSizeTooBig)"
proof -
  have "in_i64 (real_fee env rate tx)" if "charged env tx \<le> MaxTxSize"
    using real_fee_bounds [OF assms(1,2) that] assms(3) by (simp add: in_i64_def)
  then show ?thesis
    by (simp add: GetRealFee_def charged_def [symmetric] real_fee_def [symmetric] Let_def)
qed

lemma sum_fees_real_fee:
  assumes env: "env_ok env" "0 \<le> rate" "2020 * rate \<le> 2 ^ 62"
    and "\<forall>t\<in>set ts. charged env t \<le> MaxTxSize"
    and "0 \<le> acc" and "acc \<le> 101 * rate * int k" and "k + length ts \<le> 20"
  shows "sum_fees env rate acc ts = Ok (acc + sum_list (map (real_fee env rate) ts))"
  using assms(4-)
proof (induction ts arbitrary: acc k)
  case (Cons t ts)
  have b: "0 \<le> real_fee env rate t" "real_fee env rate t \<le> 101 * rate"
    using real_fee_bounds [OF env(1,2)] Cons.prems(1) by simp_all
  have "101 * rate * int (Suc k) = 101 * rate * int k + 101 * rate"
    by (simp add: distrib_left)
  then have le: "acc + real_fee env rate t \<le> 101 * rate * int (Suc k)"
    using b(2) Cons.prems(3) by linarith
  also have "101 * rate * int (Suc k) \<le> 101 * rate * 20"
    by (rule mult_left_mono) (use Cons.prems(4) env(2) in auto)
  finally have up: "acc + real_fee env rate t \<le> 2 ^ 62"
    using env(3) by linarith
  have lo: "0 \<le> acc + real_fee env rate t"
    using b(1) Cons.prems(2) by linarith
  have "in_i64 (acc + real_fee env rate t)"
    unfolding in_i64_def using up lo by simp
  then have "sum_fees env rate acc (t # ts) = sum_fees env rate (acc + real_fee env rate t) ts"
    using Cons.prems(1) by (simp add: GetRealFee_real_fee [OF env])
  also have "\<dots> = Ok (acc + real_fee env rate t + sum_list (map (real_fee env rate) ts))"
    by (rule Cons.IH [OF _ _ le]) (use Cons.prems b in simp_all)
  finally show ?case by (simp add: add.assoc)
qed simp

text \<open>The shape of a linked list of transactions.\<close>

fun linked :: "tx_env \<Rightarrow> Transaction list \<Rightarrow> bool" where
  "linked env [] = True"
| "linked env [t] = (Next t = None)"
| "linked env (t # u # us) = (Next t = Some (tx_Hash env u) \<and> linked env (u # us))"

lemma linked_check:
  assumes "linked env ts" and "\<forall>t\<in>set ts. GroupCount t = n \<and> Header t = Some h" and "n \<le> 20"
    and "raw (Header head) = h" and "first \<Longrightarrow> ts \<noteq> [] \<Longrightarrow> tx_Hash env (hd ts) = h"
  shows "check_links env n head first ts = Ok ()"
  using assms
proof (induction env ts arbitrary: first rule: linked.induct)
  case (3 env t u us)
  have "check_links env n head False (u # us) = Ok ()"
    using "3.IH" [of False] "3.prems" by simp
  then show ?case
    using "3.prems" by (subst check_links.simps(2)) (simp add: raw_def MaxTxGroupSize_def)
qed (auto simp: raw_def MaxTxGroupSize_def check_links.simps(2))

lemma linked_header:
  "linked env (map (\<lambda>tx. tx\<lparr>Header := h\<rparr>) ts) = linked env ts"
  by (induction env ts rule: linked.induct) simp_all

lemma env_ok_size:
  assumes "env_ok env"
  shows "length h = length h' \<Longrightarrow>
      te_Size env (tx\<lparr>Header := Some h\<rparr>) = te_Size env (tx\<lparr>Header := Some h'\<rparr>)"
    and "0 \<le> f \<Longrightarrow> f \<le> 2 ^ 62 \<Longrightarrow> te_Size env (tx\<lparr>Fee := f\<rparr>) \<le> te_Size env (tx\<lparr>Fee := 2 ^ 62\<rparr>)"
    and "length (te_Sha256 env x) = length (te_Sha256 env y)"
  using assms unfolding env_ok_def by blast+

lemma charged_fields:
  assumes "env_ok env"
  shows "length h = length h' \<Longrightarrow>
      charged env (tx\<lparr>Header := Some h\<rparr>) = charged env (tx\<lparr>Header := Some h'\<rparr>)"
    and "0 \<le> f \<Longrightarrow> f \<le> 2 ^ 62 \<Longrightarrow> charged env (tx\<lparr>Fee := f\<rparr>) \<le> charged env (tx\<lparr>Fee := 2 ^ 62\<rparr>)"
proof -
  show "charged env (tx\<lparr>Header := Some h\<rparr>) = charged env (tx\<lparr>Header := Some h'\<rparr>)"
    if "length h = length h'"
    using env_ok_size(1) [OF assms that, of tx] by (simp add: charged_def)
  show "charged env (tx\<lparr>Fee := f\<rparr>) \<le> charged env (tx\<lparr>Fee := 2 ^ 62\<rparr>)"
    if "0 \<le> f" "f \<le> 2 ^ 62"
    using env_ok_size(2) [OF assms that, of tx] by (simp add: charged_def)
qed

text \<open>
  The state of the walk: what is built is linked and carries the group count, the header and
  no fee; the next transaction to come already points to it; the minimal fee so far is the sum
  of what is built.
\<close>

definition walk_inv ::
  "tx_env \<Rightarrow> int \<Rightarrow> int \<Rightarrow> bytes \<Rightarrow> int \<Rightarrow> int \<Rightarrow> Transaction list \<Rightarrow> Transaction list \<Rightarrow> bool" where
  "walk_inv env rate n h tot minfee todo built \<longleftrightarrow>
     todo \<noteq> [] \<and> linked env built \<and>
     Next (hd todo) = (case built of [] \<Rightarrow> None | t # ts \<Rightarrow> Some (tx_Hash env t)) \<and>
     (\<forall>t\<in>set built. GroupCount t = n \<and> Header t = Some h \<and> Fee t = 0 \<and> charged env t \<le> MaxTxSize) \<and>
     minfee = sum_list (map (real_fee env rate) built) \<and>
     0 \<le> tot \<and> (\<forall>t\<in>set todo. 0 \<le> Fee t) \<and> tot + sum_list (map Fee todo) \<le> 2 ^ 62 \<and>
     length todo + length built \<le> 20"

lemma sum_real_fee_bound:
  assumes "env_ok env" "0 \<le> rate" and "\<forall>t\<in>set ts. charged env t \<le> MaxTxSize" and "length ts \<le> 20"
  shows "0 \<le> sum_list (map (real_fee env rate) ts)" and "sum_list (map (real_fee env rate) ts) \<le> 2020 * rate"
proof -
  have *: "0 \<le> sum_list (map (real_fee env rate) ts) \<and>
      sum_list (map (real_fee env rate) ts) \<le> int (length ts) * (101 * rate)"
    using assms(3)
  proof (induction ts)
    case (Cons t ts)
    then show ?case
      using real_fee_bounds [OF assms(1,2), of t] by (simp add: distrib_right)
  qed simp
  have "int (length ts) * (101 * rate) \<le> 20 * (101 * rate)"
    by (rule mult_right_mono) (use assms in auto)
  with * show "0 \<le> sum_list (map (real_fee env rate) ts)" and "sum_list (map (real_fee env rate) ts) \<le> 2020 * rate"
    by linarith+
qed

text \<open>One transaction that is not the first.\<close>

lemma walk_step:
  assumes env: "env_ok env" "0 \<le> rate" "2020 * rate \<le> 2 ^ 62"
    and inv: "walk_inv env rate n h tot minfee (tx # prev # rest) built"
    and tx1: "tx1 = tx\<lparr>GroupCount := n, Header := Some h, Fee := 0\<rparr>"
    and fits: "charged env tx1 \<le> MaxTxSize"
  shows "walk_inv env rate n h (i64 (tot + Fee tx)) (i64 (minfee + real_fee env rate tx1))
    (prev\<lparr>Next := Some (tx_Hash env tx1)\<rparr> # rest) (tx1 # built)"
proof -
  let ?built = "tx1 # built"
  have b: "\<forall>t\<in>set ?built. charged env t \<le> MaxTxSize" "length ?built \<le> 20"
    using inv fits by (auto simp: walk_inv_def)
  note sb = sum_real_fee_bound [OF env(1,2) b]
  have "minfee + real_fee env rate tx1 = sum_list (map (real_fee env rate) ?built)"
    using inv by (simp add: walk_inv_def)
  then have m: "i64 (minfee + real_fee env rate tx1) = sum_list (map (real_fee env rate) ?built)"
    using sb env(3) by (simp add: in_i64_def)
  have "0 \<le> sum_list (map Fee rest)"
    using inv by (intro sum_list_nonneg) (auto simp: walk_inv_def)
  then have t: "i64 (tot + Fee tx) = tot + Fee tx" "0 \<le> tot + Fee tx"
    using inv by (auto simp: walk_inv_def in_i64_def)
  have "linked env ?built"
    using inv by (cases built) (auto simp: walk_inv_def tx1)
  then show ?thesis
    using inv m t fits by (auto simp: walk_inv_def tx1)
qed

text \<open>The fee of the first transaction covers the minimal fees of all.\<close>

lemma head_fee:
  assumes env: "env_ok env" "0 \<le> rate" "2020 * rate \<le> 2 ^ 62"
    and inv: "walk_inv env rate n h tot minfee [tx] built"
    and tx1: "tx1 = tx\<lparr>GroupCount := n, Header := Some h, Fee := 2 ^ 62\<rparr>"
    and fits: "charged env tx1 \<le> MaxTxSize"
  defines "m \<equiv> i64 (minfee + real_fee env rate tx1)" and "t \<equiv> i64 (tot + Fee tx)"
  shows "0 \<le> (if t < m then m else t)" and "(if t < m then m else t) \<le> 2 ^ 62"
    and "real_fee env rate tx1 + sum_list (map (real_fee env rate) built) \<le> (if t < m then m else t)"
proof -
  let ?built = "tx1 # built"
  have b: "\<forall>t\<in>set ?built. charged env t \<le> MaxTxSize" "length ?built \<le> 20"
    using inv fits by (auto simp: walk_inv_def)
  note sb = sum_real_fee_bound [OF env(1,2) b]
  have "minfee + real_fee env rate tx1 = sum_list (map (real_fee env rate) ?built)"
    using inv by (simp add: walk_inv_def)
  then have m: "m = sum_list (map (real_fee env rate) ?built)"
    using sb env(3) by (simp add: m_def in_i64_def)
  have t: "t = tot + Fee tx" "0 \<le> t" "t \<le> 2 ^ 62"
    using inv by (auto simp: t_def walk_inv_def in_i64_def)
  show "0 \<le> (if t < m then m else t)" "(if t < m then m else t) \<le> 2 ^ 62"
    "real_fee env rate tx1 + sum_list (map (real_fee env rate) built) \<le> (if t < m then m else t)"
    using m t sb env(3) by auto
qed

lemma create_loop_result:
  assumes env: "env_ok env" "0 \<le> rate" "2020 * rate \<le> 2 ^ 62"
    and "walk_inv env rate n h tot minfee todo built"
    and "create_loop env rate n h tot minfee todo built = (Ok H, res)"
  shows "\<exists>t ts. res = t # ts \<and> H = tx_Hash env t \<and> linked env res \<and>
    (\<forall>u\<in>set res. GroupCount u = n \<and> Header u = Some h) \<and> (\<forall>u\<in>set ts. Fee u = 0) \<and>
    (\<forall>u\<in>set res. charged env u \<le> MaxTxSize) \<and> length res = length todo + length built \<and>
    sum_list (map (real_fee env rate) res) \<le> Fee t"
  using assms(4,5)
proof (induction todo arbitrary: tot minfee built rule: length_induct)
  case (1 todo)
  obtain tx rest where todo: "todo = tx # rest"
    using 1(2) by (cases todo) (auto simp: walk_inv_def)
  show ?case
  proof (cases rest)
    case (Cons prev rest')
    let ?tx1 = "tx\<lparr>GroupCount := n, Header := Some h, Fee := 0\<rparr>"
    have fits: "charged env ?tx1 \<le> MaxTxSize"
      using 1(3) by (auto simp: todo Cons GetRealFee_real_fee [OF env] Let_def split: if_splits)
    have inv': "walk_inv env rate n h (i64 (tot + Fee tx)) (i64 (minfee + real_fee env rate ?tx1))
        (prev\<lparr>Next := Some (tx_Hash env ?tx1)\<rparr> # rest') (?tx1 # built)"
      using walk_step [OF env 1(2) [unfolded todo Cons] refl fits] .
    have run': "create_loop env rate n h (i64 (tot + Fee tx)) (i64 (minfee + real_fee env rate ?tx1))
        (prev\<lparr>Next := Some (tx_Hash env ?tx1)\<rparr> # rest') (?tx1 # built) = (Ok H, res)"
      using 1(3) fits by (simp add: todo Cons GetRealFee_real_fee [OF env] Let_def)
    show ?thesis
      using 1(1) [rule_format, OF _ inv' run'] by (simp add: todo Cons)
  next
    case Nil
    let ?tx1 = "tx\<lparr>GroupCount := n, Header := Some h, Fee := 2 ^ 62\<rparr>"
    let ?m = "i64 (minfee + real_fee env rate ?tx1)" and ?t = "i64 (tot + Fee tx)"
    let ?F = "if ?t < ?m then ?m else ?t"
    let ?tx2 = "?tx1\<lparr>Fee := ?F\<rparr>"
    have fits: "charged env ?tx1 \<le> MaxTxSize"
      using 1(3) by (auto simp: todo Nil GetRealFee_real_fee [OF env] Let_def split: if_splits)
    have res: "res = ?tx2 # built" "H = tx_Hash env ?tx2"
      using 1(3) fits by (auto simp: todo Nil GetRealFee_real_fee [OF env] Let_def)
    note F = head_fee [OF env 1(2) [unfolded todo Nil] refl fits]
    have c2: "charged env ?tx2 \<le> charged env ?tx1"
      using charged_fields(2) [OF env(1) F(1,2), of "tx\<lparr>GroupCount := n, Header := Some h\<rparr>"] by simp
    have "linked env (?tx2 # built)"
      using 1(2) by (cases built) (auto simp: walk_inv_def todo Nil)
    moreover have "real_fee env rate ?tx2 \<le> real_fee env rate ?tx1"
      using zdiv_mono1 [OF c2, of 1000] env(2) by (simp add: real_fee_def mult_right_mono)
    ultimately show ?thesis
      using 1(2) c2 fits F(3) by (auto simp: res walk_inv_def todo Nil)
  qed
qed

text \<open>The walk leaves the executors of the transactions alone.\<close>

lemma create_loop_Execer:
  "create_loop env rate n h tot minfee todo built = (Ok H, res) \<Longrightarrow>
   map Execer res = rev (map Execer todo) @ map Execer built"
  by (induction env rate n h tot minfee todo built rule: create_loop.induct)
    (auto simp: Let_def split: outcome.splits list.splits if_splits)

lemma CreateTxGroup_Ok:
  assumes "CreateTxGroup env txs rate = (Ok grp, txs')"
  obtains H res where "2 \<le> length txs"
    and "create_loop env rate (i32 (int (length txs))) (tx_Hash env (hd txs)) 0 0 (rev txs) [] = (Ok H, res)"
    and "grp = map (\<lambda>tx. tx\<lparr>Header := Some H\<rparr>) res"
  using assms by (auto simp: CreateTxGroup_def Let_def split: if_splits prod.splits outcome.splits)

lemma map_filter_None: "(\<And>x. x \<in> set xs \<Longrightarrow> f x = None) \<Longrightarrow> List.map_filter f xs = []"
  by (induction xs) (simp_all add: List.map_filter_simps)

text \<open>
  C10: A group that the group builder returns passes the group check at the same fee rate, on the
  main chain or with the parallel-chain rules on, whatever the height: the links, the header, the
  group count and the fee of the first transaction are what the check asks for. The inputs are
  those the builder is meant for: at most twenty transactions whose fees are not negative and
  whose sums stay within 64 bits, the last one not linked to a further one, no fee cap, no
  transaction of a parallel chain when the rules for them apply. The last condition on links is
  needed: the builder does not reset the link of the last transaction.
\<close>
theorem created_group_checks:
  assumes env: "env_ok env" "0 \<le> rate" "2020 * rate \<le> 2 ^ 62"
    and size: "length txs \<le> 20" and fees: "\<forall>t\<in>set txs. 0 \<le> Fee t" "sum_list (map Fee txs) \<le> 2 ^ 62"
    and last: "Next (last txs) = None"
    and created: "CreateTxGroup env txs rate = (Ok grp, txs')"
    and para: "pf \<longrightarrow> (\<forall>t\<in>set txs. \<not> IsParaExecName (Execer t))"
    and cap: "cf \<longrightarrow> maxFee \<le> 0"
  shows "CheckWithFork env cfg (map Some grp) cf pf height rate maxFee = Ok ()"
proof -
  obtain H res where two: "2 \<le> length txs" and grp: "grp = map (\<lambda>tx. tx\<lparr>Header := Some H\<rparr>) res"
    and run: "create_loop env rate (i32 (int (length txs))) (tx_Hash env (hd txs)) 0 0 (rev txs) [] = (Ok H, res)"
    by (rule CreateTxGroup_Ok [OF created])
  let ?h = "tx_Hash env (hd txs)"
  have n: "i32 (int (length txs)) = int (length txs)" using size by (simp add: in_i32_def)
  have inv: "walk_inv env rate (int (length txs)) ?h 0 0 (rev txs) []"
    using two size fees last by (auto simp: walk_inv_def hd_rev rev_map [symmetric])
  from create_loop_result [OF env inv run [unfolded n]]
  obtain t ts where res: "res = t # ts" "H = tx_Hash env t" "linked env res"
    "\<forall>u\<in>set res. GroupCount u = int (length txs) \<and> Header u = Some ?h" "\<forall>u\<in>set ts. Fee u = 0"
    "\<forall>u\<in>set res. charged env u \<le> MaxTxSize" "length res = length txs"
    "sum_list (map (real_fee env rate) res) \<le> Fee t" by auto
  have "charged env (u\<lparr>Header := Some H\<rparr>) = charged env u" if "u \<in> set res" for u
  proof -
    have "length H = length ?h" using env_ok_size(3) [OF env(1)] by (simp add: res(2) tx_Hash_def)
    then have "charged env (u\<lparr>Header := Some H\<rparr>) = charged env (u\<lparr>Header := Some ?h\<rparr>)"
      by (rule charged_fields(1) [OF env(1)])
    also have "u\<lparr>Header := Some ?h\<rparr> = u" using res(4) that by simp
    finally show ?thesis .
  qed
  then have fee: "map (real_fee env rate) grp = map (real_fee env rate) res"
    and fits: "\<forall>u\<in>set grp. charged env u \<le> MaxTxSize"
    using res(6) by (simp_all add: grp real_fee_def)
  have "sum_fees env rate 0 grp = Ok (0 + sum_list (map (real_fee env rate) grp))"
    by (rule sum_fees_real_fee [OF env fits, where k = 0]) (use size res(7) in \<open>auto simp: grp\<close>)
  moreover have "linked env grp" using res(3) by (simp add: grp linked_header)
  then have "check_links env (int (length txs)) (hd grp) True grp = Ok ()"
    by (rule linked_check [where h = H]) (use res size in \<open>auto simp: grp raw_def\<close>)
  moreover have "map Execer grp = map Execer txs"
    using create_loop_Execer [OF run] by (simp add: grp rev_map comp_def)
  then have "Execer ` set grp = Execer ` set txs" by (metis list.set_map)
  then have "pf \<longrightarrow> List.map_filter (\<lambda>tx. GetParaExecTitleName (Execer tx)) grp = []"
    using para by (auto intro!: map_filter_None simp: GetParaExecTitleName_def) (metis imageE image_eqI)
  moreover have "length grp = length txs" "Fee (hd grp) = Fee t" "\<not> list_ex (\<lambda>tx. Fee tx \<noteq> 0) (tl grp)"
    using res(1,5,7) by (auto simp: grp list_ex_iff)
  ultimately show ?thesis
    using two res(8) cap by (auto simp: CheckWithFork_def scan_txs_some n fee)
qed


text \<open>A concrete wire format, hash and pair of transactions.\<close>

definition sample_env :: tx_env where
  "sample_env = \<lparr>te_Encode = \<lambda>tx. Execer tx @ raw (Next tx), te_Size = \<lambda>tx. 200,
     te_EncodeTxs = \<lambda>txs. [], te_DecodeTxs = \<lambda>b. Fail ErrTxGroupEmpty,
     te_Sha256 = \<lambda>x. take 4 (x @ ''....''), te_PubKeyToAddr = \<lambda>k. k, te_CheckSign = \<lambda>m e s. True\<rparr>"

definition sample_tx :: "bytes \<Rightarrow> Transaction" where
  "sample_tx e = \<lparr>Execer = e, Payload = [], TxSignature = None, Fee = 60, Expire = 0, Nonce = 0,
     To = [], GroupCount = 0, Header = None, Next = None\<rparr>"

definition sample_group :: "Signature option \<Rightarrow> Transaction list" where
  "sample_group s =
     [(sample_tx ''a'')\<lparr>TxSignature := s, Fee := 200, GroupCount := 2, Header := Some ''ab..'', Next := Some ''b...''\<rparr>,
      (sample_tx ''b'')\<lparr>TxSignature := s, Fee := 0, GroupCount := 2, Header := Some ''ab..''\<rparr>]"

definition sample_cfg :: tx_cfg where
  "sample_cfg = \<lparr>tc_IsFork = \<lambda>h f. True, tc_TxHeight = False, tc_IsPara = False\<rparr>"

definition sample_sig :: Signature where
  "sample_sig = \<lparr>sigTy = 1, Pubkey = ''k'', sigBytes = ''s''\<rparr>"

lemmas sample_defs = sample_env_def sample_tx_def sample_group_def sample_cfg_def

lemma sample_group_checks:
  "CheckWithFork sample_env sample_cfg (map Some (sample_group s)) False False 1 100 0 = Ok ()"
  by (simp add: sample_defs CheckWithFork_def tx_check_def check_links.simps(2) GetParaExecTitleName_def
      IsParaExecName_def raw_def tx_Hash_def GetRealFee_def MaxTxSize_def MaxTxGroupSize_def i64_def i32_def
      split: option.split)

theorem group_header_commits_witness:
  "sample_group None \<noteq> sample_group (Some sample_sig) \<and>
   map unsigned (sample_group None) = map unsigned (sample_group (Some sample_sig))"
proof
  show "map unsigned (sample_group None) = map unsigned (sample_group (Some sample_sig))"
    by (rule group_header_commits [OF sample_group_checks sample_group_checks])
      (simp_all add: sample_defs raw_def tx_Hash_def unsigned_def)
  show "sample_group None \<noteq> sample_group (Some sample_sig)" by (simp add: sample_defs)
qed

theorem created_group_checks_witness:
  "CheckWithFork sample_env sample_cfg (map Some (sample_group None)) True True 5 100 0 = Ok ()"
proof (rule created_group_checks)
  show "CreateTxGroup sample_env [sample_tx ''a'', sample_tx ''b''] 100 = (Ok (sample_group None), sample_group None)"
    by (simp add: sample_defs CreateTxGroup_def Let_def raw_def tx_Hash_def GetRealFee_def MaxTxSize_def i64_def i32_def)
qed (auto simp: sample_defs env_ok_def IsParaExecName_def)

end
