(* ===== verification/List_Map.thy ===== *)
theory List_Map
  imports Dpos_Prelude "HOL-Library.AList"
begin

text \<open>
  The insertion-ordered map of \<^verbatim>\<open>common/listmap/listmap.go\<close>, a Go map from keys to the
  elements of a linked list. An element is an identity and a value, so that the map and the
  list share it as they do in the code. The locale \<open>ordered_map\<close> is what its clients rely
  on: the operations act on the association list of keys and values, oldest first.
\<close>

section \<open>The data structure\<close>

record 'v ListMap =
  lm_m :: "(string \<times> nat) list" \<comment> \<open>the Go map, keys to elements\<close>
  lm_l :: "(nat \<times> 'v) list" \<comment> \<open>the elements in list order\<close>
  lm_next :: nat \<comment> \<open>the next fresh element identity\<close>

definition lm_New :: "'v ListMap" where
  "lm_New = \<lparr>lm_m = [], lm_l = [], lm_next = 0\<rparr>"

definition lm_Size :: "'v ListMap \<Rightarrow> int" where
  "lm_Size lm = int (length (lm_m lm))"

definition lm_Exist :: "'v ListMap \<Rightarrow> string \<Rightarrow> bool" where
  "lm_Exist lm key = (map_of (lm_m lm) key \<noteq> None)"

text \<open>\<^verbatim>\<open>item.Value\<close> of an element, which is in the list as long as the map names it.\<close>

definition elem_value :: "'v ListMap \<Rightarrow> nat \<Rightarrow> 'v outcome" where
  "elem_value lm e = (case map_of (lm_l lm) e of None \<Rightarrow> Panic | Some v \<Rightarrow> Ok v)"

definition lm_GetItem :: "'v ListMap \<Rightarrow> string \<Rightarrow> 'v outcome" where
  "lm_GetItem lm key =
     (case map_of (lm_m lm) key of None \<Rightarrow> Fail ErrNotFound | Some e \<Rightarrow> elem_value lm e)"

definition lm_Push :: "string \<Rightarrow> 'v \<Rightarrow> 'v ListMap \<Rightarrow> 'v ListMap" where
  "lm_Push key value lm =
     (case map_of (lm_m lm) key of
        Some e \<Rightarrow> lm\<lparr>lm_l := map (\<lambda>(i, v). (i, if i = e then value else v)) (lm_l lm)\<rparr>
      | None \<Rightarrow> lm\<lparr>lm_l := lm_l lm @ [(lm_next lm, value)], lm_next := Suc (lm_next lm),
                  lm_m := AList.update key (lm_next lm) (lm_m lm)\<rparr>)"

definition lm_GetTop :: "'v ListMap \<Rightarrow> 'v option" where
  "lm_GetTop lm = (case lm_l lm of [] \<Rightarrow> None | (i, v) # es \<Rightarrow> Some v)"

definition lm_Remove :: "string \<Rightarrow> 'v ListMap \<Rightarrow> 'v option \<times> 'v ListMap" where
  "lm_Remove key lm =
     (case map_of (lm_m lm) key of
        Some e \<Rightarrow> (map_of (lm_l lm) e,
                  lm\<lparr>lm_l := AList.delete e (lm_l lm), lm_m := AList.delete key (lm_m lm)\<rparr>)
      | None \<Rightarrow> (None, lm))"

text \<open>
  The walk calls the callback on the values in order until it answers false. \<open>'s\<close> is the
  state the callback changes.
\<close>

fun walk_values :: "('v \<Rightarrow> 's \<Rightarrow> bool \<times> 's) \<Rightarrow> 'v list \<Rightarrow> 's \<Rightarrow> 's" where
  "walk_values cb [] s = s"
| "walk_values cb (v # vs) s = (case cb v s of (go_on, s') \<Rightarrow> if go_on then walk_values cb vs s' else s')"

definition lm_Walk :: "'v ListMap \<Rightarrow> ('v \<Rightarrow> 's \<Rightarrow> bool \<times> 's) option \<Rightarrow> 's \<Rightarrow> 's" where
  "lm_Walk lm cb s = (case cb of None \<Rightarrow> s | Some f \<Rightarrow> walk_values f (map snd (lm_l lm)) s)"

section \<open>The association list it stands for\<close>

definition key_of :: "(string \<times> nat) list \<Rightarrow> nat \<Rightarrow> string" where
  "key_of m e = (case map_of (map prod.swap m) e of None \<Rightarrow> [] | Some k \<Rightarrow> k)"

definition lm_items :: "'v ListMap \<Rightarrow> (string \<times> 'v) list" where
  "lm_items lm = map (\<lambda>(e, v). (key_of (lm_m lm) e, v)) (lm_l lm)"

definition lm_ok :: "'v ListMap \<Rightarrow> bool" where
  "lm_ok lm \<longleftrightarrow> distinct (map fst (lm_m lm)) \<and> distinct (map snd (lm_m lm)) \<and>
     distinct (map fst (lm_l lm)) \<and> set (map snd (lm_m lm)) = set (map fst (lm_l lm)) \<and>
     (\<forall>e\<in>set (map fst (lm_l lm)). e < lm_next lm)"

lemma update_new: "k \<notin> fst ` set kvs \<Longrightarrow> AList.update k v kvs = kvs @ [(k, v)]"
  by (induction kvs) auto

lemma length_update_old: "k \<in> fst ` set kvs \<Longrightarrow> length (AList.update k v kvs) = length kvs"
  by (induction kvs) auto

locale ordered_map =
  fixes empty :: 'm
    and size_of :: "'m \<Rightarrow> int"
    and exists :: "'m \<Rightarrow> string \<Rightarrow> bool"
    and get_item :: "'m \<Rightarrow> string \<Rightarrow> 'v outcome"
    and push :: "string \<Rightarrow> 'v \<Rightarrow> 'm \<Rightarrow> 'm"
    and top :: "'m \<Rightarrow> 'v option"
    and remove :: "string \<Rightarrow> 'm \<Rightarrow> 'v option \<times> 'm"
    and ok :: "'m \<Rightarrow> bool"
    and items :: "'m \<Rightarrow> (string \<times> 'v) list"
  assumes empty_ok: "ok empty" and items_empty: "items empty = []"
    and items_distinct: "ok m \<Longrightarrow> distinct (map fst (items m))"
    and size_items: "ok m \<Longrightarrow> size_of m = int (length (items m))"
    and exists_items: "ok m \<Longrightarrow> exists m k \<longleftrightarrow> k \<in> fst ` set (items m)"
    and get_items: "ok m \<Longrightarrow>
      get_item m k = (case map_of (items m) k of None \<Rightarrow> Fail ErrNotFound | Some v \<Rightarrow> Ok v)"
    and push_ok: "ok m \<Longrightarrow> ok (push k v m)"
    and items_push: "ok m \<Longrightarrow> items (push k v m) = AList.update k v (items m)"
    and top_items: "ok m \<Longrightarrow> top m = (case items m of [] \<Rightarrow> None | (k, v) # kvs \<Rightarrow> Some v)"
    and remove_ok: "ok m \<Longrightarrow> ok (snd (remove k m))"
    and items_remove: "ok m \<Longrightarrow> items (snd (remove k m)) = AList.delete k (items m)"
    and removed: "ok m \<Longrightarrow> fst (remove k m) = map_of (items m) k"
begin

lemma get_item_Ok: "ok m \<Longrightarrow> get_item m k = Ok v \<longleftrightarrow> map_of (items m) k = Some v"
  by (simp add: get_items split: option.split)

lemma exists_map_of: "ok m \<Longrightarrow> exists m k \<longleftrightarrow> map_of (items m) k \<noteq> None"
  by (simp add: exists_items map_of_eq_None_iff)

lemma get_item_Fail: "ok m \<Longrightarrow> get_item m k = Fail e \<longleftrightarrow> e = ErrNotFound \<and> \<not> exists m k"
  by (cases "map_of (items m) k") (auto simp: get_items exists_map_of)

lemma get_item_no_panic: "ok m \<Longrightarrow> get_item m k \<noteq> Panic"
  by (simp add: get_items split: option.split)

lemma get_after_push: "ok m \<Longrightarrow> get_item (push k v m) k' = (if k' = k then Ok v else get_item m k')"
  by (simp add: get_items push_ok items_push update_conv')

lemma get_after_remove:
  "ok m \<Longrightarrow> get_item (snd (remove k m)) k' = (if k' = k then Fail ErrNotFound else get_item m k')"
  by (simp add: get_items remove_ok items_remove delete_conv')

lemma items_push_new: "ok m \<Longrightarrow> \<not> exists m k \<Longrightarrow> items (push k v m) = items m @ [(k, v)]"
  by (simp add: items_push exists_items update_new)

lemma size_push: "ok m \<Longrightarrow> size_of (push k v m) = size_of m + (if exists m k then 0 else 1)"
proof (cases "exists m k")
  case True
  then show "ok m \<Longrightarrow> ?thesis"
    by (simp add: size_items push_ok items_push exists_items length_update_old)
qed (simp add: size_items push_ok items_push_new)

end

section \<open>The list map provides the interface\<close>

lemma key_of_entry:
  "distinct (map snd m) \<Longrightarrow> (k, e) \<in> set m \<Longrightarrow> key_of m e = k"
  by (simp add: key_of_def map_of_is_SomeI comp_def rev_image_eqI)

lemma lm_ok_entry:
  assumes "lm_ok lm" and "(e, v) \<in> set (lm_l lm)"
  obtains k where "(k, e) \<in> set (lm_m lm)" and "key_of (lm_m lm) e = k"
proof -
  have "e \<in> set (map snd (lm_m lm))" using assms by (auto simp: lm_ok_def intro: rev_image_eqI)
  then obtain k where "(k, e) \<in> set (lm_m lm)" by auto
  with that assms(1) key_of_entry show thesis by (auto simp: lm_ok_def)
qed

lemma key_of_inj:
  assumes "lm_ok lm" and "(e, v) \<in> set (lm_l lm)" and "(k, e') \<in> set (lm_m lm)"
  shows "key_of (lm_m lm) e = k \<longleftrightarrow> e = e'"
proof -
  obtain k' where k': "(k', e) \<in> set (lm_m lm)" "key_of (lm_m lm) e = k'"
    by (rule lm_ok_entry [OF assms(1,2)])
  show ?thesis
    using k' assms(1,3) key_of_entry [of "lm_m lm" k e'] eq_key_imp_eq_value [of "lm_m lm" k e e']
    by (auto simp: lm_ok_def)
qed

lemma lm_items_fst:
  assumes "lm_ok lm"
  shows "fst ` set (lm_items lm) = fst ` set (lm_m lm)" and "distinct (map fst (lm_items lm))"
    and "length (lm_items lm) = length (lm_m lm)"
proof -
  have m: "distinct (map snd (lm_m lm))" "distinct (map fst (lm_m lm))" "distinct (map fst (lm_l lm))"
    "set (map snd (lm_m lm)) = set (map fst (lm_l lm))" using assms by (simp_all add: lm_ok_def)
  have keys: "map fst (lm_items lm) = map (key_of (lm_m lm)) (map fst (lm_l lm))"
    by (auto simp: lm_items_def)
  have "key_of (lm_m lm) ` set (map snd (lm_m lm)) = fst ` set (lm_m lm)"
    using key_of_entry [OF m(1)] by (force simp: image_iff)
  then show "fst ` set (lm_items lm) = fst ` set (lm_m lm)"
    using keys m(4) by (metis list.set_map)
  have "inj_on (key_of (lm_m lm)) (set (map fst (lm_l lm)))"
  proof (rule inj_onI)
    fix e e' assume "e \<in> set (map fst (lm_l lm))" and e': "e' \<in> set (map fst (lm_l lm))"
      and eq: "key_of (lm_m lm) e = key_of (lm_m lm) e'"
    then obtain v v' where v: "(e, v) \<in> set (lm_l lm)" "(e', v') \<in> set (lm_l lm)" by auto
    obtain k where "(k, e') \<in> set (lm_m lm)" "key_of (lm_m lm) e' = k"
      by (rule lm_ok_entry [OF assms v(2)])
    then show "e = e'" using key_of_inj [OF assms v(1)] eq by metis
  qed
  then show "distinct (map fst (lm_items lm))"
    using m(3) by (simp only: keys distinct_map)
  show "length (lm_items lm) = length (lm_m lm)"
    using m distinct_card [of "map snd (lm_m lm)"] distinct_card [of "map fst (lm_l lm)"]
    by (simp add: lm_items_def)
qed

lemma lm_items_map_of:
  assumes "lm_ok lm"
  shows "map_of (lm_items lm) k = (case map_of (lm_m lm) k of None \<Rightarrow> None | Some e \<Rightarrow> map_of (lm_l lm) e)"
proof (cases "map_of (lm_m lm) k")
  case None
  then have "k \<notin> fst ` set (lm_items lm)" by (simp add: lm_items_fst(1) [OF assms] map_of_eq_None_iff)
  then have "map_of (lm_items lm) k = None" by (simp add: map_of_eq_None_iff)
  with None show ?thesis by simp
next
  case (Some e)
  then have ke: "(k, e) \<in> set (lm_m lm)" by (rule map_of_SomeD)
  then have "e \<in> set (map fst (lm_l lm))" using assms by (force simp: lm_ok_def)
  then obtain v where v: "(e, v) \<in> set (lm_l lm)" by auto
  then have "map_of (lm_l lm) e = Some v" using assms by (simp add: lm_ok_def)
  moreover have "(k, v) \<in> set (lm_items lm)"
    using v key_of_inj [OF assms v ke] by (force simp: lm_items_def)
  then have "map_of (lm_items lm) k = Some v" using lm_items_fst(2) [OF assms] by simp
  ultimately show ?thesis by (simp add: Some)
qed

lemma update_values:
  assumes "\<And>i v. (i, v) \<in> set l \<Longrightarrow> f i = k \<longleftrightarrow> i = e" and "e \<in> fst ` set l" and "distinct (map fst l)"
  shows "map (\<lambda>(i, v). (f i, v)) (map (\<lambda>(i, v). (i, if i = e then x else v)) l) =
    AList.update k x (map (\<lambda>(i, v). (f i, v)) l)"
  using assms
proof (induction l)
  case (Cons iv l)
  obtain i v where iv: "iv = (i, v)" by fastforce
  show ?case
  proof (cases "i = e")
    case True
    then have "map (\<lambda>(i, v). (i, if i = e then x else v)) l = l"
      using Cons.prems(3) by (intro map_idI) (force simp: iv)
    moreover have "f e = k" using True Cons.prems(1) [of i v] by (simp add: iv)
    ultimately show ?thesis using True by (simp add: iv)
  next
    case False
    then show ?thesis using Cons by (auto simp: iv)
  qed
qed simp

lemma lm_Push_ok_items:
  assumes "lm_ok lm"
  shows "lm_ok (lm_Push k v lm) \<and> lm_items (lm_Push k v lm) = AList.update k v (lm_items lm)"
proof (cases "map_of (lm_m lm) k")
  case None
  then have new: "k \<notin> fst ` set (lm_m lm)" by (simp add: map_of_eq_None_iff)
  have fresh: "lm_next lm \<notin> fst ` set (lm_l lm)" using assms by (auto simp: lm_ok_def)
  have "key_of (lm_m lm @ [(k, lm_next lm)]) e = key_of (lm_m lm) e" if "(e, x) \<in> set (lm_l lm)" for e x
  proof -
    have "e \<noteq> lm_next lm" using fresh that by force
    then show ?thesis by (simp add: key_of_def map_add_def split: option.split)
  qed
  moreover have "key_of (lm_m lm @ [(k, lm_next lm)]) (lm_next lm) = k"
    by (rule key_of_entry) (use assms fresh in \<open>auto simp: lm_ok_def\<close>)
  ultimately have "lm_items (lm_Push k v lm) = lm_items lm @ [(k, v)]"
    using fresh None by (auto simp: lm_items_def lm_Push_def update_new [OF new])
  moreover have "k \<notin> fst ` set (lm_items lm)" using new by (simp add: lm_items_fst(1) [OF assms])
  moreover have "lm_ok (lm_Push k v lm)"
    using assms None new fresh by (auto simp: lm_ok_def lm_Push_def update_new [OF new])
  ultimately show ?thesis by (simp add: update_new)
next
  case (Some e)
  then have ke: "(k, e) \<in> set (lm_m lm)" by (rule map_of_SomeD)
  let ?l = "map (\<lambda>(i, v'). (i, if i = e then v else v')) (lm_l lm)"
  have fields: "lm_m (lm_Push k v lm) = lm_m lm" "lm_l (lm_Push k v lm) = ?l"
    "lm_next (lm_Push k v lm) = lm_next lm" by (simp_all add: lm_Push_def Some)
  have "map fst ?l = map fst (lm_l lm)" by auto
  then have "lm_ok (lm_Push k v lm)"
    using assms by (auto simp only: lm_ok_def fields)
  moreover have "lm_items (lm_Push k v lm) = AList.update k v (lm_items lm)"
    unfolding lm_items_def fields
  proof (rule update_values)
    show "e \<in> fst ` set (lm_l lm)" "distinct (map fst (lm_l lm))" using assms ke by (force simp: lm_ok_def)+
  qed (rule key_of_inj [OF assms _ ke])
  ultimately show ?thesis by simp
qed

lemma lm_Remove_ok_items:
  assumes "lm_ok lm"
  shows "lm_ok (snd (lm_Remove k lm)) \<and> lm_items (snd (lm_Remove k lm)) = AList.delete k (lm_items lm)"
proof (cases "map_of (lm_m lm) k")
  case None
  then have "k \<notin> fst ` set (lm_items lm)" by (simp add: lm_items_fst(1) [OF assms] map_of_eq_None_iff)
  then show ?thesis using assms None by (simp add: lm_Remove_def delete_idem)
next
  case (Some e)
  then have ke: "(k, e) \<in> set (lm_m lm)" by (rule map_of_SomeD)
  let ?m = "AList.delete k (lm_m lm)" and ?l = "AList.delete e (lm_l lm)"
  have other: "(k', e') \<in> set ?m \<longleftrightarrow> (k', e') \<in> set (lm_m lm) \<and> e' \<noteq> e" for k' e'
    using assms ke by (auto simp: lm_ok_def AList.delete_eq dest: eq_key_imp_eq_value
        inj_onD [OF distinct_map [THEN iffD1, THEN conjunct2], of snd "lm_m lm" "(k', e)" "(k, e)"])
  have d: "distinct (map snd ?m)"
    using assms by (auto simp: lm_ok_def AList.delete_eq distinct_map_filter)
  have "key_of ?m e' = key_of (lm_m lm) e'" if "(e', v) \<in> set ?l" for e' v
  proof -
    have e': "(e', v) \<in> set (lm_l lm)" "e' \<noteq> e" using that by (auto simp: AList.delete_eq)
    obtain k' where k': "(k', e') \<in> set (lm_m lm)" "key_of (lm_m lm) e' = k'"
      by (rule lm_ok_entry [OF assms e'(1)])
    then show ?thesis using key_of_entry [OF d, of k' e'] e'(2) other by simp
  qed
  then have "lm_items (snd (lm_Remove k lm)) = map (\<lambda>(e, v). (key_of (lm_m lm) e, v)) ?l"
    by (auto simp: lm_items_def lm_Remove_def Some)
  also have "\<dots> = AList.delete k (lm_items lm)"
    unfolding lm_items_def AList.delete_eq filter_map comp_def
    by (intro arg_cong2 [where f = map] filter_cong) (use key_of_inj [OF assms _ ke] in auto)
  finally have items: "lm_items (snd (lm_Remove k lm)) = AList.delete k (lm_items lm)" .
  have "snd ` set ?m = snd ` set (lm_m lm) - {e}" using other by (force simp: image_iff)
  moreover have "fst ` set ?l = fst ` set (lm_l lm) - {e}" by (force simp: AList.delete_eq)
  ultimately have "lm_ok (snd (lm_Remove k lm))"
    using assms d by (auto simp: lm_ok_def lm_Remove_def Some AList.delete_eq distinct_map_filter)
  with items show ?thesis by simp
qed

lemma lm_top_items: "lm_GetTop lm = (case lm_items lm of [] \<Rightarrow> None | (k, v) # kvs \<Rightarrow> Some v)"
  by (simp add: lm_GetTop_def lm_items_def split: list.split prod.split)

lemma lm_removed:
  assumes "lm_ok lm" shows "fst (lm_Remove k lm) = map_of (lm_items lm) k"
  by (simp add: lm_Remove_def lm_items_map_of [OF assms] split: option.split)

lemma lm_get_items:
  assumes "lm_ok lm"
  shows "lm_GetItem lm k = (case map_of (lm_items lm) k of None \<Rightarrow> Fail ErrNotFound | Some v \<Rightarrow> Ok v)"
proof (cases "map_of (lm_m lm) k")
  case (Some e)
  then have "e \<in> fst ` set (lm_l lm)" using map_of_SomeD [OF Some] assms by (force simp: lm_ok_def)
  then have "map_of (lm_l lm) e \<noteq> None" by (simp add: map_of_eq_None_iff)
  then show ?thesis by (auto simp: lm_GetItem_def elem_value_def lm_items_map_of [OF assms] Some)
qed (simp add: lm_GetItem_def lm_items_map_of [OF assms])

interpretation listmap: ordered_map lm_New lm_Size lm_Exist lm_GetItem lm_Push lm_GetTop lm_Remove lm_ok lm_items
proof unfold_locales
  show "lm_ok lm_New" "lm_items lm_New = []" by (simp_all add: lm_ok_def lm_New_def lm_items_def)
qed (simp_all add: lm_items_fst lm_Size_def lm_Exist_def lm_get_items lm_Push_ok_items lm_top_items
    lm_Remove_ok_items lm_removed map_of_eq_None_iff)

lemma lm_Size_New [simp]: "lm_Size lm_New = 0"
  by (simp add: lm_Size_def lm_New_def)

lemma lm_Walk_items: "lm_Walk lm (Some cb) s = walk_values cb (map snd (lm_items lm)) s"
proof -
  have "map snd (lm_l lm) = map snd (lm_items lm)" by (auto simp: lm_items_def)
  then show ?thesis by (simp add: lm_Walk_def)
qed

end
