(* ===== verification/Mempool_Cache.thy ===== *)
theory Mempool_Cache
  imports Tx List_Map "HOL-Library.Multiset"
begin

text \<open>
  The caches of the transaction pool, \<^verbatim>\<open>system/mempool\<close>: the index by sender
  (\<^verbatim>\<open>accountindex.go\<close>), the latest transactions (\<^verbatim>\<open>lasttx.go\<close>), the index by short hash
  (\<^verbatim>\<open>shorthashtx.go\<close>), the queue (\<^verbatim>\<open>simplequeue.go\<close>) behind its interface \<open>QueueCache\<close>, and
  the pool cache that keeps them together (\<^verbatim>\<open>cache.go\<close>). The clock is an argument.
\<close>

section \<open>Index by sender\<close>

record AccountTxIndex =
  maxperaccount :: int
  accMap :: "(string \<times> Transaction ListMap) list"

definition NewAccountTxIndex :: "int \<Rightarrow> AccountTxIndex" where
  "NewAccountTxIndex n = \<lparr>maxperaccount = n, accMap = []\<rparr>"

definition TxNumOfAccount :: "string \<Rightarrow> AccountTxIndex \<Rightarrow> int" where
  "TxNumOfAccount addr c = (case map_of (accMap c) addr of Some lm \<Rightarrow> lm_Size lm | None \<Rightarrow> 0)"

record TransactionDetail =
  td_Tx :: Transaction
  td_Amount :: int
  td_Fromaddr :: string
  td_ActionName :: string

text \<open>The amount and the action name of a transaction come from its executor type.\<close>

record exec_info =
  ei_Amount :: "Transaction \<Rightarrow> int outcome"
  ei_ActionName :: "Transaction \<Rightarrow> string"

definition tx_detail :: "exec_info \<Rightarrow> string \<Rightarrow> Transaction \<Rightarrow> TransactionDetail" where
  "tx_detail ei addr v =
     \<lparr>td_Tx = v, td_Amount = (case ei_Amount ei v of Ok a \<Rightarrow> a | _ \<Rightarrow> 0), td_Fromaddr = addr,
      td_ActionName = ei_ActionName ei v\<rparr>"

fun GetAccTxs :: "exec_info \<Rightarrow> string list \<Rightarrow> AccountTxIndex \<Rightarrow> TransactionDetail list" where
  "GetAccTxs ei [] c = []"
| "GetAccTxs ei (addr # addrs) c =
     (case map_of (accMap c) addr of
        Some lm \<Rightarrow> lm_Walk lm (Some (\<lambda>v res. (True, res @ [tx_detail ei addr v]))) []
      | None \<Rightarrow> []) @ GetAccTxs ei addrs c"

definition at_Remove :: "tx_env \<Rightarrow> Transaction \<Rightarrow> AccountTxIndex \<Rightarrow> AccountTxIndex" where
  "at_Remove env tx c =
     (case map_of (accMap c) (tx_From env tx) of
        None \<Rightarrow> c
      | Some lm \<Rightarrow>
          let lm' = snd (lm_Remove (tx_Hash env tx) lm) in
          if lm_Size lm' = 0 then c\<lparr>accMap := AList.delete (tx_From env tx) (accMap c)\<rparr>
          else c\<lparr>accMap := AList.update (tx_From env tx) lm' (accMap c)\<rparr>)"

definition at_Push :: "tx_env \<Rightarrow> Transaction \<Rightarrow> (AccountTxIndex, unit) op" where
  "at_Push env tx c =
     (let addr = tx_From env tx;
          lm = (case map_of (accMap c) addr of Some lm \<Rightarrow> lm | None \<Rightarrow> lm_New) in
      if lm_Size lm \<ge> maxperaccount c
      then (Fail ErrManyTx, c\<lparr>accMap := AList.update addr lm (accMap c)\<rparr>)
      else (Ok (), c\<lparr>accMap := AList.update addr (lm_Push (tx_Hash env tx) tx lm) (accMap c)\<rparr>))"

definition CanPush :: "tx_env \<Rightarrow> Transaction \<Rightarrow> AccountTxIndex \<Rightarrow> bool" where
  "CanPush env tx c =
     (case map_of (accMap c) (tx_From env tx) of
        Some lm \<Rightarrow> lm_Size lm < maxperaccount c | None \<Rightarrow> True)"

section \<open>Latest transactions\<close>

record LastTxCache =
  lt_max :: int
  lt_l :: "Transaction ListMap"

definition NewLastTxCache :: "int \<Rightarrow> LastTxCache" where
  "NewLastTxCache n = \<lparr>lt_max = n, lt_l = lm_New\<rparr>"

definition GetLatestTx :: "LastTxCache \<Rightarrow> Transaction list" where
  "GetLatestTx c = lm_Walk (lt_l c) (Some (\<lambda>v txs. (True, txs @ [v]))) []"

definition lt_Remove :: "tx_env \<Rightarrow> Transaction \<Rightarrow> LastTxCache \<Rightarrow> LastTxCache" where
  "lt_Remove env tx c = c\<lparr>lt_l := snd (lm_Remove (tx_Hash env tx) (lt_l c))\<rparr>"

definition lt_Push :: "tx_env \<Rightarrow> Transaction \<Rightarrow> LastTxCache \<Rightarrow> LastTxCache" where
  "lt_Push env tx c =
     (let c1 = (if lm_Size (lt_l c) \<ge> lt_max c then
                  (case lm_GetTop (lt_l c) of None \<Rightarrow> c | Some v \<Rightarrow> lt_Remove env v c)
                else c)
      in c1\<lparr>lt_l := lm_Push (tx_Hash env tx) tx (lt_l c1)\<rparr>)"

section \<open>Index by short hash\<close>

definition hex_digit :: "nat \<Rightarrow> char" where
  "hex_digit n = (if n < 10 then char_of (48 + n) else char_of (87 + n))"

definition hex_encode :: "bytes \<Rightarrow> string" where
  "hex_encode b = concat (map (\<lambda>c. [hex_digit (of_char c div 16), hex_digit (of_char c mod 16)]) b)"

definition CalcTxShortHash :: "bytes \<Rightarrow> string" where
  "CalcTxShortHash h = (if length h \<ge> 5 then hex_encode (take 5 h) else [])"

record SHashTxCache =
  sh_max :: int
  sh_l :: "Transaction ListMap"

definition NewSHashTxCache :: "int \<Rightarrow> SHashTxCache" where
  "NewSHashTxCache n = \<lparr>sh_max = n, sh_l = lm_New\<rparr>"

definition GetSHashTxCache :: "string \<Rightarrow> SHashTxCache \<Rightarrow> Transaction option" where
  "GetSHashTxCache sHash c = (case lm_GetItem (sh_l c) sHash of Ok tx \<Rightarrow> Some tx | _ \<Rightarrow> None)"

definition sh_Exist :: "string \<Rightarrow> SHashTxCache \<Rightarrow> bool" where
  "sh_Exist shash c = lm_Exist (sh_l c) shash"

definition sh_Remove :: "tx_env \<Rightarrow> Transaction \<Rightarrow> SHashTxCache \<Rightarrow> SHashTxCache" where
  "sh_Remove env tx c = c\<lparr>sh_l := snd (lm_Remove (CalcTxShortHash (tx_Hash env tx)) (sh_l c))\<rparr>"

definition sh_Push :: "tx_env \<Rightarrow> Transaction \<Rightarrow> SHashTxCache \<Rightarrow> SHashTxCache" where
  "sh_Push env tx c =
     (let shash = CalcTxShortHash (tx_Hash env tx) in
      if sh_Exist shash c then c
      else if lm_Size (sh_l c) \<ge> sh_max c then c
      else c\<lparr>sh_l := lm_Push shash tx (sh_l c)\<rparr>)"

section \<open>The queue and its interface\<close>

record Item =
  Value :: Transaction
  Priority :: int
  EnterTime :: int

text \<open>The local variables that the callbacks of the pool collect into.\<close>

record walk_vars =
  wv_hashes :: "string list"
  wv_txs :: "Transaction list"

type_synonym walk_cb = "Item \<Rightarrow> walk_vars \<Rightarrow> bool \<times> walk_vars"

record 'q QueueCache =
  qc_Exist :: "'q \<Rightarrow> string \<Rightarrow> bool"
  qc_GetItem :: "'q \<Rightarrow> string \<Rightarrow> Item outcome"
  qc_Push :: "Item \<Rightarrow> ('q, unit) op"
  qc_Remove :: "string \<Rightarrow> ('q, unit) op"
  qc_Size :: "'q \<Rightarrow> int"
  qc_Walk :: "'q \<Rightarrow> int \<Rightarrow> walk_cb \<Rightarrow> walk_vars \<Rightarrow> walk_vars"
  qc_GetProperFee :: "'q \<Rightarrow> int"
  qc_GetCacheBytes :: "'q \<Rightarrow> int"

record SubConfig =
  PoolCacheSize :: int
  ProperFee :: int

record SimpleQueue =
  txList :: "Item ListMap"
  subConfig :: SubConfig
  cacheBytes :: int

definition NewSimpleQueue :: "SubConfig \<Rightarrow> SimpleQueue" where
  "NewSimpleQueue sub = \<lparr>txList = lm_New, subConfig = sub, cacheBytes = 0\<rparr>"

definition sq_Exist :: "SimpleQueue \<Rightarrow> string \<Rightarrow> bool" where
  "sq_Exist c h = lm_Exist (txList c) h"

definition sq_GetItem :: "SimpleQueue \<Rightarrow> string \<Rightarrow> Item outcome" where
  "sq_GetItem c h = lm_GetItem (txList c) h"

definition sq_Push :: "tx_env \<Rightarrow> Item \<Rightarrow> (SimpleQueue, unit) op" where
  "sq_Push env it c =
     (let h = tx_Hash env (Value it) in
      if sq_Exist c h then (Fail ErrTxExist, c)
      else if lm_Size (txList c) \<ge> PoolCacheSize (subConfig c) then (Fail ErrMemFull, c)
      else (Ok (), c\<lparr>txList := lm_Push h it (txList c),
                     cacheBytes := i64 (cacheBytes c + te_Size env (Value it))\<rparr>))"

definition sq_Remove :: "tx_env \<Rightarrow> string \<Rightarrow> (SimpleQueue, unit) op" where
  "sq_Remove env h c =
     (case sq_GetItem c h of
        Fail e \<Rightarrow> (Fail e, c)
      | Panic \<Rightarrow> (Panic, c)
      | Ok it \<Rightarrow> (Ok (), c\<lparr>txList := snd (lm_Remove h (txList c)),
                         cacheBytes := i64 (cacheBytes c - te_Size env (Value it))\<rparr>))"

definition sq_Size :: "SimpleQueue \<Rightarrow> int" where
  "sq_Size c = lm_Size (txList c)"

definition sq_Walk :: "SimpleQueue \<Rightarrow> int \<Rightarrow> walk_cb \<Rightarrow> walk_vars \<Rightarrow> walk_vars" where
  "sq_Walk c n cb s =
     snd (lm_Walk (txList c)
       (Some (\<lambda>it (i, s). case cb it s of
          (go_on, s') \<Rightarrow> if \<not> go_on then (False, i, s') else (i64 (i + 1) \<noteq> n, i64 (i + 1), s')))
       (0, s))"

definition sq_GetProperFee :: "SimpleQueue \<Rightarrow> int" where
  "sq_GetProperFee c = ProperFee (subConfig c)"

definition sq_GetCacheBytes :: "SimpleQueue \<Rightarrow> int" where
  "sq_GetCacheBytes c = cacheBytes c"

definition simple_queue :: "tx_env \<Rightarrow> SimpleQueue QueueCache" where
  "simple_queue env = \<lparr>qc_Exist = sq_Exist, qc_GetItem = sq_GetItem, qc_Push = sq_Push env,
     qc_Remove = sq_Remove env, qc_Size = sq_Size, qc_Walk = sq_Walk,
     qc_GetProperFee = sq_GetProperFee, qc_GetCacheBytes = sq_GetCacheBytes\<rparr>"

section \<open>The pool cache\<close>

record 'q txCache =
  tc_acc :: AccountTxIndex
  tc_last :: LastTxCache
  tc_q :: "'q option"
  tc_totalFee :: int
  tc_shash :: SHashTxCache

definition newCache :: "int \<Rightarrow> int \<Rightarrow> int \<Rightarrow> 'q txCache" where
  "newCache maxTxPerAccount sizeLast poolCacheSize =
     \<lparr>tc_acc = NewAccountTxIndex maxTxPerAccount, tc_last = NewLastTxCache sizeLast, tc_q = None,
      tc_totalFee = 0, tc_shash = NewSHashTxCache poolCacheSize\<rparr>"

definition tc_SetQueueCache :: "'q \<Rightarrow> 'q txCache \<Rightarrow> 'q txCache" where
  "tc_SetQueueCache q c = c\<lparr>tc_q := Some q\<rparr>"

text \<open>A call on a nil queue panics; an error of the queue's removal is only logged.\<close>

definition tc_Remove :: "tx_env \<Rightarrow> 'q QueueCache \<Rightarrow> string \<Rightarrow> ('q txCache, unit) op" where
  "tc_Remove env Q h c =
     (case tc_q c of
        None \<Rightarrow> (Panic, c)
      | Some q \<Rightarrow>
          (case qc_GetItem Q q h of
             Fail e \<Rightarrow> (Ok (), c)
           | Panic \<Rightarrow> (Panic, c)
           | Ok it \<Rightarrow>
               let tx = Value it in
               (case qc_Remove Q h q of
                  (Panic, q') \<Rightarrow> (Panic, c\<lparr>tc_q := Some q'\<rparr>)
                | (_, q') \<Rightarrow>
                    (Ok (), c\<lparr>tc_q := Some q', tc_acc := at_Remove env tx (tc_acc c),
                       tc_last := lt_Remove env tx (tc_last c),
                       tc_totalFee := i64 (tc_totalFee c - Fee tx),
                       tc_shash := sh_Remove env tx (tc_shash c)\<rparr>))))"

definition tc_Exist :: "'q QueueCache \<Rightarrow> string \<Rightarrow> 'q txCache \<Rightarrow> bool" where
  "tc_Exist Q h c = (case tc_q c of None \<Rightarrow> False | Some q \<Rightarrow> qc_Exist Q q h)"

definition tc_Size :: "'q QueueCache \<Rightarrow> 'q txCache \<Rightarrow> int" where
  "tc_Size Q c = (case tc_q c of None \<Rightarrow> 0 | Some q \<Rightarrow> qc_Size Q q)"

definition TotalFee :: "'q txCache \<Rightarrow> int" where
  "TotalFee c = tc_totalFee c"

definition tc_Walk :: "'q QueueCache \<Rightarrow> int \<Rightarrow> walk_cb \<Rightarrow> 'q txCache \<Rightarrow> walk_vars \<Rightarrow> walk_vars" where
  "tc_Walk Q n cb c s = (case tc_q c of None \<Rightarrow> s | Some q \<Rightarrow> qc_Walk Q q n cb s)"

fun tc_RemoveTxs :: "tx_env \<Rightarrow> 'q QueueCache \<Rightarrow> string list \<Rightarrow> ('q txCache, unit) op" where
  "tc_RemoveTxs env Q [] c = (Ok (), c)"
| "tc_RemoveTxs env Q (t # txs) c = andThen (tc_Remove env Q t) (\<lambda>_. tc_RemoveTxs env Q txs) c"

definition tc_Push :: "tx_env \<Rightarrow> 'q QueueCache \<Rightarrow> int \<Rightarrow> Transaction \<Rightarrow> ('q txCache, unit) op" where
  "tc_Push env Q now tx c =
     (if \<not> CanPush env tx (tc_acc c) then (Fail ErrManyTx, c)
      else case tc_q c of
        None \<Rightarrow> (Panic, c)
      | Some q \<Rightarrow>
          (case qc_Push Q \<lparr>Value = tx, Priority = Fee tx, EnterTime = now\<rparr> q of
             (Fail e, q') \<Rightarrow> (Fail e, c\<lparr>tc_q := Some q'\<rparr>)
           | (Panic, q') \<Rightarrow> (Panic, c\<lparr>tc_q := Some q'\<rparr>)
           | (Ok _, q') \<Rightarrow>
               (case at_Push env tx (tc_acc c) of
                  (Ok _, acc') \<Rightarrow>
                    (Ok (), c\<lparr>tc_q := Some q', tc_acc := acc', tc_last := lt_Push env tx (tc_last c),
                       tc_totalFee := i64 (tc_totalFee c + Fee tx),
                       tc_shash := sh_Push env tx (tc_shash c)\<rparr>)
                | (Fail e, acc') \<Rightarrow> (Fail e, c\<lparr>tc_q := Some q', tc_acc := acc'\<rparr>)
                | (Panic, acc') \<Rightarrow> (Panic, c\<lparr>tc_q := Some q', tc_acc := acc'\<rparr>))))"

definition mempoolExpiredInterval :: int where "mempoolExpiredInterval = 600"

definition isExpired :: "tx_env \<Rightarrow> tx_cfg \<Rightarrow> int \<Rightarrow> Item \<Rightarrow> int \<Rightarrow> int \<Rightarrow> bool" where
  "isExpired env cfg now it height blockTime \<longleftrightarrow>
     i64 (now - EnterTime it) \<ge> mempoolExpiredInterval \<or> tx_IsExpire env cfg (Value it) height blockTime"

definition removeExpiredTx ::
  "tx_env \<Rightarrow> 'q QueueCache \<Rightarrow> tx_cfg \<Rightarrow> int \<Rightarrow> int \<Rightarrow> int \<Rightarrow> ('q txCache, unit) op" where
  "removeExpiredTx env Q cfg now height blocktime c =
     (case tc_q c of
        None \<Rightarrow> (Panic, c)
      | Some q \<Rightarrow>
          let vars = qc_Walk Q q 0
            (\<lambda>it s. (True, if isExpired env cfg now it height blocktime
                           then s\<lparr>wv_hashes := wv_hashes s @ [tx_Hash env (Value it)]\<rparr> else s))
            \<lparr>wv_hashes = [], wv_txs = []\<rparr>
          in tc_RemoveTxs env Q (wv_hashes vars) c)"

definition getTxByHash :: "'q QueueCache \<Rightarrow> string \<Rightarrow> 'q txCache \<Rightarrow> Transaction option outcome" where
  "getTxByHash Q h c =
     (case tc_q c of
        None \<Rightarrow> Panic
      | Some q \<Rightarrow> (case qc_GetItem Q q h of Ok it \<Rightarrow> Ok (Some (Value it)) | Fail e \<Rightarrow> Ok None | Panic \<Rightarrow> Panic))"

section \<open>What the pool relies on in a queue\<close>

text \<open>
  The items of a queue, in the order of its walk. A push either is refused with the queue
  unchanged or adds the item; the hashes of the items are distinct.
\<close>

definition item_hash :: "tx_env \<Rightarrow> Item \<Rightarrow> bytes" where
  "item_hash env it = tx_Hash env (Value it)"

locale queue_cache =
  fixes env :: tx_env and Q :: "'q QueueCache" and q_ok :: "'q \<Rightarrow> bool" and q_items :: "'q \<Rightarrow> Item list"
  assumes distinct_items: "q_ok q \<Longrightarrow> distinct (map (item_hash env) (q_items q))"
    and exist_items: "q_ok q \<Longrightarrow> qc_Exist Q q h \<longleftrightarrow> h \<in> item_hash env ` set (q_items q)"
    and get_found: "q_ok q \<Longrightarrow> it \<in> set (q_items q) \<Longrightarrow> qc_GetItem Q q (item_hash env it) = Ok it"
    and get_missing: "q_ok q \<Longrightarrow> h \<notin> item_hash env ` set (q_items q) \<Longrightarrow> qc_GetItem Q q h = Fail ErrNotFound"
    and push_cases: "q_ok q \<Longrightarrow> (\<exists>e. qc_Push Q it q = (Fail e, q)) \<or>
      (\<exists>q'. qc_Push Q it q = (Ok (), q') \<and> q_ok q' \<and> item_hash env it \<notin> item_hash env ` set (q_items q) \<and>
         mset (q_items q') = add_mset it (mset (q_items q)))"
    and remove_item: "q_ok q \<Longrightarrow> it \<in> set (q_items q) \<Longrightarrow>
      \<exists>q'. qc_Remove Q (item_hash env it) q = (Ok (), q') \<and> q_ok q' \<and>
        q_items q' = filter (\<lambda>i. item_hash env i \<noteq> item_hash env it) (q_items q)"
    and size_items: "q_ok q \<Longrightarrow> qc_Size Q q = int (length (q_items q))"
    and walk_items: "q_ok q \<Longrightarrow>
      qc_Walk Q q n cb s = walk_values cb (if 0 < n then take (nat n) (q_items q) else q_items q) s"
    and bytes_items: "q_ok q \<Longrightarrow>
      qc_GetCacheBytes Q q = i64 (sum_list (map (\<lambda>it. te_Size env (Value it)) (q_items q)))"

text \<open>The simple queue provides it.\<close>

definition sq_items :: "SimpleQueue \<Rightarrow> Item list" where
  "sq_items c = map snd (lm_items (txList c))"

definition sq_ok :: "tx_env \<Rightarrow> SimpleQueue \<Rightarrow> bool" where
  "sq_ok env c \<longleftrightarrow> lm_ok (txList c) \<and> in_i64 (PoolCacheSize (subConfig c)) \<and> in_i64 (lm_Size (txList c)) \<and>
     (\<forall>(k, it)\<in>set (lm_items (txList c)). k = item_hash env it) \<and>
     cacheBytes c = i64 (sum_list (map (\<lambda>it. te_Size env (Value it)) (sq_items c)))"

lemma i64_add [simp]: "i64 (i64 a + b) = i64 (a + b)" "i64 (a + i64 b) = i64 (a + b)"
  by (simp_all add: i64_def mod_simps algebra_simps)

lemma i64_diff [simp]: "i64 (i64 a - b) = i64 (a - b)"
  by (simp add: i64_def mod_simps algebra_simps)

lemma sq_keys:
  assumes "sq_ok env c"
  shows "map fst (lm_items (txList c)) = map (item_hash env) (sq_items c)"
    and "lm_items (txList c) = map (\<lambda>it. (item_hash env it, it)) (sq_items c)"
proof -
  have "k = item_hash env it" if "(k, it) \<in> set (lm_items (txList c))" for k it
    using assms that by (auto simp: sq_ok_def)
  then show "map fst (lm_items (txList c)) = map (item_hash env) (sq_items c)"
    and "lm_items (txList c) = map (\<lambda>it. (item_hash env it, it)) (sq_items c)"
    by (auto simp: sq_items_def intro: map_idI [symmetric])
qed

lemma sq_distinct: "sq_ok env c \<Longrightarrow> distinct (map (item_hash env) (sq_items c))"
  using sq_keys(1) listmap.items_distinct by (metis sq_ok_def)

lemma sq_Exist_items: "sq_ok env c \<Longrightarrow> sq_Exist c h \<longleftrightarrow> h \<in> item_hash env ` set (sq_items c)"
  using sq_keys(1) [of env c] by (metis listmap.exists_items list.set_map sq_Exist_def sq_ok_def)

lemma sq_GetItem_items:
  assumes "sq_ok env c"
  shows "it \<in> set (sq_items c) \<Longrightarrow> sq_GetItem c (item_hash env it) = Ok it"
    and "h \<notin> item_hash env ` set (sq_items c) \<Longrightarrow> sq_GetItem c h = Fail ErrNotFound"
proof -
  have ok: "lm_ok (txList c)" using assms by (simp add: sq_ok_def)
  show "sq_GetItem c (item_hash env it) = Ok it" if "it \<in> set (sq_items c)"
    using that listmap.items_distinct [OF ok] sq_keys(2) [OF assms]
    by (auto simp: sq_GetItem_def listmap.get_item_Ok [OF ok])
  show "sq_GetItem c h = Fail ErrNotFound" if "h \<notin> item_hash env ` set (sq_items c)"
    using that sq_Exist_items [OF assms] by (simp add: sq_GetItem_def listmap.get_item_Fail [OF ok] sq_Exist_def)
qed

lemma sq_Push_Ok:
  assumes "sq_ok env c" and "\<not> sq_Exist c (item_hash env it)"
    and "lm_Size (txList c) < PoolCacheSize (subConfig c)"
  shows "\<exists>c'. sq_Push env it c = (Ok (), c') \<and> sq_ok env c' \<and> sq_items c' = sq_items c @ [it]"
proof -
  have ok: "lm_ok (txList c)" using assms(1) by (simp add: sq_ok_def)
  have new: "\<not> lm_Exist (txList c) (item_hash env it)" using assms(2) by (simp add: sq_Exist_def)
  let ?c = "c\<lparr>txList := lm_Push (item_hash env it) it (txList c),
    cacheBytes := i64 (cacheBytes c + te_Size env (Value it))\<rparr>"
  have items: "lm_items (txList ?c) = lm_items (txList c) @ [(item_hash env it, it)]"
    by (simp add: listmap.items_push_new [OF ok new])
  then have "sq_items ?c = sq_items c @ [it]" by (simp add: sq_items_def)
  moreover have "sq_ok env ?c"
    using assms(1,3) items listmap.size_push [OF ok] new listmap.push_ok [OF ok]
    by (auto simp: sq_ok_def sq_items_def in_i64_def)
  moreover have "sq_Push env it c = (Ok (), ?c)"
    using assms(2,3) by (simp add: sq_Push_def item_hash_def)
  ultimately show ?thesis by blast
qed

lemma sum_list_without:
  assumes "distinct (map f xs)" and "x \<in> set xs"
  shows "sum_list (map g (filter (\<lambda>y. f y \<noteq> f x) xs)) = sum_list (map g xs) - (g x :: int)"
  using assms
proof (induction xs)
  case (Cons y ys)
  show ?case
  proof (cases "f y = f x")
    case True
    then have "filter (\<lambda>y. f y \<noteq> f x) ys = ys" using Cons.prems(1) by (auto simp: filter_id_conv image_iff)
    moreover have "y = x" using True Cons.prems by (metis distinct.simps(2) imageI list.set_map list.simps(9) set_ConsD)
    ultimately show ?thesis by simp
  next
    case False
    then show ?thesis using Cons by auto
  qed
qed simp

lemma sq_Remove_Ok:
  assumes "sq_ok env c" and "it \<in> set (sq_items c)"
  shows "\<exists>c'. sq_Remove env (item_hash env it) c = (Ok (), c') \<and> sq_ok env c' \<and>
    sq_items c' = filter (\<lambda>i. item_hash env i \<noteq> item_hash env it) (sq_items c)"
proof -
  have ok: "lm_ok (txList c)" using assms(1) by (simp add: sq_ok_def)
  let ?c = "c\<lparr>txList := snd (lm_Remove (item_hash env it) (txList c)),
    cacheBytes := i64 (cacheBytes c - te_Size env (Value it))\<rparr>"
  have items: "lm_items (txList ?c) = filter (\<lambda>(k, i). k \<noteq> item_hash env it) (lm_items (txList c))"
    by (simp add: listmap.items_remove [OF ok] AList.delete_eq case_prod_unfold eq_commute)
  then have sq: "sq_items ?c = filter (\<lambda>i. item_hash env i \<noteq> item_hash env it) (sq_items c)"
    unfolding sq_items_def [of ?c] by (simp add: sq_keys(2) [OF assms(1)] filter_map comp_def)
  have "lm_Size (txList ?c) \<le> lm_Size (txList c)"
    using items listmap.remove_ok [OF ok] by (simp add: listmap.size_items ok)
  moreover have "0 \<le> lm_Size (txList ?c)" by (simp add: lm_Size_def)
  moreover have "cacheBytes ?c = i64 (sum_list (map (\<lambda>it. te_Size env (Value it))
      (filter (\<lambda>i. item_hash env i \<noteq> item_hash env it) (sq_items c))))"
    using assms(1) by (simp add: sum_list_without [OF sq_distinct [OF assms(1)] assms(2)] sq_ok_def)
  ultimately have "sq_ok env ?c"
    unfolding sq_ok_def sq using assms(1) items listmap.remove_ok [OF ok]
    by (auto simp: sq_ok_def in_i64_def)
  then show ?thesis
    using sq sq_GetItem_items(1) [OF assms] by (auto simp: sq_Remove_def)
qed

lemma walk_counted:
  assumes "0 \<le> i" and "i + int (length its) < 2 ^ 63" and "n \<le> 0 \<or> i < n"
  shows "snd (walk_values (\<lambda>it (i, s). case cb it s of
            (go_on, s') \<Rightarrow> if \<not> go_on then (False, i, s') else (i64 (i + 1) \<noteq> n, i64 (i + 1), s')) its (i, s)) =
    walk_values cb (if 0 < n then take (nat (n - i)) its else its) s"
  using assms
proof (induction its arbitrary: i s)
  case (Cons it its)
  have w: "i64 (i + 1) = i + 1" using Cons.prems by (simp add: in_i64_def)
  obtain g s' where cb: "cb it s = (g, s')" by fastforce
  show ?case
  proof (cases "i + 1 = n")
    case True
    then have "nat (n - i) = Suc 0" "0 < n" using Cons.prems(1) by linarith+
    moreover have "i64 n = n" using w True by simp
    ultimately show ?thesis using True by (simp add: cb)
  next
    case False
    then have *: "n \<le> 0 \<or> i + 1 < n" using Cons.prems(3) by linarith
    have "0 < n \<Longrightarrow> nat (n - i) = Suc (nat (n - (i + 1)))" using * by linarith
    then show ?thesis
      using Cons.IH [of "i + 1" s'] Cons.prems(1,2) * False by (auto simp: cb w)
  qed
qed simp

lemma sq_Walk_items:
  assumes "sq_ok env c"
  shows "sq_Walk c n cb s = walk_values cb (if 0 < n then take (nat n) (sq_items c) else sq_items c) s"
proof -
  have "lm_ok (txList c)" and "in_i64 (lm_Size (txList c))" using assms by (simp_all add: sq_ok_def)
  then have "int (length (sq_items c)) < 2 ^ 63"
    by (simp add: sq_items_def in_i64_def listmap.size_items)
  then show ?thesis
    using walk_counted [of 0 "sq_items c" n cb s] by (auto simp: sq_Walk_def lm_Walk_items sq_items_def)
qed

interpretation simple: queue_cache env "simple_queue env" "sq_ok env" sq_items
proof
  fix q it
  assume q: "sq_ok env q"
  show "(\<exists>e. qc_Push (simple_queue env) it q = (Fail e, q)) \<or>
      (\<exists>q'. qc_Push (simple_queue env) it q = (Ok (), q') \<and> sq_ok env q' \<and>
         item_hash env it \<notin> item_hash env ` set (sq_items q) \<and>
         mset (sq_items q') = add_mset it (mset (sq_items q)))"
  proof (cases "sq_Exist q (item_hash env it) \<or> lm_Size (txList q) \<ge> PoolCacheSize (subConfig q)")
    case True
    then have "\<exists>e. sq_Push env it q = (Fail e, q)" by (auto simp: sq_Push_def item_hash_def Let_def)
    then show ?thesis by (simp add: simple_queue_def)
  next
    case False
    then show ?thesis
      using sq_Push_Ok [OF q, of it] sq_Exist_items [OF q, of "item_hash env it"]
      by (auto simp: simple_queue_def)
  qed
  show "qc_Size (simple_queue env) q = int (length (sq_items q))"
    "qc_GetCacheBytes (simple_queue env) q = i64 (sum_list (map (\<lambda>it. te_Size env (Value it)) (sq_items q)))"
    using q by (simp_all add: simple_queue_def sq_Size_def sq_items_def sq_GetCacheBytes_def sq_ok_def listmap.size_items)
qed (simp_all add: simple_queue_def sq_distinct sq_Exist_items sq_GetItem_items sq_Remove_Ok sq_Walk_items)

end
