(* ===== verification/Mempool_Index.thy ===== *)
theory Mempool_Index
  imports Mempool_Cache
begin

text \<open>
  The pool cache keeps its indices consistent: whatever the sequence of pushes and removals,
  the index by sender holds exactly the queued transactions, the latest and the short-hash
  index hold only queued ones, the fee total is the sum over the queue, and the limits hold.
  The invariant is proved once over the queue interface and used for the simple queue.
\<close>

section \<open>The three indices\<close>

abbreviation by_hash :: "tx_env \<Rightarrow> Transaction \<Rightarrow> bytes \<times> Transaction" where
  "by_hash env \<equiv> (\<lambda>tx. (tx_Hash env tx, tx))"

definition acc_ok :: "tx_env \<Rightarrow> Transaction set \<Rightarrow> AccountTxIndex \<Rightarrow> bool" where
  "acc_ok env T acc \<longleftrightarrow>
     (\<forall>a lm. map_of (accMap acc) a = Some lm \<longrightarrow> lm_ok lm \<and> lm_items lm \<noteq> [] \<and>
        lm_Size lm \<le> maxperaccount acc \<and>
        set (lm_items lm) = by_hash env ` {tx \<in> T. tx_From env tx = a}) \<and>
     (\<forall>tx\<in>T. map_of (accMap acc) (tx_From env tx) \<noteq> None)"

definition last_ok :: "tx_env \<Rightarrow> Transaction set \<Rightarrow> LastTxCache \<Rightarrow> bool" where
  "last_ok env T c \<longleftrightarrow>
     lm_ok (lt_l c) \<and> lm_Size (lt_l c) \<le> max 1 (lt_max c) \<and> set (lm_items (lt_l c)) \<subseteq> by_hash env ` T"

definition shash_ok :: "tx_env \<Rightarrow> Transaction set \<Rightarrow> SHashTxCache \<Rightarrow> bool" where
  "shash_ok env T c \<longleftrightarrow>
     lm_ok (sh_l c) \<and> lm_Size (sh_l c) \<le> max 0 (sh_max c) \<and>
     set (lm_items (sh_l c)) \<subseteq> (\<lambda>tx. (CalcTxShortHash (tx_Hash env tx), tx)) ` T"

lemma acc_okD:
  assumes "acc_ok env T acc" and "map_of (accMap acc) a = Some lm"
  shows "lm_ok lm" and "lm_items lm \<noteq> []" and "lm_Size lm \<le> maxperaccount acc"
    and "set (lm_items lm) = by_hash env ` {tx \<in> T. tx_From env tx = a}"
  using assms by (auto simp: acc_ok_def)

lemma acc_ok_entry: "acc_ok env T acc \<Longrightarrow> tx \<in> T \<Longrightarrow> \<exists>lm. map_of (accMap acc) (tx_From env tx) = Some lm"
  by (auto simp: acc_ok_def)

lemma acc_okI:
  assumes "\<And>a lm. map_of (accMap acc) a = Some lm \<Longrightarrow> lm_ok lm \<and> lm_items lm \<noteq> [] \<and>
      lm_Size lm \<le> maxperaccount acc \<and> set (lm_items lm) = by_hash env ` {tx \<in> T. tx_From env tx = a}"
    and "\<And>tx. tx \<in> T \<Longrightarrow> map_of (accMap acc) (tx_From env tx) \<noteq> None"
  shows "acc_ok env T acc"
  using assms by (auto simp: acc_ok_def)

text \<open>Changing the entry of one sender.\<close>

lemma acc_ok_change:
  assumes ok: "acc_ok env T acc" and other: "\<And>t. tx_From env t \<noteq> a \<Longrightarrow> t \<in> T' \<longleftrightarrow> t \<in> T"
    and m: "\<And>b. b \<noteq> a \<Longrightarrow> map_of m b = map_of (accMap acc) b"
    and here: "case map_of m a of
        None \<Rightarrow> \<forall>t\<in>T'. tx_From env t \<noteq> a
      | Some lm \<Rightarrow> lm_ok lm \<and> lm_items lm \<noteq> [] \<and> lm_Size lm \<le> maxperaccount acc \<and>
          set (lm_items lm) = by_hash env ` {t \<in> T'. tx_From env t = a}"
  shows "acc_ok env T' (acc\<lparr>accMap := m\<rparr>)"
proof (rule acc_okI)
  fix b lm
  assume "map_of (accMap (acc\<lparr>accMap := m\<rparr>)) b = Some lm"
  then have lm: "map_of m b = Some lm" by simp
  show "lm_ok lm \<and> lm_items lm \<noteq> [] \<and> lm_Size lm \<le> maxperaccount (acc\<lparr>accMap := m\<rparr>) \<and>
      set (lm_items lm) = by_hash env ` {t \<in> T'. tx_From env t = b}"
  proof (cases "b = a")
    case True
    then show ?thesis using here lm by simp
  next
    case False
    then have "{t \<in> T'. tx_From env t = b} = {t \<in> T. tx_From env t = b}" using other by auto
    then show ?thesis using acc_okD [OF ok] m [OF False] lm by simp
  qed
next
  fix t
  assume t: "t \<in> T'"
  show "map_of (accMap (acc\<lparr>accMap := m\<rparr>)) (tx_From env t) \<noteq> None"
  proof (cases "tx_From env t = a")
    case True
    then show ?thesis using here t by (auto split: option.splits)
  next
    case False
    then show ?thesis using acc_ok_entry [OF ok, of t] other m t by auto
  qed
qed

lemma set_delete: "set (AList.delete k kvs) = {(k', v) \<in> set kvs. k' \<noteq> k}"
  by (auto simp: AList.delete_eq)

lemma at_Remove_ok:
  assumes ok: "acc_ok env T acc" and tx: "tx \<in> T" and inj: "inj_on (tx_Hash env) T"
  shows "acc_ok env (T - {tx}) (at_Remove env tx acc)"
    and "maxperaccount (at_Remove env tx acc) = maxperaccount acc"
proof -
  obtain lm where lm: "map_of (accMap acc) (tx_From env tx) = Some lm"
    using acc_ok_entry [OF ok tx] by blast
  note L = acc_okD [OF ok lm]
  let ?lm = "snd (lm_Remove (tx_Hash env tx) lm)"
  have lm_ok: "lm_ok ?lm" by (rule listmap.remove_ok [OF L(1)])
  have "set (lm_items ?lm) = {(k, v) \<in> set (lm_items lm). k \<noteq> tx_Hash env tx}"
    by (simp add: listmap.items_remove [OF L(1)] set_delete)
  also have "\<dots> = by_hash env ` {t \<in> T - {tx}. tx_From env t = tx_From env tx}"
    using inj tx by (auto simp: L(4) inj_on_def)
  finally have items: "set (lm_items ?lm) = \<dots>" .
  have size: "lm_Size ?lm = int (length (lm_items ?lm))" by (rule listmap.size_items [OF lm_ok])
  have "length (lm_items ?lm) \<le> length (lm_items lm)"
    by (simp add: listmap.items_remove [OF L(1)] length_delete_le)
  then have bound: "lm_Size ?lm \<le> maxperaccount acc"
    using L(3) by (simp add: size listmap.size_items [OF L(1)])
  show "acc_ok env (T - {tx}) (at_Remove env tx acc)"
  proof (cases "lm_items ?lm = []")
    case True
    then have none: "tx_From env t \<noteq> tx_From env tx" if "t \<in> T - {tx}" for t using items that by auto
    have "at_Remove env tx acc = acc\<lparr>accMap := AList.delete (tx_From env tx) (accMap acc)\<rparr>"
      using True size by (simp add: at_Remove_def lm)
    moreover have "acc_ok env (T - {tx}) (acc\<lparr>accMap := AList.delete (tx_From env tx) (accMap acc)\<rparr>)"
      by (rule acc_ok_change [OF ok]) (use none in \<open>auto simp: delete_conv'\<close>)
    ultimately show ?thesis by simp
  next
    case False
    then have "at_Remove env tx acc = acc\<lparr>accMap := AList.update (tx_From env tx) ?lm (accMap acc)\<rparr>"
      using size by (simp add: at_Remove_def lm)
    moreover have "acc_ok env (T - {tx}) (acc\<lparr>accMap := AList.update (tx_From env tx) ?lm (accMap acc)\<rparr>)"
      by (rule acc_ok_change [OF ok]) (use items lm_ok bound False in \<open>auto simp: update_conv'\<close>)
    ultimately show ?thesis by simp
  qed
  show "maxperaccount (at_Remove env tx acc) = maxperaccount acc"
    by (simp add: at_Remove_def lm Let_def)
qed

lemma at_Push_ok:
  assumes ok: "acc_ok env T acc" and new: "tx_Hash env tx \<notin> tx_Hash env ` T"
    and can: "CanPush env tx acc" and pos: "0 < maxperaccount acc"
  shows "\<exists>acc'. at_Push env tx acc = (Ok (), acc') \<and> acc_ok env (insert tx T) acc' \<and>
    maxperaccount acc' = maxperaccount acc"
proof -
  let ?a = "tx_From env tx"
  let ?lm = "case map_of (accMap acc) ?a of Some lm \<Rightarrow> lm | None \<Rightarrow> lm_New"
  have "lm_ok ?lm \<and> lm_Size ?lm < maxperaccount acc \<and>
    set (lm_items ?lm) = by_hash env ` {t \<in> T. tx_From env t = ?a}"
  proof (cases "map_of (accMap acc) ?a")
    case None
    then have "tx_From env t \<noteq> ?a" if "t \<in> T" for t using acc_ok_entry [OF ok that] by auto
    then show ?thesis using None pos listmap.empty_ok by (auto simp: listmap.items_empty)
  next
    case (Some lm)
    then show ?thesis using acc_okD [OF ok Some] can by (auto simp: CanPush_def)
  qed
  then have L: "lm_ok ?lm" "lm_Size ?lm < maxperaccount acc"
    "set (lm_items ?lm) = by_hash env ` {t \<in> T. tx_From env t = ?a}" by blast+
  let ?lm' = "lm_Push (tx_Hash env tx) tx ?lm"
  have "\<not> lm_Exist ?lm (tx_Hash env tx)"
    using new by (auto simp: listmap.exists_items [OF L(1)] L(3))
  then have items: "lm_items ?lm' = lm_items ?lm @ [by_hash env tx]" and "lm_Size ?lm' = lm_Size ?lm + 1"
    by (simp_all add: listmap.items_push_new [OF L(1)] listmap.size_push [OF L(1)])
  then have "lm_ok ?lm'" "lm_Size ?lm' \<le> maxperaccount acc" "lm_items ?lm' \<noteq> []"
    "set (lm_items ?lm') = by_hash env ` {t \<in> insert tx T. tx_From env t = ?a}"
    using L listmap.push_ok [OF L(1)] by auto
  moreover have "at_Push env tx acc = (Ok (), acc\<lparr>accMap := AList.update ?a ?lm' (accMap acc)\<rparr>)"
    using L(2) by (simp add: at_Push_def Let_def)
  moreover have "acc_ok env (insert tx T) (acc\<lparr>accMap := AList.update ?a ?lm' (accMap acc)\<rparr>)"
    by (rule acc_ok_change [OF ok]) (use calculation in \<open>auto simp: update_conv'\<close>)
  ultimately show ?thesis by simp
qed

lemma lt_Remove_ok:
  assumes "last_ok env T c" and "inj_on (tx_Hash env) T" and "tx \<in> T"
  shows "last_ok env (T - {tx}) (lt_Remove env tx c)"
proof -
  have ok: "lm_ok (lt_l c)" using assms(1) by (simp add: last_ok_def)
  have "length (lm_items (snd (lm_Remove (tx_Hash env tx) (lt_l c)))) \<le> length (lm_items (lt_l c))"
    by (simp add: listmap.items_remove [OF ok] length_delete_le)
  then show ?thesis
    using assms listmap.remove_ok [OF ok]
    by (auto simp: last_ok_def lt_Remove_def listmap.size_items listmap.items_remove set_delete inj_on_def)
qed

lemma sh_Remove_ok:
  assumes "shash_ok env T c" and "tx \<in> T"
  shows "shash_ok env (T - {tx}) (sh_Remove env tx c)"
proof -
  have ok: "lm_ok (sh_l c)" using assms(1) by (simp add: shash_ok_def)
  have "length (lm_items (snd (lm_Remove (CalcTxShortHash (tx_Hash env tx)) (sh_l c)))) \<le> length (lm_items (sh_l c))"
    by (simp add: listmap.items_remove [OF ok] length_delete_le)
  then show ?thesis
    using assms listmap.remove_ok [OF ok]
    by (auto simp: shash_ok_def sh_Remove_def listmap.size_items listmap.items_remove set_delete)
qed

lemma sh_Push_ok:
  assumes "shash_ok env T c"
  shows "shash_ok env (insert tx T) (sh_Push env tx c)"
proof -
  have ok: "lm_ok (sh_l c)" using assms by (simp add: shash_ok_def)
  show ?thesis
    using assms listmap.push_ok [OF ok]
    by (auto simp: shash_ok_def sh_Push_def sh_Exist_def Let_def listmap.size_push [OF ok]
        listmap.items_push_new [OF ok])
qed

text \<open>A push into the full list of latest transactions first drops the oldest one.\<close>

lemma lt_Push_ok:
  assumes c: "last_ok env T c" and new: "tx_Hash env tx \<notin> tx_Hash env ` T"
  shows "last_ok env (insert tx T) (lt_Push env tx c)"
proof -
  have ok: "lm_ok (lt_l c)" and sub: "set (lm_items (lt_l c)) \<subseteq> by_hash env ` T"
    using c by (simp_all add: last_ok_def)
  obtain c1 where c1: "lt_Push env tx c = c1\<lparr>lt_l := lm_Push (tx_Hash env tx) tx (lt_l c1)\<rparr>"
    "lm_ok (lt_l c1)" "set (lm_items (lt_l c1)) \<subseteq> by_hash env ` T" "lm_Size (lt_l c1) < max 1 (lt_max c)"
    "lt_max c1 = lt_max c"
  proof (cases "lm_Size (lt_l c) \<ge> lt_max c \<and> lm_items (lt_l c) \<noteq> []")
    case True
    then obtain k v kvs where kv: "lm_items (lt_l c) = (k, v) # kvs" by (cases "lm_items (lt_l c)") auto
    then have v: "k = tx_Hash env v" "lm_GetTop (lt_l c) = Some v" "k \<notin> fst ` set kvs"
      using sub listmap.items_distinct [OF ok] by (auto simp: listmap.top_items [OF ok])
    let ?c1 = "lt_Remove env v c"
    have "lm_items (lt_l ?c1) = kvs"
      using v(3) by (simp add: lt_Remove_def v(1) [symmetric] listmap.items_remove [OF ok] kv delete_idem)
    moreover have "lm_ok (lt_l ?c1)" by (simp add: lt_Remove_def listmap.remove_ok [OF ok])
    ultimately show thesis
      using True c sub v(2) kv
      by (intro that [of ?c1])
        (auto simp: lt_Push_def Let_def listmap.size_items last_ok_def lt_Remove_def)
  next
    case False
    then have "lm_GetTop (lt_l c) = None" if "lm_Size (lt_l c) \<ge> lt_max c"
      using that by (simp add: listmap.top_items [OF ok])
    then have "lt_Push env tx c = c\<lparr>lt_l := lm_Push (tx_Hash env tx) tx (lt_l c)\<rparr>"
      by (simp add: lt_Push_def Let_def)
    then show thesis
      using False ok sub by (intro that [of c]) (auto simp: listmap.size_items)
  qed
  have "\<not> lm_Exist (lt_l c1) (tx_Hash env tx)"
    using new c1(3) by (auto simp: listmap.exists_items [OF c1(2)])
  then show ?thesis
    using c1 listmap.push_ok [OF c1(2)]
    by (auto simp: last_ok_def listmap.items_push_new [OF c1(2)] listmap.size_push [OF c1(2)])
qed

section \<open>The pool cache over any queue\<close>

definition pool_inv ::
  "tx_env \<Rightarrow> ('q \<Rightarrow> bool) \<Rightarrow> ('q \<Rightarrow> Item list) \<Rightarrow> 'q txCache \<Rightarrow> bool" where
  "pool_inv env q_ok q_items c \<longleftrightarrow>
     (case tc_q c of
        None \<Rightarrow> False
      | Some q \<Rightarrow>
          q_ok q \<and> 0 < maxperaccount (tc_acc c) \<and>
          acc_ok env (Value ` set (q_items q)) (tc_acc c) \<and>
          last_ok env (Value ` set (q_items q)) (tc_last c) \<and>
          shash_ok env (Value ` set (q_items q)) (tc_shash c) \<and>
          tc_totalFee c = i64 (sum_list (map (\<lambda>it. Fee (Value it)) (q_items q))))"

text \<open>The transactions the pool holds.\<close>

definition pool_items :: "('q \<Rightarrow> Item list) \<Rightarrow> 'q txCache \<Rightarrow> Item list" where
  "pool_items q_items c = (case tc_q c of None \<Rightarrow> [] | Some q \<Rightarrow> q_items q)"

context queue_cache
begin

lemma pool_invD:
  assumes "pool_inv env q_ok q_items c"
  obtains q where "tc_q c = Some q" and "q_ok q" and "0 < maxperaccount (tc_acc c)"
    and "acc_ok env (Value ` set (q_items q)) (tc_acc c)"
    and "last_ok env (Value ` set (q_items q)) (tc_last c)"
    and "shash_ok env (Value ` set (q_items q)) (tc_shash c)"
    and "tc_totalFee c = i64 (sum_list (map (\<lambda>it. Fee (Value it)) (q_items q)))"
  using assms by (auto simp: pool_inv_def split: option.splits)

lemma hash_inj: "q_ok q \<Longrightarrow> inj_on (tx_Hash env) (Value ` set (q_items q))"
  using distinct_items [of q] by (auto simp: distinct_map item_hash_def inj_on_def)

lemma Remove_present:
  assumes inv: "pool_inv env q_ok q_items c" and it: "it \<in> set (pool_items q_items c)"
  shows "\<exists>c'. tc_Remove env Q (item_hash env it) c = (Ok (), c') \<and> pool_inv env q_ok q_items c' \<and>
    pool_items q_items c' = filter (\<lambda>i. item_hash env i \<noteq> item_hash env it) (pool_items q_items c) \<and>
    maxperaccount (tc_acc c') = maxperaccount (tc_acc c)"
proof -
  obtain q where q: "tc_q c = Some q" "q_ok q" "0 < maxperaccount (tc_acc c)"
    and acc: "acc_ok env (Value ` set (q_items q)) (tc_acc c)"
    and last: "last_ok env (Value ` set (q_items q)) (tc_last c)"
    and shash: "shash_ok env (Value ` set (q_items q)) (tc_shash c)"
    and fee: "tc_totalFee c = i64 (sum_list (map (\<lambda>it. Fee (Value it)) (q_items q)))"
    by (rule pool_invD [OF inv])
  have it: "it \<in> set (q_items q)" using it by (simp add: pool_items_def q(1))
  obtain q' where q': "qc_Remove Q (item_hash env it) q = (Ok (), q')" "q_ok q'"
    "q_items q' = filter (\<lambda>i. item_hash env i \<noteq> item_hash env it) (q_items q)"
    using remove_item [OF q(2) it] by blast
  let ?T = "Value ` set (q_items q)"
  have T': "Value ` set (q_items q') = ?T - {Value it}"
    using hash_inj [OF q(2)] it by (auto simp: q'(3) item_hash_def inj_on_def)
  have tx: "Value it \<in> ?T" using it by simp
  note acc' = at_Remove_ok [OF acc tx hash_inj [OF q(2)]]
  let ?c = "c\<lparr>tc_q := Some q', tc_acc := at_Remove env (Value it) (tc_acc c),
    tc_last := lt_Remove env (Value it) (tc_last c), tc_totalFee := i64 (tc_totalFee c - Fee (Value it)),
    tc_shash := sh_Remove env (Value it) (tc_shash c)\<rparr>"
  have "tc_Remove env Q (item_hash env it) c = (Ok (), ?c)"
    using get_found [OF q(2) it] by (simp add: tc_Remove_def q(1) q'(1) Let_def)
  moreover have "pool_inv env q_ok q_items ?c"
    using acc' q'(2) q(3) lt_Remove_ok [OF last hash_inj [OF q(2)] tx] sh_Remove_ok [OF shash tx]
      sum_list_without [OF distinct_items [OF q(2)] it]
    by (simp add: pool_inv_def T' fee q'(3) [symmetric])
  ultimately show ?thesis using acc'(2) by (auto simp: pool_items_def q(1) q'(3))
qed

lemma Remove_absent:
  assumes "pool_inv env q_ok q_items c" and "h \<notin> item_hash env ` set (pool_items q_items c)"
  shows "tc_Remove env Q h c = (Ok (), c)"
proof -
  obtain q where q: "tc_q c = Some q" "q_ok q" by (rule pool_invD [OF assms(1)])
  then have "qc_GetItem Q q h = Fail ErrNotFound"
    using get_missing assms(2) by (simp add: pool_items_def)
  then show ?thesis by (simp add: tc_Remove_def q(1))
qed

text \<open>A removal never fails, and removes exactly the transaction with the hash.\<close>

lemma Remove_any:
  assumes inv: "pool_inv env q_ok q_items c"
  shows "\<exists>c'. tc_Remove env Q h c = (Ok (), c') \<and> pool_inv env q_ok q_items c' \<and>
    pool_items q_items c' = filter (\<lambda>i. item_hash env i \<noteq> h) (pool_items q_items c) \<and>
    maxperaccount (tc_acc c') = maxperaccount (tc_acc c)"
proof (cases "h \<in> item_hash env ` set (pool_items q_items c)")
  case True
  then show ?thesis using Remove_present [OF inv] by auto
next
  case False
  then have "filter (\<lambda>i. item_hash env i \<noteq> h) (pool_items q_items c) = pool_items q_items c"
    by (auto simp: filter_id_conv)
  then show ?thesis using Remove_absent [OF inv False] inv by simp
qed

lemma RemoveTxs_any:
  assumes "pool_inv env q_ok q_items c"
  shows "\<exists>c'. tc_RemoveTxs env Q hs c = (Ok (), c') \<and> pool_inv env q_ok q_items c' \<and>
    pool_items q_items c' = filter (\<lambda>i. item_hash env i \<notin> set hs) (pool_items q_items c) \<and>
    maxperaccount (tc_acc c') = maxperaccount (tc_acc c)"
  using assms
proof (induction hs arbitrary: c)
  case (Cons h hs)
  obtain c1 where c1: "tc_Remove env Q h c = (Ok (), c1)" "pool_inv env q_ok q_items c1"
    "pool_items q_items c1 = filter (\<lambda>i. item_hash env i \<noteq> h) (pool_items q_items c)"
    "maxperaccount (tc_acc c1) = maxperaccount (tc_acc c)"
    using Remove_any [OF Cons.prems] by blast
  then show ?case
    using Cons.IH [OF c1(2)] by (auto simp: conj_commute)
qed simp

lemma Push_cases:
  assumes inv: "pool_inv env q_ok q_items c"
  shows "(\<exists>e. tc_Push env Q now tx c = (Fail e, c)) \<or>
    (\<exists>c' it. tc_Push env Q now tx c = (Ok (), c') \<and> pool_inv env q_ok q_items c' \<and>
      it = \<lparr>Value = tx, Priority = Fee tx, EnterTime = now\<rparr> \<and>
      tx_Hash env tx \<notin> item_hash env ` set (pool_items q_items c) \<and>
      mset (pool_items q_items c') = add_mset it (mset (pool_items q_items c)) \<and>
      maxperaccount (tc_acc c') = maxperaccount (tc_acc c))"
proof -
  obtain q where q: "tc_q c = Some q" "q_ok q" "0 < maxperaccount (tc_acc c)"
    and acc: "acc_ok env (Value ` set (q_items q)) (tc_acc c)"
    and last: "last_ok env (Value ` set (q_items q)) (tc_last c)"
    and shash: "shash_ok env (Value ` set (q_items q)) (tc_shash c)"
    and fee: "tc_totalFee c = i64 (sum_list (map (\<lambda>it. Fee (Value it)) (q_items q)))"
    by (rule pool_invD [OF inv])
  let ?it = "\<lparr>Value = tx, Priority = Fee tx, EnterTime = now\<rparr>" and ?T = "Value ` set (q_items q)"
  consider (refused) "\<not> CanPush env tx (tc_acc c)"
    | (failed) e where "CanPush env tx (tc_acc c)" "qc_Push Q ?it q = (Fail e, q)"
    | (pushed) q' where "CanPush env tx (tc_acc c)" "qc_Push Q ?it q = (Ok (), q')" "q_ok q'"
        "item_hash env ?it \<notin> item_hash env ` set (q_items q)"
        "mset (q_items q') = add_mset ?it (mset (q_items q))"
    using push_cases [OF q(2), of ?it] by blast
  then show ?thesis
  proof cases
    case refused
    then show ?thesis by (simp add: tc_Push_def)
  next
    case failed
    then show ?thesis by (auto simp: tc_Push_def q(1))
  next
    case pushed
    have new: "tx_Hash env tx \<notin> tx_Hash env ` ?T" using pushed(4) by (auto simp: item_hash_def)
    obtain acc' where acc': "at_Push env tx (tc_acc c) = (Ok (), acc')" "acc_ok env (insert tx ?T) acc'"
      "maxperaccount acc' = maxperaccount (tc_acc c)"
      using at_Push_ok [OF acc new pushed(1) q(3)] by blast
    let ?c = "c\<lparr>tc_q := Some q', tc_acc := acc', tc_last := lt_Push env tx (tc_last c),
       tc_totalFee := i64 (tc_totalFee c + Fee tx), tc_shash := sh_Push env tx (tc_shash c)\<rparr>"
    have "tc_Push env Q now tx c = (Ok (), ?c)"
      using pushed(1,2) by (simp add: tc_Push_def q(1) acc'(1))
    moreover have T': "Value ` set (q_items q') = insert tx ?T"
      using arg_cong [OF pushed(5), of set_mset] by simp
    have "sum_list (map (\<lambda>it. Fee (Value it)) (q_items q')) =
        sum_list (map (\<lambda>it. Fee (Value it)) (q_items q)) + Fee tx"
      using arg_cong [OF pushed(5), of "\<lambda>M. sum_mset (image_mset (\<lambda>it. Fee (Value it)) M)"]
      by (simp add: sum_mset_sum_list [symmetric])
    then have "pool_inv env q_ok q_items ?c"
      using pushed(3) acc'(2,3) q(3) lt_Push_ok [OF last new] sh_Push_ok [OF shash]
      by (simp add: pool_inv_def T' fee)
    ultimately show ?thesis
      using pushed(4,5) acc'(3) by (simp add: pool_items_def q(1) item_hash_def)
  qed
qed

end

end
