(* ===== verification/Mempool.thy ===== *)
theory Mempool
  imports Mempool_Index "HOL-Library.Signed_Division"
begin

text \<open>
  The transaction pool, \<^verbatim>\<open>system/mempool/base.go\<close>, \<^verbatim>\<open>check.go\<close> and \<^verbatim>\<open>eventprocess.go\<close>: the
  operations on the pool state, the checks on the way in, and the handlers of the messages the
  module receives. The clock, the answers of the chain and of the executor, the address check
  and the executor types are fields of \<open>mem_env\<close>. The queue client is bound
  (\<^verbatim>\<open>SetQueueClient\<close> has been called), so \<^verbatim>\<open>AssertConfig\<close> does not panic.
\<close>

section \<open>State\<close>

record Header =
  h_Height :: int
  h_BlockTime :: int
  h_StateHash :: bytes
  h_Difficulty :: int

record mem_cfg =
  MaxTxNumPerAccount :: int
  MaxTxLast :: int
  mc_PoolCacheSize :: int
  MinTxFeeRate :: int
  MaxTxFeeRate :: int
  MaxTxFee :: int
  IsLevelFee :: bool
  ForceAccept :: bool
  DisableExecCheck :: bool

record 'q Mempool =
  mp_header :: "Header option"
  mp_sync :: bool
  mp_cfg :: mem_cfg
  mp_cache :: "'q txCache"

record mem_env =
  me_tx :: tx_env
  me_cfg :: tx_cfg
  me_MaxTxNumber :: "int \<Rightarrow> int" \<comment> \<open>\<^verbatim>\<open>cfg.GetP(height).MaxTxNumber\<close>\<close>
  me_info :: exec_info
  me_CheckAddress :: "string \<Rightarrow> bool"
  me_CheckDupTx :: "Transaction list \<Rightarrow> int \<Rightarrow> Transaction list outcome"
  me_checkTxListRemote :: "Transaction \<Rightarrow> Header \<Rightarrow> unit outcome"

text \<open>A nil header reads as zero through the getters of the generated code.\<close>

definition GetHeight :: "Header option \<Rightarrow> int" where
  "GetHeight h = (case h of None \<Rightarrow> 0 | Some h \<Rightarrow> h_Height h)"

definition GetBlockTime :: "Header option \<Rightarrow> int" where
  "GetBlockTime h = (case h of None \<Rightarrow> 0 | Some h \<Rightarrow> h_BlockTime h)"

definition MaxBlockSize :: int where "MaxBlockSize = 20000000"

definition NewMempool :: "mem_cfg \<Rightarrow> 'q Mempool" where
  "NewMempool cfg =
     (let cfg1 = (if MaxTxNumPerAccount cfg = 0 then cfg\<lparr>MaxTxNumPerAccount := 100\<rparr> else cfg);
          cfg2 = (if MaxTxLast cfg1 = 0 then cfg1\<lparr>MaxTxLast := 10\<rparr> else cfg1);
          cfg3 = (if mc_PoolCacheSize cfg2 = 0 then cfg2\<lparr>mc_PoolCacheSize := 10240\<rparr> else cfg2)
      in \<lparr>mp_header = None, mp_sync = False, mp_cfg = cfg3,
          mp_cache = newCache (MaxTxNumPerAccount cfg3) (MaxTxLast cfg3) (mc_PoolCacheSize cfg3)\<rparr>)"

definition getSync :: "'q Mempool \<Rightarrow> bool" where
  "getSync mem = mp_sync mem"

definition setSync :: "bool \<Rightarrow> 'q Mempool \<Rightarrow> 'q Mempool" where
  "setSync status mem = mem\<lparr>mp_sync := status\<rparr>"

definition mp_Size :: "'q QueueCache \<Rightarrow> 'q Mempool \<Rightarrow> int" where
  "mp_Size Q mem = tc_Size Q (mp_cache mem)"

definition SetMinFee :: "int \<Rightarrow> 'q Mempool \<Rightarrow> 'q Mempool" where
  "SetMinFee fee mem = mem\<lparr>mp_cfg := (mp_cfg mem)\<lparr>MinTxFeeRate := fee\<rparr>\<rparr>"

definition mp_SetQueueCache :: "'q \<Rightarrow> 'q Mempool \<Rightarrow> 'q Mempool" where
  "mp_SetQueueCache q mem = mem\<lparr>mp_cache := tc_SetQueueCache q (mp_cache mem)\<rparr>"

text \<open>A call on the cache as a call on the pool.\<close>

definition on_cache :: "('q txCache, 'a) op \<Rightarrow> ('q Mempool, 'a) op" where
  "on_cache f mem = (case f (mp_cache mem) of (r, c) \<Rightarrow> (r, mem\<lparr>mp_cache := c\<rparr>))"

definition filterTxList ::
  "mem_env \<Rightarrow> 'q QueueCache \<Rightarrow> int \<Rightarrow> int \<Rightarrow> string list \<Rightarrow> bool \<Rightarrow> 'q Mempool \<Rightarrow> Transaction list" where
  "filterTxList E Q now n dupMap isAll mem =
     (let height = GetHeight (mp_header mem); blocktime = GetBlockTime (mp_header mem) in
      wv_txs (tc_Walk Q n
        (\<lambda>it s.
          if dupMap \<noteq> [] \<and> tx_Hash (me_tx E) (Value it) \<in> set dupMap then (True, s)
          else if isExpired (me_tx E) (me_cfg E) now it height blocktime \<and> \<not> isAll then (True, s)
          else (True, s\<lparr>wv_txs := wv_txs s @ [Value it]\<rparr>))
        (mp_cache mem) \<lparr>wv_hashes = [], wv_txs = []\<rparr>))"

definition getTxList ::
  "mem_env \<Rightarrow> 'q QueueCache \<Rightarrow> int \<Rightarrow> int \<Rightarrow> bytes list \<Rightarrow> 'q Mempool \<Rightarrow> Transaction list" where
  "getTxList E Q now n hashes mem = filterTxList E Q now n hashes False mem"

fun mp_RemoveTxs :: "mem_env \<Rightarrow> 'q QueueCache \<Rightarrow> bytes list \<Rightarrow> ('q Mempool, unit) op" where
  "mp_RemoveTxs E Q [] mem = (Ok (), mem)"
| "mp_RemoveTxs E Q (h # hashes) mem =
     (if tc_Exist Q h (mp_cache mem)
      then andThen (on_cache (tc_Remove (me_tx E) Q h)) (\<lambda>_. mp_RemoveTxs E Q hashes) mem
      else mp_RemoveTxs E Q hashes mem)"

definition PushTx :: "mem_env \<Rightarrow> 'q QueueCache \<Rightarrow> int \<Rightarrow> Transaction \<Rightarrow> ('q Mempool, unit) op" where
  "PushTx E Q now tx = on_cache (tc_Push (me_tx E) Q now tx)"

definition setHeader :: "Header \<Rightarrow> 'q Mempool \<Rightarrow> 'q Mempool" where
  "setHeader h mem = mem\<lparr>mp_header := Some h\<rparr>"

definition mp_GetHeader :: "'q Mempool \<Rightarrow> Header option" where
  "mp_GetHeader mem = mp_header mem"

definition mp_GetAccTxs :: "mem_env \<Rightarrow> string list \<Rightarrow> 'q Mempool \<Rightarrow> TransactionDetail list" where
  "mp_GetAccTxs E addrs mem = GetAccTxs (me_info E) addrs (tc_acc (mp_cache mem))"

definition mp_TxNumOfAccount :: "string \<Rightarrow> 'q Mempool \<Rightarrow> int" where
  "mp_TxNumOfAccount addr mem = TxNumOfAccount addr (tc_acc (mp_cache mem))"

definition mp_GetLatestTx :: "'q Mempool \<Rightarrow> Transaction list" where
  "mp_GetLatestTx mem = GetLatestTx (tc_last (mp_cache mem))"

definition GetTotalCacheBytes :: "'q QueueCache \<Rightarrow> 'q Mempool \<Rightarrow> int outcome" where
  "GetTotalCacheBytes Q mem =
     (case tc_q (mp_cache mem) of None \<Rightarrow> Panic | Some q \<Rightarrow> Ok (qc_GetCacheBytes Q q))"

definition removeExpired :: "mem_env \<Rightarrow> 'q QueueCache \<Rightarrow> int \<Rightarrow> ('q Mempool, unit) op" where
  "removeExpired E Q now mem =
     on_cache (removeExpiredTx (me_tx E) Q (me_cfg E) now (GetHeight (mp_header mem))
       (GetBlockTime (mp_header mem))) mem"

text \<open>A block, as far as the pool reads it.\<close>

record Block =
  b_Height :: int
  b_BlockTime :: int
  b_StateHash :: bytes
  b_Txs :: "Transaction list"

definition RemoveTxsOfBlock :: "mem_env \<Rightarrow> 'q QueueCache \<Rightarrow> Block \<Rightarrow> ('q Mempool, unit) op" where
  "RemoveTxsOfBlock E Q b = mp_RemoveTxs E Q (map (tx_Hash (me_tx E)) (b_Txs b))"

definition Height :: "'q Mempool \<Rightarrow> int" where
  "Height mem = (case mp_header mem of None \<Rightarrow> -1 | Some h \<Rightarrow> h_Height h)"

section \<open>Fee rates\<close>

definition getCacheFeeRate :: "'q QueueCache \<Rightarrow> 'q Mempool \<Rightarrow> int" where
  "getCacheFeeRate Q mem =
     (case tc_q (mp_cache mem) of
        None \<Rightarrow> 0
      | Some q \<Rightarrow>
          let feeRate = qc_GetProperFee Q q;
              unitFee = MinTxFeeRate (mp_cfg mem);
              feeRate1 = (if unitFee \<noteq> 0 \<and> feeRate smod unitFee > 0
                          then i64 (i64 (feeRate sdiv unitFee + 1) * unitFee) else feeRate)
          in if feeRate1 > MaxTxFeeRate (mp_cfg mem) then MaxTxFeeRate (mp_cfg mem) else feeRate1)"

definition getLevelFeeRate :: "mem_env \<Rightarrow> 'q QueueCache \<Rightarrow> int \<Rightarrow> int \<Rightarrow> int \<Rightarrow> 'q Mempool \<Rightarrow> int outcome" where
  "getLevelFeeRate E Q baseFeeRate appendCount appendSize mem =
     (case GetTotalCacheBytes Q mem of
        Fail e \<Rightarrow> Fail e
      | Panic \<Rightarrow> Panic
      | Ok bytes \<Rightarrow>
          let sumByte = i64 (bytes + appendSize);
              maxTxNumber = me_MaxTxNumber E (Height mem);
              memSize = mp_Size Q mem;
              feeRate =
                (if sumByte \<ge> MaxBlockSize sdiv 20 \<or> i64 (memSize + appendCount) \<ge> maxTxNumber sdiv 2
                 then i64 (100 * baseFeeRate)
                 else if sumByte \<ge> MaxBlockSize sdiv 100 \<or> i64 (memSize + appendCount) \<ge> maxTxNumber sdiv 10
                 then i64 (10 * baseFeeRate)
                 else baseFeeRate)
          in Ok (if feeRate > MaxTxFeeRate (mp_cfg mem) then MaxTxFeeRate (mp_cfg mem) else feeRate))"

text \<open>The request is a transaction count and a size, or nil.\<close>

definition GetProperFeeRate :: "mem_env \<Rightarrow> 'q QueueCache \<Rightarrow> (int \<times> int) option \<Rightarrow> 'q Mempool \<Rightarrow> int outcome" where
  "GetProperFeeRate E Q req mem =
     (let (txCount, txSize) = (case req of None \<Rightarrow> (20, 0) | Some (n, s) \<Rightarrow> if n = 0 then (20, 0) else (n, s));
          txSize1 = (if txSize = 0 then 10240 else txSize);
          feeRate = getCacheFeeRate Q mem in
      if IsLevelFee (mp_cfg mem) then
        (case getLevelFeeRate E Q (MinTxFeeRate (mp_cfg mem)) txCount txSize1 mem of
           Ok levelFeeRate \<Rightarrow> Ok (if levelFeeRate > feeRate then levelFeeRate else feeRate)
         | Fail e \<Rightarrow> Fail e
         | Panic \<Rightarrow> Panic)
      else Ok feeRate)"

section \<open>Checks on the way in\<close>

definition checkExpireValid :: "mem_env \<Rightarrow> int \<Rightarrow> Transaction \<Rightarrow> 'q Mempool \<Rightarrow> bool" where
  "checkExpireValid E now tx mem =
     (if tx_IsExpire (me_tx E) (me_cfg E) tx (GetHeight (mp_header mem)) (GetBlockTime (mp_header mem)) then False
      else if Expire tx > 1000000000 \<and> Expire tx < i64 (now + 60) then False
      else True)"

definition CheckExpireValid :: "mem_env \<Rightarrow> int \<Rightarrow> Transaction \<Rightarrow> 'q Mempool \<Rightarrow> unit outcome" where
  "CheckExpireValid E now tx mem =
     (if mp_header mem = None then Fail ErrHeaderNotSet
      else if \<not> checkExpireValid E now tx mem then Fail ErrTxExpire
      else Ok ())"

definition mp_checkTx :: "mem_env \<Rightarrow> int \<Rightarrow> Transaction \<Rightarrow> 'q Mempool \<Rightarrow> unit outcome" where
  "mp_checkTx E now tx mem =
     (if \<not> me_CheckAddress E (To tx) then Fail ErrInvalidAddress
      else if mp_TxNumOfAccount (tx_From (me_tx E) tx) mem \<ge> MaxTxNumPerAccount (mp_cfg mem) then Fail ErrManyTx
      else CheckExpireValid E now tx mem)"

definition GetTotalFee :: "tx_env \<Rightarrow> Transaction \<Rightarrow> int \<Rightarrow> int outcome" where
  "GetTotalFee env tx minFee =
     (case GetTxGroup env tx of
        Fail e \<Rightarrow> Fail e
      | Panic \<Rightarrow> Panic
      | Ok None \<Rightarrow> GetRealFee env tx minFee
      | Ok (Some txs) \<Rightarrow> sum_fees env minFee 0 txs)"

definition checkLevelFee :: "mem_env \<Rightarrow> 'q QueueCache \<Rightarrow> Transaction \<Rightarrow> 'q Mempool \<Rightarrow> unit outcome" where
  "checkLevelFee E Q tx mem =
     (case getLevelFeeRate E Q (MinTxFeeRate (mp_cfg mem)) 0 0 mem of
        Fail e \<Rightarrow> Fail e
      | Panic \<Rightarrow> Panic
      | Ok feeRate \<Rightarrow>
          (case GetTotalFee (me_tx E) tx feeRate of
             Fail e \<Rightarrow> Fail e
           | Panic \<Rightarrow> Panic
           | Ok totalfee \<Rightarrow> if Fee tx < totalfee then Fail ErrTxFeeTooLow else Ok ()))"

fun check_each :: "mem_env \<Rightarrow> int \<Rightarrow> Transaction list \<Rightarrow> 'q Mempool \<Rightarrow> unit outcome" where
  "check_each E now [] mem = Ok ()"
| "check_each E now (tx # txs) mem =
     (case mp_checkTx E now tx mem of
        Ok _ \<Rightarrow> check_each E now txs mem | Fail e \<Rightarrow> Fail e | Panic \<Rightarrow> Panic)"

definition checkTxs :: "mem_env \<Rightarrow> 'q QueueCache \<Rightarrow> int \<Rightarrow> Transaction option \<Rightarrow> 'q Mempool \<Rightarrow> Transaction outcome" where
  "checkTxs E Q now data mem =
     (case data of
        None \<Rightarrow> Fail ErrEmptyTx
      | Some tx \<Rightarrow>
          (case tx_Check (me_tx E) (me_cfg E) tx (GetHeight (mp_header mem)) (MinTxFeeRate (mp_cfg mem)) (MaxTxFee (mp_cfg mem)) of
             Fail e \<Rightarrow> Fail e
           | Panic \<Rightarrow> Panic
           | Ok _ \<Rightarrow>
               (case (if IsLevelFee (mp_cfg mem) then checkLevelFee E Q tx mem else Ok ()) of
                  Fail e \<Rightarrow> Fail e
                | Panic \<Rightarrow> Panic
                | Ok _ \<Rightarrow>
                    (case GetTxGroup (me_tx E) tx of
                       Fail e \<Rightarrow> Fail e
                     | Panic \<Rightarrow> Panic
                     | Ok txs \<Rightarrow>
                         (case (case txs of None \<Rightarrow> mp_checkTx E now tx mem | Some ts \<Rightarrow> check_each E now ts mem) of
                            Ok _ \<Rightarrow> Ok tx | Fail e \<Rightarrow> Fail e | Panic \<Rightarrow> Panic)))))"

definition tx_CheckSign :: "tx_env \<Rightarrow> Transaction \<Rightarrow> bool" where
  "tx_CheckSign env tx =
     (case GetTxGroup env tx of
        Ok None \<Rightarrow> tx_checkSign env tx
      | Ok (Some txs) \<Rightarrow> group_CheckSign env txs
      | _ \<Rightarrow> False)"

definition mp_checkSign :: "mem_env \<Rightarrow> Transaction \<Rightarrow> Transaction outcome" where
  "mp_checkSign E tx = (if tx_CheckSign (me_tx E) tx then Ok tx else Fail ErrSign)"

definition checkTxRemote :: "mem_env \<Rightarrow> 'q QueueCache \<Rightarrow> int \<Rightarrow> Transaction \<Rightarrow> ('q Mempool, unit) op" where
  "checkTxRemote E Q now tx mem =
     (case GetTxGroup (me_tx E) tx of
        Fail e \<Rightarrow> (Fail e, mem)
      | Panic \<Rightarrow> (Panic, mem)
      | Ok txGroup \<Rightarrow>
          let txs = (case txGroup of None \<Rightarrow> [tx] | Some ts \<Rightarrow> ts) in
          (case mp_header mem of
             None \<Rightarrow> (Panic, mem) \<comment> \<open>\<^verbatim>\<open>lastheader.Height\<close> of a nil header\<close>
           | Some h \<Rightarrow>
               (case me_CheckDupTx E txs (h_Height h) of
                  Fail e \<Rightarrow> (Fail e, mem)
                | Panic \<Rightarrow> (Panic, mem)
                | Ok newtxs \<Rightarrow>
                    if length newtxs \<noteq> length txs then (Fail ErrDupTx, mem)
                    else case (if DisableExecCheck (mp_cfg mem) then Ok () else me_checkTxListRemote E tx h) of
                      Fail e \<Rightarrow> (Fail e, mem)
                    | Panic \<Rightarrow> (Panic, mem)
                    | Ok _ \<Rightarrow> PushTx E Q now tx mem)))"

section \<open>Giving back the transactions of a removed block\<close>

function del_loop :: "mem_env \<Rightarrow> 'q QueueCache \<Rightarrow> int \<Rightarrow> bool \<Rightarrow> Transaction list \<Rightarrow> ('q Mempool, unit) op" where
  "del_loop E Q now first [] mem = (Ok (), mem)"
| "del_loop E Q now first (tx # rest) mem =
     (if first \<and> ei_ActionName (me_info E) tx = ''miner'' then del_loop E Q now False rest mem
      else
        let g = GroupCount tx;
            grouped = (g > 1 \<and> g \<le> int (length (tx # rest)));
            tx1 = (if grouped then group_Tx (me_tx E) (take (nat g) (tx # rest)) else Some tx);
            rest1 = (if grouped then drop (nat g - 1) rest else rest)
        in case tx1 of
          None \<Rightarrow> (Panic, mem)
        | Some t \<Rightarrow>
            (case tx_Check (me_tx E) (me_cfg E) t (GetHeight (mp_header mem)) (MinTxFeeRate (mp_cfg mem)) (MaxTxFee (mp_cfg mem)) of
               Panic \<Rightarrow> (Panic, mem)
             | Fail e \<Rightarrow> del_loop E Q now False rest1 mem
             | Ok _ \<Rightarrow>
                 if \<not> checkExpireValid E now t mem then del_loop E Q now False rest1 mem
                 else case PushTx E Q now t mem of
                   (Panic, mem') \<Rightarrow> (Panic, mem')
                 | (_, mem') \<Rightarrow> del_loop E Q now False rest1 mem'))"
  by pat_completeness auto
termination
  by (relation "measure (\<lambda>(E, Q, now, first, txs, mem). length txs)") (auto split: if_splits)

definition delBlock :: "mem_env \<Rightarrow> 'q QueueCache \<Rightarrow> int \<Rightarrow> Block \<Rightarrow> ('q Mempool, unit) op" where
  "delBlock E Q now b mem =
     (if b_Txs b = [] then (Ok (), mem) else del_loop E Q now True (b_Txs b) mem)"

definition getTxListByHash ::
  "'q QueueCache \<Rightarrow> bool \<Rightarrow> string list \<Rightarrow> 'q Mempool \<Rightarrow> Transaction option outcome list" where
  "getTxListByHash Q isShort hashes mem =
     (if isShort then map (\<lambda>h. Ok (GetSHashTxCache h (tc_shash (mp_cache mem)))) hashes
      else map (\<lambda>h. getTxByHash Q h (mp_cache mem)) hashes)"

end
