(* ===== verification/Mempool_Events.thy ===== *)
theory Mempool_Events
  imports Mempool
begin

text \<open>
  The message handlers of the pool, \<^verbatim>\<open>system/mempool/eventprocess.go\<close>, and the module as a
  state machine: transactions that passed the first check wait for the signature check, then
  for the remote check, and enter the pool, while blocks are added and removed, transactions
  are deleted on request and expired ones are swept. The steps interleave freely, as the
  goroutines of the pipeline do; each works on the pool under its lock.
\<close>

section \<open>Handlers\<close>

definition eventTx :: "mem_env \<Rightarrow> 'q QueueCache \<Rightarrow> int \<Rightarrow> Transaction option \<Rightarrow> 'q Mempool \<Rightarrow> Transaction outcome" where
  "eventTx E Q now data mem =
     (if \<not> getSync mem then Fail ErrNotSync else checkTxs E Q now data mem)"

definition eventGetMempool :: "mem_env \<Rightarrow> 'q QueueCache \<Rightarrow> int \<Rightarrow> bool option \<Rightarrow> 'q Mempool \<Rightarrow> Transaction list" where
  "eventGetMempool E Q now req mem =
     filterTxList E Q now 0 [] (case req of None \<Rightarrow> False | Some isAll \<Rightarrow> isAll) mem"

definition eventDelTxList :: "mem_env \<Rightarrow> 'q QueueCache \<Rightarrow> bytes list \<Rightarrow> ('q Mempool, unit) op" where
  "eventDelTxList E Q hashes mem =
     (if hashes = [] then (Fail ErrSize, mem) else mp_RemoveTxs E Q hashes mem)"

definition eventTxList ::
  "mem_env \<Rightarrow> 'q QueueCache \<Rightarrow> int \<Rightarrow> int \<Rightarrow> bytes list \<Rightarrow> 'q Mempool \<Rightarrow> Transaction list outcome" where
  "eventTxList E Q now n hashes mem =
     (if n \<le> 0 then Fail ErrSize else Ok (getTxList E Q now n hashes mem))"

definition eventAddBlock :: "mem_env \<Rightarrow> 'q QueueCache \<Rightarrow> Block \<Rightarrow> ('q Mempool, unit) op" where
  "eventAddBlock E Q b mem =
     RemoveTxsOfBlock E Q b
       (if b_Height b > Height mem \<or> b_Height b = 0 \<and> Height mem = 0
        then setHeader \<lparr>h_Height = b_Height b, h_BlockTime = b_BlockTime b,
                        h_StateHash = b_StateHash b, h_Difficulty = 0\<rparr> mem
        else mem)"

definition eventGetMempoolSize :: "'q QueueCache \<Rightarrow> 'q Mempool \<Rightarrow> int" where
  "eventGetMempoolSize Q mem = mp_Size Q mem"

definition eventGetLastMempool :: "'q Mempool \<Rightarrow> Transaction list" where
  "eventGetLastMempool mem = mp_GetLatestTx mem"

text \<open>\<open>lastHeader\<close> is the answer of the chain to the request for the last header.\<close>

definition eventDelBlock ::
  "mem_env \<Rightarrow> 'q QueueCache \<Rightarrow> int \<Rightarrow> Header outcome \<Rightarrow> Block \<Rightarrow> ('q Mempool, unit) op" where
  "eventDelBlock E Q now lastHeader b mem =
     (if b_Height b \<noteq> GetHeight (mp_GetHeader mem) then (Ok (), mem)
      else case lastHeader of
        Fail e \<Rightarrow> (Ok (), mem)
      | Panic \<Rightarrow> (Panic, mem)
      | Ok h \<Rightarrow> delBlock E Q now b (setHeader h mem))"

definition eventGetAddrTxs :: "mem_env \<Rightarrow> string list \<Rightarrow> 'q Mempool \<Rightarrow> TransactionDetail list" where
  "eventGetAddrTxs E addrs mem = mp_GetAccTxs E addrs mem"

definition eventGetProperFee :: "mem_env \<Rightarrow> 'q QueueCache \<Rightarrow> (int \<times> int) option \<Rightarrow> 'q Mempool \<Rightarrow> int outcome" where
  "eventGetProperFee E Q req mem = GetProperFeeRate E Q req mem"

definition eventTxListByHash ::
  "'q QueueCache \<Rightarrow> bool \<Rightarrow> string list \<Rightarrow> 'q Mempool \<Rightarrow> Transaction option outcome list" where
  "eventTxListByHash Q isShort hashes mem = getTxListByHash Q isShort hashes mem"

text \<open>The answer is the flags and how many are set; nothing before the chain is in sync.\<close>

definition eventCheckTxsExist :: "'q QueueCache \<Rightarrow> bytes list \<Rightarrow> 'q Mempool \<Rightarrow> bool list \<times> int" where
  "eventCheckTxsExist Q hashes mem =
     (if mp_sync mem then
        (let flags = map (\<lambda>h. tc_Exist Q h (mp_cache mem)) hashes in (flags, int (length (filter id flags))))
      else ([], 0))"

section \<open>The module as a state machine\<close>

text \<open>\<open>on_chain\<close> says which blocks the chain can hand back when it removes them.\<close>

record 'q pool_state =
  ps_mem :: "'q Mempool"
  ps_in :: "Transaction list" \<comment> \<open>waiting for the signature check\<close>
  ps_signed :: "Transaction list" \<comment> \<open>waiting for the remote check\<close>

inductive pool_step ::
  "mem_env \<Rightarrow> 'q QueueCache \<Rightarrow> (Block \<Rightarrow> bool) \<Rightarrow> 'q pool_state \<Rightarrow> 'q pool_state \<Rightarrow> bool"
  for E Q on_chain where
  received: "eventTx E Q now data (ps_mem s) = Ok tx \<Longrightarrow> pool_step E Q on_chain s (s\<lparr>ps_in := tx # ps_in s\<rparr>)"
| signed: "ps_in s = xs @ tx # ys \<Longrightarrow> mp_checkSign E tx = Ok tx' \<Longrightarrow>
    pool_step E Q on_chain s (s\<lparr>ps_in := xs @ ys, ps_signed := tx' # ps_signed s\<rparr>)"
| unsigned: "ps_in s = xs @ tx # ys \<Longrightarrow> mp_checkSign E tx = Fail e \<Longrightarrow>
    pool_step E Q on_chain s (s\<lparr>ps_in := xs @ ys\<rparr>)"
| remote: "ps_signed s = xs @ tx # ys \<Longrightarrow> checkTxRemote E Q now tx (ps_mem s) = (r, mem') \<Longrightarrow>
    pool_step E Q on_chain s (s\<lparr>ps_signed := xs @ ys, ps_mem := mem'\<rparr>)"
| del_txs: "eventDelTxList E Q hashes (ps_mem s) = (r, mem') \<Longrightarrow> pool_step E Q on_chain s (s\<lparr>ps_mem := mem'\<rparr>)"
| add_block: "eventAddBlock E Q b (ps_mem s) = (r, mem') \<Longrightarrow> pool_step E Q on_chain s (s\<lparr>ps_mem := mem'\<rparr>)"
| del_block: "on_chain b \<Longrightarrow> eventDelBlock E Q now lastHeader b (ps_mem s) = (r, mem') \<Longrightarrow>
    pool_step E Q on_chain s (s\<lparr>ps_mem := mem'\<rparr>)"
| expire: "removeExpired E Q now (ps_mem s) = (r, mem') \<Longrightarrow> pool_step E Q on_chain s (s\<lparr>ps_mem := mem'\<rparr>)"
| in_sync: "pool_step E Q on_chain s (s\<lparr>ps_mem := setSync True (ps_mem s)\<rparr>)"
| polled: "pool_step E Q on_chain s (s\<lparr>ps_mem := setHeader h (ps_mem s)\<rparr>)"
| min_fee: "pool_step E Q on_chain s (s\<lparr>ps_mem := SetMinFee fee (ps_mem s)\<rparr>)"

definition pool_start :: "mem_cfg \<Rightarrow> 'q \<Rightarrow> 'q pool_state" where
  "pool_start cfg q = \<lparr>ps_mem = mp_SetQueueCache q (NewMempool cfg), ps_in = [], ps_signed = []\<rparr>"

abbreviation pool_reachable ::
  "mem_env \<Rightarrow> 'q QueueCache \<Rightarrow> (Block \<Rightarrow> bool) \<Rightarrow> mem_cfg \<Rightarrow> 'q \<Rightarrow> 'q pool_state \<Rightarrow> bool" where
  "pool_reachable E Q on_chain cfg q s \<equiv> (pool_step E Q on_chain)\<^sup>*\<^sup>* (pool_start cfg q) s"

section \<open>Every step keeps the indices consistent\<close>

text \<open>
  What the handlers do to the cache: they push transactions with a given property and remove
  others. \<open>kept\<close> is the invariant of the cache, its limits, and that every queued transaction
  has the property.
\<close>

definition kept ::
  "mem_env \<Rightarrow> ('q \<Rightarrow> bool) \<Rightarrow> ('q \<Rightarrow> Item list) \<Rightarrow> (Transaction \<Rightarrow> bool) \<Rightarrow> 'q Mempool \<Rightarrow> bool" where
  "kept E q_ok q_items P mem \<longleftrightarrow>
     pool_inv (me_tx E) q_ok q_items (mp_cache mem) \<and>
     (\<forall>it\<in>set (pool_items q_items (mp_cache mem)). P (Value it))"

lemma kept_fields [simp]:
  "kept E q_ok q_items P (mem\<lparr>mp_header := h\<rparr>) = kept E q_ok q_items P mem"
  "kept E q_ok q_items P (mem\<lparr>mp_sync := b\<rparr>) = kept E q_ok q_items P mem"
  "kept E q_ok q_items P (mem\<lparr>mp_cfg := cfg\<rparr>) = kept E q_ok q_items P mem"
  "kept E q_ok q_items P (setHeader h' mem) = kept E q_ok q_items P mem"
  by (simp_all add: kept_def setHeader_def)

text \<open>The transactions that a removed block gives back, groups joined.\<close>

function handed_back :: "mem_env \<Rightarrow> bool \<Rightarrow> Transaction list \<Rightarrow> Transaction list" where
  "handed_back E first [] = []"
| "handed_back E first (tx # rest) =
     (if first \<and> ei_ActionName (me_info E) tx = ''miner'' then handed_back E False rest
      else if GroupCount tx > 1 \<and> GroupCount tx \<le> int (length (tx # rest))
      then (hd (tx # rest))\<lparr>Header := Some (te_EncodeTxs (me_tx E) (take (nat (GroupCount tx)) (tx # rest)))\<rparr>
           # handed_back E False (drop (nat (GroupCount tx) - 1) rest)
      else tx # handed_back E False rest)"
  by pat_completeness auto
termination
  by (relation "measure (\<lambda>(E, first, txs). length txs)") auto

text \<open>The checks of a transaction return, they do not panic.\<close>

lemma GetRealFee_no_panic [simp]: "GetRealFee env tx rate \<noteq> Panic"
  by (simp add: GetRealFee_def Let_def)

lemma tx_check_no_panic [simp]: "tx_check env cfg tx height minfee maxFee \<noteq> Panic"
  by (simp add: tx_check_def split: outcome.split)

lemma sum_fees_no_panic [simp]: "sum_fees env minfee acc txs \<noteq> Panic"
  by (induction env minfee acc txs rule: sum_fees.induct) (simp_all split: outcome.split)

lemma check_links_no_panic [simp]: "check_links env n head first txs \<noteq> Panic"
proof (induction env n head first txs rule: check_links.induct)
  case (2 env n head first tx txs)
  then show ?case by (subst check_links.simps(2)) (auto split: list.splits)
qed simp

lemma CheckWithFork_no_panic:
  "CheckWithFork env cfg (map Some txs) cf pf height minfee maxFee \<noteq> Panic"
  by (simp add: CheckWithFork_def scan_txs_some split: outcome.split)

lemma tx_Check_no_panic:
  assumes "\<And>b. te_DecodeTxs env b \<noteq> Panic"
  shows "GetTxGroup env tx \<noteq> Panic" and "tx_Check env cfg tx height minfee maxFee \<noteq> Panic"
proof -
  show g: "GetTxGroup env tx \<noteq> Panic" using assms by (simp add: GetTxGroup_def split: outcome.split)
  show "tx_Check env cfg tx height minfee maxFee \<noteq> Panic"
    using g CheckWithFork_no_panic by (auto simp: tx_Check_def group_Check_def split: outcome.split option.split)
qed

lemma mp_checkTx_header: "mp_checkTx E now tx mem = Ok () \<Longrightarrow> mp_header mem \<noteq> None"
  by (auto simp: mp_checkTx_def CheckExpireValid_def split: if_splits)

lemma tx_Check_group:
  "tx_Check env cfg tx height minfee maxFee = Ok () \<Longrightarrow> GetTxGroup env tx = Ok (Some ts) \<Longrightarrow> ts \<noteq> []"
  by (auto simp: tx_Check_def group_Check_def CheckWithFork_def)

text \<open>A transaction passes the first check only once the pool knows a header.\<close>

lemma checkTxs_header:
  assumes "checkTxs E Q now data mem = Ok tx"
  shows "mp_header mem \<noteq> None"
proof -
  obtain g where g: "data = Some tx" "GetTxGroup (me_tx E) tx = Ok g"
    "tx_Check (me_tx E) (me_cfg E) tx (GetHeight (mp_header mem)) (MinTxFeeRate (mp_cfg mem)) (MaxTxFee (mp_cfg mem)) = Ok ()"
    "(case g of None \<Rightarrow> mp_checkTx E now tx mem | Some ts \<Rightarrow> check_each E now ts mem) = Ok ()"
    using assms by (auto simp: checkTxs_def split: option.splits outcome.splits)
  show ?thesis
  proof (cases g)
    case None
    then show ?thesis using g(4) mp_checkTx_header by auto
  next
    case (Some ts)
    then obtain t ts' where "ts = t # ts'" using tx_Check_group g(2,3) by (metis neq_Nil_conv)
    then show ?thesis using g(4) Some mp_checkTx_header by (auto split: outcome.splits)
  qed
qed

definition pool_state_ok ::
  "mem_env \<Rightarrow> ('q \<Rightarrow> bool) \<Rightarrow> ('q \<Rightarrow> Item list) \<Rightarrow> (Transaction \<Rightarrow> bool) \<Rightarrow> 'q pool_state \<Rightarrow> bool" where
  "pool_state_ok E q_ok q_items P s \<longleftrightarrow>
     kept E q_ok q_items P (ps_mem s) \<and> (\<forall>tx\<in>set (ps_signed s). P tx) \<and>
     (ps_in s \<noteq> [] \<or> ps_signed s \<noteq> [] \<longrightarrow> mp_header (ps_mem s) \<noteq> None)"

locale mempool_queue = queue_cache "me_tx E" Q q_ok q_items
  for E :: mem_env and Q :: "'q QueueCache" and q_ok :: "'q \<Rightarrow> bool" and q_items :: "'q \<Rightarrow> Item list"
begin

lemma PushTx_kept:
  assumes "kept E q_ok q_items P mem" and "P tx"
  shows "\<exists>r mem'. PushTx E Q now tx mem = (r, mem') \<and> r \<noteq> Panic \<and> kept E q_ok q_items P mem' \<and>
    mp_header mem' = mp_header mem"
proof -
  have inv: "pool_inv (me_tx E) q_ok q_items (mp_cache mem)" using assms(1) by (simp add: kept_def)
  from Push_cases [OF inv, of now tx] show ?thesis
  proof (elim disjE exE conjE)
    fix e
    assume "tc_Push (me_tx E) Q now tx (mp_cache mem) = (Fail e, mp_cache mem)"
    then show ?thesis using assms(1) by (simp add: PushTx_def on_cache_def kept_def)
  next
    fix c' it
    assume c: "tc_Push (me_tx E) Q now tx (mp_cache mem) = (Ok (), c')" "pool_inv (me_tx E) q_ok q_items c'"
      and it: "it = \<lparr>Value = tx, Priority = Fee tx, EnterTime = now\<rparr>"
      and m: "mset (pool_items q_items c') = add_mset it (mset (pool_items q_items (mp_cache mem)))"
    have "set (pool_items q_items c') = insert it (set (pool_items q_items (mp_cache mem)))"
      using arg_cong [OF m, of set_mset] by simp
    then show ?thesis
      using assms c it by (simp add: PushTx_def on_cache_def kept_def)
  qed
qed

lemma RemoveTxs_kept:
  assumes "kept E q_ok q_items P mem"
  shows "\<exists>mem'. mp_RemoveTxs E Q hs mem = (Ok (), mem') \<and> kept E q_ok q_items P mem' \<and>
    mp_header mem' = mp_header mem \<and>
    pool_items q_items (mp_cache mem') =
      filter (\<lambda>i. item_hash (me_tx E) i \<notin> set hs) (pool_items q_items (mp_cache mem))"
  using assms
proof (induction hs arbitrary: mem)
  case (Cons h hs)
  have inv: "pool_inv (me_tx E) q_ok q_items (mp_cache mem)" using Cons.prems by (simp add: kept_def)
  obtain c where c: "tc_Remove (me_tx E) Q h (mp_cache mem) = (Ok (), c)" "pool_inv (me_tx E) q_ok q_items c"
    "pool_items q_items c = filter (\<lambda>i. item_hash (me_tx E) i \<noteq> h) (pool_items q_items (mp_cache mem))"
    using Remove_any [OF inv] by blast
  obtain q where q: "tc_q (mp_cache mem) = Some q" "q_ok q" by (rule pool_invD [OF inv])
  show ?case
  proof (cases "tc_Exist Q h (mp_cache mem)")
    case True
    have "kept E q_ok q_items P (mem\<lparr>mp_cache := c\<rparr>)" using Cons.prems c by (simp add: kept_def)
    then show ?thesis
      using Cons.IH [of "mem\<lparr>mp_cache := c\<rparr>"] True c
      by (auto simp: on_cache_def andThen_def conj_commute)
  next
    case False
    then have "h \<notin> item_hash (me_tx E) ` set (pool_items q_items (mp_cache mem))"
      using exist_items [OF q(2)] by (simp add: tc_Exist_def q(1) pool_items_def)
    then have "filter (\<lambda>i. item_hash (me_tx E) i \<notin> set (h # hs)) (pool_items q_items (mp_cache mem)) =
        filter (\<lambda>i. item_hash (me_tx E) i \<notin> set hs) (pool_items q_items (mp_cache mem))"
      by (intro filter_cong) auto
    then show ?thesis using Cons.IH [OF Cons.prems] False by simp
  qed
qed simp

lemma removeExpired_kept:
  assumes "kept E q_ok q_items P mem"
  shows "\<exists>mem'. removeExpired E Q now mem = (Ok (), mem') \<and> kept E q_ok q_items P mem' \<and>
    mp_header mem' = mp_header mem"
proof -
  have inv: "pool_inv (me_tx E) q_ok q_items (mp_cache mem)" using assms by (simp add: kept_def)
  obtain q where q: "tc_q (mp_cache mem) = Some q" "q_ok q" by (rule pool_invD [OF inv])
  obtain hs where "removeExpiredTx (me_tx E) Q (me_cfg E) now (GetHeight (mp_header mem))
      (GetBlockTime (mp_header mem)) (mp_cache mem) = tc_RemoveTxs (me_tx E) Q hs (mp_cache mem)"
    by (simp add: removeExpiredTx_def q(1) Let_def)
  then show ?thesis
    using RemoveTxs_any [OF inv, of hs] assms by (auto simp: removeExpired_def on_cache_def kept_def)
qed

lemma del_loop_kept:
  assumes decode: "\<And>b. te_DecodeTxs (me_tx E) b \<noteq> Panic"
    and "kept E q_ok q_items P mem" and "\<forall>t\<in>set (handed_back E first txs). P t"
  shows "\<exists>mem'. del_loop E Q now first txs mem = (Ok (), mem') \<and> kept E q_ok q_items P mem' \<and>
    mp_header mem' = mp_header mem"
  using assms(2,3)
proof (induction "length txs" arbitrary: first txs mem rule: less_induct)
  case less
  show ?case
  proof (cases txs)
    case (Cons tx rest)
    define grouped where "grouped \<longleftrightarrow> GroupCount tx > 1 \<and> GroupCount tx \<le> int (length (tx # rest))"
    define t where "t = (if grouped then tx\<lparr>Header := Some (te_EncodeTxs (me_tx E) (take (nat (GroupCount tx)) (tx # rest)))\<rparr> else tx)"
    define rest1 where "rest1 = (if grouped then drop (nat (GroupCount tx) - 1) rest else rest)"
    have short: "length rest1 < length txs" by (simp add: rest1_def Cons less_Suc_eq_le)
    show ?thesis
    proof (cases "first \<and> ei_ActionName (me_info E) tx = ''miner''")
      case True
      then show ?thesis using less Cons by simp
    next
      case False
      have "grouped \<Longrightarrow> 2 \<le> nat (GroupCount tx)" unfolding grouped_def by linarith
      then have tx1: "(if grouped then group_Tx (me_tx E) (take (nat (GroupCount tx)) (tx # rest)) else Some tx) = Some t"
        by (auto simp: t_def group_Tx_def grouped_def take_Cons')
      have hb: "handed_back E first txs = t # handed_back E False rest1"
        using False by (auto simp: Cons t_def rest1_def grouped_def)
      have IH: "\<exists>mem'. del_loop E Q now False rest1 m = (Ok (), mem') \<and> kept E q_ok q_items P mem' \<and>
          mp_header mem' = mp_header m" if "kept E q_ok q_items P m" for m
        using less.hyps [OF short that] less.prems(2) hb by simp
      obtain r m where push: "PushTx E Q now t mem = (r, m)" "r \<noteq> Panic" "kept E q_ok q_items P m"
        "mp_header m = mp_header mem"
        using PushTx_kept [OF less.prems(1), of t now] less.prems(2) hb by auto
      have step: "del_loop E Q now first txs mem =
        (case tx_Check (me_tx E) (me_cfg E) t (GetHeight (mp_header mem)) (MinTxFeeRate (mp_cfg mem)) (MaxTxFee (mp_cfg mem)) of
               Panic \<Rightarrow> (Panic, mem)
             | Fail e \<Rightarrow> del_loop E Q now False rest1 mem
             | Ok _ \<Rightarrow>
                 if \<not> checkExpireValid E now t mem then del_loop E Q now False rest1 mem
                 else del_loop E Q now False rest1 m)"
        unfolding Cons del_loop.simps(2) Let_def if_not_P [OF False] grouped_def [symmetric] tx1
          rest1_def [symmetric] option.case
        using push(1,2) by (auto split: outcome.split)
      show ?thesis
        using IH [OF less.prems(1)] IH [OF push(3)] push(4) tx_Check_no_panic(2) [OF decode]
        by (auto simp: step split: outcome.split)
    qed
  qed (use less in simp)
qed

lemma checkTxRemote_kept:
  assumes "kept E q_ok q_items P mem" and "P tx" and "checkTxRemote E Q now tx mem = (r, mem')"
  shows "kept E q_ok q_items P mem'" and "mp_header mem' = mp_header mem"
proof -
  have "mem' = mem \<or> PushTx E Q now tx mem = (r, mem')"
    using assms(3) by (auto simp: checkTxRemote_def Let_def split: outcome.splits option.splits if_splits)
  then show "kept E q_ok q_items P mem'" and "mp_header mem' = mp_header mem"
    using PushTx_kept [OF assms(1,2), of now] assms(1) by auto
qed

lemma eventDelTxList_kept:
  assumes "kept E q_ok q_items P mem" and "eventDelTxList E Q hs mem = (r, mem')"
  shows "kept E q_ok q_items P mem' \<and> mp_header mem' = mp_header mem"
  using assms RemoveTxs_kept [OF assms(1), of hs] by (auto simp: eventDelTxList_def split: if_splits)

lemma eventAddBlock_kept:
  assumes "kept E q_ok q_items P mem"
  shows "\<exists>mem'. eventAddBlock E Q b mem = (Ok (), mem') \<and> kept E q_ok q_items P mem' \<and>
    (mp_header mem \<noteq> None \<longrightarrow> mp_header mem' \<noteq> None) \<and>
    Height mem' = (if b_Height b > Height mem then b_Height b else Height mem) \<and>
    pool_items q_items (mp_cache mem') =
      filter (\<lambda>i. item_hash (me_tx E) i \<notin> tx_Hash (me_tx E) ` set (b_Txs b)) (pool_items q_items (mp_cache mem))"
proof -
  let ?m = "if b_Height b > Height mem \<or> b_Height b = 0 \<and> Height mem = 0
      then setHeader \<lparr>h_Height = b_Height b, h_BlockTime = b_BlockTime b, h_StateHash = b_StateHash b,
        h_Difficulty = 0\<rparr> mem else mem"
  have "kept E q_ok q_items P ?m" and "mp_header mem \<noteq> None \<longrightarrow> mp_header ?m \<noteq> None"
    and "mp_cache ?m = mp_cache mem" and "Height ?m = (if b_Height b > Height mem then b_Height b else Height mem)"
    using assms by (simp_all add: setHeader_def Height_def)
  then show ?thesis
    using RemoveTxs_kept [of P ?m "map (tx_Hash (me_tx E)) (b_Txs b)"]
    unfolding eventAddBlock_def RemoveTxsOfBlock_def by (fastforce simp: Height_def)
qed

lemma eventDelBlock_kept:
  assumes "\<And>b. te_DecodeTxs (me_tx E) b \<noteq> Panic" and "kept E q_ok q_items P mem"
    and "\<forall>t\<in>set (handed_back E True (b_Txs b)). P t"
    and "eventDelBlock E Q now lastHeader b mem = (r, mem')"
  shows "kept E q_ok q_items P mem' \<and> (mp_header mem \<noteq> None \<longrightarrow> mp_header mem' \<noteq> None)"
proof -
  have k: "kept E q_ok q_items P (setHeader h mem)" for h using assms(2) by simp
  consider (same) "mem' = mem" | (header) h where "mem' = setHeader h mem"
    | (loop) h where "del_loop E Q now True (b_Txs b) (setHeader h mem) = (r, mem')"
    using assms(4) by (auto simp: eventDelBlock_def delBlock_def split: if_splits outcome.splits)
  then show ?thesis
  proof cases
    case (loop h)
    then show ?thesis
      using del_loop_kept [OF assms(1) k [of h] assms(3), of now] by (auto simp: setHeader_def)
  qed (use assms(2) in \<open>simp_all add: setHeader_def\<close>)
qed

lemma pool_step_ok:
  assumes "pool_step E Q on_chain s s'" and ok: "pool_state_ok E q_ok q_items P s"
    and decode: "\<And>b. te_DecodeTxs (me_tx E) b \<noteq> Panic"
    and sign: "\<And>tx. tx_CheckSign (me_tx E) tx \<Longrightarrow> P tx"
    and chain: "\<And>b. on_chain b \<Longrightarrow> \<forall>t\<in>set (handed_back E True (b_Txs b)). P t"
  shows "pool_state_ok E q_ok q_items P s'"
proof -
  have k: "kept E q_ok q_items P (ps_mem s)" and p: "\<forall>tx\<in>set (ps_signed s). P tx"
    and h: "ps_in s \<noteq> [] \<or> ps_signed s \<noteq> [] \<longrightarrow> mp_header (ps_mem s) \<noteq> None"
    using ok by (auto simp: pool_state_ok_def)
  show ?thesis
    using assms(1)
  proof cases
    case (received now data tx)
    then have "mp_header (ps_mem s) \<noteq> None"
      using checkTxs_header by (auto simp: eventTx_def split: if_splits)
    then show ?thesis using k p received by (simp add: pool_state_ok_def)
  next
    case (signed xs tx ys tx')
    then show ?thesis using k p h sign by (auto simp: pool_state_ok_def mp_checkSign_def split: if_splits)
  next
    case (unsigned xs tx ys e)
    then show ?thesis using k p h by (auto simp: pool_state_ok_def)
  next
    case (remote xs tx ys now r mem')
    then have "P tx" using p by simp
    from checkTxRemote_kept [OF k this remote(3)] show ?thesis
      using p h remote by (auto simp: pool_state_ok_def)
  next
    case (del_txs hashes r mem')
    then show ?thesis using eventDelTxList_kept [OF k] p h by (auto simp: pool_state_ok_def)
  next
    case (add_block b r mem')
    then show ?thesis using eventAddBlock_kept [OF k, of b] p h by (auto simp: pool_state_ok_def)
  next
    case (del_block b now lastHeader r mem')
    then show ?thesis using eventDelBlock_kept [OF decode k chain] p h by (auto simp: pool_state_ok_def)
  next
    case (expire now r mem')
    then show ?thesis using removeExpired_kept [OF k, of now] p h by (auto simp: pool_state_ok_def)
  qed (use k p h in \<open>auto simp: pool_state_ok_def setSync_def setHeader_def SetMinFee_def\<close>)
qed

lemma pool_reachable_ok:
  assumes "(pool_step E Q on_chain)\<^sup>*\<^sup>* s s'" and "pool_state_ok E q_ok q_items P s"
    and "\<And>b. te_DecodeTxs (me_tx E) b \<noteq> Panic"
    and "\<And>tx. tx_CheckSign (me_tx E) tx \<Longrightarrow> P tx"
    and "\<And>b. on_chain b \<Longrightarrow> \<forall>t\<in>set (handed_back E True (b_Txs b)). P t"
  shows "pool_state_ok E q_ok q_items P s'"
  using assms(1,2)
  by (induction rule: rtranclp_induct) (auto intro: pool_step_ok [OF _ _ assms(3-5)])

end

end
