(* ===== verification/Mempool_Props.thy ===== *)
theory Mempool_Props
  imports Mempool_Events
begin

text \<open>
  The transaction pool with the simple queue: in every state the module can reach, whatever
  the interleaving of its handlers, the indices agree with the queue, only signed transactions
  are in it and no handler panics; what a push answers, that a removal undoes it, what a
  request for transactions returns, what a new block removes, and the bounds on fee rates.
\<close>

interpretation simple_pool: mempool_queue E "simple_queue (me_tx E)" "sq_ok (me_tx E)" sq_items
  by (rule mempool_queue.intro) (rule simple.queue_cache_axioms)

lemma pool_start_ok:
  assumes "0 \<le> MaxTxNumPerAccount cfg" and "in_i64 (PoolCacheSize sub)"
  shows "pool_state_ok E (sq_ok (me_tx E)) sq_items P (pool_start cfg (NewSimpleQueue sub))"
  using assms
  by (auto simp: listmap.empty_ok pool_state_ok_def kept_def pool_start_def pool_inv_def mp_SetQueueCache_def NewMempool_def
      tc_SetQueueCache_def newCache_def pool_items_def NewSimpleQueue_def sq_items_def sq_ok_def
      NewAccountTxIndex_def NewLastTxCache_def NewSHashTxCache_def acc_ok_def last_ok_def shash_ok_def
      listmap.items_empty in_i64_def i64_def Let_def)

text \<open>The states of a pool that starts empty, with sensible limits.\<close>

definition simple_reachable :: "mem_env \<Rightarrow> (Block \<Rightarrow> bool) \<Rightarrow> SimpleQueue pool_state \<Rightarrow> bool" where
  "simple_reachable E on_chain s \<longleftrightarrow>
     (\<exists>cfg sub. 0 \<le> MaxTxNumPerAccount cfg \<and> in_i64 (PoolCacheSize sub) \<and>
        pool_reachable E (simple_queue (me_tx E)) on_chain cfg (NewSimpleQueue sub) s)"

lemma simple_reachable_ok:
  assumes "simple_reachable E on_chain s" and "\<forall>b. te_DecodeTxs (me_tx E) b \<noteq> Panic"
    and "\<And>tx. tx_CheckSign (me_tx E) tx \<Longrightarrow> P tx"
    and "\<And>b. on_chain b \<Longrightarrow> \<forall>t\<in>set (handed_back E True (b_Txs b)). P t"
  shows "pool_state_ok E (sq_ok (me_tx E)) sq_items P s"
  using assms(1) simple_pool.pool_reachable_ok [OF _ pool_start_ok spec [OF assms(2)] assms(3,4)]
  by (auto simp: simple_reachable_def)

lemma simple_reachable_inv:
  assumes "simple_reachable E on_chain s" and "\<forall>b. te_DecodeTxs (me_tx E) b \<noteq> Panic"
  shows "pool_inv (me_tx E) (sq_ok (me_tx E)) sq_items (mp_cache (ps_mem s))"
    and "ps_signed s \<noteq> [] \<Longrightarrow> mp_header (ps_mem s) \<noteq> None"
  using simple_reachable_ok [OF assms, of "\<lambda>_. True"] by (auto simp: pool_state_ok_def kept_def)

lemma pool_inv_count:
  assumes "pool_inv env (sq_ok env) sq_items c"
  shows "TxNumOfAccount a (tc_acc c) =
    int (length (filter (\<lambda>it. tx_From env (Value it) = a) (pool_items sq_items c)))"
    and "TxNumOfAccount a (tc_acc c) \<le> maxperaccount (tc_acc c)"
proof -
  obtain q where q: "tc_q c = Some q" "sq_ok env q" "0 < maxperaccount (tc_acc c)"
    and acc: "acc_ok env (Value ` set (sq_items q)) (tc_acc c)" by (rule simple.pool_invD [OF assms])
  let ?its = "filter (\<lambda>it. tx_From env (Value it) = a) (sq_items q)"
  have d: "distinct (map (item_hash env) ?its)"
    using simple.distinct_items [OF q(2)] by (simp add: distinct_map_filter)
  have *: "TxNumOfAccount a (tc_acc c) = int (length ?its) \<and> TxNumOfAccount a (tc_acc c) \<le> maxperaccount (tc_acc c)"
  proof (cases "map_of (accMap (tc_acc c)) a")
    case None
    then have "?its = []" using acc_ok_entry [OF acc] by (fastforce simp: filter_empty_conv)
    then show ?thesis using None q(3) by (simp add: TxNumOfAccount_def)
  next
    case (Some lm)
    note L = acc_okD [OF acc Some]
    let ?keyed = "map (\<lambda>it. (item_hash env it, Value it)) ?its"
    have "set (lm_items lm) = set ?keyed" by (auto simp: L(4) item_hash_def)
    moreover have "distinct ?keyed" using d by (auto simp: distinct_map inj_on_def)
    moreover have "distinct (lm_items lm)" using listmap.items_distinct [OF L(1)] by (simp add: distinct_map)
    ultimately have "length (lm_items lm) = length ?keyed"
      using distinct_card [of "lm_items lm"] distinct_card [of ?keyed] by simp
    then have "length (lm_items lm) = length ?its" by simp
    then show ?thesis using L(3) by (simp add: TxNumOfAccount_def Some listmap.size_items [OF L(1)])
  qed
  then show "TxNumOfAccount a (tc_acc c) = int (length (filter (\<lambda>it. tx_From env (Value it) = a) (pool_items sq_items c)))"
    and "TxNumOfAccount a (tc_acc c) \<le> maxperaccount (tc_acc c)" by (simp_all add: pool_items_def q(1))
qed

lemma CanPush_at_Push:
  "CanPush env tx acc \<Longrightarrow> 0 < maxperaccount acc \<Longrightarrow> \<exists>acc'. at_Push env tx acc = (Ok (), acc')"
  by (auto simp: CanPush_def at_Push_def Let_def split: option.splits)

lemma walk_collect: "walk_values (\<lambda>v txs. (True, txs @ [v])) vs s = s @ vs"
  by (induction vs arbitrary: s) simp_all

text \<open>
  C11: In every state the transaction pool can reach, its indices agree with its queue. No two
  queued transactions have the same hash, and each is found by it; the number of transactions
  counted for a sender is the number of its transactions in the queue and within the limit; the
  fee total and the byte total are the sums over the queue (modulo 64 bits, as the counters
  are); the latest transactions and those found by a short hash are in the queue, the latter
  under their own short hash.
\<close>
theorem pool_indices_consistent:
  assumes "simple_reachable E on_chain s" and "\<forall>b. te_DecodeTxs (me_tx E) b \<noteq> Panic"
  shows "let c = mp_cache (ps_mem s); items = pool_items sq_items c; Q = simple_queue (me_tx E) in
    distinct (map (item_hash (me_tx E)) items) \<and>
    (\<forall>it. it \<in> set items \<longrightarrow> getTxByHash Q (item_hash (me_tx E) it) c = Ok (Some (Value it))) \<and>
    (\<forall>a. TxNumOfAccount a (tc_acc c) = int (length (filter (\<lambda>it. tx_From (me_tx E) (Value it) = a) items)) \<and>
         TxNumOfAccount a (tc_acc c) \<le> maxperaccount (tc_acc c)) \<and>
    TotalFee c = i64 (sum_list (map (\<lambda>it. Fee (Value it)) items)) \<and>
    GetTotalCacheBytes Q (ps_mem s) = Ok (i64 (sum_list (map (\<lambda>it. te_Size (me_tx E) (Value it)) items))) \<and>
    set (GetLatestTx (tc_last c)) \<subseteq> Value ` set items \<and>
    (\<forall>h tx. GetSHashTxCache h (tc_shash c) = Some tx \<longrightarrow>
       tx \<in> Value ` set items \<and> h = CalcTxShortHash (tx_Hash (me_tx E) tx))"
proof -
  let ?c = "mp_cache (ps_mem s)" and ?env = "me_tx E"
  note inv = simple_reachable_inv(1) [OF assms]
  obtain q where q: "tc_q ?c = Some q" "sq_ok ?env q"
    and last: "last_ok ?env (Value ` set (sq_items q)) (tc_last ?c)"
    and shash: "shash_ok ?env (Value ` set (sq_items q)) (tc_shash ?c)"
    and fee: "tc_totalFee ?c = i64 (sum_list (map (\<lambda>it. Fee (Value it)) (sq_items q)))"
    by (rule simple.pool_invD [OF inv])
  have "set (GetLatestTx (tc_last ?c)) \<subseteq> Value ` set (sq_items q)"
    using last by (auto simp: GetLatestTx_def lm_Walk_items walk_collect last_ok_def)
  moreover have "tx \<in> Value ` set (sq_items q) \<and> h = CalcTxShortHash (tx_Hash ?env tx)"
    if "GetSHashTxCache h (tc_shash ?c) = Some tx" for h tx
  proof -
    have "lm_ok (sh_l (tc_shash ?c))" using shash by (simp add: shash_ok_def)
    then have "map_of (lm_items (sh_l (tc_shash ?c))) h = Some tx"
      using that by (auto simp: GetSHashTxCache_def listmap.get_items split: option.splits)
    then have "(h, tx) \<in> set (lm_items (sh_l (tc_shash ?c)))" by (rule map_of_SomeD)
    then show ?thesis using shash by (auto simp: shash_ok_def)
  qed
  ultimately show ?thesis
    using simple.distinct_items [OF q(2)] simple.get_found [OF q(2)] simple.bytes_items [OF q(2)]
      pool_inv_count [OF inv] fee
    by (simp add: Let_def pool_items_def q(1) getTxByHash_def TotalFee_def GetTotalCacheBytes_def)
qed

text \<open>
  C12: Only signed transactions enter the pool. If every transaction that removed blocks of the
  chain hand back carries valid signatures, then in every state the pool can reach every queued
  transaction does, for a group the signatures of all its members, although the signature check
  runs concurrently with everything else and before the remote check.
\<close>
theorem pool_holds_only_signed:
  assumes "simple_reachable E on_chain s" and "\<forall>b. te_DecodeTxs (me_tx E) b \<noteq> Panic"
    and "\<forall>b t. on_chain b \<and> t \<in> set (handed_back E True (b_Txs b)) \<longrightarrow> tx_CheckSign (me_tx E) t"
    and "it \<in> set (pool_items sq_items (mp_cache (ps_mem s)))"
  shows "tx_CheckSign (me_tx E) (Value it)"
  using simple_reachable_ok [OF assms(1,2), of "tx_CheckSign (me_tx E)"] assms(3,4)
  by (auto simp: pool_state_ok_def kept_def)

text \<open>The handlers that check a transaction on its way in return, whatever they are given.\<close>

lemma GetTotalFee_no_panic: "\<forall>b. te_DecodeTxs env b \<noteq> Panic \<Longrightarrow> GetTotalFee env tx rate \<noteq> Panic"
  using tx_Check_no_panic(1) [of env tx] by (auto simp: GetTotalFee_def split: outcome.split option.split)

lemma mp_checkTx_no_panic [simp]: "mp_checkTx E now tx mem \<noteq> Panic"
  by (simp add: mp_checkTx_def CheckExpireValid_def)

lemma check_each_no_panic [simp]: "check_each E now txs mem \<noteq> Panic"
  by (induction txs) (simp_all split: outcome.split)

lemma getLevelFeeRate_no_panic: "tc_q (mp_cache mem) \<noteq> None \<Longrightarrow> getLevelFeeRate E Q rate n sz mem \<noteq> Panic"
  by (auto simp: getLevelFeeRate_def GetTotalCacheBytes_def Let_def)

lemma checkTxs_no_panic:
  assumes "tc_q (mp_cache mem) \<noteq> None" and "\<forall>b. te_DecodeTxs (me_tx E) b \<noteq> Panic"
  shows "checkTxs E Q now data mem \<noteq> Panic"
proof -
  have "checkLevelFee E Q tx mem \<noteq> Panic" for tx
    by (simp add: checkLevelFee_def assms getLevelFeeRate_no_panic GetTotalFee_no_panic split: outcome.split)
  then show ?thesis
    using tx_Check_no_panic [OF spec [OF assms(2)]] by (simp add: checkTxs_def split: option.split outcome.split)
qed

lemma GetProperFeeRate_no_panic: "tc_q (mp_cache mem) \<noteq> None \<Longrightarrow> GetProperFeeRate E Q req mem \<noteq> Panic"
  by (simp add: GetProperFeeRate_def Let_def getLevelFeeRate_no_panic split: outcome.split prod.split)

text \<open>
  C13: No handler of the pool panics in a state the pool can reach, as long as the answers from
  other modules are answers. For any argument: the first check of a transaction (the event that
  submits one, nil included), the signature check, the remote check of a transaction that waits for
  it (it finds a header), the deletion of transactions, the request for transactions, the request
  for transactions by hash or short hash and the request for the proper fee return a value or an
  error; adding a block, giving back a block, whatever the chain answers when asked for its last
  header, and the sweep of expired transactions succeed. The remaining handlers (the pool's
  content and size, its latest transactions, those of an address, which of a list exist) read the
  pool by total functions and have no failing branch.
\<close>
theorem pool_handlers_do_not_panic:
  assumes "simple_reachable E on_chain s" and "\<forall>b. te_DecodeTxs (me_tx E) b \<noteq> Panic"
    and "\<forall>txs h. me_CheckDupTx E txs h \<noteq> Panic" and "\<forall>tx h. me_checkTxListRemote E tx h \<noteq> Panic"
  shows "let mem = ps_mem s; Q = simple_queue (me_tx E) in
    eventTx E Q now data mem \<noteq> Panic \<and> mp_checkSign E tx \<noteq> Panic \<and>
    (\<forall>tx. tx \<in> set (ps_signed s) \<longrightarrow> fst (checkTxRemote E Q now tx mem) \<noteq> Panic) \<and>
    fst (eventDelTxList E Q hashes mem) \<noteq> Panic \<and> eventTxList E Q now n hashes mem \<noteq> Panic \<and>
    Panic \<notin> set (eventTxListByHash Q isShort hashes mem) \<and> eventGetProperFee E Q req mem \<noteq> Panic \<and>
    fst (eventAddBlock E Q b mem) = Ok () \<and> fst (removeExpired E Q now mem) = Ok () \<and>
    (lastHeader \<noteq> Panic \<longrightarrow> fst (eventDelBlock E Q now lastHeader b mem) = Ok ())"
proof -
  let ?Q = "simple_queue (me_tx E)"
  note inv = simple_reachable_inv(1) [OF assms(1,2)]
  obtain q where q: "tc_q (mp_cache (ps_mem s)) = Some q" "sq_ok (me_tx E) q" by (rule simple.pool_invD [OF inv])
  have item: "sq_GetItem q h \<noteq> Panic" for h
    using sq_GetItem_items [OF q(2)] by (cases "h \<in> item_hash (me_tx E) ` set (sq_items q)") auto
  have k: "kept E (sq_ok (me_tx E)) sq_items (\<lambda>_. True) mem" if "mp_cache mem = mp_cache (ps_mem s)" for mem
    using inv that by (simp add: kept_def)
  have "fst (checkTxRemote E ?Q now tx (ps_mem s)) \<noteq> Panic" if tx: "tx \<in> set (ps_signed s)" for tx
  proof -
    obtain hd where hd: "mp_header (ps_mem s) = Some hd"
      using simple_reachable_inv(2) [OF assms(1,2)] tx by (cases "ps_signed s") auto
    obtain r mem' where push: "PushTx E ?Q now tx (ps_mem s) = (r, mem')" "r \<noteq> Panic"
      using simple_pool.PushTx_kept [OF k, where tx = tx and now = now] by fastforce
    show ?thesis
      using assms(3,4) tx_Check_no_panic(1) [OF spec [OF assms(2)], of tx] push
      by (auto simp: checkTxRemote_def hd Let_def split: outcome.split option.split)
  qed
  moreover have "fst (eventAddBlock E ?Q b (ps_mem s)) = Ok ()"
    using simple_pool.eventAddBlock_kept [OF k, of "ps_mem s" b] by auto
  moreover have "fst (removeExpired E ?Q now (ps_mem s)) = Ok ()"
    using simple_pool.removeExpired_kept [OF k, of "ps_mem s" now] by auto
  moreover have "fst (eventDelBlock E ?Q now (Ok h) b (ps_mem s)) = Ok ()" for h
    using simple_pool.del_loop_kept [OF spec [OF assms(2)] k, of "setHeader h (ps_mem s)" True "b_Txs b" now]
    by (auto simp: eventDelBlock_def delBlock_def setHeader_def)
  then have "lastHeader \<noteq> Panic \<longrightarrow> fst (eventDelBlock E ?Q now lastHeader b (ps_mem s)) = Ok ()"
    by (cases lastHeader) (simp_all add: eventDelBlock_def)
  moreover have "fst (eventDelTxList E ?Q hashes (ps_mem s)) \<noteq> Panic"
    using simple_pool.RemoveTxs_kept [OF k, of "ps_mem s" hashes] by (auto simp: eventDelTxList_def)
  moreover have "Panic \<notin> set (eventTxListByHash ?Q isShort hashes (ps_mem s))"
    by (auto simp: eventTxListByHash_def getTxListByHash_def getTxByHash_def q(1) simple_queue_def item split: outcome.splits)
  ultimately show ?thesis
    by (simp add: Let_def eventTx_def mp_checkSign_def eventTxList_def eventGetProperFee_def
        checkTxs_no_panic [OF _ assms(2)] GetProperFeeRate_no_panic q)
qed

text \<open>
  C14: What a push into the pool answers, on every branch: too many transactions of the sender,
  a transaction with the same hash already queued, a full queue, or success; and a push that is
  refused leaves the pool exactly as it was.
\<close>
theorem push_answers:
  assumes "simple_reachable E on_chain s" and "\<forall>b. te_DecodeTxs (me_tx E) b \<noteq> Panic"
    and "tc_q (mp_cache (ps_mem s)) = Some q"
  shows "let mem = ps_mem s; items = pool_items sq_items (mp_cache mem); env = me_tx E;
      (r, mem') = PushTx E (simple_queue env) now tx mem in
    r = (if int (length (filter (\<lambda>it. tx_From env (Value it) = tx_From env tx) items)) \<ge> maxperaccount (tc_acc (mp_cache mem))
         then Fail ErrManyTx
         else if tx_Hash env tx \<in> item_hash env ` set items then Fail ErrTxExist
         else if int (length items) \<ge> PoolCacheSize (subConfig q) then Fail ErrMemFull
         else Ok ()) \<and>
    (r \<noteq> Ok () \<longrightarrow> mem' = mem)"
proof -
  let ?c = "mp_cache (ps_mem s)" and ?env = "me_tx E"
  note inv = simple_reachable_inv(1) [OF assms(1,2)]
  have q: "sq_ok ?env q" and pos: "0 < maxperaccount (tc_acc ?c)" and items: "pool_items sq_items ?c = sq_items q"
    using simple.pool_invD [OF inv] assms(3) by (auto simp: pool_items_def)
  have can: "CanPush ?env tx (tc_acc ?c) \<longleftrightarrow> TxNumOfAccount (tx_From ?env tx) (tc_acc ?c) < maxperaccount (tc_acc ?c)"
    using pos by (simp add: CanPush_def TxNumOfAccount_def split: option.split)
  have size: "lm_Size (txList q) = int (length (sq_items q))"
    using simple.size_items [OF q] by (simp add: simple_queue_def sq_Size_def)
  have fresh: "sq_Exist q (tx_Hash ?env tx) \<longleftrightarrow> tx_Hash ?env tx \<in> item_hash ?env ` set (sq_items q)"
    by (rule sq_Exist_items [OF q])
  have push: "fst (sq_Push ?env \<lparr>Value = tx, Priority = Fee tx, EnterTime = now\<rparr> q) =
      (if tx_Hash ?env tx \<in> item_hash ?env ` set (sq_items q) then Fail ErrTxExist
       else if int (length (sq_items q)) \<ge> PoolCacheSize (subConfig q) then Fail ErrMemFull else Ok ())"
    by (simp add: sq_Push_def fresh size Let_def)
  from simple.Push_cases [OF inv, of now tx]
  have "fst (tc_Push ?env (simple_queue ?env) now tx ?c) =
      (if CanPush ?env tx (tc_acc ?c)
       then fst (sq_Push ?env \<lparr>Value = tx, Priority = Fee tx, EnterTime = now\<rparr> q) else Fail ErrManyTx) \<and>
      (fst (tc_Push ?env (simple_queue ?env) now tx ?c) \<noteq> Ok () \<longrightarrow>
       snd (tc_Push ?env (simple_queue ?env) now tx ?c) = ?c)"
    using CanPush_at_Push [OF _ pos, of ?env tx]
    by (auto simp: tc_Push_def assms(3) simple_queue_def split: prod.splits outcome.splits if_splits)
  moreover obtain r c' where rc: "tc_Push ?env (simple_queue ?env) now tx ?c = (r, c')" by fastforce
  moreover have "PushTx E (simple_queue ?env) now tx (ps_mem s) = (r, (ps_mem s)\<lparr>mp_cache := c'\<rparr>)"
    by (simp add: PushTx_def on_cache_def rc)
  moreover have "CanPush ?env tx (tc_acc ?c) \<longleftrightarrow>
      \<not> int (length (filter (\<lambda>it. tx_From ?env (Value it) = tx_From ?env tx) (sq_items q))) \<ge> maxperaccount (tc_acc ?c)"
    using pool_inv_count(1) [OF inv, of "tx_From ?env tx"] can items by auto
  ultimately show ?thesis by (simp add: push items)
qed

text \<open>
  C15: Removing a transaction by its hash undoes its push. After a successful push and the removal
  of the same hash the queue holds the same items in the same order, and the fee total, the byte
  total and the number of transactions of every sender are what they were.
\<close>
theorem remove_undoes_push:
  assumes "simple_reachable E on_chain s" and "\<forall>b. te_DecodeTxs (me_tx E) b \<noteq> Panic"
    and "PushTx E (simple_queue (me_tx E)) now tx (ps_mem s) = (Ok (), mem1)"
    and "mp_RemoveTxs E (simple_queue (me_tx E)) [tx_Hash (me_tx E) tx] mem1 = (r, mem2)"
  shows "r = Ok () \<and> pool_items sq_items (mp_cache mem2) = pool_items sq_items (mp_cache (ps_mem s)) \<and>
    TotalFee (mp_cache mem2) = TotalFee (mp_cache (ps_mem s)) \<and>
    GetTotalCacheBytes (simple_queue (me_tx E)) mem2 = GetTotalCacheBytes (simple_queue (me_tx E)) (ps_mem s) \<and>
    (\<forall>a. mp_TxNumOfAccount a mem2 = mp_TxNumOfAccount a (ps_mem s))"
proof -
  let ?env = "me_tx E" and ?c = "mp_cache (ps_mem s)"
  have kept: "kept E (sq_ok ?env) sq_items (\<lambda>_. True) (ps_mem s)"
    using simple_reachable_inv(1) [OF assms(1,2)] by (simp add: kept_def)
  have k1: "kept E (sq_ok ?env) sq_items (\<lambda>_. True) mem1"
    using simple_pool.PushTx_kept [OF kept, where tx = tx and now = now] assms(3) by simp
  have k2: "r = Ok ()" "kept E (sq_ok ?env) sq_items (\<lambda>_. True) mem2"
    "pool_items sq_items (mp_cache mem2) =
      filter (\<lambda>i. item_hash ?env i \<notin> set [tx_Hash ?env tx]) (pool_items sq_items (mp_cache mem1))"
    using simple_pool.RemoveTxs_kept [OF k1, of "[tx_Hash ?env tx]"] assms(4) by auto
  obtain q where q: "tc_q ?c = Some q" "sq_ok ?env q"
    by (rule simple.pool_invD [OF simple_reachable_inv(1) [OF assms(1,2)]])
  let ?it = "\<lparr>Value = tx, Priority = Fee tx, EnterTime = now\<rparr>"
  have "CanPush ?env tx (tc_acc ?c)" "fst (sq_Push ?env ?it q) = Ok ()"
    and m1: "tc_q (mp_cache mem1) = Some (snd (sq_Push ?env ?it q))"
    using assms(3) q(1)
    by (auto simp: PushTx_def on_cache_def tc_Push_def simple_queue_def split: if_splits prod.splits outcome.splits)
  then have "\<not> sq_Exist q (item_hash ?env ?it)" "lm_Size (txList q) < PoolCacheSize (subConfig q)"
    by (auto simp: sq_Push_def item_hash_def Let_def split: if_splits)
  note p = sq_Push_Ok [OF q(2) this] and fresh = this(1)
  then have "pool_items sq_items (mp_cache mem1) = sq_items q @ [?it]"
    using m1 by (auto simp: pool_items_def)
  then have items: "pool_items sq_items (mp_cache mem2) = pool_items sq_items ?c"
    using k2(3) fresh sq_Exist_items [OF q(2)]
    by (auto simp: item_hash_def pool_items_def q(1) filter_id_conv image_iff)
  have inv2: "pool_inv ?env (sq_ok ?env) sq_items (mp_cache mem2)" using k2(2) by (simp add: kept_def)
  note inv = simple_reachable_inv(1) [OF assms(1,2)]
  have fee: "TotalFee c = i64 (sum_list (map (\<lambda>it. Fee (Value it)) (pool_items sq_items c))) \<and>
      GetTotalCacheBytes (simple_queue ?env) mem = Ok (i64 (sum_list (map (\<lambda>it. te_Size ?env (Value it)) (pool_items sq_items c))))"
    if pc: "pool_inv ?env (sq_ok ?env) sq_items c" and m: "mp_cache mem = c" for c mem
  proof -
    obtain p where "tc_q c = Some p" "sq_ok ?env p"
      "tc_totalFee c = i64 (sum_list (map (\<lambda>it. Fee (Value it)) (sq_items p)))"
      by (rule simple.pool_invD [OF pc])
    then show ?thesis
      using simple.bytes_items by (simp add: m TotalFee_def pool_items_def GetTotalCacheBytes_def)
  qed
  show ?thesis
    using k2(1) items fee [OF inv] fee [OF inv2] pool_inv_count(1) [OF inv] pool_inv_count(1) [OF inv2]
    by (simp add: mp_TxNumOfAccount_def)
qed

lemma walk_filter:
  "walk_values (\<lambda>it s. if A it then (True, s) else if B it then (True, s)
      else (True, s\<lparr>wv_txs := wv_txs s @ [Value it]\<rparr>)) its s =
   s\<lparr>wv_txs := wv_txs s @ map Value (filter (\<lambda>it. \<not> A it \<and> \<not> B it) its)\<rparr>"
  by (induction its arbitrary: s) simp_all

text \<open>
  C16: What a request for \<open>n\<close> transactions returns. A count that is not positive is refused;
  otherwise the answer is, among the first \<open>n\<close> transactions of the queue and in queue order,
  those that are not in the list of hashes to leave out and not expired. Transactions that are
  left out still count towards \<open>n\<close>.
\<close>
theorem tx_list_answers:
  assumes "simple_reachable E on_chain s" and "\<forall>b. te_DecodeTxs (me_tx E) b \<noteq> Panic"
  shows "eventTxList E (simple_queue (me_tx E)) now n hashes (ps_mem s) =
    (if n \<le> 0 then Fail ErrSize
     else Ok (map Value (filter (\<lambda>it. item_hash (me_tx E) it \<notin> set hashes \<and>
        \<not> isExpired (me_tx E) (me_cfg E) now it (GetHeight (mp_header (ps_mem s))) (GetBlockTime (mp_header (ps_mem s))))
       (take (nat n) (pool_items sq_items (mp_cache (ps_mem s)))))))"
proof -
  obtain q where q: "tc_q (mp_cache (ps_mem s)) = Some q" "sq_ok (me_tx E) q"
    by (rule simple.pool_invD [OF simple_reachable_inv(1) [OF assms]])
  have "hashes \<noteq> [] \<and> x \<in> set hashes \<longleftrightarrow> x \<in> set hashes" for x by auto
  then show ?thesis
    by (simp add: eventTxList_def getTxList_def filterTxList_def tc_Walk_def q(1) simple.walk_items [OF q(2)]
        walk_filter pool_items_def item_hash_def)
qed

text \<open>
  C17: A new block removes exactly its transactions from the pool: what stays queued is what was
  queued and is not in the block, in the same order, and the height the pool works with never
  goes down.
\<close>
theorem add_block_removes_its_transactions:
  assumes "simple_reachable E on_chain s" and "\<forall>b. te_DecodeTxs (me_tx E) b \<noteq> Panic"
    and "eventAddBlock E (simple_queue (me_tx E)) b (ps_mem s) = (r, mem')"
  shows "r = Ok () \<and>
    pool_items sq_items (mp_cache mem') =
      filter (\<lambda>it. item_hash (me_tx E) it \<notin> tx_Hash (me_tx E) ` set (b_Txs b)) (pool_items sq_items (mp_cache (ps_mem s))) \<and>
    Height (ps_mem s) \<le> Height mem' \<and> b_Height b \<le> Height mem'"
  using simple_pool.eventAddBlock_kept [of E "\<lambda>_. True" "ps_mem s" b] simple_reachable_inv(1) [OF assms(1,2)] assms(3)
  by (auto simp: kept_def)

lemma next_multiple:
  assumes "0 < (m :: int)" and "0 \<le> p"
  shows "p < (p div m + 1) * m" and "(p div m + 1) * m \<le> p + m"
proof -
  have "p = p div m * m + p mod m" "p mod m < m" "0 \<le> p mod m" using assms by simp_all
  then show "p < (p div m + 1) * m" and "(p div m + 1) * m \<le> p + m"
    unfolding distrib_right by linarith+
qed

lemma cache_fee_rate_bounds:
  assumes "tc_q (mp_cache mem) = Some q" and m: "0 < MinTxFeeRate (mp_cfg mem)"
    and p: "0 \<le> qc_GetProperFee Q q" "qc_GetProperFee Q q + MinTxFeeRate (mp_cfg mem) < 2 ^ 63"
  shows "getCacheFeeRate Q mem \<le> MaxTxFeeRate (mp_cfg mem)"
    and "min (MaxTxFeeRate (mp_cfg mem)) (qc_GetProperFee Q q) \<le> getCacheFeeRate Q mem"
    and "getCacheFeeRate Q mem = MaxTxFeeRate (mp_cfg mem) \<or> getCacheFeeRate Q mem mod MinTxFeeRate (mp_cfg mem) = 0"
proof -
  let ?m = "MinTxFeeRate (mp_cfg mem)" and ?p = "qc_GetProperFee Q q"
  have sd: "?p sdiv ?m = ?p div ?m" "?p smod ?m = ?p mod ?m"
    using m p(1) by (simp_all add: signed_divide_int_def signed_modulo_int_def mod_mult_div_eq
        sgn_if minus_mult_div_eq_mod [symmetric])
  note b = next_multiple [OF m p(1)]
  have "?p div ?m \<le> ?p" using m p(1) zdiv_mono2 [of ?p 1 ?m] by simp
  then have w: "i64 (?p div ?m + 1) = ?p div ?m + 1" "i64 ((?p div ?m + 1) * ?m) = (?p div ?m + 1) * ?m"
    using b p m pos_imp_zdiv_nonneg_iff [OF m, of ?p] by (auto simp: in_i64_def intro!: i64_id)
  have zero: "\<not> 0 < ?p mod ?m \<Longrightarrow> ?p mod ?m = 0" using pos_mod_sign [OF m, of ?p] by linarith
  show "getCacheFeeRate Q mem \<le> MaxTxFeeRate (mp_cfg mem)"
    and "min (MaxTxFeeRate (mp_cfg mem)) ?p \<le> getCacheFeeRate Q mem"
    and "getCacheFeeRate Q mem = MaxTxFeeRate (mp_cfg mem) \<or> getCacheFeeRate Q mem mod ?m = 0"
    using b m zero by (auto simp: getCacheFeeRate_def assms(1) Let_def sd w)
qed

text \<open>
  C18: The fee rate the pool proposes is never above the configured maximum, never below the
  proper fee of the queue or the maximum if that is smaller, and with level fees on never below
  the configured minimum or the maximum; unless it is the maximum, it is a multiple of the
  minimal rate. This is for a minimal rate that is positive and whose hundredfold fits into 64
  bits, and a proper fee of the queue that is not negative and, with the minimal rate added, fits
  into 64 bits.
\<close>
theorem proper_fee_rate_bounds:
  assumes "tc_q (mp_cache mem) = Some q" and "0 < MinTxFeeRate (mp_cfg mem)"
    and "100 * MinTxFeeRate (mp_cfg mem) < 2 ^ 63"
    and "0 \<le> qc_GetProperFee Q q" "qc_GetProperFee Q q + MinTxFeeRate (mp_cfg mem) < 2 ^ 63"
    and "GetProperFeeRate E Q req mem = Ok rate"
  shows "rate \<le> MaxTxFeeRate (mp_cfg mem) \<and>
    min (MaxTxFeeRate (mp_cfg mem)) (qc_GetProperFee Q q) \<le> rate \<and>
    (IsLevelFee (mp_cfg mem) \<longrightarrow> min (MaxTxFeeRate (mp_cfg mem)) (MinTxFeeRate (mp_cfg mem)) \<le> rate) \<and>
    (rate = MaxTxFeeRate (mp_cfg mem) \<or> rate mod MinTxFeeRate (mp_cfg mem) = 0)"
proof -
  let ?min = "MinTxFeeRate (mp_cfg mem)" and ?max = "MaxTxFeeRate (mp_cfg mem)"
  have w: "i64 (100 * ?min) = 100 * ?min" "i64 (10 * ?min) = 10 * ?min"
    using assms(2,3) by (auto simp: in_i64_def)
  have bound: "l \<le> ?max \<and> min ?max ?min \<le> l \<and> (l = ?max \<or> l mod ?min = 0)"
    if "getLevelFeeRate E Q ?min n sz mem = Ok l" for n sz l
    using that assms(2) w
    by (auto simp: getLevelFeeRate_def GetTotalCacheBytes_def assms(1) Let_def split: if_splits)
  note cache = cache_fee_rate_bounds [OF assms(1,2,4,5)]
  consider (plain) "rate = getCacheFeeRate Q mem" "\<not> IsLevelFee (mp_cfg mem)"
    | (level) n sz l where "getLevelFeeRate E Q ?min n sz mem = Ok l"
        "rate = (if l > getCacheFeeRate Q mem then l else getCacheFeeRate Q mem)"
    using assms(6) by (auto simp: GetProperFeeRate_def Let_def split: if_splits outcome.splits prod.splits)
  then show ?thesis
  proof cases
    case plain
    then show ?thesis using cache by simp
  next
    case level
    then show ?thesis using cache bound [OF level(1)] by auto
  qed
qed

section \<open>A concrete run\<close>

definition sample_mem_env :: mem_env where
  "sample_mem_env = \<lparr>me_tx = sample_env, me_cfg = sample_cfg, me_MaxTxNumber = \<lambda>h. 100,
     me_info = \<lparr>ei_Amount = \<lambda>tx. Ok 0, ei_ActionName = \<lambda>tx. ''transfer''\<rparr>, me_CheckAddress = \<lambda>a. True,
     me_CheckDupTx = \<lambda>txs h. Ok txs, me_checkTxListRemote = \<lambda>tx h. Ok ()\<rparr>"

definition sample_mem_cfg :: mem_cfg where
  "sample_mem_cfg = \<lparr>MaxTxNumPerAccount = 0, MaxTxLast = 0, mc_PoolCacheSize = 0, MinTxFeeRate = 10,
     MaxTxFeeRate = 1000, MaxTxFee = 0, IsLevelFee = False, ForceAccept = False, DisableExecCheck = False\<rparr>"

definition sample_sub :: SubConfig where
  "sample_sub = \<lparr>PoolCacheSize = 10, ProperFee = 25\<rparr>"

definition signed_tx :: Transaction where
  "signed_tx = (sample_tx ''a'')\<lparr>TxSignature := Some sample_sig\<rparr>"

definition sample_header :: Header where
  "sample_header = \<lparr>h_Height = 3, h_BlockTime = 0, h_StateHash = [], h_Difficulty = 0\<rparr>"

text \<open>The pool after it is in sync, before and after it has taken in one transaction.\<close>

definition sample_ready :: "SimpleQueue pool_state" where
  "sample_ready =
     (pool_start sample_mem_cfg (NewSimpleQueue sample_sub))
       \<lparr>ps_mem := setSync True (setHeader sample_header (mp_SetQueueCache (NewSimpleQueue sample_sub) (NewMempool sample_mem_cfg)))\<rparr>"

definition sample_filled :: "SimpleQueue pool_state" where
  "sample_filled = sample_ready\<lparr>ps_mem := snd (PushTx sample_mem_env (simple_queue sample_env) 0 signed_tx (ps_mem sample_ready))\<rparr>"

lemma sample_tx_fields [simp]:
  "GetTxGroup sample_env signed_tx = Ok None" "tx_CheckSign sample_env signed_tx"
  "tx_Hash sample_env signed_tx = ''a...''" "Fee signed_tx = 60" "Expire signed_tx = 0"
  "te_Size sample_env signed_tx = 200"
  by (simp_all add: signed_tx_def GetTxGroup_def sample_tx_def tx_CheckSign_def tx_checkSign_def tx_Hash_def
      sample_env_def raw_def)

lemma sample_env_fields [simp]:
  "me_tx sample_mem_env = sample_env" "te_DecodeTxs sample_env b \<noteq> Panic"
  "me_CheckDupTx sample_mem_env = (\<lambda>txs h. Ok txs)" "me_checkTxListRemote sample_mem_env = (\<lambda>tx h. Ok ())"
  by (simp_all add: sample_mem_env_def sample_env_def)

lemma sample_ready_reachable: "simple_reachable sample_mem_env on_chain sample_ready"
proof -
  let ?s = "pool_start sample_mem_cfg (NewSimpleQueue sample_sub)"
  let ?s1 = "?s\<lparr>ps_mem := setHeader sample_header (ps_mem ?s)\<rparr>"
  have "pool_step sample_mem_env (simple_queue sample_env) on_chain ?s ?s1" by (rule pool_step.polled)
  moreover have "pool_step sample_mem_env (simple_queue sample_env) on_chain ?s1
      (?s1\<lparr>ps_mem := setSync True (ps_mem ?s1)\<rparr>)" by (rule pool_step.in_sync)
  moreover have "?s1\<lparr>ps_mem := setSync True (ps_mem ?s1)\<rparr> = sample_ready"
    by (simp add: sample_ready_def pool_start_def)
  ultimately have "pool_reachable sample_mem_env (simple_queue sample_env) on_chain sample_mem_cfg
      (NewSimpleQueue sample_sub) sample_ready"
    by (metis rtranclp.rtrancl_refl rtranclp.rtrancl_into_rtrancl)
  then show ?thesis
    unfolding simple_reachable_def
    by (intro exI [of _ sample_mem_cfg] exI [of _ sample_sub])
      (simp add: sample_mem_cfg_def sample_sub_def in_i64_def)
qed

lemmas pool_defs = pool_start_def mp_SetQueueCache_def NewMempool_def tc_SetQueueCache_def newCache_def
  setSync_def setHeader_def NewAccountTxIndex_def NewSimpleQueue_def sample_mem_cfg_def sample_sub_def Let_def

lemma sample_ready_fields [simp]:
  "tc_q (mp_cache (ps_mem sample_ready)) = Some (NewSimpleQueue sample_sub)"
  "tc_acc (mp_cache (ps_mem sample_ready)) = NewAccountTxIndex 100"
  "mp_header (ps_mem sample_ready) = Some sample_header" "getSync (ps_mem sample_ready)"
  "IsLevelFee (mp_cfg (ps_mem sample_ready)) = False" "MinTxFeeRate (mp_cfg (ps_mem sample_ready)) = 10"
  "MaxTxFee (mp_cfg (ps_mem sample_ready)) = 0" "MaxTxNumPerAccount (mp_cfg (ps_mem sample_ready)) = 100"
  "ps_in sample_ready = []" "ps_signed sample_ready = []"
  by (simp_all add: sample_ready_def pool_defs getSync_def)

lemma sample_push:
  "PushTx sample_mem_env (simple_queue sample_env) 0 signed_tx (ps_mem sample_ready) = (Ok (), ps_mem sample_filled)"
  "pool_items sq_items (mp_cache (ps_mem sample_filled)) = [\<lparr>Value = signed_tx, Priority = 60, EnterTime = 0\<rparr>]"
  by (simp_all add: sample_filled_def PushTx_def on_cache_def tc_Push_def CanPush_def NewAccountTxIndex_def
      simple_queue_def sq_Push_def sq_Exist_def at_Push_def Let_def NewSimpleQueue_def sample_sub_def
      lm_Exist_def lm_New_def lm_Size_def pool_items_def sq_items_def lm_items_def lm_Push_def key_of_def)

lemma sample_filled_reachable: "simple_reachable sample_mem_env on_chain sample_filled"
proof -
  let ?step = "pool_step sample_mem_env (simple_queue sample_env) on_chain"
  let ?s1 = "sample_ready\<lparr>ps_in := [signed_tx]\<rparr>" and ?s2 = "sample_ready\<lparr>ps_in := [], ps_signed := [signed_tx]\<rparr>"
  have "eventTx sample_mem_env (simple_queue sample_env) 0 (Some signed_tx) (ps_mem sample_ready) = Ok signed_tx"
    by (simp add: eventTx_def checkTxs_def tx_Check_def tx_check_def GetRealFee_def MaxTxSize_def i64_def
        mp_checkTx_def sample_mem_env_def mp_TxNumOfAccount_def TxNumOfAccount_def NewAccountTxIndex_def
        CheckExpireValid_def checkExpireValid_def tx_IsExpire_def tx_isExpire_def signed_tx_def [symmetric]
        sample_header_def GetHeight_def)
  then have 1: "?step sample_ready ?s1"
    using pool_step.received [of sample_mem_env "simple_queue sample_env" 0 "Some signed_tx" sample_ready signed_tx on_chain]
    by simp
  have 2: "?step ?s1 ?s2"
    using pool_step.signed [of ?s1 "[]" signed_tx "[]" sample_mem_env signed_tx "simple_queue sample_env" on_chain]
    by (simp add: mp_checkSign_def)
  have "checkTxRemote sample_mem_env (simple_queue sample_env) 0 signed_tx (ps_mem sample_ready) =
      (Ok (), ps_mem sample_filled)"
    by (simp add: checkTxRemote_def sample_push(1))
  moreover have "sample_ready\<lparr>ps_in := [], ps_signed := [], ps_mem := ps_mem sample_filled\<rparr> = sample_filled"
    by (rule pool_state.equality) (simp_all add: sample_filled_def)
  ultimately have 3: "?step ?s2 sample_filled"
    using pool_step.remote [of ?s2 "[]" signed_tx "[]" sample_mem_env "simple_queue sample_env" 0 "Ok ()" "ps_mem sample_filled" on_chain]
    by simp
  have "?step\<^sup>*\<^sup>* sample_ready sample_filled"
    using 1 2 3 by (meson rtranclp.rtrancl_into_rtrancl rtranclp.rtrancl_refl)
  then show ?thesis
    using sample_ready_reachable [of on_chain] unfolding simple_reachable_def
    by (metis rtranclp_trans sample_env_fields(1))
qed

theorem pool_indices_consistent_witness:
  "TotalFee (mp_cache (ps_mem sample_filled)) = 60 \<and>
   mp_TxNumOfAccount (tx_From sample_env signed_tx) (ps_mem sample_filled) = 1"
  using pool_indices_consistent [OF sample_filled_reachable]
  by (simp add: Let_def sample_push(2) mp_TxNumOfAccount_def i64_def)

theorem pool_holds_only_signed_witness: "tx_CheckSign sample_env signed_tx"
  using pool_holds_only_signed [OF sample_filled_reachable [of "\<lambda>b. False"]] by (simp add: sample_push(2))

theorem pool_handlers_do_not_panic_witness:
  "fst (removeExpired sample_mem_env (simple_queue sample_env) 700 (ps_mem sample_filled)) = Ok () \<and>
   eventTx sample_mem_env (simple_queue sample_env) 700 (Some signed_tx) (ps_mem sample_filled) \<noteq> Panic \<and>
   fst (eventDelBlock sample_mem_env (simple_queue sample_env) 700
     (Ok \<lparr>h_Height = 0, h_BlockTime = 0, h_StateHash = [], h_Difficulty = 0\<rparr>)
     \<lparr>b_Height = 1, b_BlockTime = 0, b_StateHash = [], b_Txs = [signed_tx]\<rparr> (ps_mem sample_filled)) = Ok ()"
  using pool_handlers_do_not_panic [OF sample_filled_reachable, where now = 700 and data = "Some signed_tx"
      and b = "\<lparr>b_Height = 1, b_BlockTime = 0, b_StateHash = [], b_Txs = [signed_tx]\<rparr>"
      and lastHeader = "Ok \<lparr>h_Height = 0, h_BlockTime = 0, h_StateHash = [], h_Difficulty = 0\<rparr>"]
  by (simp add: Let_def)

theorem push_answers_witness:
  "fst (PushTx sample_mem_env (simple_queue sample_env) 5 signed_tx (ps_mem sample_filled)) = Fail ErrTxExist"
proof -
  obtain q where q: "tc_q (mp_cache (ps_mem sample_filled)) = Some q" "maxperaccount (tc_acc (mp_cache (ps_mem sample_filled))) = 100"
    by (simp add: sample_filled_def PushTx_def on_cache_def tc_Push_def CanPush_def NewAccountTxIndex_def
      simple_queue_def sq_Push_def sq_Exist_def at_Push_def Let_def NewSimpleQueue_def sample_sub_def
      lm_Exist_def lm_New_def lm_Size_def)
  show ?thesis
    using push_answers [OF sample_filled_reachable _ q(1), of 5 signed_tx]
    by (simp add: Let_def sample_push(2) q(2) item_hash_def split: prod.splits)
qed

theorem remove_undoes_push_witness:
  "pool_items sq_items (mp_cache (snd (mp_RemoveTxs sample_mem_env (simple_queue sample_env) [''a...''] (ps_mem sample_filled)))) = []"
proof -
  obtain r m where rm: "mp_RemoveTxs sample_mem_env (simple_queue sample_env) [''a...''] (ps_mem sample_filled) = (r, m)"
    by fastforce
  show ?thesis
    using remove_undoes_push [OF sample_ready_reachable, of 0 signed_tx "ps_mem sample_filled" r m] rm sample_push(1)
    by (simp add: pool_items_def sq_items_def NewSimpleQueue_def listmap.items_empty)
qed

theorem tx_list_answers_witness:
  "eventTxList sample_mem_env (simple_queue sample_env) 700 5 [] (ps_mem sample_filled) = Ok [] \<and>
   eventTxList sample_mem_env (simple_queue sample_env) 10 5 [] (ps_mem sample_filled) = Ok [signed_tx]"
  using tx_list_answers [OF sample_filled_reachable, of 700 5 "[]"] tx_list_answers [OF sample_filled_reachable, of 10 5 "[]"]
  by (simp add: sample_push(2) isExpired_def mempoolExpiredInterval_def i64_def tx_IsExpire_def tx_isExpire_def)

theorem add_block_removes_its_transactions_witness:
  "pool_items sq_items (mp_cache (snd (eventAddBlock sample_mem_env (simple_queue sample_env)
     \<lparr>b_Height = 4, b_BlockTime = 0, b_StateHash = [], b_Txs = [signed_tx]\<rparr> (ps_mem sample_filled)))) = []"
proof -
  let ?b = "\<lparr>b_Height = 4, b_BlockTime = 0, b_StateHash = [], b_Txs = [signed_tx]\<rparr>"
  obtain r m where rm: "eventAddBlock sample_mem_env (simple_queue sample_env) ?b (ps_mem sample_filled) = (r, m)"
    by fastforce
  show ?thesis
    using add_block_removes_its_transactions [OF sample_filled_reachable, of ?b r m] rm
    by (simp add: sample_push(2) item_hash_def)
qed

theorem proper_fee_rate_bounds_witness:
  "\<exists>rate. GetProperFeeRate sample_mem_env (simple_queue sample_env) None (ps_mem sample_ready) = Ok rate \<and> 25 \<le> rate"
proof -
  have cfg: "MaxTxFeeRate (mp_cfg (ps_mem sample_ready)) = 1000" by (simp add: sample_ready_def pool_defs)
  have "GetProperFeeRate sample_mem_env (simple_queue sample_env) None (ps_mem sample_ready) =
      Ok (getCacheFeeRate (simple_queue sample_env) (ps_mem sample_ready))"
    by (simp add: GetProperFeeRate_def)
  with proper_fee_rate_bounds [of "ps_mem sample_ready", OF sample_ready_fields(1) _ _ _ _ this] cfg show ?thesis
    by (simp add: simple_queue_def sq_GetProperFee_def NewSimpleQueue_def sample_sub_def)
qed

end
