(* ===== verification/Merkle.thy ===== *)
theory Merkle
  imports Tx
begin

text \<open>
  Merkle roots and branches, \<^verbatim>\<open>common/merkle/merkle.go\<close>: the level-by-level root, the root
  computed in parallel chunks, the constant-space calculator that also gives a branch and
  detects duplicated subtrees, the root from a branch, and the roots of a list of transactions,
  in one layer or in two (parallel chains below the main chain). A nil hash is \<open>None\<close>. The
  work buffer of 64 bytes is threaded through as the code does.
\<close>

section \<open>Two hashes\<close>

definition Sha2Sum :: "tx_env \<Rightarrow> bytes \<Rightarrow> bytes" where
  "Sha2Sum env b = te_Sha256 env (te_Sha256 env b)"

text \<open>\<^verbatim>\<open>copy(dst[off:], src)\<close>\<close>

definition copy_at :: "nat \<Rightarrow> bytes \<Rightarrow> bytes \<Rightarrow> bytes" where
  "copy_at off dst src =
     take off dst @ take (length dst - off) src @ drop (off + length src) dst"

definition GetHashFromTwoHash ::
  "tx_env \<Rightarrow> bytes \<Rightarrow> bytes option \<Rightarrow> bytes option \<Rightarrow> bytes option \<times> bytes" where
  "GetHashFromTwoHash env parent left right =
     (case (left, right) of
        (Some l, Some r) \<Rightarrow>
          let p = copy_at 32 (copy_at 0 parent l) r in (Some (Sha2Sum env p), p)
      | _ \<Rightarrow> (None, parent))"

definition new_cache :: bytes where
  "new_cache = replicate 64 (CHR 0x00)"

section \<open>The root level by level\<close>

fun hash_pairs :: "tx_env \<Rightarrow> bytes \<Rightarrow> bytes option list \<Rightarrow> bytes option list \<times> bytes" where
  "hash_pairs env cache (l # r # hs) =
     (case GetHashFromTwoHash env cache l r of (h, cache1) \<Rightarrow>
        case hash_pairs env cache1 hs of (hs', cache2) \<Rightarrow> (h # hs', cache2))"
| "hash_pairs env cache hs = ([], cache)"

lemma length_hash_pairs: "length (fst (hash_pairs env cache hs)) = length hs div 2"
  by (induction env cache hs rule: hash_pairs.induct) (auto split: prod.split simp: prod_eq_iff)

lemma hash_pairs_shrinks:
  assumes "\<not> length hashes \<le> 1"
    and "(hs', c') = hash_pairs env cache (if odd (length hashes) then hashes @ [last hashes] else hashes)"
  shows "length hs' < length hashes"
proof -
  have "length hs' = length (if odd (length hashes) then hashes @ [last hashes] else hashes) div 2"
    using assms(2) length_hash_pairs by (metis fst_conv)
  then show ?thesis using assms(1) by (auto, presburger)
qed

function root_loop :: "tx_env \<Rightarrow> bytes \<Rightarrow> bytes option list \<Rightarrow> bytes option list" where
  "root_loop env cache hashes =
     (if length hashes \<le> 1 then hashes
      else case hash_pairs env cache (if odd (length hashes) then hashes @ [last hashes] else hashes) of
        (hashes', cache') \<Rightarrow> root_loop env cache' hashes')"
  by pat_completeness auto
termination
  by (relation "measure (\<lambda>(env, cache, hashes). length hashes)")
    (simp, simp only: in_measure case_prod_conv, erule (1) hash_pairs_shrinks)

declare root_loop.simps [simp del]

definition getMerkleRoot :: "tx_env \<Rightarrow> bytes option list \<Rightarrow> bytes option" where
  "getMerkleRoot env hashes =
     (case root_loop env new_cache hashes of [] \<Rightarrow> None | h # hs \<Rightarrow> h)"

section \<open>The root in parallel chunks\<close>

function log2_loop :: "int \<Rightarrow> int \<Rightarrow> int" where
  "log2_loop data level = (if data div 2 \<le> 1 then level else log2_loop (data div 2) (level + 1))"
  by pat_completeness auto
termination by (relation "measure (\<lambda>(data, level). nat data)") auto

declare log2_loop.simps [simp del]

definition log2 :: "int \<Rightarrow> int" where
  "log2 data = (if data \<le> 0 then 0 else log2_loop data 1)"

fun pow2_loop :: "nat \<Rightarrow> int \<Rightarrow> int" where
  "pow2_loop 0 p = p"
| "pow2_loop (Suc n) p = pow2_loop n (i64 (p * 2))"

definition pow2 :: "int \<Rightarrow> int" where
  "pow2 d = (if d \<le> 0 then 1 else pow2_loop (nat d) 1)"

function level_loop :: "int \<Rightarrow> int \<Rightarrow> int" where
  "level_loop n level = (if n > 1 then level_loop ((if odd n then n + 1 else n) div 2) (level + 1) else level)"
  by pat_completeness auto
termination by (relation "measure (\<lambda>(n, level). nat n)") (auto, presburger)

declare level_loop.simps [simp del]

definition calcLevel :: "int \<Rightarrow> int" where
  "calcLevel n = (if n = 1 then 1 else level_loop n 0)"

fun pad_loop :: "tx_env \<Rightarrow> nat \<Rightarrow> bytes \<Rightarrow> bytes option \<Rightarrow> bytes option" where
  "pad_loop env 0 cache root = root"
| "pad_loop env (Suc n) cache root =
     (case GetHashFromTwoHash env cache root root of (h, cache') \<Rightarrow> pad_loop env n cache' h)"

definition getMerkleRootPad :: "tx_env \<Rightarrow> bytes option list \<Rightarrow> int \<Rightarrow> bytes option" where
  "getMerkleRootPad env hashes step =
     (let level1 = calcLevel (int (length hashes));
          level2 = log2 step;
          (root, cache) =
            (case hashes of
               [h] \<Rightarrow> GetHashFromTwoHash env new_cache h h
             | _ \<Rightarrow> (getMerkleRoot env hashes, new_cache))
      in pad_loop env (nat (level2 - level1)) cache root)"

text \<open>
  The chunks are computed by goroutines that share nothing, and each result goes to the place
  of its chunk, so the list of results does not depend on their order. \<open>ncpu\<close> is
  \<^verbatim>\<open>runtime.NumCPU()\<close>.
\<close>

definition chunk_step :: "int \<Rightarrow> int \<Rightarrow> int" where
  "chunk_step ncpu n =
     (let step = log2 (n div ncpu);
          step1 = pow2 (if step < 1 then 1 else step)
      in if step1 > 256 then 256 else step1)"

definition GetMerkleRoot :: "tx_env \<Rightarrow> int \<Rightarrow> bytes option list \<Rightarrow> bytes option" where
  "GetMerkleRoot env ncpu hashes =
     (if length hashes \<le> 80 \<or> ncpu \<le> 1 then getMerkleRoot env hashes
      else
        let step = chunk_step ncpu (int (length hashes));
            s = nat step;
            l = (if length hashes mod s \<noteq> 0 then length hashes div s + 1 else length hashes div s);
            childlist = map (\<lambda>i.
              let h = take s (drop (i * s) hashes) in
              if length h \<noteq> s then getMerkleRootPad env h step else getMerkleRoot env h) [0..<l]
        in getMerkleRoot env childlist)"

section \<open>The constant-space calculator\<close>

text \<open>
  The variables of the loops: the array \<open>inner\<close>, the branch, the level at which the wanted leaf
  was last seen, the duplicate flag and the work buffer. Reading or writing \<open>inner\<close> beyond its
  32 entries panics.
\<close>

record comp_state =
  cs_inner :: "nat \<Rightarrow> bytes option"
  cs_branch :: "bytes option list"
  cs_matchlevel :: nat
  cs_mutated :: bool
  cs_cache :: bytes

text \<open>One step up: the part that the two inner loops share.\<close>

definition note_branch :: "bool \<Rightarrow> nat \<Rightarrow> bool \<Rightarrow> bytes option \<Rightarrow> comp_state \<Rightarrow> bool \<times> comp_state" where
  "note_branch want level matchh h s =
     (if want then
        if matchh then (True, s\<lparr>cs_branch := cs_branch s @ [cs_inner s level]\<rparr>)
        else if cs_matchlevel s = level then (True, s\<lparr>cs_branch := cs_branch s @ [h]\<rparr>)
        else (False, s)
      else (matchh, s))"

function up_loop ::
  "tx_env \<Rightarrow> bool \<Rightarrow> nat \<Rightarrow> nat \<Rightarrow> bool \<Rightarrow> bytes option \<Rightarrow> (comp_state, nat \<times> bool \<times> bytes option) op" where
  "up_loop env want cnt level matchh h s =
     (if odd (cnt div 2 ^ level) then (Ok (level, matchh, h), s)
      else if level \<ge> 32 then (Panic, s)
      else case note_branch want level matchh h s of (matchh1, s1) \<Rightarrow>
        let s2 = (if raw (cs_inner s1 level) = raw h then s1\<lparr>cs_mutated := True\<rparr> else s1) in
        case GetHashFromTwoHash env (cs_cache s2) (cs_inner s2 level) h of (h1, cache1) \<Rightarrow>
          up_loop env want cnt (Suc level) matchh1 h1 (s2\<lparr>cs_cache := cache1\<rparr>))"
  by pat_completeness auto
termination by (relation "measure (\<lambda>(env, want, cnt, level, matchh, h, s). 33 - level)") auto

declare up_loop.simps [simp del]

text \<open>The loop over the leaves; \<open>i\<close> is the index of the next leaf.\<close>

fun leaf_loop :: "tx_env \<Rightarrow> bool \<Rightarrow> nat \<Rightarrow> nat \<Rightarrow> bytes option list \<Rightarrow> (comp_state, unit) op" where
  "leaf_loop env want branchpos i [] s = (Ok (), s)"
| "leaf_loop env want branchpos i (h # hs) s =
     andThen (up_loop env want (Suc i) 0 (i mod 2 ^ 32 = branchpos \<and> want) h)
       (\<lambda>(level, matchh, h1) s1.
         if level \<ge> 32 then (Panic, s1)
         else leaf_loop env want branchpos (Suc i) hs
           (s1\<lparr>cs_inner := (cs_inner s1)(level := h1),
               cs_matchlevel := (if matchh then level else cs_matchlevel s1)\<rparr>)) s"

fun lowest_bit :: "nat \<Rightarrow> nat" where
  "lowest_bit n = (if n = 0 \<or> odd n then 0 else Suc (lowest_bit (n div 2)))"

declare lowest_bit.simps [simp del]

function prop_loop ::
  "tx_env \<Rightarrow> bool \<Rightarrow> nat \<Rightarrow> nat \<Rightarrow> bool \<Rightarrow> bytes option \<Rightarrow> (comp_state, nat \<times> bool \<times> bytes option) op" where
  "prop_loop env want cnt level matchh h s =
     (if odd (cnt div 2 ^ level) then (Ok (level, matchh, h), s)
      else if level \<ge> 32 then (Panic, s)
      else case note_branch want level matchh h s of (matchh1, s1) \<Rightarrow>
        case GetHashFromTwoHash env (cs_cache s1) (cs_inner s1 level) h of (h1, cache1) \<Rightarrow>
          prop_loop env want cnt (Suc level) matchh1 h1 (s1\<lparr>cs_cache := cache1\<rparr>))"
  by pat_completeness auto
termination by (relation "measure (\<lambda>(env, want, cnt, level, matchh, h, s). 33 - level)") auto

declare prop_loop.simps [simp del]

text \<open>
  The final loop. Every round raises the level, and the count is a 64-bit integer, so 64 rounds
  are more than it can make.
\<close>

fun final_loop ::
  "nat \<Rightarrow> tx_env \<Rightarrow> bool \<Rightarrow> nat \<Rightarrow> nat \<Rightarrow> bool \<Rightarrow> bytes option \<Rightarrow> (comp_state, bytes option) op" where
  "final_loop 0 env want cnt level matchh h s = (Panic, s)"
| "final_loop (Suc fuel) env want cnt level matchh h s =
     (if cnt = 2 ^ level then (Ok h, s)
      else
        let s1 = (if want \<and> matchh then s\<lparr>cs_branch := cs_branch s @ [h]\<rparr> else s) in
        case GetHashFromTwoHash env (cs_cache s1) h h of (h1, cache1) \<Rightarrow>
          andThen (prop_loop env want (cnt + 2 ^ level) (Suc level) matchh h1)
            (\<lambda>(level2, matchh2, h2). final_loop fuel env want (cnt + 2 ^ level) level2 matchh2 h2)
            (s1\<lparr>cs_cache := cache1\<rparr>))"

definition Computation ::
  "tx_env \<Rightarrow> bytes option list \<Rightarrow> int \<Rightarrow> nat \<Rightarrow> (bytes option \<times> bool \<times> bytes option list) outcome" where
  "Computation env leaves flage branchpos =
     (if leaves = [] then Ok (None, False, [])
      else if flage < 1 \<or> flage > 3 then Ok (None, False, [])
      else
        let want = (flage \<noteq> 1);
            s0 = \<lparr>cs_inner = \<lambda>_. None, cs_branch = [], cs_matchlevel = 255, cs_mutated = False, cs_cache = new_cache\<rparr>;
            cnt = length leaves;
            level = lowest_bit cnt
        in case leaf_loop env want branchpos 0 leaves s0 of
          (Ok _, s1) \<Rightarrow>
            if level \<ge> 32 then Panic
            else (case final_loop 64 env want cnt level (cs_matchlevel s1 = level) (cs_inner s1 level) s1 of
              (Ok h, s2) \<Rightarrow> Ok (h, cs_mutated s2, cs_branch s2)
            | (Fail e, s2) \<Rightarrow> Fail e
            | (Panic, s2) \<Rightarrow> Panic)
        | (Fail e, s1) \<Rightarrow> Fail e
        | (Panic, s1) \<Rightarrow> Panic)"

definition GetMerkleBranch :: "tx_env \<Rightarrow> bytes option list \<Rightarrow> nat \<Rightarrow> bytes option list outcome" where
  "GetMerkleBranch env leaves position =
     (case Computation env leaves 2 position of
        Ok (_, _, branchs) \<Rightarrow> Ok branchs | Fail e \<Rightarrow> Fail e | Panic \<Rightarrow> Panic)"

fun branch_loop :: "tx_env \<Rightarrow> bytes \<Rightarrow> bytes option list \<Rightarrow> bytes option \<Rightarrow> nat \<Rightarrow> bytes option" where
  "branch_loop env cache [] hash Index = hash"
| "branch_loop env cache (branch # bs) hash Index =
     (case (if odd Index then GetHashFromTwoHash env cache branch hash
            else GetHashFromTwoHash env cache hash branch) of
        (h, cache') \<Rightarrow> branch_loop env cache' bs h (Index div 2))"

definition GetMerkleRootFromBranch :: "tx_env \<Rightarrow> bytes option list \<Rightarrow> bytes option \<Rightarrow> nat \<Rightarrow> bytes option" where
  "GetMerkleRootFromBranch env merkleBranch leaf Index = branch_loop env new_cache merkleBranch leaf Index"

definition GetMerkleRootAndBranch ::
  "tx_env \<Rightarrow> bytes option list \<Rightarrow> nat \<Rightarrow> (bytes option \<times> bytes option list) outcome" where
  "GetMerkleRootAndBranch env leaves position =
     (case Computation env leaves 3 position of
        Ok (roothash, _, branchs) \<Rightarrow> Ok (roothash, branchs) | Fail e \<Rightarrow> Fail e | Panic \<Rightarrow> Panic)"

section \<open>Roots of transactions\<close>

definition zeroHash :: bytes where
  "zeroHash = replicate 32 (CHR 0x00)"

definition root_of_hashes :: "tx_env \<Rightarrow> int \<Rightarrow> bytes list \<Rightarrow> bytes outcome" where
  "root_of_hashes env ncpu hashes =
     (if hashes = [] then Ok zeroHash
      else case GetMerkleRoot env ncpu (map Some hashes) of None \<Rightarrow> Panic | Some r \<Rightarrow> Ok r)"

definition calcMerkleRoot :: "tx_env \<Rightarrow> int \<Rightarrow> Transaction list \<Rightarrow> bytes outcome" where
  "calcMerkleRoot env ncpu txs = root_of_hashes env ncpu (map (tx_Hash env) txs)"

definition calcSingleLayerMerkleRoot :: "tx_env \<Rightarrow> int \<Rightarrow> Transaction list \<Rightarrow> bytes outcome" where
  "calcSingleLayerMerkleRoot env ncpu txs = root_of_hashes env ncpu (map (FullHash env) txs)"

definition CalcMerkleRootCache :: "tx_env \<Rightarrow> int \<Rightarrow> Transaction list \<Rightarrow> bytes outcome" where
  "CalcMerkleRootCache env ncpu txs = root_of_hashes env ncpu (map (tx_Hash env) txs)"

record ChildChain =
  cc_Title :: string
  cc_StartIndex :: int
  cc_ChildHash :: bytes
  cc_TxCount :: int

definition new_child :: "string \<Rightarrow> nat \<Rightarrow> ChildChain" where
  "new_child title i = \<lparr>cc_Title = title, cc_StartIndex = i32 (int i), cc_ChildHash = [], cc_TxCount = 0\<rparr>"

text \<open>The first pass: where the main chain and the parallel chains start.\<close>

fun child_starts :: "nat \<Rightarrow> string \<Rightarrow> Transaction list \<Rightarrow> ChildChain list" where
  "child_starts i fristParaTitle [] = []"
| "child_starts i fristParaTitle (tx # txs) =
     (case GetParaExecTitleName (Execer tx) of
        None \<Rightarrow>
          (if i = 0 then new_child ''main'' 0 # child_starts (Suc i) fristParaTitle txs
           else child_starts (Suc i) fristParaTitle txs)
      | Some paraTitle \<Rightarrow>
          (if fristParaTitle = [] \<or> paraTitle \<noteq> fristParaTitle
           then new_child paraTitle i # child_starts (Suc i) paraTitle txs
           else child_starts (Suc i) fristParaTitle txs))"

text \<open>
  The second pass: the transactions and the root of every child, in order. Slicing the
  transactions panics when the bounds are out of range.
\<close>

fun child_roots :: "tx_env \<Rightarrow> int \<Rightarrow> Transaction list \<Rightarrow> ChildChain list \<Rightarrow> ChildChain list outcome" where
  "child_roots env ncpu txs [] = Ok []"
| "child_roots env ncpu txs (c # cs) =
     (let start = cc_StartIndex c;
          end = (case cs of [] \<Rightarrow> int (length txs) | c' # _ \<Rightarrow> cc_StartIndex c') in
      if start < 0 \<or> end < start \<or> int (length txs) < end then Panic
      else case calcSingleLayerMerkleRoot env ncpu (take (nat (end - start)) (drop (nat start) txs)) of
        Ok root \<Rightarrow>
          (case child_roots env ncpu txs cs of
             Ok cs' \<Rightarrow> Ok (c\<lparr>cc_TxCount := i32 (i32 end - start), cc_ChildHash := root\<rparr> # cs')
           | Fail e \<Rightarrow> Fail e | Panic \<Rightarrow> Panic)
      | Fail e \<Rightarrow> Fail e | Panic \<Rightarrow> Panic)"

definition calcMultiLayerMerkleInfo ::
  "tx_env \<Rightarrow> int \<Rightarrow> Transaction list \<Rightarrow> (bytes \<times> ChildChain list) outcome" where
  "calcMultiLayerMerkleInfo env ncpu txs =
     (if txs = [] then Ok (zeroHash, [])
      else let childchains = child_starts 0 [] txs in
        case childchains of
          [] \<Rightarrow> Panic
        | [c] \<Rightarrow>
            (case calcSingleLayerMerkleRoot env ncpu txs of
               Ok root \<Rightarrow> Ok (root, [c\<lparr>cc_ChildHash := root, cc_TxCount := i32 (int (length txs))\<rparr>])
             | Fail e \<Rightarrow> Fail e | Panic \<Rightarrow> Panic)
        | _ \<Rightarrow>
            (case child_roots env ncpu txs childchains of
               Ok cs \<Rightarrow>
                 (case GetMerkleRoot env ncpu (map (\<lambda>c. Some (cc_ChildHash c)) cs) of
                    None \<Rightarrow> Panic | Some r \<Rightarrow> Ok (r, cs))
             | Fail e \<Rightarrow> Fail e | Panic \<Rightarrow> Panic))"

definition CalcMerkleRoot :: "tx_env \<Rightarrow> tx_cfg \<Rightarrow> int \<Rightarrow> int \<Rightarrow> Transaction list \<Rightarrow> bytes outcome" where
  "CalcMerkleRoot env cfg ncpu height txs =
     (if \<not> tc_IsFork cfg height ''ForkRootHash'' then calcMerkleRoot env ncpu txs
      else case calcMultiLayerMerkleInfo env ncpu txs of
        Ok (calcHash, _) \<Rightarrow> Ok calcHash | Fail e \<Rightarrow> Fail e | Panic \<Rightarrow> Panic)"

definition CalcMultiLayerMerkleInfo ::
  "tx_env \<Rightarrow> tx_cfg \<Rightarrow> int \<Rightarrow> int \<Rightarrow> Transaction list \<Rightarrow> (bytes option \<times> ChildChain list) outcome" where
  "CalcMultiLayerMerkleInfo env cfg ncpu height txs =
     (if \<not> tc_IsFork cfg height ''ForkRootHash'' then Ok (None, [])
      else case calcMultiLayerMerkleInfo env ncpu txs of
        Ok (h, cs) \<Rightarrow> Ok (Some h, cs) | Fail e \<Rightarrow> Fail e | Panic \<Rightarrow> Panic)"

end
