(* ===== verification/Merkle_Root.thy ===== *)
theory Merkle_Root
  imports Merkle
begin

text \<open>
  The root as a function of a two-argument hash: level by level (\<open>root\<close>) and as the root of the
  perfect tree in which a missing right half is a copy of the left one (\<open>tree\<close>). The code's
  sequential root is \<open>root\<close>, both are the same, and the root computed in chunks is the same.
\<close>

section \<open>The code on hashes of 32 bytes\<close>

definition sha_ok :: "tx_env \<Rightarrow> bool" where
  "sha_ok env \<longleftrightarrow> (\<forall>x. length (te_Sha256 env x) = 32)"

definition wide :: "bytes list \<Rightarrow> bool" where
  "wide hs \<longleftrightarrow> (\<forall>h\<in>set hs. length h = 32)"

definition two :: "tx_env \<Rightarrow> bytes \<Rightarrow> bytes \<Rightarrow> bytes" where
  "two env l r = Sha2Sum env (l @ r)"

lemma length_two [simp]: "sha_ok env \<Longrightarrow> length (two env l r) = 32"
  by (simp add: two_def Sha2Sum_def sha_ok_def)

lemma GetHashFromTwoHash_two:
  assumes "length cache = 64" and "length l = 32" and "length r = 32"
  shows "GetHashFromTwoHash env cache (Some l) (Some r) = (Some (two env l r), l @ r)"
  using assms by (simp add: GetHashFromTwoHash_def copy_at_def two_def Let_def)

fun lev :: "('a \<Rightarrow> 'a \<Rightarrow> 'a) \<Rightarrow> 'a list \<Rightarrow> 'a list" where
  "lev H (l # r # hs) = H l r # lev H hs"
| "lev H [h] = [H h h]"
| "lev H [] = []"

lemma length_lev [simp]: "length (lev H hs) = (length hs + 1) div 2"
  by (induction H hs rule: lev.induct) simp_all

lemma lev_odd: "odd (length hs) \<Longrightarrow> lev H (hs @ [last hs]) = lev H hs"
  by (induction H hs rule: lev.induct) auto

lemma lev_Nil [simp]: "lev H hs = [] \<longleftrightarrow> hs = []"
  by (cases "(H, hs)" rule: lev.cases) simp_all

lemma wide_lev: "sha_ok env \<Longrightarrow> wide (lev (two env) hs)"
  by (induction "two env" hs rule: lev.induct) (simp_all add: wide_def)

lemma hash_pairs_lev:
  assumes "length cache = 64" and "wide hs" and "even (length hs)"
  shows "\<exists>c. hash_pairs env cache (map Some hs) = (map Some (lev (two env) hs), c) \<and> length c = 64"
  using assms
proof (induction "two env" hs arbitrary: cache rule: lev.induct)
  case (1 l r hs)
  then have lr: "length l = 32" "length r = 32" "wide hs" by (simp_all add: wide_def)
  then obtain c where "hash_pairs env (l @ r) (map Some hs) = (map Some (lev (two env) hs), c)" "length c = 64"
    using 1(1) [of "l @ r"] 1(4) by auto
  then show ?case using 1 lr by (simp add: GetHashFromTwoHash_two)
qed simp_all

function root :: "('a \<Rightarrow> 'a \<Rightarrow> 'a) \<Rightarrow> 'a list \<Rightarrow> 'a" where
  "root H hs = (if length hs \<le> 1 then hd hs else root H (lev H hs))"
  by pat_completeness auto
termination by (relation "measure (\<lambda>(H, hs). length hs)") auto

declare root.simps [simp del]

lemma root_lev: "1 < length hs \<Longrightarrow> root H (lev H hs) = root H hs"
  by (simp add: root.simps [of H hs])

lemma root_loop_root:
  assumes "sha_ok env" and "length cache = 64" and "wide hs" and "hs \<noteq> []"
  shows "root_loop env cache (map Some hs) = [Some (root (two env) hs)]"
  using assms(2-)
proof (induction "length hs" arbitrary: hs cache rule: less_induct)
  case less
  show ?case
  proof (cases "length hs \<le> 1")
    case True
    then obtain h where "hs = [h]" using less.prems(3) by (cases hs) auto
    then show ?thesis by (simp add: root_loop.simps root.simps)
  next
    case False
    let ?hs = "if odd (length hs) then hs @ [last hs] else hs"
    have "wide ?hs" "even (length ?hs)" "lev (two env) ?hs = lev (two env) hs"
      using less.prems(2,3) by (auto simp: wide_def lev_odd)
    then obtain c where c: "hash_pairs env cache (map Some ?hs) = (map Some (lev (two env) hs), c)" "length c = 64"
      using hash_pairs_lev [OF less.prems(1)] by metis
    moreover have "map Some ?hs = (if odd (length (map Some hs)) then map Some hs @ [last (map Some hs)] else map Some hs)"
      using less.prems(3) by (simp add: last_map)
    ultimately have "root_loop env cache (map Some hs) = root_loop env c (map Some (lev (two env) hs))"
      using False by (subst root_loop.simps) simp
    also have "\<dots> = [Some (root (two env) (lev (two env) hs))]"
      by (rule less.hyps) (use False c less.prems assms(1) in \<open>auto simp: wide_lev\<close>)
    finally show ?thesis using False by (simp add: root_lev)
  qed
qed

lemma getMerkleRoot_root:
  "sha_ok env \<Longrightarrow> wide hs \<Longrightarrow> hs \<noteq> [] \<Longrightarrow> getMerkleRoot env (map Some hs) = Some (root (two env) hs)"
  by (simp add: getMerkleRoot_def new_cache_def root_loop_root)

lemma wide_root:
  assumes "sha_ok env" and "wide hs" and "hs \<noteq> []" shows "length (root (two env) hs) = 32"
  using assms(2,3)
proof (induction "length hs" arbitrary: hs rule: less_induct)
  case less
  show ?case
  proof (cases "length hs \<le> 1")
    case True
    then show ?thesis using less.prems by (simp add: root.simps wide_def)
  next
    case False
    then have "length (root (two env) (lev (two env) hs)) = 32"
      using less assms(1) by (intro less.hyps) (auto simp: wide_lev)
    then show ?thesis using False by (simp add: root_lev)
  qed
qed

section \<open>The root as a tree\<close>

fun tree :: "('a \<Rightarrow> 'a \<Rightarrow> 'a) \<Rightarrow> nat \<Rightarrow> 'a list \<Rightarrow> 'a" where
  "tree H 0 hs = hd hs"
| "tree H (Suc k) hs =
     (if length hs \<le> 2 ^ k then H (tree H k hs) (tree H k hs)
      else H (tree H k (take (2 ^ k) hs)) (tree H k (drop (2 ^ k) hs)))"

lemma lev_take: "lev H (take (2 * n) hs) = take n (lev H hs)"
proof (induction n arbitrary: hs)
  case (Suc n)
  show ?case
  proof (cases "(H, hs)" rule: lev.cases)
    case (1 H' l r hs')
    then show ?thesis using Suc [of hs'] by simp
  qed simp_all
qed simp

lemma lev_drop: "lev H (drop (2 * n) hs) = drop n (lev H hs)"
proof (induction n arbitrary: hs)
  case (Suc n)
  show ?case
  proof (cases "(H, hs)" rule: lev.cases)
    case (1 H' l r hs')
    then show ?thesis using Suc [of hs'] by simp
  qed simp_all
qed simp

lemma tree_lev: "hs \<noteq> [] \<Longrightarrow> tree H (Suc k) hs = tree H k (lev H hs)"
proof (induction k arbitrary: hs)
  case 0
  then show ?case by (cases "(H, hs)" rule: lev.cases) simp_all
next
  case (Suc k)
  have take: "lev H (take (2 ^ Suc k) hs) = take (2 ^ k) (lev H hs)"
    and drop: "lev H (drop (2 ^ Suc k) hs) = drop (2 ^ k) (lev H hs)"
    using lev_take [of H "2 ^ k" hs] lev_drop [of H "2 ^ k" hs] by simp_all
  have len: "length hs \<le> 2 ^ Suc k \<longleftrightarrow> length (lev H hs) \<le> 2 ^ k" by auto
  show ?case
  proof (cases "length hs \<le> 2 ^ Suc k")
    case True
    then show ?thesis using Suc len by (subst (1 2) tree.simps(2)) simp
  next
    case False
    then have ne: "take (2 ^ Suc k) hs \<noteq> []" "drop (2 ^ Suc k) hs \<noteq> []" using Suc.prems by auto
    have "tree H (Suc (Suc k)) hs = H (tree H (Suc k) (take (2 ^ Suc k) hs)) (tree H (Suc k) (drop (2 ^ Suc k) hs))"
      by (subst tree.simps(2)) (simp only: False if_False)
    also have "\<dots> = H (tree H k (take (2 ^ k) (lev H hs))) (tree H k (drop (2 ^ k) (lev H hs)))"
      by (simp only: Suc.IH [OF ne(1)] Suc.IH [OF ne(2)] take drop)
    also have "\<dots> = tree H (Suc k) (lev H hs)"
      using False len by (subst tree.simps(2)) (simp only: if_False)
    finally show ?thesis .
  qed
qed

fun ceil_log :: "nat \<Rightarrow> nat" where
  "ceil_log n = (if n \<le> 1 then 0 else Suc (ceil_log ((n + 1) div 2)))"

declare ceil_log.simps [simp del]

lemma root_tree: "hs \<noteq> [] \<Longrightarrow> root H hs = tree H (ceil_log (length hs)) hs"
proof (induction "length hs" arbitrary: hs rule: less_induct)
  case less
  show ?case
  proof (cases "length hs \<le> 1")
    case True
    then show ?thesis by (simp add: root.simps ceil_log.simps)
  next
    case False
    then have "root H (lev H hs) = tree H (ceil_log (length (lev H hs))) (lev H hs)"
      using less.prems by (intro less.hyps) auto
    then show ?thesis
      using False less.prems tree_lev [of hs H "ceil_log (length (lev H hs))"]
      by (simp add: root_lev ceil_log.simps [of "length hs"])
  qed
qed

lemma ceil_log_unique: "0 < n \<Longrightarrow> n \<le> 2 ^ k \<Longrightarrow> 2 ^ k < 2 * n \<Longrightarrow> ceil_log n = k"
proof (induction k arbitrary: n)
  case 0
  then show ?case by (simp add: ceil_log.simps)
next
  case (Suc k)
  then have "(2 :: nat) ^ k < n" by simp
  then have "1 < n" using one_le_power [of "2 :: nat" k] by linarith
  moreover have "ceil_log ((n + 1) div 2) = k" by (rule Suc.IH) (use Suc.prems in auto)
  ultimately show ?case by (subst ceil_log.simps) simp
qed

lemma ceil_log_bounds: "0 < n \<Longrightarrow> n \<le> 2 ^ ceil_log n \<and> 2 ^ ceil_log n < 2 * n"
proof (induction n rule: ceil_log.induct)
  case (1 n)
  show ?case
  proof (cases "n \<le> 1")
    case True
    then show ?thesis using 1(2) by (simp add: ceil_log.simps)
  next
    case False
    define m where "m = (n + 1) div 2"
    define P :: nat where "P = 2 ^ ceil_log m"
    have cl: "2 ^ ceil_log n = 2 * P" using False by (simp add: P_def m_def ceil_log.simps [of n])
    have m: "m \<le> P" "P < 2 * m" using 1(1) False by (auto simp: P_def m_def)
    have n: "n = 2 * m \<or> n + 1 = 2 * m" unfolding m_def by presburger
    have "P + 2 \<le> 2 * m" if "m \<noteq> 1"
    proof -
      have "1 < P" using m that by linarith
      then have "even P" by (cases "ceil_log m") (simp_all add: P_def)
      then show ?thesis using m(2) by presburger
    qed
    then show ?thesis unfolding cl using m n False by linarith
  qed
qed

section \<open>Chunks\<close>

lemma length_lev_pow:
  "hs \<noteq> [] \<Longrightarrow> length ((lev H ^^ k) hs) = (length hs + 2 ^ k - 1) div 2 ^ k"
proof (induction k arbitrary: hs)
  case (Suc k)
  then have "length ((lev H ^^ k) (lev H hs)) = ((length hs + 1) div 2 + 2 ^ k - 1) div 2 ^ k"
    by (simp del: funpow.simps)
  also have "\<dots> = (length hs + 2 ^ Suc k - 1) div 2 div 2 ^ k"
  proof -
    have "(length hs + 1) div 2 + 2 ^ k - 1 = (length hs + 2 ^ Suc k - 1) div 2"
      using one_le_power [of "2 :: nat" k] Suc.prems by (cases "length hs") auto
    then show ?thesis by simp
  qed
  finally show ?case by (simp add: funpow_Suc_right div_mult2_eq del: funpow.simps)
qed simp

text \<open>The elements after \<open>k\<close> levels are the trees of the chunks of size $2^k$.\<close>

lemma nth_lev_pow:
  assumes "i * 2 ^ k < length hs"
  shows "(lev H ^^ k) hs ! i = tree H k (take (2 ^ k) (drop (i * 2 ^ k) hs))"
  using assms
proof (induction k arbitrary: hs)
  case 0
  then show ?case by (simp add: hd_drop_conv_nth hd_take)
next
  case (Suc k)
  let ?c = "take (2 ^ Suc k) (drop (i * 2 ^ Suc k) hs)"
  have "i * 2 ^ k < length (lev H hs)" using Suc.prems by simp
  then have "(lev H ^^ k) (lev H hs) ! i = tree H k (take (2 ^ k) (drop (i * 2 ^ k) (lev H hs)))"
    by (rule Suc.IH)
  also have "take (2 ^ k) (drop (i * 2 ^ k) (lev H hs)) = lev H ?c"
    using lev_drop [of H "i * 2 ^ k" hs] lev_take [of H "2 ^ k"] by (simp add: mult.assoc mult.left_commute)
  also have "tree H k (lev H ?c) = tree H (Suc k) ?c"
    using Suc.prems by (intro tree_lev [symmetric]) simp
  finally show ?case by (simp add: funpow_Suc_right del: funpow.simps)
qed

lemma root_lev_pow: "2 ^ k < length hs \<Longrightarrow> root H ((lev H ^^ k) hs) = root H hs"
proof (induction k)
  case (Suc k)
  have "2 ^ k + 1 \<le> length hs" using Suc.prems by simp
  then have "2 ^ k * 2 \<le> length hs + 2 ^ k - 1" using Suc.prems by simp
  then have "2 \<le> (length hs + 2 ^ k - 1) div 2 ^ k" using less_eq_div_iff_mult_less_eq [of "2 ^ k"] by (simp add: mult.commute)
  then have "1 < length ((lev H ^^ k) hs)" using Suc.prems by (subst length_lev_pow) auto
  then show ?case using Suc by (simp add: root_lev)
qed simp

lemma ceil_div:
  assumes "0 < (s :: nat)"
  shows "(if n mod s \<noteq> 0 then n div s + 1 else n div s) = (n + s - 1) div s"
proof (cases "n mod s = 0")
  case True
  then obtain q where "n = s * q" by (metis dvdE mod_0_imp_dvd)
  then have "n + s - 1 = (s - 1) + q * s" using assms by (simp add: mult.commute)
  moreover have "((s - 1) + q * s) div s = q + (s - 1) div s" using assms by (intro div_mult_self1) simp
  moreover have "(s - 1) div s = 0" using assms by simp
  ultimately have "(n + s - 1) div s = q" by (simp only: add_0_right)
  then show ?thesis using True assms \<open>n = s * q\<close> by simp
next
  case False
  have "n + s - 1 = (n mod s - 1) + (n div s + 1) * s"
    using False div_mult_mod_eq [of n s] by (simp add: distrib_right)
  moreover have "((n mod s - 1) + (n div s + 1) * s) div s = (n div s + 1) + (n mod s - 1) div s"
    using assms by (intro div_mult_self1) simp
  moreover have "n mod s - 1 < s" using mod_less_divisor [OF assms, of n] by linarith
  ultimately have "(n + s - 1) div s = n div s + 1" by (simp only: div_less add_0_right)
  then show ?thesis using False by simp
qed

lemma chunk_nonempty:
  assumes "0 < (s :: nat)" and "i < (n + s - 1) div s" shows "i * s < n"
proof -
  have "Suc i * s \<le> n + s - 1"
    using assms less_eq_div_iff_mult_less_eq [of s "Suc i" "n + s - 1"] by simp
  then show ?thesis using assms(1) unfolding mult_Suc by linarith
qed

lemma chunk_roots:
  assumes "2 ^ k < length hs"
  shows "root H (map (\<lambda>i. tree H k (take (2 ^ k) (drop (i * 2 ^ k) hs))) [0..<(length hs + 2 ^ k - 1) div 2 ^ k]) = root H hs"
proof -
  have len: "length ((lev H ^^ k) hs) = (length hs + 2 ^ k - 1) div 2 ^ k"
    using assms by (intro length_lev_pow) auto
  have "(lev H ^^ k) hs = map (\<lambda>i. tree H k (take (2 ^ k) (drop (i * 2 ^ k) hs))) [0..<(length hs + 2 ^ k - 1) div 2 ^ k]"
  proof (rule nth_equalityI)
    fix i
    assume "i < length ((lev H ^^ k) hs)"
    moreover have "i * 2 ^ k < length hs" if "i < (length hs + 2 ^ k - 1) div 2 ^ k"
      by (rule chunk_nonempty [OF _ that]) simp
    ultimately show "(lev H ^^ k) hs ! i = map (\<lambda>i. tree H k (take (2 ^ k) (drop (i * 2 ^ k) hs)))
        [0..<(length hs + 2 ^ k - 1) div 2 ^ k] ! i"
      by (simp add: nth_lev_pow len)
  qed (simp add: len)
  with root_lev_pow [OF assms, of H] show ?thesis by simp
qed

lemma tree_pad: "length hs \<le> 2 ^ m \<Longrightarrow> tree H (m + j) hs = ((\<lambda>r. H r r) ^^ j) (tree H m hs)"
proof (induction j)
  case (Suc j)
  have "length hs \<le> 2 ^ (m + j)" using Suc.prems by (rule le_trans) (simp add: power_increasing)
  then show ?case using Suc by simp
qed simp

section \<open>The numbers of the code\<close>

lemma log2_loop_spec:
  "0 < data \<Longrightarrow> \<exists>j. log2_loop data level = level + int j \<and> 2 ^ Suc j \<le> max 2 data"
proof (induction data level rule: log2_loop.induct)
  case (1 data level)
  show ?case
  proof (cases "data div 2 \<le> 1")
    case True
    then show ?thesis by (intro exI [of _ 0]) (simp add: log2_loop.simps)
  next
    case False
    then obtain j where j: "log2_loop (data div 2) (level + 1) = level + 1 + int j" "2 ^ Suc j \<le> max 2 (data div 2)"
      using 1 by auto
    then have "2 ^ Suc (Suc j) \<le> 2 * (data div 2)" using False by (simp add: max_def split: if_splits)
    also have "\<dots> \<le> data" by simp
    finally show ?thesis using False j(1) by (intro exI [of _ "Suc j"]) (simp add: log2_loop.simps [of data])
  qed
qed

lemma log2_pow: "log2 (2 ^ Suc k) = int (Suc k)"
proof -
  have "log2_loop (2 ^ Suc k) level = level + int k" for level
  proof (induction k arbitrary: level)
    case (Suc k)
    have "\<not> 2 ^ Suc k \<le> (1 :: int)" using one_le_power [of "2 :: int" k] unfolding power_Suc by linarith
    then show ?case using Suc by (subst log2_loop.simps) simp
  qed (simp add: log2_loop.simps)
  then show ?thesis by (simp add: log2_def)
qed

lemma pow2_pow: "k \<le> 62 \<Longrightarrow> pow2 (int k) = 2 ^ k"
proof -
  have "p * 2 ^ n < 2 ^ 63 \<Longrightarrow> 0 \<le> p \<Longrightarrow> pow2_loop n p = p * 2 ^ n" for n p
  proof (induction n arbitrary: p)
    case (Suc n)
    have "p * 2 * 1 \<le> p * 2 * 2 ^ n" using Suc.prems by (intro mult_left_mono) auto
    then have "i64 (p * 2) = p * 2" using Suc.prems by (simp add: in_i64_def)
    then show ?case using Suc by simp
  qed simp
  moreover assume "k \<le> 62"
  then have "(2 :: int) ^ k < 2 ^ 63" by (intro power_strict_increasing) auto
  ultimately show ?thesis by (simp add: pow2_def)
qed

lemma calcLevel_spec: "1 < n \<Longrightarrow> calcLevel (int n) = int (ceil_log n)"
proof -
  have "level_loop (int n) lv = lv + int (ceil_log n)" for n lv
  proof (induction n arbitrary: lv rule: ceil_log.induct)
    case (1 n)
    have "(if odd (int n) then int n + 1 else int n) div 2 = int ((n + 1) div 2)" by auto
    then show ?case using 1 by (subst level_loop.simps, subst ceil_log.simps) auto
  qed
  then show "1 < n \<Longrightarrow> calcLevel (int n) = int (ceil_log n)" by (simp add: calcLevel_def)
qed

lemma chunk_step_spec:
  assumes "80 < n" and "1 < ncpu" and "n < 2 ^ 63"
  shows "\<exists>k. chunk_step ncpu n = 2 ^ Suc k \<and> 2 ^ Suc k < n"
proof -
  have half: "n div ncpu \<le> n div 2" using assms by (intro zdiv_mono2) auto
  obtain k where k: "(if log2 (n div ncpu) < 1 then 1 else log2 (n div ncpu)) = int (Suc k)" "2 ^ Suc k \<le> max 2 (n div ncpu)"
  proof (cases "0 < n div ncpu")
    case True
    then show thesis using log2_loop_spec [OF True, of 1] that by (auto simp: log2_def)
  next
    case False
    then show thesis using that [of 0] by (simp add: log2_def)
  qed
  have small: "2 ^ Suc k < n" using k(2) half assms(1) by (auto simp: max_def split: if_splits)
  then have "(2 :: int) ^ Suc k < 2 ^ 63" using assms(3) by linarith
  then have "Suc k \<le> 62" using power_less_imp_less_exp [of "2 :: int" "Suc k" 63] by simp
  then have p: "pow2 (int (Suc k)) = 2 ^ Suc k" by (rule pow2_pow)
  show ?thesis
  proof (cases "2 ^ Suc k > (256 :: int)")
    case True
    then have "chunk_step ncpu n = 2 ^ Suc 7" "2 ^ Suc 7 < n" using k(1) p small by (simp_all add: chunk_step_def Let_def)
    then show ?thesis by blast
  next
    case False
    then have "chunk_step ncpu n = 2 ^ Suc k" using k(1) p by (simp add: chunk_step_def Let_def)
    then show ?thesis using small by blast
  qed
qed

section \<open>The parallel root is the sequential one\<close>

lemma pad_loop_two:
  assumes "sha_ok env" and "length cache = 64" and "length r = 32"
  shows "pad_loop env j cache (Some r) = Some (((\<lambda>r. two env r r) ^^ j) r)"
  using assms(2,3)
proof (induction j arbitrary: cache r)
  case (Suc j)
  then show ?case
    using Suc.IH [of "r @ r" "two env r r"] assms(1)
    by (simp add: GetHashFromTwoHash_two funpow_Suc_right del: funpow.simps)
qed simp

lemma getMerkleRootPad_tree:
  assumes env: "sha_ok env" and hs: "wide hs" "hs \<noteq> []" "length hs \<le> 2 ^ Suc k"
  shows "getMerkleRootPad env (map Some hs) (2 ^ Suc k) = Some (tree (two env) (Suc k) hs)"
proof (cases "length hs = 1")
  case True
  then obtain h where h: "hs = [h]" by (cases hs) auto
  then have "length h = 32" using hs(1) by (simp add: wide_def)
  then show ?thesis
    using pad_loop_two [OF env, of "h @ h" "two env h h" k] env tree_pad [of "[h]" 0 "two env" "Suc k"]
    by (simp add: h getMerkleRootPad_def new_cache_def GetHashFromTwoHash_two log2_pow calcLevel_def
        funpow_Suc_right del: funpow.simps tree.simps(2) power_Suc)
next
  case False
  then have n: "1 < length hs" using hs(2) by (cases hs) auto
  let ?c = "ceil_log (length hs)"
  have bounds: "length hs \<le> 2 ^ ?c" "2 ^ ?c < 2 * length hs" using ceil_log_bounds [of "length hs"] hs(2) by auto
  then have "(2 :: nat) ^ ?c < 2 ^ Suc (Suc k)" using hs(3) by simp
  then have c: "?c \<le> Suc k" using power_less_imp_less_exp [of "2 :: nat" ?c "Suc (Suc k)"] by simp
  have diff: "nat (int (Suc k) - int ?c) = Suc k - ?c" using c by linarith
  have case1: "(case map Some hs of [h] \<Rightarrow> GetHashFromTwoHash env new_cache h h
      | _ \<Rightarrow> (getMerkleRoot env (map Some hs), new_cache)) = (getMerkleRoot env (map Some hs), new_cache)"
    using n by (auto split: list.split)
  have "getMerkleRootPad env (map Some hs) (2 ^ Suc k) =
      pad_loop env (Suc k - ?c) new_cache (Some (tree (two env) ?c hs))"
    unfolding getMerkleRootPad_def Let_def case1
    using n diff by (simp add: getMerkleRoot_root [OF env hs(1,2)] root_tree [OF hs(2)] log2_pow calcLevel_spec
        del: power_Suc of_nat_Suc)
  also have "\<dots> = Some (((\<lambda>r. two env r r) ^^ (Suc k - ?c)) (tree (two env) ?c hs))"
    using wide_root [OF env hs(1,2)] by (intro pad_loop_two [OF env]) (simp_all add: new_cache_def root_tree [OF hs(2)])
  also have "((\<lambda>r. two env r r) ^^ (Suc k - ?c)) (tree (two env) ?c hs) = tree (two env) (?c + (Suc k - ?c)) hs"
    using tree_pad [OF bounds(1)] by simp
  finally show ?thesis using c by simp
qed

lemma full_chunk:
  assumes "sha_ok env" and "wide hs" and "length hs = 2 ^ k"
  shows "getMerkleRoot env (map Some hs) = Some (tree (two env) k hs)"
proof -
  have "hs \<noteq> []" using assms(3) by auto
  moreover have "ceil_log (2 ^ k) = k" by (rule ceil_log_unique) simp_all
  ultimately show ?thesis using assms by (simp add: getMerkleRoot_root root_tree)
qed

lemma GetMerkleRoot_sequential:
  assumes env: "sha_ok env" and w: "wide hs" and n: "int (length hs) < 2 ^ 63"
  shows "GetMerkleRoot env ncpu (map Some hs) = getMerkleRoot env (map Some hs)"
proof (cases "length hs \<le> 80 \<or> ncpu \<le> 1")
  case False
  obtain k where k: "chunk_step ncpu (int (length hs)) = 2 ^ Suc k" "2 ^ Suc k < int (length hs)"
    using chunk_step_spec [of "int (length hs)" ncpu] False n by auto
  define s :: nat where "s = 2 ^ Suc k"
  have s: "nat (2 ^ Suc k) = s" "0 < s" by (simp_all add: s_def nat_power_eq del: power_Suc)
  have "int s < int (length hs)" using k(2) by (simp add: s_def)
  then have less: "s < length hs" by simp
  let ?l = "(length hs + s - 1) div s" and ?chunk = "\<lambda>i. take s (drop (i * s) hs)"
  have child: "(if length (take s (drop (i * s) (map Some hs))) \<noteq> s
        then getMerkleRootPad env (take s (drop (i * s) (map Some hs))) (2 ^ Suc k)
        else getMerkleRoot env (take s (drop (i * s) (map Some hs)))) = Some (tree (two env) (Suc k) (?chunk i))"
    if "i < ?l" for i
  proof -
    have ne: "?chunk i \<noteq> []" using chunk_nonempty [OF s(2) that] s(2) by simp
    have wc: "wide (?chunk i)" using w by (auto simp: wide_def dest: in_set_takeD in_set_dropD)
    have map: "take s (drop (i * s) (map Some hs)) = map Some (?chunk i)" by (simp add: take_map drop_map)
    have "length (?chunk i) \<le> 2 ^ Suc k" unfolding s_def by (simp only: length_take min.cobounded2)
    from getMerkleRootPad_tree [OF env wc ne this] full_chunk [OF env wc, of "Suc k", folded s_def]
    show ?thesis unfolding map length_map by (simp del: tree.simps power_Suc length_take)
  qed
  have "GetMerkleRoot env ncpu (map Some hs) =
      getMerkleRoot env (map (\<lambda>i. if length (take s (drop (i * s) (map Some hs))) \<noteq> s
        then getMerkleRootPad env (take s (drop (i * s) (map Some hs))) (2 ^ Suc k)
        else getMerkleRoot env (take s (drop (i * s) (map Some hs)))) [0..<?l])"
    using False by (simp only: GetMerkleRoot_def Let_def length_map k(1) s(1) ceil_div [OF s(2)] if_False)
  also have "\<dots> = getMerkleRoot env (map (\<lambda>i. Some (tree (two env) (Suc k) (?chunk i))) [0..<?l])"
    by (intro arg_cong [where f = "getMerkleRoot env"] map_cong refl child) simp
  also have "\<dots> = getMerkleRoot env (map Some (map (\<lambda>i. tree (two env) (Suc k) (?chunk i)) [0..<?l]))"
    by (simp only: map_map comp_def)
  also have "\<dots> = Some (root (two env) (map (\<lambda>i. tree (two env) (Suc k) (?chunk i)) [0..<?l]))"
  proof (rule getMerkleRoot_root [OF env])
    show "map (\<lambda>i. tree (two env) (Suc k) (?chunk i)) [0..<?l] \<noteq> []"
      using less s(2) by (simp add: div_eq_0_iff)
    show "wide (map (\<lambda>i. tree (two env) (Suc k) (?chunk i)) [0..<?l])"
      using env by (auto simp: wide_def)
  qed
  also have "\<dots> = Some (root (two env) hs)"
    using chunk_roots [of "Suc k" hs "two env"] less by (simp add: s_def del: tree.simps)
  also have "\<dots> = getMerkleRoot env (map Some hs)"
    using less by (intro getMerkleRoot_root [OF env w, symmetric]) auto
  finally show ?thesis .
qed (auto simp: GetMerkleRoot_def)

text \<open>
  C19: The Merkle root that is computed in parallel chunks is the root computed sequentially, for
  every number of processors and every number of leaves: padding the last chunk and hashing the
  chunk roots gives the same tree. The leaves are 32-byte hashes, as the hash function returns.
\<close>
theorem parallel_root_is_sequential:
  assumes env: "\<forall>x. length (te_Sha256 env x) = 32" and hs: "\<forall>h\<in>set hs. length h = 32"
    and n: "int (length hs) < 2 ^ 63"
  shows "GetMerkleRoot env ncpu (map Some hs) = getMerkleRoot env (map Some hs)"
  using GetMerkleRoot_sequential [of env hs ncpu] assms by (simp add: sha_ok_def wide_def)

theorem parallel_root_is_sequential_witness:
  "GetMerkleRoot (sample_env\<lparr>te_Sha256 := \<lambda>x. take 32 (x @ replicate 32 (CHR ''z''))\<rparr>) 4
      (map Some (replicate 100 (replicate 32 (CHR ''a'')))) =
    getMerkleRoot (sample_env\<lparr>te_Sha256 := \<lambda>x. take 32 (x @ replicate 32 (CHR ''z''))\<rparr>)
      (map Some (replicate 100 (replicate 32 (CHR ''a''))))"
  by (rule parallel_root_is_sequential) (auto simp: min_def)

end
