(* ===== verification/Merkle_Branch.thy ===== *)
theory Merkle_Branch
  imports Merkle_Root
begin

text \<open>
  The constant-space calculator computes the same root as the level-by-level function, and the
  branch it returns leads from the leaf back to that root. \<open>blk k p\<close> is the root of the block of
  $2^k$ leaves from position \<open>p\<close> on, \<open>br k p\<close> the siblings from the wanted leaf up to that block.
\<close>

section \<open>Blocks and branches\<close>

definition blk :: "tx_env \<Rightarrow> bytes list \<Rightarrow> nat \<Rightarrow> nat \<Rightarrow> bytes" where
  "blk env xs k p = tree (two env) k (take (2 ^ k) (drop p xs))"

lemma blk_0: "p < length xs \<Longrightarrow> blk env xs 0 p = xs ! p"
  by (simp add: blk_def hd_take hd_drop_conv_nth)

lemma blk_Suc:
  assumes "p < length xs"
  shows "blk env xs (Suc k) p =
    two env (blk env xs k p) (if p + 2 ^ k < length xs then blk env xs k (p + 2 ^ k) else blk env xs k p)"
proof -
  let ?ys = "take (2 ^ Suc k) (drop p xs)"
  have len: "length ?ys \<le> 2 ^ k \<longleftrightarrow> \<not> p + 2 ^ k < length xs"
    using assms one_le_power [of "2 :: nat" k] by (simp add: min_def, linarith)
  have all: "\<not> p + 2 ^ k < length xs \<Longrightarrow> ?ys = take (2 ^ k) (drop p xs)" by simp
  have "take (2 ^ k) ?ys = take (2 ^ k) (drop p xs)" "drop (2 ^ k) ?ys = take (2 ^ k) (drop (p + 2 ^ k) xs)"
    by (simp_all add: take_drop min_def ac_simps mult_2)
  then show ?thesis
    unfolding blk_def tree.simps(2) len using all by (simp del: power_Suc tree.simps)
qed

lemma length_blk:
  assumes "sha_ok env" and "wide xs" and "p < length xs"
  shows "length (blk env xs k p) = 32"
proof (cases k)
  case 0
  then show ?thesis using assms by (simp add: blk_0 wide_def)
next
  case (Suc j)
  then show ?thesis using assms by (simp add: blk_Suc)
qed

fun br :: "tx_env \<Rightarrow> bytes list \<Rightarrow> nat \<Rightarrow> nat \<Rightarrow> nat \<Rightarrow> bytes list" where
  "br env xs pos 0 p = []"
| "br env xs pos (Suc k) p =
     (if pos < p + 2 ^ k
      then br env xs pos k p @ [if p + 2 ^ k < length xs then blk env xs k (p + 2 ^ k) else blk env xs k p]
      else br env xs pos k (p + 2 ^ k) @ [blk env xs k p])"

section \<open>Set bits\<close>

text \<open>The block that a set bit \<open>b\<close> of a count stands for starts at the count without its bits up to \<open>b\<close>.\<close>

definition start :: "nat \<Rightarrow> nat \<Rightarrow> nat" where
  "start c b = c div 2 ^ Suc b * 2 ^ Suc b"

lemma start_bit:
  assumes "2 ^ l dvd (p :: nat)" and "odd (p div 2 ^ l)"
  shows "start p l = p - 2 ^ l" and "2 ^ l \<le> p" and "2 ^ Suc l dvd p - 2 ^ l"
proof -
  obtain q where q: "p = 2 ^ l * q" using assms(1) by auto
  then have "odd q" using assms(2) by simp
  then obtain r where "q = 2 * r + 1" by (rule oddE)
  then have p: "p = 2 ^ Suc l * r + 2 ^ l" using q by (simp add: algebra_simps)
  then show "start p l = p - 2 ^ l" "2 ^ l \<le> p" "2 ^ Suc l dvd p - 2 ^ l"
    by (simp_all add: start_def)
qed

lemma higher_bits:
  assumes "2 ^ Suc l dvd (p :: nat)" and "l < b"
  shows "(p + 2 ^ l) div 2 ^ b = p div 2 ^ b" and "start (p + 2 ^ l) b = start p b"
proof -
  have *: "(p + 2 ^ l) div 2 ^ d = p div 2 ^ d" if ld: "l < d" for d
  proof -
    obtain e where d: "d = Suc l + e" using le_Suc_ex [OF Suc_leI [OF ld]] by blast
    obtain q where q: "p = 2 ^ Suc l * q" using assms(1) by auto
    have "(p + 2 ^ l) div 2 ^ Suc l = q" by (simp add: q)
    moreover have "p div 2 ^ Suc l = q" by (simp add: q)
    ultimately show ?thesis unfolding d power_add div_mult2_eq by (simp only:)
  qed
  show "(p + 2 ^ l) div 2 ^ b = p div 2 ^ b" "start (p + 2 ^ l) b = start p b"
    using * [of b] * [of "Suc b"] assms(2) by (simp_all add: start_def)
qed

lemma low_bits:
  assumes "2 ^ l dvd (c :: nat)" and "odd (c div 2 ^ b)" shows "l \<le> b"
proof (rule ccontr)
  assume "\<not> l \<le> b"
  then have "2 ^ Suc b dvd c" using assms(1) by (meson Suc_leI dvd_trans le_imp_power_dvd not_le)
  then obtain q where "c = 2 ^ Suc b * q" by auto
  then have "c div 2 ^ b = 2 * q" by simp
  then show False using assms(2) by simp
qed

lemma bit_ge: "odd ((c :: nat) div 2 ^ b) \<Longrightarrow> start c b + 2 ^ b \<le> c"
proof -
  assume "odd (c div 2 ^ b)"
  then obtain r where r: "c div 2 ^ b = 2 * r + 1" by (rule oddE)
  have "c div 2 ^ Suc b = c div 2 ^ b div 2" unfolding power_Suc2 by (rule div_mult2_eq)
  then have "c div 2 ^ Suc b = r" by (simp add: r)
  then have "start c b + 2 ^ b = (2 * r + 1) * 2 ^ b" by (simp add: start_def algebra_simps)
  also have "\<dots> = c div 2 ^ b * 2 ^ b" by (simp add: r)
  finally show ?thesis by simp
qed

section \<open>The state of the calculation\<close>

text \<open>
  \<open>located c b\<close>: the wanted leaf is in the block of bit \<open>b\<close> of the count. \<open>seen\<close>: what the
  variables record about the wanted leaf after \<open>c\<close> leaves.
\<close>

definition located :: "nat \<Rightarrow> nat \<Rightarrow> nat \<Rightarrow> bool" where
  "located pos c b \<longleftrightarrow> odd (c div 2 ^ b) \<and> start c b \<le> pos \<and> pos < start c b + 2 ^ b"

definition seen :: "tx_env \<Rightarrow> bytes list \<Rightarrow> nat \<Rightarrow> nat \<Rightarrow> comp_state \<Rightarrow> bool" where
  "seen env xs pos c s \<longleftrightarrow>
     (\<exists>b. located pos c b \<and> cs_matchlevel s = b \<and> cs_branch s = map Some (br env xs pos b (start c b)))"

definition blocks :: "tx_env \<Rightarrow> bytes list \<Rightarrow> nat \<Rightarrow> comp_state \<Rightarrow> bool" where
  "blocks env xs c s \<longleftrightarrow>
     length (cs_cache s) = 64 \<and> (\<forall>b. odd (c div 2 ^ b) \<longrightarrow> cs_inner s b = Some (blk env xs b (start c b)))"

text \<open>Between leaves, after \<open>c\<close> of them.\<close>

definition between :: "tx_env \<Rightarrow> bytes list \<Rightarrow> bool \<Rightarrow> nat \<Rightarrow> nat \<Rightarrow> comp_state \<Rightarrow> bool" where
  "between env xs want pos c s \<longleftrightarrow>
     blocks env xs c s \<and>
     (want \<longrightarrow> (if pos < c then seen env xs pos c s else cs_matchlevel s = 255 \<and> cs_branch s = []))"

text \<open>While climbing: \<open>h\<close> is the block of $2^l$ leaves from \<open>p\<close> on.\<close>

definition climbing ::
  "tx_env \<Rightarrow> bytes list \<Rightarrow> bool \<Rightarrow> nat \<Rightarrow> nat \<Rightarrow> nat \<Rightarrow> bool \<Rightarrow> bytes option \<Rightarrow> comp_state \<Rightarrow> bool" where
  "climbing env xs want pos p l matchh h s \<longleftrightarrow>
     2 ^ l dvd p \<and> p < length xs \<and> h = Some (blk env xs l p) \<and> blocks env xs p s \<and>
     (want \<longrightarrow>
       (matchh \<longleftrightarrow> p \<le> pos \<and> pos < p + 2 ^ l) \<and>
       (matchh \<longrightarrow> cs_branch s = map Some (br env xs pos l p)) \<and>
       (pos < p \<longrightarrow> seen env xs pos p s) \<and>
       (p + 2 ^ l \<le> pos \<longrightarrow> cs_matchlevel s = 255 \<and> cs_branch s = []))"

lemma blocks_fields [simp]:
  "blocks env xs c (s\<lparr>cs_branch := b\<rparr>) = blocks env xs c s"
  "blocks env xs c (s\<lparr>cs_mutated := m\<rparr>) = blocks env xs c s"
  "length cache = 64 \<Longrightarrow> blocks env xs c s \<Longrightarrow> blocks env xs c (s\<lparr>cs_cache := cache\<rparr>)"
  by (simp_all add: blocks_def)

lemma seen_fields [simp]:
  "seen env xs pos c (s\<lparr>cs_mutated := m\<rparr>) = seen env xs pos c s"
  "seen env xs pos c (s\<lparr>cs_cache := cache\<rparr>) = seen env xs pos c s"
  by (simp_all add: seen_def)

text \<open>Clearing the lowest set bit keeps the higher ones.\<close>

lemma clear_bit:
  assumes "2 ^ l dvd p" and "odd (p div 2 ^ l)"
  shows "blocks env xs p s \<Longrightarrow> blocks env xs (p - 2 ^ l) s"
    and "located pos p b \<Longrightarrow> b \<noteq> l \<Longrightarrow> located pos (p - 2 ^ l) b \<and> start (p - 2 ^ l) b = start p b \<and> l < b"
proof -
  note sb = start_bit [OF assms]
  have restore: "p - 2 ^ l + 2 ^ l = p" using sb(2) by simp
  have hb: "(p - 2 ^ l) div 2 ^ b = p div 2 ^ b \<and> start (p - 2 ^ l) b = start p b" if "l < b" for b
    using higher_bits [OF sb(3) that] by (simp add: restore)
  show "blocks env xs p s \<Longrightarrow> blocks env xs (p - 2 ^ l) s"
    unfolding blocks_def
  proof (elim conjE, intro conjI allI impI)
    fix b
    assume b: "odd ((p - 2 ^ l) div 2 ^ b)" and inner: "\<forall>b. odd (p div 2 ^ b) \<longrightarrow> cs_inner s b = Some (blk env xs b (start p b))"
    have "l < b" using low_bits [OF sb(3) b] by simp
    then show "cs_inner s b = Some (blk env xs b (start (p - 2 ^ l) b))" using hb [of b] inner b by simp
  qed
  show "located pos (p - 2 ^ l) b \<and> start (p - 2 ^ l) b = start p b \<and> l < b"
    if "located pos p b" "b \<noteq> l"
    using that hb [of b] low_bits [OF assms(1), of b] by (auto simp: located_def)
qed

text \<open>One step up joins the block with its left neighbour.\<close>

lemma climb:
  assumes env: "sha_ok env" "wide xs" and c: "climbing env xs want pos p l matchh h s"
    and odd: "odd (p div 2 ^ l)" and l: "l < 32"
    and nb: "note_branch want l matchh h s = (matchh1, s1)"
    and hash: "GetHashFromTwoHash env (cs_cache s2) (cs_inner s2 l) h = (h1, cache1)"
    and s2: "s2 = s1 \<or> s2 = s1\<lparr>cs_mutated := True\<rparr>"
  shows "climbing env xs want pos (p - 2 ^ l) (Suc l) matchh1 h1 (s2\<lparr>cs_cache := cache1\<rparr>)"
proof -
  have dvd: "2 ^ l dvd p" and p: "p < length xs" and h: "h = Some (blk env xs l p)" and b: "blocks env xs p s"
    using c by (simp_all add: climbing_def)
  note sb = start_bit [OF dvd odd] and clear = clear_bit [OF dvd odd]
  let ?p = "p - 2 ^ l"
  have p': "?p < length xs" "?p + 2 ^ l = p" using p sb(2) by auto
  have s1: "s1 = s \<or> (\<exists>x. s1 = s\<lparr>cs_branch := x\<rparr>)"
    using nb by (auto simp: note_branch_def split: if_splits)
  then have "blocks env xs p s2" and inner: "cs_inner s2 = cs_inner s" using s2 b by auto
  then have cache: "length (cs_cache s2) = 64" and left: "cs_inner s2 l = Some (blk env xs l ?p)"
    using odd sb(1) by (simp_all add: blocks_def)
  have "h1 = Some (two env (blk env xs l ?p) (blk env xs l p))" and cache1: "length cache1 = 64"
    using hash GetHashFromTwoHash_two [OF cache] length_blk [OF env] p p'
    by (auto simp: left h)
  then have h1: "h1 = Some (blk env xs (Suc l) ?p)" using p p' by (simp add: blk_Suc)
  have blocks: "blocks env xs ?p (s2\<lparr>cs_cache := cache1\<rparr>)"
    using clear(1) [OF \<open>blocks env xs p s2\<close>] cache1 by simp
  have track: "(matchh1 \<longleftrightarrow> ?p \<le> pos \<and> pos < ?p + 2 ^ Suc l) \<and>
       (matchh1 \<longrightarrow> cs_branch s1 = map Some (br env xs pos (Suc l) ?p)) \<and>
       (pos < ?p \<longrightarrow> seen env xs pos ?p s1) \<and>
       (?p + 2 ^ Suc l \<le> pos \<longrightarrow> cs_matchlevel s1 = 255 \<and> cs_branch s1 = [])" if want
  proof -
    have t: "matchh \<longleftrightarrow> p \<le> pos \<and> pos < p + 2 ^ l" "matchh \<Longrightarrow> cs_branch s = map Some (br env xs pos l p)"
      "pos < p \<Longrightarrow> seen env xs pos p s" "p + 2 ^ l \<le> pos \<Longrightarrow> cs_matchlevel s = 255 \<and> cs_branch s = []"
      using c that by (auto simp: climbing_def)
    have p2: "?p + 2 ^ Suc l = p + 2 ^ l" using p'(2) by simp
    consider (here) "p \<le> pos" "pos < p + 2 ^ l" | (later) "p + 2 ^ l \<le> pos"
      | (left) "located pos p l" "cs_matchlevel s = l" "cs_branch s = map Some (br env xs pos l (start p l))"
      | (earlier) b where "b \<noteq> l" "located pos p b" "cs_matchlevel s = b" "cs_branch s = map Some (br env xs pos b (start p b))"
      using t(3) by (fastforce simp: seen_def)
    then show ?thesis
    proof cases
      case here
      then have "matchh1" "cs_branch s1 = cs_branch s @ [cs_inner s l]"
        using nb t(1) that by (auto simp: note_branch_def)
      then show ?thesis using here t(1,2) left inner p' p2 by auto
    next
      case later
      then have "s1 = s" "\<not> matchh1" using nb t(1) t(4) that l by (auto simp: note_branch_def)
      then show ?thesis using later t(4) p2 p' by auto
    next
      case left
      then have "?p \<le> pos" "pos < p" using sb(1) p' by (auto simp: located_def)
      moreover have "matchh1" "cs_branch s1 = cs_branch s @ [h]"
        using nb t(1) that left calculation by (auto simp: note_branch_def)
      ultimately show ?thesis using left sb(1) h p p' p2 by auto
    next
      case earlier
      note cb = clear(2) [OF earlier(2,1)]
      have "pos < ?p" using cb bit_ge [of ?p b] by (auto simp: located_def)
      moreover have "\<not> matchh" using t(1) calculation by auto
      then have "s1 = s" "\<not> matchh1" using nb that earlier(1,3) by (auto simp: note_branch_def)
      moreover have "seen env xs pos ?p s" using earlier cb by (auto simp: seen_def)
      ultimately show ?thesis by auto
    qed
  qed
  then show ?thesis
    using sb(3) p'(1) h1 blocks s2 by (auto simp: climbing_def)
qed

section \<open>The loops\<close>

lemma odd_level:
  assumes "odd ((p :: nat) div 2 ^ l)" and "p < 2 ^ 32" shows "l < 32"
proof (rule ccontr)
  assume "\<not> l < 32"
  then have "(2 :: nat) ^ 32 \<le> 2 ^ l" by (intro power_increasing) auto
  then show False using assms by simp
qed

lemma even_sum:
  "2 ^ l dvd (p :: nat) \<Longrightarrow> odd ((p + 2 ^ l) div 2 ^ l) \<longleftrightarrow> even (p div 2 ^ l)"
  by (auto elim!: dvdE)

lemma up_loop_climbs:
  assumes env: "sha_ok env" "wide xs" and n: "length xs < 2 ^ 32"
    and "climbing env xs want pos p l matchh h s"
  shows "\<exists>p' l' matchh' h' s'. up_loop env want (p + 2 ^ l) l matchh h s = (Ok (l', matchh', h'), s') \<and>
    climbing env xs want pos p' l' matchh' h' s' \<and> p' + 2 ^ l' = p + 2 ^ l \<and> even (p' div 2 ^ l') \<and> l \<le> l'"
  using assms(4)
proof (induction "32 - l" arbitrary: p l matchh h s rule: less_induct)
  case less
  have dvd: "2 ^ l dvd p" and p: "p < length xs" using less.prems by (simp_all add: climbing_def)
  show ?case
  proof (cases "even (p div 2 ^ l)")
    case True
    then show ?thesis using less.prems even_sum [OF dvd] by (subst up_loop.simps) auto
  next
    case False
    have l: "l < 32" using odd_level [OF False] p n by linarith
    obtain m1 s1 where nb: "note_branch want l matchh h s = (m1, s1)" by fastforce
    let ?s2 = "if raw (cs_inner s1 l) = raw h then s1\<lparr>cs_mutated := True\<rparr> else s1"
    obtain h1 c1 where hash: "GetHashFromTwoHash env (cs_cache ?s2) (cs_inner ?s2 l) h = (h1, c1)" by fastforce
    have up: "up_loop env want (p + 2 ^ l) l matchh h s =
        up_loop env want (p + 2 ^ l) (Suc l) m1 h1 (?s2\<lparr>cs_cache := c1\<rparr>)"
      using False l even_sum [OF dvd] nb hash by (subst up_loop.simps) (simp add: Let_def)
    have next_p: "p - 2 ^ l + 2 ^ Suc l = p + 2 ^ l" using start_bit(2) [OF dvd False] by simp
    have "climbing env xs want pos (p - 2 ^ l) (Suc l) m1 h1 (?s2\<lparr>cs_cache := c1\<rparr>)"
      by (rule climb [OF env less.prems False l nb hash]) simp
    from less.hyps [OF _ this] l show ?thesis unfolding up next_p by fastforce
  qed
qed

lemma prop_loop_climbs:
  assumes env: "sha_ok env" "wide xs" and n: "length xs < 2 ^ 32"
    and "climbing env xs want pos p l matchh h s"
  shows "\<exists>p' l' matchh' h' s'. prop_loop env want (p + 2 ^ l) l matchh h s = (Ok (l', matchh', h'), s') \<and>
    climbing env xs want pos p' l' matchh' h' s' \<and> p' + 2 ^ l' = p + 2 ^ l \<and> even (p' div 2 ^ l') \<and> l \<le> l'"
  using assms(4)
proof (induction "32 - l" arbitrary: p l matchh h s rule: less_induct)
  case less
  have dvd: "2 ^ l dvd p" and p: "p < length xs" using less.prems by (simp_all add: climbing_def)
  show ?case
  proof (cases "even (p div 2 ^ l)")
    case True
    then show ?thesis using less.prems even_sum [OF dvd] by (subst prop_loop.simps) auto
  next
    case False
    have l: "l < 32" using odd_level [OF False] p n by linarith
    obtain m1 s1 where nb: "note_branch want l matchh h s = (m1, s1)" by fastforce
    obtain h1 c1 where hash: "GetHashFromTwoHash env (cs_cache s1) (cs_inner s1 l) h = (h1, c1)" by fastforce
    have up: "prop_loop env want (p + 2 ^ l) l matchh h s =
        prop_loop env want (p + 2 ^ l) (Suc l) m1 h1 (s1\<lparr>cs_cache := c1\<rparr>)"
      using False l even_sum [OF dvd] nb hash by (subst prop_loop.simps) (simp add: Let_def)
    have next_p: "p - 2 ^ l + 2 ^ Suc l = p + 2 ^ l" using start_bit(2) [OF dvd False] by simp
    have "climbing env xs want pos (p - 2 ^ l) (Suc l) m1 h1 (s1\<lparr>cs_cache := c1\<rparr>)"
      by (rule climb [OF env less.prems False l nb hash]) simp
    from less.hyps [OF _ this] l show ?thesis unfolding up next_p by fastforce
  qed
qed

text \<open>A leaf starts a climb of height 0; the end of a climb is the new block of its level.\<close>

lemma leaf_climbing:
  assumes "between env xs want pos i s" and "i < length xs"
  shows "climbing env xs want pos i 0 (i = pos \<and> want) (Some (xs ! i)) s"
  using assms by (auto simp: between_def climbing_def blk_0)

lemma climbing_between:
  assumes c: "climbing env xs want pos p l matchh h s" and even: "even (p div 2 ^ l)" and l: "l < 32"
  shows "between env xs want pos (p + 2 ^ l)
    (s\<lparr>cs_inner := (cs_inner s)(l := h), cs_matchlevel := (if matchh then l else cs_matchlevel s)\<rparr>)"
proof -
  have dvd: "2 ^ l dvd p" and h: "h = Some (blk env xs l p)" and b: "blocks env xs p s"
    using c by (simp_all add: climbing_def)
  have dvd': "2 ^ Suc l dvd p" using dvd even by (auto elim!: dvdE evenE)
  let ?c = "p + 2 ^ l"
  have top: "start ?c l = p" "odd (?c div 2 ^ l)" using dvd' even_sum [OF dvd] even by (auto simp: start_def elim!: dvdE)
  have bits: "odd (?c div 2 ^ b) \<longleftrightarrow> b = l \<or> (l < b \<and> odd (p div 2 ^ b))" for b
    using low_bits [of l ?c b] dvd top(2) higher_bits(1) [OF dvd', of b] by (cases "b = l") (auto simp: le_less)
  have same: "l < b \<Longrightarrow> start ?c b = start p b" for b by (rule higher_bits(2) [OF dvd'])
  have "blocks env xs ?c (s\<lparr>cs_inner := (cs_inner s)(l := h)\<rparr>)"
    using b h top same by (auto simp: blocks_def bits)
  moreover have "located pos ?c b" "start ?c b = start p b" if "located pos p b" for b
  proof -
    have "b \<noteq> l" using even that by (auto simp: located_def)
    then have "l < b" using low_bits [OF dvd, of b] that by (auto simp: located_def)
    then show "located pos ?c b" "start ?c b = start p b" using that same [of b] bits [of b] by (auto simp: located_def)
  qed
  moreover have "located pos ?c l" if "p \<le> pos" "pos < p + 2 ^ l" using that top by (simp add: located_def)
  ultimately show ?thesis
    using c top(1) unfolding between_def climbing_def
    by (auto simp: blocks_def seen_def not_less)
qed

lemma leaf_loop_between:
  assumes env: "sha_ok env" "wide xs" and n: "length xs < 2 ^ 32"
    and "between env xs want pos i s" and "i + length hs = length xs" and "hs = drop i xs" and pos: "pos < 2 ^ 32"
  shows "\<exists>s'. leaf_loop env want pos i (map Some hs) s = (Ok (), s') \<and> between env xs want pos (length xs) s'"
  using assms(4-6)
proof (induction hs arbitrary: i s)
  case (Cons h hs)
  have i: "i < length xs" using Cons.prems(2) by simp
  then have "drop i xs = xs ! i # drop (Suc i) xs" by (rule Cons_nth_drop_Suc [symmetric])
  then have hs: "h = xs ! i" "hs = drop (Suc i) xs" using Cons.prems(3) by simp_all
  have m: "i mod 2 ^ 32 = i" using i n by simp
  from up_loop_climbs [OF env n leaf_climbing [OF Cons.prems(1) i]]
  obtain p l mh h' s' where up: "up_loop env want (Suc i) 0 (i = pos \<and> want) (Some h) s = (Ok (l, mh, h'), s')"
    and c: "climbing env xs want pos p l mh h' s'" "p + 2 ^ l = Suc i" "even (p div 2 ^ l)"
    by (auto simp: hs(1))
  have "(2 :: nat) ^ l < 2 ^ 33" using c(2) i n by simp
  then have "l < 33" by (rule power_less_imp_less_exp [rotated]) simp
  moreover have "l \<noteq> 32" using c(2) i n by auto
  ultimately have l: "l < 32" by simp
  from climbing_between [OF c(1,3) l]
  have "between env xs want pos (Suc i)
      (s'\<lparr>cs_inner := (cs_inner s')(l := h'), cs_matchlevel := (if mh then l else cs_matchlevel s')\<rparr>)"
    by (simp add: c(2))
  from Cons.IH [OF this] show ?case
    using up l m Cons.prems(2) hs(2) by (simp add: andThen_def)
qed simp

lemma lowest_bit_spec:
  "0 < n \<Longrightarrow> 2 ^ lowest_bit n dvd n \<and> odd (n div 2 ^ lowest_bit n)"
proof (induction n rule: lowest_bit.induct)
  case (1 n)
  show ?case
  proof (cases "odd n")
    case True
    then show ?thesis by (simp add: lowest_bit.simps)
  next
    case False
    then obtain m where m: "n = 2 * m" by auto
    then have "lowest_bit n = Suc (lowest_bit m)" using 1(2) by (subst lowest_bit.simps) simp
    then show ?thesis using 1 m by simp
  qed
qed

text \<open>The block of the lowest bit of the count starts the last climb.\<close>

lemma between_climbing:
  assumes b: "between env xs want pos n s" and n: "n = length xs" "0 < n" and pos: "pos < n"
    and l: "l = lowest_bit n"
  shows "climbing env xs want pos (n - 2 ^ l) l (cs_matchlevel s = l) (cs_inner s l) s"
    and "even ((n - 2 ^ l) div 2 ^ l)" and "2 ^ l \<le> n"
proof -
  have lb: "2 ^ l dvd n" "odd (n div 2 ^ l)" using lowest_bit_spec [OF n(2)] by (simp_all add: l)
  note sb = start_bit [OF lb]
  show "2 ^ l \<le> n" by (rule sb(2))
  let ?p = "n - 2 ^ l"
  have back2: "?p + 2 ^ l = n" using sb(2) by simp
  have dvd: "2 ^ l dvd ?p" using lb(1) by simp
  show "even (?p div 2 ^ l)" using even_sum [OF dvd] lb(2) by (simp add: back2)
  have "blocks env xs ?p s" using b clear_bit(1) [OF lb] by (simp add: between_def)
  moreover have "cs_inner s l = Some (blk env xs l ?p)" using b lb(2) sb(1) by (simp add: between_def blocks_def)
  moreover have "(cs_matchlevel s = l \<longleftrightarrow> ?p \<le> pos \<and> pos < ?p + 2 ^ l) \<and>
       (cs_matchlevel s = l \<longrightarrow> cs_branch s = map Some (br env xs pos l ?p)) \<and>
       (pos < ?p \<longrightarrow> seen env xs pos ?p s)" if w: want
  proof -
    obtain d where d: "located pos n d" "cs_matchlevel s = d" "cs_branch s = map Some (br env xs pos d (start n d))"
      using b w pos by (auto simp: between_def seen_def)
    show ?thesis
    proof (cases "d = l")
      case True
      then show ?thesis using d sb(1) back2 by (auto simp: located_def)
    next
      case False
      note cb = clear_bit(2) [OF lb d(1) False]
      have "pos < ?p" using cb bit_ge [of ?p d] by (auto simp: located_def)
      then show ?thesis using False d cb by (auto simp: seen_def)
    qed
  qed
  ultimately show "climbing env xs want pos ?p l (cs_matchlevel s = l) (cs_inner s l) s"
    using dvd n sb(2) pos back2 by (auto simp: climbing_def)
qed

text \<open>The last climb doubles a block without a right neighbour and joins it with the left ones.\<close>

lemma double:
  assumes env: "sha_ok env" "wide xs" and c: "climbing env xs want pos p l matchh h s"
    and even: "even (p div 2 ^ l)" and n: "length xs \<le> p + 2 ^ l" and pos: "pos < length xs"
    and s1: "s1 = (if want \<and> matchh then s\<lparr>cs_branch := cs_branch s @ [h]\<rparr> else s)"
    and hash: "GetHashFromTwoHash env (cs_cache s1) h h = (h1, cache1)"
  shows "climbing env xs want pos p (Suc l) matchh h1 (s1\<lparr>cs_cache := cache1\<rparr>)"
proof -
  have dvd: "2 ^ l dvd p" and p: "p < length xs" and h: "h = Some (blk env xs l p)" and b: "blocks env xs p s"
    using c by (simp_all add: climbing_def)
  have dvd': "2 ^ Suc l dvd p" using dvd even by (auto elim!: dvdE evenE)
  have cache: "length (cs_cache s1) = 64" using b by (simp add: s1 blocks_def)
  have len: "length (blk env xs l p) = 32" by (rule length_blk [OF env p])
  have "h1 = Some (two env (blk env xs l p) (blk env xs l p))" and c1: "length cache1 = 64"
    using hash GetHashFromTwoHash_two [OF cache len len] len by (auto simp: h)
  then have "h1 = Some (blk env xs (Suc l) p)" using p n by (simp add: blk_Suc)
  moreover have "blocks env xs p (s1\<lparr>cs_cache := cache1\<rparr>)" using b c1 by (simp add: s1)
  ultimately show ?thesis
    using c dvd' n pos h p by (auto simp: climbing_def s1 seen_def not_less)
qed

lemma final_loop_root:
  assumes env: "sha_ok env" "wide xs" and n: "length xs < 2 ^ 32" and pos: "pos < length xs"
    and "climbing env xs want pos p l matchh h s" and "even (p div 2 ^ l)"
    and "length xs \<le> p + 2 ^ l" and "p + 2 ^ l < 2 * length xs" and "p + 2 ^ l \<le> 2 ^ 32" and "33 \<le> fuel + l"
  shows "\<exists>k s'. final_loop fuel env want (p + 2 ^ l) l matchh h s = (Ok (Some (blk env xs k 0)), s') \<and>
    length xs \<le> 2 ^ k \<and> 2 ^ k < 2 * length xs \<and> (want \<longrightarrow> cs_branch s' = map Some (br env xs pos k 0))"
  using assms(5-)
proof (induction fuel arbitrary: p l matchh h s)
  case 0
  have "(2 :: nat) ^ 33 \<le> 2 ^ l" using 0 by (intro power_increasing) auto
  then show ?case using 0 by simp
next
  case (Suc fuel)
  let ?c = "p + 2 ^ l"
  have dvd: "2 ^ l dvd p" and h: "h = Some (blk env xs l p)" using Suc.prems(1) by (simp_all add: climbing_def)
  show ?case
  proof (cases "p = 0")
    case True
    then have "matchh \<and> cs_branch s = map Some (br env xs pos l 0)" if want
      using Suc.prems(1,3) pos that by (simp add: climbing_def)
    then show ?thesis using True Suc.prems h by (intro exI [of _ l]) auto
  next
    case False
    obtain q where q: "p = 2 ^ l * q" "even q" using dvd Suc.prems(2) by (auto elim!: dvdE)
    then have "2 ^ l * 2 \<le> p" using False by (auto elim!: evenE)
    then have big: "3 * 2 ^ l \<le> ?c" by simp
    have "p < length xs" using Suc.prems(1) by (simp add: climbing_def)
    then have c2: "?c + 2 ^ l < 2 * length xs" using big by linarith
    have l: "l < 32"
    proof (rule ccontr)
      assume "\<not> l < 32"
      then have "(2 :: nat) ^ 32 \<le> 2 ^ l" by (intro power_increasing) auto
      then show False using big Suc.prems(5) by simp
    qed
    have "2 ^ l dvd (2 :: nat) ^ 32 - ?c" using l dvd by (intro dvd_diff_nat le_imp_power_dvd dvd_add) auto
    moreover have "?c \<noteq> 2 ^ 32"
    proof
      assume "?c = 2 ^ 32"
      then have "2 ^ l * (q + 1) = 2 ^ l * 2 ^ (32 - l)" using l q(1) by (simp add: power_add [symmetric])
      then have "q + 1 = 2 ^ (32 - l)" by (rule mult_left_cancel [THEN iffD1, rotated]) simp
      moreover have "even ((2 :: nat) ^ (32 - l))" using l by simp
      ultimately have "even (q + 1)" by (simp only:)
      then show False using q(2) by simp
    qed
    ultimately have c32: "?c + 2 ^ l \<le> 2 ^ 32" using Suc.prems(5) dvd_imp_le [of "2 ^ l" "2 ^ 32 - ?c"] by linarith
    define s1 where "s1 = (if want \<and> matchh then s\<lparr>cs_branch := cs_branch s @ [h]\<rparr> else s)"
    obtain h1 c1 where hash: "GetHashFromTwoHash env (cs_cache s1) h h = (h1, c1)" by fastforce
    have "climbing env xs want pos p (Suc l) matchh h1 (s1\<lparr>cs_cache := c1\<rparr>)"
      by (rule double [OF env Suc.prems(1-3) pos s1_def hash])
    from prop_loop_climbs [OF env n this]
    obtain p' l' m' h' s' where propl: "prop_loop env want (?c + 2 ^ l) (Suc l) matchh h1 (s1\<lparr>cs_cache := c1\<rparr>) = (Ok (l', m', h'), s')"
      and cl: "climbing env xs want pos p' l' m' h' s'" "even (p' div 2 ^ l')" and sum: "p' + 2 ^ l' = ?c + 2 ^ l" and l': "Suc l \<le> l'"
      by (auto simp: mult_2 add.assoc)
    have "final_loop (Suc fuel) env want ?c l matchh h s = final_loop fuel env want (p' + 2 ^ l') l' m' h' s'"
      using False hash propl by (simp add: s1_def [symmetric] sum)
    then show ?thesis
      using Suc.IH [OF cl] Suc.prems(3,6) c2 c32 l' by (simp add: sum)
  qed
qed

section \<open>The calculator computes the root and a branch for it\<close>

lemma Computation_result:
  assumes env: "sha_ok env" "wide xs" and n: "xs \<noteq> []" "length xs < 2 ^ 32" and pos: "pos < length xs"
    and f: "1 \<le> flage" "flage \<le> 3"
  shows "\<exists>mutated branch. Computation env (map Some xs) flage pos = Ok (Some (root (two env) xs), mutated, branch) \<and>
    (flage \<noteq> 1 \<longrightarrow> branch = map Some (br env xs pos (ceil_log (length xs)) 0))"
proof -
  let ?want = "flage \<noteq> 1" and ?n = "length xs" and ?l = "lowest_bit (length xs)"
  let ?s0 = "\<lparr>cs_inner = \<lambda>_. None, cs_branch = [], cs_matchlevel = 255, cs_mutated = False, cs_cache = new_cache\<rparr>"
  have "between env xs ?want pos 0 ?s0" by (simp add: between_def blocks_def new_cache_def)
  then obtain s1 where leaf: "leaf_loop env ?want pos 0 (map Some xs) ?s0 = (Ok (), s1)"
    and b: "between env xs ?want pos ?n s1"
    using leaf_loop_between [OF env n(2), of ?want pos 0 ?s0 xs] pos n by auto
  have n0: "0 < ?n" using n(1) by simp
  note cl = between_climbing [OF b refl n0 pos refl]
  have back2: "?n - 2 ^ ?l + 2 ^ ?l = ?n" using cl(3) by simp
  have "(2 :: nat) ^ ?l < 2 ^ 32" using cl(3) n(2) by linarith
  then have l: "?l < 32" by (rule power_less_imp_less_exp [rotated]) simp
  have "\<exists>k s'. final_loop 64 env ?want ?n ?l (cs_matchlevel s1 = ?l) (cs_inner s1 ?l) s1 = (Ok (Some (blk env xs k 0)), s') \<and>
    ?n \<le> 2 ^ k \<and> 2 ^ k < 2 * ?n \<and> (?want \<longrightarrow> cs_branch s' = map Some (br env xs pos k 0))"
    using final_loop_root [OF env n(2) pos cl(1,2), of 64] n0 n(2) l unfolding back2 by simp
  then obtain k s' where final: "final_loop 64 env ?want ?n ?l (cs_matchlevel s1 = ?l) (cs_inner s1 ?l) s1 = (Ok (Some (blk env xs k 0)), s')"
    and k: "?n \<le> 2 ^ k" "2 ^ k < 2 * ?n" and branch: "?want \<longrightarrow> cs_branch s' = map Some (br env xs pos k 0)" by blast
  have kl: "ceil_log ?n = k" by (rule ceil_log_unique [OF n0 k])
  have "blk env xs k 0 = root (two env) xs" using k(1) by (simp add: blk_def root_tree [OF n(1)] kl)
  then show ?thesis
    using leaf final branch n(1) f l by (simp add: Computation_def Let_def kl)
qed

text \<open>Folding a branch from the leaf gives the block it belongs to.\<close>

lemma branch_loop_append:
  assumes "sha_ok env" and "length cache = 64" and "wide bs" and "length h = 32"
  shows "\<exists>h' cache'. branch_loop env cache (map Some bs) (Some h) i = Some h' \<and> length h' = 32 \<and> length cache' = 64 \<and>
    (\<forall>cs. branch_loop env cache (map Some bs @ cs) (Some h) i = branch_loop env cache' cs (Some h') (i div 2 ^ length bs))"
  using assms(2-)
proof (induction bs arbitrary: cache h i)
  case (Cons b bs)
  have b: "length b = 32" "wide bs" using Cons.prems by (simp_all add: wide_def)
  let ?h = "if odd i then two env b h else two env h b" and ?c = "if odd i then b @ h else h @ b"
  have "length ?h = 32" "length ?c = 64" using assms(1) b Cons.prems by simp_all
  from Cons.IH [OF this(2) b(2) this(1), of "i div 2"]
  show ?case
    using Cons.prems(1,3) b(1) by (auto simp: GetHashFromTwoHash_two div_mult2_eq)
qed auto

lemma wide_br:
  assumes "sha_ok env" and "wide xs" and "p < length xs" and "p \<le> pos" and "pos < length xs"
  shows "wide (br env xs pos k p)"
  using assms(3-)
proof (induction k arbitrary: p)
  case (Suc k)
  let ?q = "if pos < p + 2 ^ k then p else p + 2 ^ k"
  have "wide (br env xs pos k ?q)" by (rule Suc.IH) (use Suc.prems in auto)
  then show ?case
    using length_blk [OF assms(1,2)] Suc.prems by (cases "pos < p + 2 ^ k") (auto simp: wide_def)
qed (simp add: wide_def)

lemma length_br: "length (br env xs pos k p) = k"
  by (induction k arbitrary: p) simp_all

lemma branch_loop_br:
  assumes env: "sha_ok env" "wide xs" and pos: "pos < length xs" and cache: "length cache = 64"
    and "2 ^ k dvd p" and "p \<le> pos" and "pos < p + 2 ^ k"
  shows "branch_loop env cache (map Some (br env xs pos k p)) (Some (xs ! pos)) pos = Some (blk env xs k p)"
  using assms(5-)
proof (induction k arbitrary: p)
  case 0
  then have "p = pos" by simp
  then show ?case using pos by (simp add: blk_0)
next
  case (Suc k)
  let ?q = "if pos < p + 2 ^ k then p else p + 2 ^ k"
  have p: "p < length xs" using Suc.prems(2) pos by simp
  have dvd: "2 ^ k dvd ?q" using Suc.prems(1) by (auto intro: dvd_add power_le_dvd)
  have q: "?q \<le> pos" "pos < ?q + 2 ^ k" "?q < length xs" using Suc.prems(2,3) pos by (auto simp: mult_2)
  have w: "wide (br env xs pos k ?q)" by (rule wide_br [OF env q(3,1) pos])
  have "length (xs ! pos) = 32" using env(2) pos by (simp add: wide_def)
  from branch_loop_append [OF env(1) cache w this, of pos] Suc.IH [OF dvd q(1,2)]
  obtain cache' where c': "length cache' = 64"
    and step: "\<And>cs. branch_loop env cache (map Some (br env xs pos k ?q) @ cs) (Some (xs ! pos)) pos =
      branch_loop env cache' cs (Some (blk env xs k ?q)) (pos div 2 ^ k)"
    by (auto simp: length_br)
  obtain r where r: "p = 2 ^ Suc k * r" using Suc.prems(1) by auto
  have side: "odd (pos div 2 ^ k) \<longleftrightarrow> \<not> pos < p + 2 ^ k"
  proof (cases "pos < p + 2 ^ k")
    case True
    then have "pos div 2 ^ k = 2 * r" using Suc.prems(2) r by (intro div_nat_eqI) (auto simp: algebra_simps)
    then show ?thesis using True by simp
  next
    case False
    then have "pos div 2 ^ k = 2 * r + 1" using Suc.prems(3) r by (intro div_nat_eqI) (auto simp: algebra_simps)
    then show ?thesis using False by simp
  qed
  show ?case
    using step side c' p q(3) length_blk [OF env] by (auto simp: GetHashFromTwoHash_two blk_Suc)
qed

text \<open>Without the branch bit (flag 1) nothing is recorded and the position is not read.\<close>

lemma note_branch_unwanted [simp]: "note_branch False level matchh h s = (matchh, s)"
  by (simp add: note_branch_def)

lemma up_loop_unwanted: "cs_branch (snd (up_loop env False cnt level matchh h s)) = cs_branch s"
proof (induction env False cnt level matchh h s rule: up_loop.induct)
  case (1 env cnt level matchh h s)
  show ?case
    by (subst up_loop.simps) (auto simp: Let_def 1 split: prod.split)
qed

lemma prop_loop_unwanted: "cs_branch (snd (prop_loop env False cnt level matchh h s)) = cs_branch s"
proof (induction env False cnt level matchh h s rule: prop_loop.induct)
  case (1 env cnt level matchh h s)
  show ?case
    by (subst prop_loop.simps) (auto simp: 1 split: prod.split)
qed

lemma leaf_loop_unwanted:
  "leaf_loop env False pos i hs s = (Ok (), s') \<Longrightarrow> cs_branch s' = cs_branch s"
proof (induction hs arbitrary: i s)
  case (Cons h hs)
  from Cons.prems obtain level mh h1 s1 where up: "up_loop env False (Suc i) 0 False h s = (Ok (level, mh, h1), s1)"
    and rest: "leaf_loop env False pos (Suc i) hs (s1\<lparr>cs_inner := (cs_inner s1)(level := h1),
      cs_matchlevel := (if mh then level else cs_matchlevel s1)\<rparr>) = (Ok (), s')"
    by (auto simp: andThen_Ok_iff split: if_splits)
  show ?case
    using Cons.IH [OF rest] up_loop_unwanted [of env "Suc i" 0 False h s] up by simp
qed simp

lemma leaf_loop_position: "leaf_loop env False pos i hs s = leaf_loop env False pos' i hs s"
proof (induction hs arbitrary: i s)
  case (Cons h hs)
  then show ?case by (auto simp: fun_eq_iff intro!: andThen_cong split: prod.split)
qed simp

lemma final_loop_unwanted:
  "final_loop fuel env False cnt level matchh h s = (Ok h', s') \<Longrightarrow> cs_branch s' = cs_branch s"
proof (induction fuel arbitrary: cnt level matchh h s)
  case (Suc fuel)
  show ?case
  proof (cases "cnt = 2 ^ level")
    case False
    obtain h1 cache1 where g: "GetHashFromTwoHash env (cs_cache s) h h = (h1, cache1)" by fastforce
    from Suc.prems False g obtain l2 m2 h2 s1
      where up: "prop_loop env False (cnt + 2 ^ level) (Suc level) matchh h1 (s\<lparr>cs_cache := cache1\<rparr>) = (Ok (l2, m2, h2), s1)"
        and rest: "final_loop fuel env False (cnt + 2 ^ level) l2 m2 h2 s1 = (Ok h', s')"
      by (auto simp: andThen_Ok_iff)
    show ?thesis
      using Suc.IH [OF rest] up
        prop_loop_unwanted [of env "cnt + 2 ^ level" "Suc level" matchh h1 "s\<lparr>cs_cache := cache1\<rparr>"] by simp
  qed (use Suc.prems in simp)
qed simp

lemma Computation_root_only:
  assumes "Computation env leaves 1 pos = Ok (r, mutated, branch)"
  shows "Computation env leaves 1 pos' = Ok (r, mutated, [])"
proof (cases "leaves = []")
  case False
  let ?s0 = "\<lparr>cs_inner = \<lambda>_. None, cs_branch = [], cs_matchlevel = 255, cs_mutated = False, cs_cache = new_cache\<rparr>"
  from assms False obtain s1 s2
    where leaf: "leaf_loop env False pos 0 leaves ?s0 = (Ok (), s1)" and low: "lowest_bit (length leaves) < 32"
      and final: "final_loop 64 env False (length leaves) (lowest_bit (length leaves))
        (cs_matchlevel s1 = lowest_bit (length leaves)) (cs_inner s1 (lowest_bit (length leaves))) s1 = (Ok r, s2)"
      and m: "mutated = cs_mutated s2"
    by (auto simp: Computation_def Let_def split: prod.splits outcome.splits if_splits)
  have "leaf_loop env False pos' 0 leaves ?s0 = (Ok (), s1)"
    using leaf leaf_loop_position [of env pos' 0 leaves ?s0 pos] by simp
  moreover have "cs_branch s2 = []"
    using leaf_loop_unwanted [OF leaf] final_loop_unwanted [OF final] by simp
  ultimately show ?thesis using False low final m by (simp add: Computation_def Let_def)
qed (use assms in \<open>simp add: Computation_def\<close>)

text \<open>
  C20: A Merkle branch leads back to the root. For any list of fewer than $2^{32}$ 32-byte leaves
  and any position in it, the calculator returns the same root as the level-by-level computation
  for each of its three flags: asked for the root only (flag 1), when it returns no branch and
  whatever position it is given, asked for the branch only (flag 2, GetMerkleBranch), and asked for
  both (flag 3, GetMerkleRootAndBranch). Flags 2 and 3 return the same branch, and folding that
  branch from the leaf at the position gives that root.
\<close>
theorem branch_proves_leaf:
  assumes env: "\<forall>x. length (te_Sha256 env x) = 32" and xs: "\<forall>h\<in>set xs. length h = 32"
    and n: "length xs < 2 ^ 32" and pos: "pos < length xs"
  shows "\<exists>mutated branch.
    Computation env (map Some xs) 3 pos = Ok (getMerkleRoot env (map Some xs), mutated, branch) \<and>
    GetMerkleRootAndBranch env (map Some xs) pos = Ok (getMerkleRoot env (map Some xs), branch) \<and>
    GetMerkleBranch env (map Some xs) pos = Ok branch \<and>
    (\<exists>mutated2. Computation env (map Some xs) 2 pos = Ok (getMerkleRoot env (map Some xs), mutated2, branch)) \<and>
    (\<exists>mutated1. \<forall>p. Computation env (map Some xs) 1 p = Ok (getMerkleRoot env (map Some xs), mutated1, [])) \<and>
    GetMerkleRootFromBranch env branch (Some (xs ! pos)) pos = getMerkleRoot env (map Some xs)"
proof -
  have ok: "sha_ok env" "wide xs" and ne: "xs \<noteq> []" using env xs pos by (auto simp: sha_ok_def wide_def)
  have n0: "0 < length xs" using ne by simp
  let ?k = "ceil_log (length xs)"
  have "pos < 2 ^ ?k" using ceil_log_bounds [OF n0] pos by linarith
  then have fold: "branch_loop env new_cache (map Some (br env xs pos ?k 0)) (Some (xs ! pos)) pos = Some (blk env xs ?k 0)"
    using branch_loop_br [OF ok pos, of new_cache ?k 0] by (simp add: new_cache_def)
  have top: "blk env xs ?k 0 = root (two env) xs"
    using ceil_log_bounds [OF n0] by (simp add: blk_def root_tree [OF ne])
  obtain m1 b1 where "Computation env (map Some xs) 1 pos = Ok (Some (root (two env) xs), m1, b1)"
    using Computation_result [OF ok ne n pos, of 1] by auto
  then have "\<forall>p. Computation env (map Some xs) 1 p = Ok (Some (root (two env) xs), m1, [])"
    using Computation_root_only by blast
  then show ?thesis
    using fold top Computation_result [OF ok ne n pos, of 3] Computation_result [OF ok ne n pos, of 2]
    by (auto simp: GetMerkleBranch_def GetMerkleRootAndBranch_def GetMerkleRootFromBranch_def getMerkleRoot_root [OF ok ne])
qed

definition toy_sha :: "bytes \<Rightarrow> bytes" where
  "toy_sha x = take 32 (rev x @ replicate 32 (CHR ''z''))"

definition toy_leaves :: "bytes list" where
  "toy_leaves = [replicate 32 (CHR ''a''), replicate 32 (CHR ''b''), replicate 32 (CHR ''c'')]"

theorem branch_proves_leaf_witness:
  "\<exists>mutated branch.
    Computation (sample_env\<lparr>te_Sha256 := toy_sha\<rparr>) (map Some toy_leaves) 3 2 =
      Ok (getMerkleRoot (sample_env\<lparr>te_Sha256 := toy_sha\<rparr>) (map Some toy_leaves), mutated, branch) \<and>
    GetMerkleRootAndBranch (sample_env\<lparr>te_Sha256 := toy_sha\<rparr>) (map Some toy_leaves) 2 =
      Ok (getMerkleRoot (sample_env\<lparr>te_Sha256 := toy_sha\<rparr>) (map Some toy_leaves), branch) \<and>
    GetMerkleBranch (sample_env\<lparr>te_Sha256 := toy_sha\<rparr>) (map Some toy_leaves) 2 = Ok branch \<and>
    (\<exists>mutated2. Computation (sample_env\<lparr>te_Sha256 := toy_sha\<rparr>) (map Some toy_leaves) 2 2 =
      Ok (getMerkleRoot (sample_env\<lparr>te_Sha256 := toy_sha\<rparr>) (map Some toy_leaves), mutated2, branch)) \<and>
    (\<exists>mutated1. \<forall>p. Computation (sample_env\<lparr>te_Sha256 := toy_sha\<rparr>) (map Some toy_leaves) 1 p =
      Ok (getMerkleRoot (sample_env\<lparr>te_Sha256 := toy_sha\<rparr>) (map Some toy_leaves), mutated1, [])) \<and>
    GetMerkleRootFromBranch (sample_env\<lparr>te_Sha256 := toy_sha\<rparr>) branch (Some (toy_leaves ! 2)) 2 =
      getMerkleRoot (sample_env\<lparr>te_Sha256 := toy_sha\<rparr>) (map Some toy_leaves)"
  by (rule branch_proves_leaf) (auto simp: toy_sha_def toy_leaves_def min_def)

end
