(* ===== verification/Merkle_Child.thy ===== *)
theory Merkle_Child
  imports Merkle_Root
begin

text \<open>
  The two-layer Merkle root of a block (\<^verbatim>\<open>calcMultiLayerMerkleInfo\<close> of
  \<^verbatim>\<open>common/merkle/merkle.go\<close>): the children found by the first pass tile the
  transactions of the block, every parallel-chain transaction is in a child of its own chain,
  and the root of the block is the root of the children's roots.
\<close>

text \<open>The transactions of a child, as its start and count say.\<close>

definition child_txs :: "Transaction list \<Rightarrow> ChildChain \<Rightarrow> Transaction list" where
  "child_txs txs c = take (nat (cc_TxCount c)) (drop (nat (cc_StartIndex c)) txs)"

text \<open>The title that holds at position \<open>j\<close>: of the last child that starts at or before it.\<close>

fun owner :: "string \<Rightarrow> ChildChain list \<Rightarrow> int \<Rightarrow> string" where
  "owner t [] j = t"
| "owner t (c # cs) j = (if cc_StartIndex c \<le> j then owner (cc_Title c) cs j else t)"

abbreviation starts :: "ChildChain list \<Rightarrow> int list" where
  "starts cs \<equiv> map cc_StartIndex cs"

lemma new_child_sel [simp]:
  "cc_Title (new_child t i) = t" "i < 2 ^ 31 \<Longrightarrow> cc_StartIndex (new_child t i) = int i"
  by (simp_all add: new_child_def in_i32_def)

lemma child_starts_range:
  assumes "i + length txs < 2 ^ 31"
  shows "sorted_wrt (<) (starts (child_starts i f txs)) \<and>
    (\<forall>s\<in>set (starts (child_starts i f txs)). int i \<le> s \<and> s < int (i + length txs))"
  using assms
proof (induction txs arbitrary: i f)
  case (Cons tx txs)
  have tail: "sorted_wrt (<) (starts (child_starts (Suc i) f' txs))"
    "\<forall>s\<in>set (starts (child_starts (Suc i) f' txs)). int i < s \<and> s < int (i + length (tx # txs))" for f'
    using Cons.IH [of "Suc i" f'] Cons.prems by fastforce+
  have new: "cc_StartIndex (new_child t i) = int i" for t
    using Cons.prems by (simp add: new_child_def in_i32_def)
  have one: "sorted_wrt (<) (starts (new_child t i # child_starts (Suc i) f' txs)) \<and>
      (\<forall>s\<in>set (starts (new_child t i # child_starts (Suc i) f' txs)). int i \<le> s \<and> s < int (i + length (tx # txs)))"
    for t f'
    using tail(1) [of f'] tail(2) [of f'] new [of t] by auto
  have none: "sorted_wrt (<) (starts (child_starts (Suc i) f' txs)) \<and>
      (\<forall>s\<in>set (starts (child_starts (Suc i) f' txs)). int i \<le> s \<and> s < int (i + length (tx # txs)))" for f'
    using tail(1) [of f'] tail(2) [of f'] by auto
  show ?case
    using one none by (auto split: option.split simp del: list.map list.set length_Cons)
qed simp

lemma owner_before: "\<forall>s\<in>set (starts cs). j < s \<Longrightarrow> owner t cs j = t"
  by (cases cs) auto

lemma child_starts_owner:
  assumes "i + length txs < 2 ^ 31" and "f \<noteq> [] \<longrightarrow> g = f" and "i = 0 \<longrightarrow> f = []" and "j < length txs"
    and "GetParaExecTitleName (Execer (txs ! j)) = Some t"
  shows "owner g (child_starts i f txs) (int (i + j)) = t"
  using assms
proof (induction txs arbitrary: i f g j)
  case (Cons tx txs)
  have new: "cc_StartIndex (new_child t' i) = int i" for t'
    using Cons.prems(1) by (simp add: new_child_def in_i32_def)
  show ?case
  proof (cases j)
    case 0
    have "\<forall>s\<in>set (starts (child_starts (Suc i) f' txs)). int i < s" for f'
      using child_starts_range [of "Suc i" txs f'] Cons.prems(1) by fastforce
    then have "owner g' (child_starts (Suc i) f' txs) (int i) = g'" for f' g'
      by (intro owner_before) blast
    then show ?thesis using Cons.prems new 0 by auto
  next
    case (Suc k)
    have rest: "owner g' (child_starts (Suc i) f' txs) (int (i + j)) = t" if "f' \<noteq> [] \<longrightarrow> g' = f'" for f' g'
      using Cons.IH [of "Suc i" f' g' k] Cons.prems Suc that by simp
    then show ?thesis using Cons.prems(2,3) new by (auto split: option.split)
  qed
qed simp

lemma single_layer:
  assumes env: "sha_ok env" and txs: "txs \<noteq> []" "length txs < 2 ^ 31"
  shows "\<exists>r. calcSingleLayerMerkleRoot env ncpu txs = Ok r \<and> length r = 32"
proof -
  let ?hs = "map (FullHash env) txs"
  have w: "wide ?hs" using env by (auto simp: wide_def sha_ok_def FullHash_def)
  have "GetMerkleRoot env ncpu (map Some ?hs) = Some (root (two env) ?hs)"
    using GetMerkleRoot_sequential [OF env w] getMerkleRoot_root [OF env w] txs by simp
  then show ?thesis
    using wide_root [OF env w] txs(1) by (simp add: calcSingleLayerMerkleRoot_def root_of_hashes_def)
qed

text \<open>What the second pass establishes of a child.\<close>

definition child_ok :: "tx_env \<Rightarrow> int \<Rightarrow> Transaction list \<Rightarrow> ChildChain list \<Rightarrow> ChildChain \<Rightarrow> bool" where
  "child_ok env ncpu txs cs c \<longleftrightarrow>
     0 \<le> cc_StartIndex c \<and> 0 < cc_TxCount c \<and> cc_StartIndex c + cc_TxCount c \<le> int (length txs) \<and>
     calcSingleLayerMerkleRoot env ncpu (child_txs txs c) = Ok (cc_ChildHash c) \<and> length (cc_ChildHash c) = 32 \<and>
     (\<forall>t j. cc_StartIndex c \<le> j \<and> j < cc_StartIndex c + cc_TxCount c \<longrightarrow> owner t cs j = cc_Title c)"

lemma child_filled:
  assumes env: "sha_ok env" and n: "length txs < 2 ^ 31" and c: "0 \<le> cc_StartIndex c" "cc_StartIndex c < e" "e \<le> int (length txs)"
    and e: "\<forall>s\<in>set (starts cs). e \<le> s"
  shows "\<exists>r. calcSingleLayerMerkleRoot env ncpu (take (nat (e - cc_StartIndex c)) (drop (nat (cc_StartIndex c)) txs)) = Ok r \<and>
    child_ok env ncpu txs (c # cs) (c\<lparr>cc_TxCount := i32 (i32 e - cc_StartIndex c), cc_ChildHash := r\<rparr>) \<and>
    child_txs txs (c\<lparr>cc_TxCount := i32 (i32 e - cc_StartIndex c), cc_ChildHash := r\<rparr>) =
      take (nat (e - cc_StartIndex c)) (drop (nat (cc_StartIndex c)) txs)"
proof -
  let ?sub = "take (nat (e - cc_StartIndex c)) (drop (nat (cc_StartIndex c)) txs)"
  have i: "i32 (i32 e - cc_StartIndex c) = e - cc_StartIndex c" using n c by (simp add: in_i32_def)
  have "?sub \<noteq> []" "length ?sub < 2 ^ 31" using n c by auto
  from single_layer [OF env this] obtain r where r: "calcSingleLayerMerkleRoot env ncpu ?sub = Ok r" "length r = 32" by blast
  have "owner t (c # cs) j = cc_Title c" if "cc_StartIndex c \<le> j" "j < e" for t j
    using that e owner_before [of cs j "cc_Title c"] by fastforce
  then show ?thesis using r c i by (auto simp: child_ok_def child_txs_def)
qed

lemma child_ok_later:
  assumes "child_ok env ncpu txs cs d" and "cc_StartIndex c < cc_StartIndex d"
  shows "child_ok env ncpu txs (c # cs) d"
  using assms by (auto simp: child_ok_def)

lemma child_roots_tile:
  assumes env: "sha_ok env" and n: "length txs < 2 ^ 31"
  shows "cs \<noteq> [] \<Longrightarrow> sorted_wrt (<) (starts cs) \<Longrightarrow> \<forall>s\<in>set (starts cs). 0 \<le> s \<and> s < int (length txs) \<Longrightarrow>
    \<exists>cs'. child_roots env ncpu txs cs = Ok cs' \<and> cs' \<noteq> [] \<and> length cs' = length cs \<and> starts cs' = starts cs \<and>
      concat (map (child_txs txs) cs') = drop (nat (cc_StartIndex (hd cs))) txs \<and>
      (\<forall>c\<in>set cs'. child_ok env ncpu txs cs c)"
proof (induction cs)
  case (Cons c cs)
  have c: "0 \<le> cc_StartIndex c" "cc_StartIndex c < int (length txs)" using Cons.prems(3) by auto
  show ?case
  proof (cases cs)
    case Nil
    from child_filled [OF env n c order_refl, of "[]" ncpu] Nil c
    show ?thesis by auto
  next
    case (Cons d ds)
    then obtain cs' where cs': "child_roots env ncpu txs cs = Ok cs'" "cs' \<noteq> []" "length cs' = length cs" "starts cs' = starts cs"
      "concat (map (child_txs txs) cs') = drop (nat (cc_StartIndex d)) txs" "\<forall>c\<in>set cs'. child_ok env ncpu txs cs c"
      using Cons.IH Cons.prems by auto
    have d: "cc_StartIndex c < cc_StartIndex d" "cc_StartIndex d \<le> int (length txs)" "\<forall>s\<in>set (starts cs). cc_StartIndex d \<le> s"
      using Cons Cons.prems by auto
    from child_filled [OF env n c(1) d, of ncpu]
    obtain r where r: "calcSingleLayerMerkleRoot env ncpu (take (nat (cc_StartIndex d - cc_StartIndex c)) (drop (nat (cc_StartIndex c)) txs)) = Ok r"
      and ok: "child_ok env ncpu txs (c # cs) (c\<lparr>cc_TxCount := i32 (i32 (cc_StartIndex d) - cc_StartIndex c), cc_ChildHash := r\<rparr>)"
      and sub: "child_txs txs (c\<lparr>cc_TxCount := i32 (i32 (cc_StartIndex d) - cc_StartIndex c), cc_ChildHash := r\<rparr>) =
        take (nat (cc_StartIndex d - cc_StartIndex c)) (drop (nat (cc_StartIndex c)) txs)" by blast
    have later: "child_ok env ncpu txs (c # cs) e" if e: "e \<in> set cs'" for e
    proof (rule child_ok_later)
      show "child_ok env ncpu txs cs e" using cs'(6) e by blast
      have "cc_StartIndex e \<in> set (starts cs')" using e by simp
      then show "cc_StartIndex c < cc_StartIndex e" using d unfolding cs'(4) by fastforce
    qed
    have "nat (cc_StartIndex d) = nat (cc_StartIndex d - cc_StartIndex c) + nat (cc_StartIndex c)" using c(1) d(1) by linarith
    then have "drop (nat (cc_StartIndex d)) txs = drop (nat (cc_StartIndex d - cc_StartIndex c)) (drop (nat (cc_StartIndex c)) txs)" by simp
    then have tile: "take (nat (cc_StartIndex d - cc_StartIndex c)) (drop (nat (cc_StartIndex c)) txs) @ drop (nat (cc_StartIndex d)) txs =
        drop (nat (cc_StartIndex c)) txs" by (simp only: append_take_drop_id)
    have "child_roots env ncpu txs (c # cs) =
        Ok (c\<lparr>cc_TxCount := i32 (i32 (cc_StartIndex d) - cc_StartIndex c), cc_ChildHash := r\<rparr> # cs')"
      using r cs'(1) c(1) d(1,2) Cons by simp
    then show ?thesis using cs' ok later sub tile by simp
  qed
qed simp

lemma child_starts_first:
  assumes "txs \<noteq> []" and "length txs < 2 ^ 31"
  shows "child_starts 0 [] txs \<noteq> [] \<and> cc_StartIndex (hd (child_starts 0 [] txs)) = 0"
  using assms by (cases txs) (auto split: option.split simp: in_i32_def)

text \<open>With one child the second pass would give the result of the short cut.\<close>

lemma two_layer_result:
  assumes env: "sha_ok env" and txs: "txs \<noteq> []" "length txs < 2 ^ 31"
  shows "\<exists>r cs. calcMultiLayerMerkleInfo env ncpu txs = Ok (r, cs) \<and> child_roots env ncpu txs (child_starts 0 [] txs) = Ok cs \<and>
    GetMerkleRoot env ncpu (map (\<lambda>c. Some (cc_ChildHash c)) cs) = Some r"
proof -
  let ?cs = "child_starts 0 [] txs"
  have range: "sorted_wrt (<) (starts ?cs)" "\<forall>s\<in>set (starts ?cs). 0 \<le> s \<and> s < int (length txs)"
    using child_starts_range [of 0 txs "[]"] txs by auto
  have first: "?cs \<noteq> []" "cc_StartIndex (hd ?cs) = 0" using child_starts_first [OF txs] by auto
  from child_roots_tile [OF env txs(2) first(1) range]
  obtain cs where cs: "child_roots env ncpu txs ?cs = Ok cs" "cs \<noteq> []" "length cs = length ?cs" "\<forall>c\<in>set cs. child_ok env ncpu txs ?cs c"
    by blast
  have w: "wide (map cc_ChildHash cs)" using cs(4) by (auto simp: wide_def child_ok_def)
  have "length cs \<le> length txs"
  proof -
    have "set (starts ?cs) \<subseteq> int ` {..<length txs}"
    proof
      fix s assume "s \<in> set (starts ?cs)"
      then have "s = int (nat s)" "nat s < length txs" using range(2) by auto
      then show "s \<in> int ` {..<length txs}" by blast
    qed
    moreover have "distinct (starts ?cs)" using range(1) strict_sorted_iff by blast
    ultimately have "length ?cs \<le> card (int ` {..<length txs})"
      by (metis card_mono distinct_card finite_imageI finite_lessThan length_map)
    then show ?thesis using cs(3) by (simp add: card_image)
  qed
  then obtain r where r: "GetMerkleRoot env ncpu (map Some (map cc_ChildHash cs)) = Some r"
    using GetMerkleRoot_sequential [OF env w] getMerkleRoot_root [OF env w] cs(2) txs(2) by simp
  show ?thesis
  proof (cases "length ?cs = 1")
    case False
    then have "calcMultiLayerMerkleInfo env ncpu txs = Ok (r, cs)"
      using cs(1) r txs(1) first(1) by (auto simp: calcMultiLayerMerkleInfo_def comp_def Let_def split: list.split)
    then show ?thesis using cs(1) r by (auto simp: comp_def)
  next
    case True
    then obtain c where c: "?cs = [c]" by (cases ?cs) auto
    obtain h where h: "calcSingleLayerMerkleRoot env ncpu txs = Ok h" using single_layer [OF env txs] by blast
    show ?thesis
      using cs(1) h first(2) txs by (simp add: calcMultiLayerMerkleInfo_def c in_i32_def GetMerkleRoot_def getMerkleRoot_def root_loop.simps) auto
  qed
qed

text \<open>
  C21: The two-layer Merkle root of a block is always computed, and its children tile the block.
  For a nonempty list of fewer than $2^{31}$ transactions, the computation returns a root and a list
  of children such that the transactions of the children, put together, are the transactions
  of the block; every parallel-chain transaction of a child belongs to the chain the child is named
  after; the hash of a child is the Merkle root of its own transactions; and the root returned
  is the Merkle root of the children's hashes.
\<close>
theorem child_chains_tile_block:
  assumes env: "\<forall>x. length (te_Sha256 env x) = 32" and txs: "txs \<noteq> []" "length txs < 2 ^ 31"
  shows "\<exists>r cs. calcMultiLayerMerkleInfo env ncpu txs = Ok (r, cs) \<and> concat (map (child_txs txs) cs) = txs \<and>
    GetMerkleRoot env ncpu (map (\<lambda>c. Some (cc_ChildHash c)) cs) = Some r \<and>
    (\<forall>c\<in>set cs. calcSingleLayerMerkleRoot env ncpu (child_txs txs c) = Ok (cc_ChildHash c) \<and>
      (\<forall>tx\<in>set (child_txs txs c). \<forall>t. GetParaExecTitleName (Execer tx) = Some t \<longrightarrow> t = cc_Title c))"
proof -
  let ?cs = "child_starts 0 [] txs"
  have ok: "sha_ok env" using env by (simp add: sha_ok_def)
  have range: "sorted_wrt (<) (starts ?cs)" "\<forall>s\<in>set (starts ?cs). 0 \<le> s \<and> s < int (length txs)"
    using child_starts_range [of 0 txs "[]"] txs by auto
  have first: "?cs \<noteq> []" "cc_StartIndex (hd ?cs) = 0" using child_starts_first [OF txs] by auto
  obtain r cs where res: "calcMultiLayerMerkleInfo env ncpu txs = Ok (r, cs)" "child_roots env ncpu txs ?cs = Ok cs"
    "GetMerkleRoot env ncpu (map (\<lambda>c. Some (cc_ChildHash c)) cs) = Some r"
    using two_layer_result [OF ok txs] by blast
  have tile: "concat (map (child_txs txs) cs) = txs" "\<forall>c\<in>set cs. child_ok env ncpu txs ?cs c"
    using child_roots_tile [OF ok txs(2) first(1) range, of ncpu] res(2) first(2) by auto
  have "t = cc_Title c" if c: "c \<in> set cs" and tx: "tx \<in> set (child_txs txs c)" and t: "GetParaExecTitleName (Execer tx) = Some t" for c tx t
  proof -
    have c': "child_ok env ncpu txs ?cs c" using tile(2) c by blast
    obtain k where k: "k < nat (cc_TxCount c)" "nat (cc_StartIndex c) + k < length txs" "tx = txs ! (nat (cc_StartIndex c) + k)"
      using tx by (auto simp: child_txs_def in_set_conv_nth)
    have "owner [] ?cs (int (nat (cc_StartIndex c) + k)) = t"
      using child_starts_owner [of 0 txs "[]" "[]" "nat (cc_StartIndex c) + k" t] txs(2) k(2,3) t by simp
    then show ?thesis using c' k(1) by (auto simp: child_ok_def)
  qed
  then show ?thesis using res(1,3) tile by (auto simp: child_ok_def)
qed

theorem child_chains_tile_block_witness:
  "\<exists>r cs. calcMultiLayerMerkleInfo (sample_env\<lparr>te_Sha256 := \<lambda>x. take 32 (x @ replicate 32 (CHR ''z''))\<rparr>) 4
      [sample_tx ''coins'', sample_tx ''user.p.a.coins''] = Ok (r, cs) \<and>
    concat (map (child_txs [sample_tx ''coins'', sample_tx ''user.p.a.coins'']) cs) = [sample_tx ''coins'', sample_tx ''user.p.a.coins'']"
proof -
  have "\<forall>x. length (te_Sha256 (sample_env\<lparr>te_Sha256 := \<lambda>x. take 32 (x @ replicate 32 (CHR ''z''))\<rparr>) x) = 32"
    by (auto simp: min_def)
  from child_chains_tile_block [OF this, of "[sample_tx ''coins'', sample_tx ''user.p.a.coins'']" 4]
  show ?thesis by (elim meta_impE) (simp, simp, blast)
qed

end
