(* ===== verification/Difficulty.thy ===== *)
theory Difficulty
  imports Dpos_Prelude "HOL-Library.Word"
begin

unbundle bit_operations_syntax

text \<open>
  The compact encoding of difficulty targets and the work of a block
  (\<^verbatim>\<open>common/difficulty/difficulty.go\<close>). A \<^verbatim>\<open>uint32\<close> is a 32-bit word, a \<^verbatim>\<open>big.Int\<close> an
  integer. The lemmas give the value of an encoding, the error of a round trip, and the bounds
  of the work.
\<close>

section \<open>The functions\<close>

text \<open>\<open>SetBytes\<close> of the Go library: the big-endian value of a byte slice.\<close>

definition SetBytes :: "bytes \<Rightarrow> int" where
  "SetBytes bs = foldl (\<lambda>v b. v * 256 + of_char b) 0 bs"

definition swap :: "nat \<Rightarrow> nat \<Rightarrow> 'a list \<Rightarrow> 'a list" where
  "swap i j xs = xs[i := xs ! j, j := xs ! i]"

text \<open>\<open>HashToBig\<close> reverses the caller's slice in place, so the slice is part of the result.\<close>

definition HashToBig :: "bytes \<Rightarrow> int \<times> bytes" where
  "HashToBig buf =
     (let blen = length buf;
          buf' = fold (\<lambda>i b. swap i (blen - 1 - i) b) [0..<blen div 2] buf
      in (SetBytes buf', buf'))"

definition CompactToBig :: "32 word \<Rightarrow> int" where
  "CompactToBig compact =
     (let mantissa = compact AND 0x007fffff;
          isNegative = (compact AND 0x00800000 \<noteq> 0);
          exponent = unat (drop_bit 24 compact);
          bn = (if exponent \<le> 3 then uint (drop_bit (8 * (3 - exponent)) mantissa)
                else push_bit (8 * (exponent - 3)) (uint mantissa))
      in if isNegative then - bn else bn)"

text \<open>The length of \<open>n.Bytes()\<close>, the big-endian digits of the absolute value without leading zeros.\<close>

fun byte_len :: "nat \<Rightarrow> nat" where
  "byte_len n = (if n = 0 then 0 else Suc (byte_len (n div 256)))"

declare byte_len.simps [simp del]

text \<open>
  \<open>Rsh\<close> of a \<^verbatim>\<open>big.Int\<close> rounds towards minus infinity; \<open>Bits()[0]\<close> is the least significant
  word of the absolute value, which is not zero here.
\<close>

definition BigToCompact :: "int \<Rightarrow> 32 word" where
  "BigToCompact n =
     (if n = 0 then 0
      else let exponent = byte_len (nat \<bar>n\<bar>);
               mantissa = (if exponent \<le> 3 then push_bit (8 * (3 - exponent)) (word_of_int \<bar>n\<bar>)
                           else word_of_int \<bar>drop_bit (8 * (exponent - 3)) n\<bar>);
               (mantissa', exponent') =
                 (if mantissa AND 0x00800000 \<noteq> 0 then (drop_bit 8 mantissa, exponent + 1) else (mantissa, exponent));
               compact = word_of_nat (exponent' * 2 ^ 24) OR mantissa'
           in if n < 0 then compact OR 0x00800000 else compact)"

definition CalcWork :: "32 word \<Rightarrow> int" where
  "CalcWork bits =
     (let difficultyNum = CompactToBig bits in
      if difficultyNum \<le> 0 then 0 else 2 ^ 256 div (difficultyNum + 1))"

section \<open>Reading a hash\<close>

lemma length_swap [simp]: "length (swap i j xs) = length xs"
  by (simp add: swap_def)

lemma nth_swap: "i < length xs \<Longrightarrow> j < length xs \<Longrightarrow> k < length xs \<Longrightarrow>
    swap i j xs ! k = (if k = j then xs ! i else if k = i then xs ! j else xs ! k)"
  by (auto simp: swap_def nth_list_update)

lemma swaps:
  assumes "m \<le> length xs div 2"
  shows "length (fold (\<lambda>i b. swap i (length xs - 1 - i) b) [0..<m] xs) = length xs \<and>
    (\<forall>k<length xs. fold (\<lambda>i b. swap i (length xs - 1 - i) b) [0..<m] xs ! k =
      (if k < m \<or> length xs - m \<le> k then xs ! (length xs - 1 - k) else xs ! k))"
  using assms
proof (induction m)
  case (Suc m)
  let ?b = "fold (\<lambda>i b. swap i (length xs - 1 - i) b) [0..<m] xs" and ?j = "length xs - 1 - m"
  have j: "m < ?j" "?j < length xs" using Suc.prems by auto
  have len: "length ?b = length xs" and old: "\<And>k. k < length xs \<Longrightarrow>
      ?b ! k = (if k < m \<or> length xs - m \<le> k then xs ! (length xs - 1 - k) else xs ! k)"
    using Suc by simp_all
  have back2: "length xs - 1 - ?j = m" using j by simp
  have mid: "?b ! m = xs ! m" "?b ! ?j = xs ! ?j" using old [of m] old [of ?j] j by auto
  have "swap m ?j ?b ! k = (if k < Suc m \<or> length xs - Suc m \<le> k then xs ! (length xs - 1 - k) else xs ! k)"
    if k: "k < length xs" for k
  proof -
    consider "k = ?j" | "k = m" | "k \<noteq> ?j" "k \<noteq> m" by blast
    then show ?thesis
    proof cases
      case 1
      then show ?thesis using j len mid back2 by (simp add: nth_swap)
    next
      case 2
      then show ?thesis using j len mid by (simp add: nth_swap)
    next
      case 3
      then have "k < m \<longleftrightarrow> k < Suc m" "length xs - m \<le> k \<longleftrightarrow> length xs - Suc m \<le> k" using j k by auto
      then show ?thesis using 3 j len k old [of k] by (simp add: nth_swap)
    qed
  qed
  then show ?case using len by simp
qed simp

lemma HashToBig_rev: "HashToBig buf = (SetBytes (rev buf), rev buf)"
proof -
  have "fold (\<lambda>i b. swap i (length buf - 1 - i) b) [0..<length buf div 2] buf = rev buf"
    using swaps [of "length buf div 2" buf]
    by (intro nth_equalityI) (auto simp: rev_nth not_less intro!: arg_cong [of _ _ "nth buf"])
  then show ?thesis by (simp add: HashToBig_def Let_def)
qed

section \<open>The value of an encoding\<close>

lemma byte_len_bounds: "0 < n \<Longrightarrow> 256 ^ (byte_len n - 1) \<le> n \<and> n < 256 ^ byte_len n \<and> 0 < byte_len n"
proof (induction n rule: byte_len.induct)
  case (1 n)
  show ?case
  proof (cases "n < 256")
    case True
    then show ?thesis using 1(2) by (simp add: byte_len.simps [of n] byte_len.simps [of 0])
  next
    case False
    then have q: "0 < n div 256" by (simp add: div_greater_zero_iff)
    have IH: "256 ^ (byte_len (n div 256) - 1) \<le> n div 256" "n div 256 < 256 ^ byte_len (n div 256)" "0 < byte_len (n div 256)"
      using 1(1) q 1(2) by auto
    then obtain l where l: "byte_len (n div 256) = Suc l" by (cases "byte_len (n div 256)") auto
    have "256 * (n div 256) \<le> n" "n < 256 * (n div 256) + 256" by simp_all
    then have "256 * 256 ^ l \<le> n" "n < 256 * (256 * 256 ^ l)" using IH l by simp_all
    then show ?thesis using l 1(2) by (simp add: byte_len.simps [of n])
  qed
qed

lemma byte_len_unique: "256 ^ l \<le> n \<Longrightarrow> n < 256 ^ Suc l \<Longrightarrow> byte_len n = Suc l"
proof -
  assume a: "256 ^ l \<le> n" "n < 256 ^ Suc l"
  then have "0 < n" by (metis gr0I not_numeral_le_zero power_eq_0_iff le_zero_eq zero_neq_numeral)
  from byte_len_bounds [OF this] have b: "256 ^ (byte_len n - 1) \<le> n" "n < 256 ^ byte_len n" "0 < byte_len n" by auto
  have "(256 :: nat) ^ (byte_len n - 1) < 256 ^ Suc l" using a b by linarith
  moreover have "(256 :: nat) ^ l < 256 ^ byte_len n" using a b by linarith
  ultimately have "byte_len n - 1 < Suc l" "l < byte_len n" by (simp_all only: power_strict_increasing_iff one_less_numeral_iff semiring_norm power_less_imp_less_exp)
  then show ?thesis using b(3) by simp
qed

lemma uint_low23: "uint (c AND 0x007fffff :: 32 word) = uint c mod 2 ^ 23"
proof -
  have "(0x007fffff :: 32 word) = mask 23" by (simp add: mask_eq_exp_minus_1)
  then have "c AND 0x007fffff = take_bit 23 c" by (simp only: take_bit_eq_mask)
  then have "uint (c AND 0x007fffff) = take_bit 23 (uint c)" by (simp only: unsigned_take_bit_eq)
  then show ?thesis by (simp only: take_bit_eq_mod)
qed

lemma sign_bit: "c AND 0x00800000 \<noteq> 0 \<longleftrightarrow> odd (uint (c :: 32 word) div 2 ^ 23)"
proof -
  have "(0x00800000 :: 32 word) = 2 ^ 23" by simp
  then have "c AND 0x00800000 \<noteq> 0 \<longleftrightarrow> bit c 23" by (simp only: and_exp_eq_0_iff_not_bit not_not)
  also have "\<dots> \<longleftrightarrow> bit (uint c) 23" by (simp add: bit_uint_iff)
  finally show ?thesis by (simp only: bit_iff_odd)
qed

lemma uint_shift_right: "uint (drop_bit k (c :: 32 word)) = uint c div 2 ^ k"
proof -
  have "uint (drop_bit k c) = drop_bit k (uint c)" by (simp add: unsigned_drop_bit_eq bintr_uint)
  then show ?thesis by (simp only: drop_bit_eq_div)
qed

lemma pow_256: "(2 :: int) ^ (8 * k) = 256 ^ k"
  by (simp add: power_mult)

lemma CompactToBig_value:
  assumes c: "uint (c :: 32 word) = int e * 2 ^ 24 + m" and m: "0 \<le> m" "m < 2 ^ 23"
  shows "CompactToBig c = (if e \<le> 3 then m div 256 ^ (3 - e) else m * 256 ^ (e - 3))"
proof -
  have split: "uint c = (2 * int e) * 2 ^ 23 + m" using c by simp
  have mant: "uint (c AND 0x007fffff) = m" unfolding uint_low23 split using m by (simp only: mod_mult_self3 mod_pos_pos_trivial)
  have "uint c div 2 ^ 23 = 2 * int e" unfolding split using m by (simp add: div_add1_eq)
  then have neg: "c AND 0x00800000 = 0" using sign_bit [of c] by (metis dvd_triv_left)
  have "uint (drop_bit 24 c) = int e" unfolding uint_shift_right c using m by simp
  then have ex: "unat (drop_bit 24 c) = e" by (metis nat_int unat_eq_nat_uint)
  show ?thesis
    unfolding CompactToBig_def Let_def ex neg uint_shift_right mant pow_256 push_bit_eq_mult by simp
qed

lemma or_as_add:
  assumes m: "0 \<le> m" "m < 2 ^ k" shows "(e * 2 ^ k) OR m = e * 2 ^ k + (m :: int)"
proof -
  have "m = take_bit k m" using m by (simp add: take_bit_int_eq_self)
  then have "bit m n \<Longrightarrow> n < k" for n by (metis bit_take_bit_iff)
  then have "(e * 2 ^ k) AND m = 0"
    by (intro bit_eqI) (fastforce simp: bit_and_iff push_bit_eq_mult [symmetric] bit_push_bit_iff)
  then show ?thesis by (simp only: disjunctive_add_eq_or)
qed

text \<open>The exponent and the mantissa of a positive number, in the integers.\<close>

definition raw_mantissa :: "nat \<Rightarrow> nat" where
  "raw_mantissa n = (let l = byte_len n in if l \<le> 3 then n * 256 ^ (3 - l) else n div 256 ^ (l - 3))"

definition compact_parts :: "nat \<Rightarrow> nat \<times> nat" where
  "compact_parts n =
     (let m = raw_mantissa n in
      if m < 2 ^ 23 then (byte_len n, m) else (byte_len n + 1, m div 256))"

lemma raw_mantissa_bounds:
  assumes "0 < n" shows "2 ^ 16 \<le> raw_mantissa n \<and> raw_mantissa n < 2 ^ 24"
proof -
  obtain l where l: "byte_len n = Suc l" using byte_len_bounds [OF assms] by (cases "byte_len n") auto
  then have b: "256 ^ l \<le> n" "n < 256 ^ Suc l" using byte_len_bounds [OF assms] by auto
  show ?thesis
  proof (cases "l < 3")
    case True
    then have "raw_mantissa n = n * 256 ^ (2 - l)" using l by (simp add: raw_mantissa_def)
    moreover have "l = 0 \<or> l = 1 \<or> l = 2" using True by auto
    ultimately show ?thesis using b by auto
  next
    case False
    define k where "k = l - 2"
    then have k: "l = k + 2" using False by simp
    then have r: "raw_mantissa n = n div 256 ^ k" using l False by (simp add: raw_mantissa_def)
    have "2 ^ 16 * 256 ^ k \<le> n" "n < 2 ^ 24 * 256 ^ k" using b by (simp_all add: k power_add)
    then show ?thesis unfolding r
      by (simp add: less_eq_div_iff_mult_less_eq less_mult_imp_div_less)
  qed
qed

lemma BigToCompact_value:
  assumes n: "0 < n" and small: "byte_len n \<le> 254" and p: "compact_parts n = (e, m)"
  shows "uint (BigToCompact (int n)) = int e * 2 ^ 24 + int m"
proof -
  let ?l = "byte_len n"
  let ?w = "if ?l \<le> 3 then push_bit (8 * (3 - ?l)) (word_of_int (int n)) else word_of_int (int n div 256 ^ (?l - 3)) :: 32 word"
  have bnd: "raw_mantissa n < 2 ^ 24" using raw_mantissa_bounds [OF n] by simp
  have w: "uint ?w = int (raw_mantissa n)"
  proof (cases "?l \<le> 3")
    case True
    then have r: "int (raw_mantissa n) = int n * 256 ^ (3 - ?l)" by (simp add: raw_mantissa_def)
    have "int n * 1 \<le> int n * 256 ^ (3 - ?l)" by (intro mult_left_mono) auto
    then have "n \<le> raw_mantissa n" using r by linarith
    then have "int n < 2 ^ 32" using bnd by simp
    then have u: "uint (word_of_int (int n) :: 32 word) = int n" unfolding uint_word_of_int by simp
    have "uint (push_bit k (word_of_int (int n) :: 32 word)) = take_bit 32 (int n * 2 ^ k)" for k
      unfolding unsigned_push_bit_eq u by (simp add: push_bit_eq_mult)
    then show ?thesis using True bnd r [symmetric] by (simp add: pow_256 take_bit_eq_mod)
  next
    case False
    then have "int (raw_mantissa n) = int n div 256 ^ (?l - 3)" by (simp add: raw_mantissa_def zdiv_int)
    then show ?thesis using False bnd by (simp add: uint_word_of_int take_bit_eq_mod)
  qed
  have top: "?w AND 0x00800000 \<noteq> 0 \<longleftrightarrow> \<not> raw_mantissa n < 2 ^ 23"
  proof (cases "raw_mantissa n < 2 ^ 23")
    case True
    then show ?thesis unfolding sign_bit w by simp
  next
    case False
    then have "int (raw_mantissa n) div 2 ^ 23 = 1" using bnd by (intro int_div_pos_eq [of _ _ _ "int (raw_mantissa n) - 2 ^ 23"]) auto
    then show ?thesis using False unfolding sign_bit w by simp
  qed
  have me: "m < 2 ^ 24" "e \<le> 255" using p bnd small by (auto simp: compact_parts_def Let_def split: if_splits)
  have big: "BigToCompact (int n) =
      (case (if ?w AND 0x00800000 \<noteq> 0 then (drop_bit 8 ?w, ?l + 1) else (?w, ?l)) of
        (mantissa, ex) \<Rightarrow> word_of_nat (ex * 2 ^ 24) OR mantissa)"
    using n by (simp add: BigToCompact_def Let_def drop_bit_eq_div pow_256 abs_of_nonneg pos_imp_zdiv_nonneg_iff split: prod.split)
  have e24: "uint (word_of_nat (e * 2 ^ 24) :: 32 word) = int e * 2 ^ 24"
    unfolding uint_nat unat_of_nat using me(2) by simp
  have "\<exists>mw. uint mw = int m \<and> (if ?w AND 0x00800000 \<noteq> 0 then (drop_bit 8 ?w, ?l + 1) else (?w, ?l)) = (mw, e)"
  proof (cases "raw_mantissa n < 2 ^ 23")
    case True
    then show ?thesis using w p top by (simp add: compact_parts_def Let_def)
  next
    case False
    then show ?thesis using w p top by (auto simp: compact_parts_def Let_def uint_shift_right zdiv_int)
  qed
  then obtain mw where mw: "uint mw = int m" "(if ?w AND 0x00800000 \<noteq> 0 then (drop_bit 8 ?w, ?l + 1) else (?w, ?l)) = (mw, e)" by blast
  have "uint (BigToCompact (int n)) = (int e * 2 ^ 24) OR int m" unfolding big mw(2) by (simp only: case_prod_conv uint_or e24 mw(1))
  moreover have "(int e * 2 ^ 24) OR int m = int e * 2 ^ 24 + int m" by (rule or_as_add) (use me(1) in auto)
  ultimately show ?thesis by simp
qed

section \<open>Round trip and work\<close>

lemma compact_parts_shift:
  assumes p: "compact_parts n = (e, m)"
  shows "(e \<le> 3 \<longrightarrow> m div 256 ^ (3 - e) = n) \<and> (3 < e \<longrightarrow> m = n div 256 ^ (e - 3))"
proof (cases "raw_mantissa n < 2 ^ 23")
  case True
  then show ?thesis using p by (auto simp: compact_parts_def raw_mantissa_def Let_def)
next
  case False
  let ?l = "byte_len n"
  have em: "e = ?l + 1" "m = raw_mantissa n div 256" using False p by (auto simp: compact_parts_def Let_def)
  consider (low) j where "?l + 1 + j = 3" | (mid) "?l = 3" | (high) j where "?l = Suc j + 3"
    by (metis add.assoc add.commute add_Suc_right le_Suc_ex less_imp_Suc_add linorder_neqE_nat plus_1_eq_Suc)
  then show ?thesis
  proof cases
    case low
    then have "3 - ?l = Suc j" "3 - e = j" "e \<le> 3" using em by auto
    then show ?thesis using em low by (simp add: raw_mantissa_def)
  next
    case mid
    then show ?thesis using em by (simp add: raw_mantissa_def)
  next
    case high
    then have "?l - 3 = Suc j" "e - 3 = Suc (Suc j)" "\<not> ?l \<le> 3" "3 < e" using em by auto
    then show ?thesis using em by (simp add: raw_mantissa_def div_mult2_eq [symmetric] mult.commute)
  qed
qed

text \<open>Decoding an encoding cuts the digits below the mantissa.\<close>

lemma compact_round:
  assumes n: "0 < n" and small: "byte_len n \<le> 254" and p: "compact_parts n = (e, m)"
  shows "CompactToBig (BigToCompact (int n)) = int (n div 256 ^ (e - 3) * 256 ^ (e - 3))"
    and "3 < e \<Longrightarrow> 2 ^ 15 \<le> n div 256 ^ (e - 3)"
proof -
  have b: "2 ^ 16 \<le> raw_mantissa n" "raw_mantissa n < 2 ^ 24" using raw_mantissa_bounds [OF n] by auto
  have m: "m < 2 ^ 23" "2 ^ 15 \<le> m" using p b by (auto simp: compact_parts_def Let_def split: if_splits)
  have val: "CompactToBig (BigToCompact (int n)) = (if e \<le> 3 then int m div 256 ^ (3 - e) else int m * 256 ^ (e - 3))"
    by (rule CompactToBig_value [OF BigToCompact_value [OF n small p]]) (use m in auto)
  have low: "e \<le> 3 \<Longrightarrow> m div 256 ^ (3 - e) = n" and high: "3 < e \<Longrightarrow> m = n div 256 ^ (e - 3)"
    using compact_parts_shift [OF p] by auto
  have quot: "int m div 256 ^ (3 - e) = int (m div 256 ^ (3 - e))" by (simp add: zdiv_int)
  show "CompactToBig (BigToCompact (int n)) = int (n div 256 ^ (e - 3) * 256 ^ (e - 3))"
    using val low high quot by (cases "e \<le> 3") simp_all
  show "2 ^ 15 \<le> n div 256 ^ (e - 3)" if "3 < e" using high [OF that] m by simp
qed

text \<open>The number that decoding gives has the same parts.\<close>

lemma compact_parts_round:
  assumes n: "0 < n" and p: "compact_parts n = (e, m)" and r: "r = n div 256 ^ (e - 3) * 256 ^ (e - 3)"
    and top: "3 < e \<Longrightarrow> 2 ^ 15 \<le> n div 256 ^ (e - 3)"
  shows "compact_parts r = (e, m) \<and> byte_len r = byte_len n \<and> 0 < r"
proof (cases "e \<le> 3")
  case True
  then show ?thesis using r p n by simp
next
  case False
  let ?q = "n div 256 ^ (e - 3)"
  obtain l where l: "byte_len n = Suc l" using byte_len_bounds [OF n] by (cases "byte_len n") auto
  then have b: "256 ^ l \<le> n" "n < 256 ^ Suc l" using byte_len_bounds [OF n] by auto
  have q: "2 ^ 15 \<le> ?q" "m = ?q" using top compact_parts_shift [OF p] False by auto
  have e: "e = Suc l \<or> e = Suc (Suc l)" using p l by (auto simp: compact_parts_def Let_def split: if_splits)
  then have le: "e - 3 \<le> l" "2 \<le> l" using False by auto
  have split: "(256 :: nat) ^ l = 256 ^ (l - (e - 3)) * 256 ^ (e - 3)" using le by (simp add: power_add [symmetric])
  then have "256 ^ (l - (e - 3)) \<le> ?q" using b(1) by (simp add: less_eq_div_iff_mult_less_eq)
  then have "256 ^ l \<le> r" unfolding split r by (rule mult_right_mono) simp
  moreover have "r \<le> n" unfolding r by simp
  ultimately have len: "byte_len r = Suc l" using b(2) by (intro byte_len_unique) auto
  have raw: "raw_mantissa x = x div 256 ^ (l - 2)" if "byte_len x = Suc l" for x
    using that le(2) by (cases "l = 2") (auto simp: raw_mantissa_def)
  have "compact_parts r = (e, m)"
  proof (cases "raw_mantissa n < 2 ^ 23")
    case True
    then have "e = Suc l" using p l by (simp add: compact_parts_def Let_def)
    then have "raw_mantissa r = ?q" using raw [OF len] le(2) by (simp add: r)
    then show ?thesis using True p q l len \<open>e = Suc l\<close> by (simp add: compact_parts_def Let_def raw [OF l])
  next
    case False
    then have e: "e = Suc (Suc l)" using p l by (simp add: compact_parts_def Let_def)
    then have "e - 3 = Suc (l - 2)" using le(2) by simp
    then have "raw_mantissa r = ?q * 256" using raw [OF len] by (simp add: r)
    then show ?thesis using q len e by (simp add: compact_parts_def Let_def)
  qed
  then show ?thesis using len l \<open>256 ^ l \<le> r\<close> by (simp add: Suc_le_eq less_le_trans [OF _ \<open>256 ^ l \<le> r\<close>])
qed

text \<open>
  C22: Encoding a difficulty target and decoding it again loses only low digits. For every target of at most 254
  bytes the decoded value is not above the target and is at most one part in $2^{15}$ below it, targets
  below $2^{23}$ come back exactly, and encoding the decoded value gives the same compact form.
\<close>
theorem compact_roundtrip:
  assumes n: "0 \<le> n" "n < 256 ^ 254"
  shows "CompactToBig (BigToCompact n) \<le> n \<and> (n - CompactToBig (BigToCompact n)) * 2 ^ 15 \<le> n \<and>
    (n < 2 ^ 23 \<longrightarrow> CompactToBig (BigToCompact n) = n) \<and>
    BigToCompact (CompactToBig (BigToCompact n)) = BigToCompact n"
proof (cases "n = 0")
  case True
  then show ?thesis by (simp add: BigToCompact_def CompactToBig_def)
next
  case False
  define k where "k = nat n"
  then have k: "n = int k" "0 < k" using n(1) False by auto
  have b: "256 ^ (byte_len k - 1) \<le> k" "0 < byte_len k" using byte_len_bounds [OF k(2)] by auto
  have "int k < int (256 ^ 254)" using n(2) k by simp
  then have "k < 256 ^ 254" by (simp only: of_nat_less_iff)
  then have "(256 :: nat) ^ (byte_len k - 1) < 256 ^ 254" using b(1) by (rule order.strict_trans1 [rotated])
  then have small: "byte_len k \<le> 254" using b(2) power_less_imp_less_exp [of "256 :: nat" "byte_len k - 1" 254] by simp
  obtain e m where p: "compact_parts k = (e, m)" by fastforce
  define r where "r = k div 256 ^ (e - 3) * 256 ^ (e - 3)"
  have rn: "CompactToBig (BigToCompact n) = int r" unfolding k r_def by (rule compact_round(1) [OF k(2) small p])
  have top: "3 < e \<Longrightarrow> 2 ^ 15 \<le> k div 256 ^ (e - 3)" by (rule compact_round(2) [OF k(2) small p])
  have same: "compact_parts r = (e, m)" "byte_len r = byte_len k" "0 < r"
    using compact_parts_round [OF k(2) p r_def top] by auto
  have "uint (BigToCompact (int r)) = uint (BigToCompact n)"
    using BigToCompact_value [OF same(3) _ same(1)] BigToCompact_value [OF k(2) small p] same(2) small k(1) by simp
  then have again: "BigToCompact (int r) = BigToCompact n" by (simp only: unsigned_word_eqI)
  have le: "r \<le> k" unfolding r_def by simp
  have err: "(k - r) * 2 ^ 15 \<le> k"
  proof (cases "e \<le> 3")
    case False
    have "k - r = k mod 256 ^ (e - 3)" unfolding r_def by (simp add: minus_div_mult_eq_mod)
    then have "k - r \<le> 256 ^ (e - 3)" by (simp add: less_imp_le)
    then have "(k - r) * 2 ^ 15 \<le> 256 ^ (e - 3) * (k div 256 ^ (e - 3))" using top False by (intro mult_mono) auto
    also have "\<dots> \<le> k" by simp
    finally show ?thesis .
  qed (simp add: r_def)
  have exact: "r = k" if "k < 2 ^ 23"
  proof -
    have "e \<le> 3"
    proof (rule ccontr)
      assume "\<not> e \<le> 3"
      then have "2 ^ 15 * 256 \<le> k div 256 ^ (e - 3) * 256 ^ (e - 3)"
        using top by (intro mult_mono) (auto intro: self_le_power)
      also have "\<dots> \<le> k" by simp
      finally show False using that by simp
    qed
    then show ?thesis by (simp add: r_def)
  qed
  have "(n - int r) * 2 ^ 15 = int ((k - r) * 2 ^ 15)" using le k by (simp add: of_nat_diff)
  then show ?thesis using rn again le exact err k(1) by auto
qed

theorem compact_roundtrip_witness:
  "CompactToBig (BigToCompact 0x12345678) \<le> 0x12345678 \<and>
   (0x12345678 - CompactToBig (BigToCompact 0x12345678)) * 2 ^ 15 \<le> 0x12345678 \<and>
   BigToCompact (CompactToBig (BigToCompact 0x12345678)) = BigToCompact 0x12345678"
  using compact_roundtrip [of "0x12345678"] by simp

text \<open>
  C23: The work of a block is bounded and falls with the target. For all compact difficulties the work is
  between zero and $2^{255}$; it is zero exactly when the target is not positive or has more than
  256 bits; and of two positive targets the smaller one has at least the work of the larger one.
\<close>
theorem work_bounds:
  "0 \<le> CalcWork a \<and> CalcWork a \<le> 2 ^ 255 \<and>
   (CalcWork a = 0 \<longleftrightarrow> CompactToBig a \<le> 0 \<or> 2 ^ 256 \<le> CompactToBig a) \<and>
   (0 < CompactToBig a \<and> CompactToBig a \<le> CompactToBig b \<longrightarrow> CalcWork b \<le> CalcWork a)"
proof (intro conjI impI)
  let ?t = "CompactToBig a"
  show "0 \<le> CalcWork a" by (simp add: CalcWork_def Let_def pos_imp_zdiv_nonneg_iff)
  show "CalcWork a \<le> 2 ^ 255"
  proof (cases "?t \<le> 0")
    case False
    then have "(2 :: int) ^ 256 div (?t + 1) \<le> 2 ^ 256 div 2" by (intro zdiv_mono2) auto
    then show ?thesis using False by (simp add: CalcWork_def Let_def)
  qed (simp add: CalcWork_def)
  show "CalcWork a = 0 \<longleftrightarrow> ?t \<le> 0 \<or> 2 ^ 256 \<le> ?t"
  proof (cases "?t \<le> 0")
    case False
    then have "(2 :: int) ^ 256 div (?t + 1) = 0 \<longleftrightarrow> 2 ^ 256 < ?t + 1" by (subst zdiv_eq_0_iff) auto
    then show ?thesis using False by (auto simp: CalcWork_def Let_def)
  qed (simp add: CalcWork_def)
  show "CalcWork b \<le> CalcWork a" if t: "0 < ?t \<and> ?t \<le> CompactToBig b"
    using t zdiv_mono2 [of "2 ^ 256" "?t + 1" "CompactToBig b + 1"] by (simp add: CalcWork_def Let_def)
qed

theorem work_bounds_witness:
  "0 < CompactToBig 0x1d00ffff \<and> CompactToBig 0x1d00ffff \<le> CompactToBig 0x1e00ffff \<and>
   CalcWork 0x1e00ffff \<le> CalcWork 0x1d00ffff"
proof -
  have "0 < CompactToBig 0x1d00ffff \<and> CompactToBig 0x1d00ffff \<le> CompactToBig 0x1e00ffff"
    by (simp add: CompactToBig_def)
  then show ?thesis using work_bounds [of "0x1d00ffff" "0x1e00ffff"] by blast
qed

end
