(* ===== verification/Block_View.thy ===== *)
theory Block_View
  imports Difficulty Tx "HOL-Library.While_Combinator"
begin

text \<open>
  The tree of known blocks: the hash of a block (\<^verbatim>\<open>types/block.go\<close>), the index of block nodes
  (\<^verbatim>\<open>blockchain/blockindex.go\<close>) and the view of the best chain (\<^verbatim>\<open>blockchain/chainview.go\<close>).  Nodes
  are compared and changed by reference, so they live in a store, the list \<open>ns\<close>, and a reference
  is a position in it.  A loop along the parents is \<open>while_option\<close>, with \<open>None\<close> for a loop
  that does not end.
\<close>

section \<open>Blocks\<close>

record Block =
  bk_Version :: int
  bk_ParentHash :: bytes
  bk_TxHash :: bytes
  bk_StateHash :: bytes
  bk_Height :: int
  bk_BlockTime :: int
  bk_Difficulty :: "32 word"
  bk_MainHash :: bytes
  bk_MainHeight :: int
  bk_Signature :: "Signature option"
  bk_Txs :: "Transaction list"

record Header =
  hd_Version :: int
  hd_ParentHash :: bytes
  hd_TxHash :: bytes
  hd_StateHash :: bytes
  hd_Height :: int
  hd_BlockTime :: int
  hd_TxCount :: int
  hd_Hash :: bytes
  hd_Difficulty :: "32 word"
  hd_Signature :: "Signature option"

text \<open>SHA-256, the encoding of headers, and the fork table of the configuration.\<close>

record hash_env =
  he_Sha256 :: "bytes \<Rightarrow> bytes"
  he_HeaderBytes :: "Header \<Rightarrow> bytes"
  he_IsFork :: "int \<Rightarrow> string \<Rightarrow> bool"

definition getHeaderHashOld :: "Block \<Rightarrow> Header" where
  "getHeaderHashOld b = \<lparr>hd_Version = bk_Version b, hd_ParentHash = bk_ParentHash b, hd_TxHash = bk_TxHash b,
     hd_StateHash = [], hd_Height = bk_Height b, hd_BlockTime = bk_BlockTime b, hd_TxCount = 0, hd_Hash = [],
     hd_Difficulty = 0, hd_Signature = None\<rparr>"

definition getHeaderHashNew :: "Block \<Rightarrow> Header" where
  "getHeaderHashNew b = (getHeaderHashOld b)\<lparr>hd_Difficulty := bk_Difficulty b, hd_StateHash := bk_StateHash b,
     hd_TxCount := int (length (bk_Txs b))\<rparr>"

definition HashNew :: "hash_env \<Rightarrow> Block \<Rightarrow> bytes" where
  "HashNew E b = he_Sha256 E (he_HeaderBytes E (getHeaderHashNew b))"

definition HashOld :: "hash_env \<Rightarrow> Block \<Rightarrow> bytes" where
  "HashOld E b = he_Sha256 E (he_HeaderBytes E (getHeaderHashOld b))"

definition block_Hash :: "hash_env \<Rightarrow> Block \<Rightarrow> bytes" where
  "block_Hash E b = (if he_IsFork E (bk_Height b) ''ForkBlockHash'' then HashNew E b else HashOld E b)"

section \<open>Nodes\<close>

record blockNode =
  bn_parent :: "nat option"
  bn_hash :: bytes
  bn_Difficulty :: int
  bn_height :: int
  bn_statehash :: bytes
  bn_broadcast :: bool
  bn_pid :: string
  bn_sequence :: int
  bn_BlockTime :: int

definition newBlockNode :: "hash_env \<Rightarrow> bool \<Rightarrow> Block \<Rightarrow> string \<Rightarrow> int \<Rightarrow> blockNode" where
  "newBlockNode E broadcast block pid sequence =
    \<lparr>bn_parent = None, bn_hash = block_Hash E block, bn_Difficulty = CalcWork (bk_Difficulty block),
     bn_height = bk_Height block, bn_statehash = bk_StateHash block, bn_broadcast = broadcast,
     bn_pid = pid, bn_sequence = sequence, bn_BlockTime = bk_BlockTime block\<rparr>"

definition newBlockNodeByHeader :: "bool \<Rightarrow> Header \<Rightarrow> string \<Rightarrow> int \<Rightarrow> blockNode" where
  "newBlockNodeByHeader broadcast header pid sequence =
    \<lparr>bn_parent = None, bn_hash = hd_Hash header, bn_Difficulty = CalcWork (hd_Difficulty header),
     bn_height = hd_Height header, bn_statehash = hd_StateHash header, bn_broadcast = broadcast,
     bn_pid = pid, bn_sequence = sequence, bn_BlockTime = hd_BlockTime header\<rparr>"

definition newPreGenBlockNode :: blockNode where
  "newPreGenBlockNode =
    \<lparr>bn_parent = None, bn_hash = replicate 32 (CHR 0x00), bn_Difficulty = -1, bn_height = -1,
     bn_statehash = replicate 32 (CHR 0x00), bn_broadcast = False, bn_pid = ''self'', bn_sequence = 0,
     bn_BlockTime = 0\<rparr>"

text \<open>The loops \<^verbatim>\<open>for n != nil && ... { n = n.parent }\<close>: up the parents until a test holds.\<close>

definition climb :: "blockNode list \<Rightarrow> (nat \<Rightarrow> bool) \<Rightarrow> nat option \<Rightarrow> nat option option" where
  "climb ns stop n =
    while_option (\<lambda>n. case n of None \<Rightarrow> False | Some a \<Rightarrow> \<not> stop a) (\<lambda>n. bn_parent (ns ! the n)) n"

definition Ancestor :: "blockNode list \<Rightarrow> nat \<Rightarrow> int \<Rightarrow> nat option option" where
  "Ancestor ns node height =
    (if height < 0 \<or> height > bn_height (ns ! node) then Some None
     else climb ns (\<lambda>n. bn_height (ns ! n) = height) (Some node))"

definition RelativeAncestor :: "blockNode list \<Rightarrow> nat \<Rightarrow> int \<Rightarrow> nat option option" where
  "RelativeAncestor ns node distance = Ancestor ns node (i64 (bn_height (ns ! node) - distance))"

section \<open>The index of nodes\<close>

text \<open>
  An element of a \<^verbatim>\<open>list.List\<close> is a position of \<open>bi_elems\<close>, which holds its value; the queue lists
  the elements that are linked.
\<close>

record blockIndex =
  bi_index :: "bytes \<Rightarrow> nat option"
  bi_queue :: "nat list"
  bi_elems :: "nat list"

definition indexCacheLimit :: nat where
  "indexCacheLimit = 102400"

definition newBlockIndex :: blockIndex where
  "newBlockIndex = \<lparr>bi_index = (\<lambda>_. None), bi_queue = [], bi_elems = []\<rparr>"

definition bi_HaveBlock :: "blockIndex \<Rightarrow> bytes \<Rightarrow> bool" where
  "bi_HaveBlock bi hash \<longleftrightarrow> bi_index bi hash \<noteq> None"

definition LookupNode :: "blockIndex \<Rightarrow> bytes \<Rightarrow> nat option" where
  "LookupNode bi hash = map_option (\<lambda>e. bi_elems bi ! e) (bi_index bi hash)"

text \<open>\<^verbatim>\<open>AddNode\<close> and \<^verbatim>\<open>DelNode\<close> also cut the parent of the node they drop.\<close>

definition AddNode :: "nat \<Rightarrow> blockNode list \<times> blockIndex \<Rightarrow> blockNode list \<times> blockIndex" where
  "AddNode node s =
    (case s of (ns, bi) \<Rightarrow>
      let e = length (bi_elems bi);
          bi = bi\<lparr>bi_queue := bi_queue bi @ [e], bi_elems := bi_elems bi @ [node],
                  bi_index := (bi_index bi)(bn_hash (ns ! node) := Some e)\<rparr>
      in if length (bi_queue bi) > indexCacheLimit then
           let d = bi_elems bi ! hd (bi_queue bi) in
           (ns[d := (ns ! d)\<lparr>bn_parent := None\<rparr>],
            bi\<lparr>bi_queue := tl (bi_queue bi), bi_index := (bi_index bi)(bn_hash (ns ! d) := None)\<rparr>)
         else (ns, bi))"

definition UpdateNode :: "blockNode list \<Rightarrow> bytes \<Rightarrow> nat \<Rightarrow> blockIndex \<Rightarrow> bool \<times> blockIndex" where
  "UpdateNode ns hash node bi =
    (case bi_index bi hash of
       None \<Rightarrow> (False, bi)
     | Some e \<Rightarrow> (True, bi\<lparr>bi_elems := (bi_elems bi)[e := node],
                 bi_index := (bi_index bi)(hash := None, bn_hash (ns ! node) := Some e)\<rparr>))"

definition DelNode :: "bytes \<Rightarrow> blockNode list \<times> blockIndex \<Rightarrow> blockNode list \<times> blockIndex" where
  "DelNode hash s =
    (case s of (ns, bi) \<Rightarrow>
      (case bi_index bi hash of
         None \<Rightarrow> (ns, bi)
       | Some e \<Rightarrow>
          let d = bi_elems bi ! e in
          (ns[d := (ns ! d)\<lparr>bn_parent := None\<rparr>],
           bi\<lparr>bi_queue := remove1 e (bi_queue bi), bi_index := (bi_index bi)(hash := None)\<rparr>)))"

section \<open>The view of the best chain\<close>

record chainView =
  cv_nodes :: "int \<Rightarrow> nat option"
  cv_queue :: "nat list"
  cv_elems :: "nat list"

definition blockNodeCacheLimit :: nat where
  "blockNodeCacheLimit = 10240"

definition cv_tip :: "chainView \<Rightarrow> nat option" where
  "cv_tip c = (case cv_queue c of [] \<Rightarrow> None | e # _ \<Rightarrow> Some (cv_elems c ! e))"

definition setTip :: "blockNode list \<Rightarrow> nat \<Rightarrow> chainView \<Rightarrow> chainView" where
  "setTip ns node c =
    (if cv_queue c \<noteq> [] \<and> bn_parent (ns ! node) \<noteq> cv_tip c then c
     else
       let e = length (cv_elems c);
           c = c\<lparr>cv_queue := e # cv_queue c, cv_elems := cv_elems c @ [node],
                 cv_nodes := (cv_nodes c)(bn_height (ns ! node) := Some e)\<rparr>
       in if length (cv_queue c) > blockNodeCacheLimit then
            let h = bn_height (ns ! (cv_elems c ! last (cv_queue c))) in
            c\<lparr>cv_queue := butlast (cv_queue c), cv_nodes := (cv_nodes c)(h := None)\<rparr>
          else c)"

definition newChainView :: "blockNode list \<Rightarrow> nat \<Rightarrow> chainView" where
  "newChainView ns tip = setTip ns tip \<lparr>cv_nodes = (\<lambda>_. None), cv_queue = [], cv_elems = []\<rparr>"

text \<open>\<^verbatim>\<open>delTip\<close> reports a node that is not the tip and goes on; the report reads the tip.\<close>

definition delTip :: "blockNode list \<Rightarrow> nat \<Rightarrow> (chainView, unit) op" where
  "delTip ns node c =
    (if cv_tip c = None then (Panic, c)
     else
       (case cv_nodes c (bn_height (ns ! node)) of
          None \<Rightarrow> (Ok (), c)
        | Some e \<Rightarrow>
            let h = bn_height (ns ! (cv_elems c ! e)) in
            (Ok (), c\<lparr>cv_queue := remove1 e (cv_queue c), cv_nodes := (cv_nodes c)(h := None)\<rparr>)))"

definition cv_height :: "blockNode list \<Rightarrow> chainView \<Rightarrow> int" where
  "cv_height ns c = (case cv_tip c of None \<Rightarrow> -1 | Some n \<Rightarrow> bn_height (ns ! n))"

definition nodeByHeight :: "blockNode list \<Rightarrow> chainView \<Rightarrow> int \<Rightarrow> nat option" where
  "nodeByHeight ns c height =
    (if height < 0 \<or> height > cv_height ns c then None
     else map_option (\<lambda>e. cv_elems c ! e) (cv_nodes c height))"

definition cv_contains :: "blockNode list \<Rightarrow> chainView \<Rightarrow> nat \<Rightarrow> bool" where
  "cv_contains ns c node \<longleftrightarrow> nodeByHeight ns c (bn_height (ns ! node)) = Some node"

definition cv_Next :: "blockNode list \<Rightarrow> chainView \<Rightarrow> nat option \<Rightarrow> nat option" where
  "cv_Next ns c node =
    (case node of None \<Rightarrow> None
     | Some n \<Rightarrow> if cv_contains ns c n then nodeByHeight ns c (i64 (bn_height (ns ! n) + 1)) else None)"

definition FindFork :: "blockNode list \<Rightarrow> chainView \<Rightarrow> nat option \<Rightarrow> nat option option" where
  "FindFork ns c node =
    (case node of None \<Rightarrow> Some None
     | Some n \<Rightarrow>
        Option.bind
          (if bn_height (ns ! n) > cv_height ns c then Ancestor ns n (cv_height ns c) else Some (Some n))
          (climb ns (cv_contains ns c)))"

definition cv_HaveBlock :: "blockNode list \<Rightarrow> chainView \<Rightarrow> bytes \<Rightarrow> int \<Rightarrow> bool" where
  "cv_HaveBlock ns c hash height \<longleftrightarrow>
    (case nodeByHeight ns c height of None \<Rightarrow> False | Some n \<Rightarrow> bn_hash (ns ! n) = hash)"

text \<open>The nodes to leave, from the tip down, and the nodes to join, from the fork up.\<close>

definition path_until :: "blockNode list \<Rightarrow> nat option \<Rightarrow> nat option \<Rightarrow> nat list option" where
  "path_until ns fork n =
    map_option snd (while_option (\<lambda>(n, xs). n \<noteq> None \<and> n \<noteq> fork)
      (\<lambda>(n, xs). (bn_parent (ns ! the n), xs @ [the n])) (n, []))"

definition getReorganizeNodes :: "blockNode list \<Rightarrow> chainView \<Rightarrow> nat \<Rightarrow> (nat list \<times> nat list) option" where
  "getReorganizeNodes ns c node =
    Option.bind (FindFork ns c (Some node)) (\<lambda>fork.
    Option.bind (path_until ns fork (Some node)) (\<lambda>up.
    Option.bind (path_until ns fork (cv_tip c)) (\<lambda>detach.
      Some (detach, rev up))))"

section \<open>Ancestors\<close>

text \<open>A node is made after its parent, one height above it.\<close>

definition heap_ok :: "blockNode list \<Rightarrow> bool" where
  "heap_ok ns \<longleftrightarrow> (\<forall>a < length ns. \<forall>p. bn_parent (ns ! a) = Some p \<longrightarrow>
     p < a \<and> bn_height (ns ! a) = bn_height (ns ! p) + 1)"

lemma heap_okD:
  "heap_ok ns \<Longrightarrow> a < length ns \<Longrightarrow> bn_parent (ns ! a) = Some p \<Longrightarrow>
    p < a \<and> p < length ns \<and> bn_height (ns ! a) = bn_height (ns ! p) + 1"
  unfolding heap_ok_def by (meson less_trans)

text \<open>The node and all its ancestors.\<close>

function lineage :: "blockNode list \<Rightarrow> nat \<Rightarrow> nat list" where
  "lineage ns a =
    a # (case bn_parent (ns ! a) of None \<Rightarrow> [] | Some p \<Rightarrow> if p < a then lineage ns p else [])"
  by pat_completeness auto
termination lineage
  by (relation "measure snd") auto

declare lineage.simps [simp del]

lemma lineage_parent:
  "heap_ok ns \<Longrightarrow> a < length ns \<Longrightarrow>
    lineage ns a = a # (case bn_parent (ns ! a) of None \<Rightarrow> [] | Some p \<Rightarrow> lineage ns p)"
  by (subst lineage.simps) (auto dest: heap_okD split: option.splits)

lemma lineage_cases:
  assumes "heap_ok ns" "a < length ns"
  obtains "bn_parent (ns ! a) = None" "lineage ns a = [a]"
  | p where "bn_parent (ns ! a) = Some p" "p < a" "p < length ns" "bn_height (ns ! a) = bn_height (ns ! p) + 1"
      "lineage ns a = a # lineage ns p"
  using assms lineage_parent [OF assms] heap_okD [OF assms] by (cases "bn_parent (ns ! a)") auto

lemma lineage_range: "heap_ok ns \<Longrightarrow> a < length ns \<Longrightarrow> x \<in> set (lineage ns a) \<Longrightarrow> x < length ns \<and> x \<le> a \<and> bn_height (ns ! x) \<le> bn_height (ns ! a)"
proof (induction a rule: less_induct)
  case (less a)
  from less.prems(1,2) show ?case
  proof (cases rule: lineage_cases)
    case 1
    then show ?thesis using less.prems by auto
  next
    case (2 p)
    then show ?thesis using less.IH [OF 2(2) less.prems(1) 2(3)] less.prems by auto
  qed
qed

lemma lineage_suffix:
  "heap_ok ns \<Longrightarrow> a < length ns \<Longrightarrow> lineage ns a = xs @ r # ys \<Longrightarrow> lineage ns r = r # ys"
proof (induction a arbitrary: xs rule: less_induct)
  case (less a)
  from less.prems(1,2) show ?case
  proof (cases rule: lineage_cases)
    case 1
    then show ?thesis using less.prems(3) by (cases xs) auto
  next
    case (2 p)
    show ?thesis
    proof (cases xs)
      case Nil
      then show ?thesis using less.prems(3) 2(5) by auto
    next
      case (Cons x xs')
      then have "lineage ns p = xs' @ r # ys" using less.prems(3) 2(5) by simp
      then show ?thesis using less.IH [OF 2(2) less.prems(1) 2(3)] by blast
    qed
  qed
qed

lemma lineage_first: "heap_ok ns \<Longrightarrow> a < length ns \<Longrightarrow> \<exists>ys. lineage ns a = a # ys"
  using lineage_parent by blast

text \<open>Every height between a node and one of its ancestors has an ancestor.\<close>

lemma lineage_height:
  "heap_ok ns \<Longrightarrow> a < length ns \<Longrightarrow> x \<in> set (lineage ns a) \<Longrightarrow> bn_height (ns ! x) \<le> h \<Longrightarrow> h \<le> bn_height (ns ! a) \<Longrightarrow>
    \<exists>y \<in> set (lineage ns a). bn_height (ns ! y) = h"
proof (induction a rule: less_induct)
  case (less a)
  from less.prems(1,2) show ?case
  proof (cases rule: lineage_cases)
    case 1
    then show ?thesis using less.prems by auto
  next
    case (2 p)
    show ?thesis
    proof (cases "h = bn_height (ns ! a) \<or> x = a")
      case True
      then show ?thesis using 2(5) less.prems by (intro bexI [of _ a]) auto
    next
      case False
      then show ?thesis using less.IH [OF 2(2) less.prems(1) 2(3)] less.prems 2(4,5) by auto
    qed
  qed
qed

lemma lineage_decreasing:
  "heap_ok ns \<Longrightarrow> a < length ns \<Longrightarrow> sorted_wrt (\<lambda>x y. bn_height (ns ! y) < bn_height (ns ! x) \<and> y < x) (lineage ns a)"
proof (induction a rule: less_induct)
  case (less a)
  from less.prems(1,2) show ?case
  proof (cases rule: lineage_cases)
    case (2 p)
    then show ?thesis using less.IH [OF 2(2) less.prems(1) 2(3)] lineage_range [OF less.prems(1) 2(3)]
      by (fastforce)
  qed auto
qed

section \<open>The loops\<close>

lemma climb_None [simp]: "climb ns P None = Some None"
  by (simp add: climb_def while_option_unfold)

lemma climb_Some: "climb ns P (Some a) = (if P a then Some (Some a) else climb ns P (bn_parent (ns ! a)))"
  by (simp add: climb_def while_option_unfold)

text \<open>Climbing finds the first ancestor that passes the test.\<close>

lemma climb_lineage: "heap_ok ns \<Longrightarrow> a < length ns \<Longrightarrow> climb ns P (Some a) = Some (find P (lineage ns a))"
proof (induction a rule: less_induct)
  case (less a)
  from less.prems(1,2) show ?case
  proof (cases rule: lineage_cases)
    case 1
    then show ?thesis by (simp add: climb_Some)
  next
    case (2 p)
    then show ?thesis using less.IH [OF 2(2) less.prems(1) 2(3)] by (simp add: climb_Some)
  qed
qed

lemma path_loop:
  "heap_ok ns \<Longrightarrow> a < length ns \<Longrightarrow>
    map_option snd (while_option (\<lambda>(n, xs). n \<noteq> None \<and> n \<noteq> fork)
      (\<lambda>(n, xs). (bn_parent (ns ! the n), xs @ [the n])) (Some a, xs))
    = Some (xs @ takeWhile (\<lambda>x. Some x \<noteq> fork) (lineage ns a))"
proof (induction a arbitrary: xs rule: less_induct)
  case (less a)
  from less.prems(1,2) show ?case
  proof (cases rule: lineage_cases)
    case 1
    then show ?thesis by (subst while_option_unfold, simp, subst while_option_unfold) simp
  next
    case (2 p)
    then show ?thesis using less.IH [OF 2(2) less.prems(1) 2(3), of "xs @ [a]"]
      by (subst while_option_unfold) simp
  qed
qed

lemma path_until_lineage:
  "heap_ok ns \<Longrightarrow> a < length ns \<Longrightarrow> path_until ns fork (Some a) = Some (takeWhile (\<lambda>x. Some x \<noteq> fork) (lineage ns a))"
  using path_loop [of ns a fork "[]"] by (simp add: path_until_def)

section \<open>The invariant of the view\<close>

definition view_list :: "chainView \<Rightarrow> nat list" where
  "view_list c = map (\<lambda>e. cv_elems c ! e) (cv_queue c)"

fun chained :: "blockNode list \<Rightarrow> nat list \<Rightarrow> bool" where
  "chained ns (x # y # zs) \<longleftrightarrow> bn_parent (ns ! x) = Some y \<and> chained ns (y # zs)"
| "chained ns xs \<longleftrightarrow> True"

definition view_ok :: "blockNode list \<Rightarrow> chainView \<Rightarrow> bool" where
  "view_ok ns c \<longleftrightarrow> distinct (cv_queue c) \<and> set (cv_queue c) \<subseteq> {..<length (cv_elems c)}
     \<and> set (view_list c) \<subseteq> {..<length ns} \<and> chained ns (view_list c) \<and> length (cv_queue c) \<le> blockNodeCacheLimit
     \<and> (\<forall>h e. cv_nodes c h = Some e \<longleftrightarrow> e \<in> set (cv_queue c) \<and> bn_height (ns ! (cv_elems c ! e)) = h)"

lemma view_tip: "cv_tip c = (case view_list c of [] \<Rightarrow> None | n # _ \<Rightarrow> Some n)"
  by (cases "cv_queue c") (auto simp: cv_tip_def view_list_def)

text \<open>A chained list is the beginning of the lineage of its first node.\<close>

lemma linked_lineage:
  "heap_ok ns \<Longrightarrow> set (x # xs) \<subseteq> {..<length ns} \<Longrightarrow> chained ns (x # xs) \<Longrightarrow> \<exists>ys. lineage ns x = (x # xs) @ ys"
proof (induction xs arbitrary: x)
  case Nil
  then show ?case using lineage_first [of ns x] by simp
next
  case (Cons y xs)
  have p: "bn_parent (ns ! x) = Some y" and x: "x < length ns" using Cons.prems(2,3) by auto
  obtain ys where "lineage ns y = (y # xs) @ ys" using Cons.IH [of y] Cons.prems by auto
  then show ?case using lineage_parent [OF Cons.prems(1) x] p by simp
qed

lemma linked_append:
  "chained ns (xs @ y # ys) \<longleftrightarrow> chained ns (xs @ [y]) \<and> chained ns (y # ys)"
  by (induction ns xs rule: chained.induct) auto

lemma lineage_linked: "heap_ok ns \<Longrightarrow> a < length ns \<Longrightarrow> chained ns (lineage ns a)"
proof (induction a rule: less_induct)
  case (less a)
  from less.prems(1,2) show ?case
  proof (cases rule: lineage_cases)
    case (2 p)
    moreover obtain ys where "lineage ns p = p # ys" using lineage_first [OF less.prems(1) 2(3)] by blast
    ultimately show ?thesis using less.IH [OF 2(2) less.prems(1) 2(3)] by simp
  qed simp
qed

lemma view_lineage:
  assumes "heap_ok ns" "view_ok ns c" "view_list c = x # xs"
  shows "\<exists>ys. lineage ns x = view_list c @ ys"
  using linked_lineage [of ns x xs] assms by (simp add: view_ok_def)

lemma view_below_tip:
  assumes "heap_ok ns" "view_ok ns c" "a \<in> set (view_list c)"
  shows "bn_height (ns ! a) \<le> cv_height ns c"
proof (cases "view_list c")
  case (Cons x xs)
  obtain ys where "lineage ns x = view_list c @ ys" using view_lineage [OF assms(1,2) Cons] by blast
  moreover have "x < length ns" using assms(2) Cons by (simp add: view_ok_def)
  ultimately show ?thesis using lineage_range [OF assms(1), of x a] assms(3) Cons
    by (auto simp: cv_height_def view_tip)
qed (use assms in simp)

lemma contains_view:
  assumes h: "heap_ok ns" and c: "view_ok ns c" and a: "a < length ns"
  shows "cv_contains ns c a \<longleftrightarrow> a \<in> set (view_list c) \<and> 0 \<le> bn_height (ns ! a)"
proof
  assume "cv_contains ns c a"
  then show "a \<in> set (view_list c) \<and> 0 \<le> bn_height (ns ! a)"
    using c by (auto simp: cv_contains_def nodeByHeight_def view_ok_def view_list_def split: if_splits)
next
  assume v: "a \<in> set (view_list c) \<and> 0 \<le> bn_height (ns ! a)"
  then obtain e where "e \<in> set (cv_queue c)" "cv_elems c ! e = a" by (auto simp: view_list_def)
  moreover then have "cv_nodes c (bn_height (ns ! a)) = Some e" using c by (auto simp: view_ok_def)
  ultimately show "cv_contains ns c a"
    using v view_below_tip [OF h c, of a] by (simp add: cv_contains_def nodeByHeight_def)
qed

section \<open>Forks\<close>

lemma find_append: "find P (xs @ ys) = (case find P xs of None \<Rightarrow> find P ys | Some x \<Rightarrow> Some x)"
  by (induction xs) auto

lemma find_split: "find P xs = Some x \<Longrightarrow> \<exists>ys zs. xs = ys @ x # zs \<and> P x \<and> (\<forall>y \<in> set ys. \<not> P y)"
proof (induction xs)
  case (Cons a xs)
  show ?case
  proof (cases "P a")
    case True
    then show ?thesis using Cons.prems by (intro exI [of _ "[]"] exI [of _ xs]) auto
  next
    case False
    then obtain ys zs where "xs = ys @ x # zs" "P x" "\<forall>y \<in> set ys. \<not> P y" using Cons by auto
    then show ?thesis using False by (intro exI [of _ "a # ys"] exI [of _ zs]) auto
  qed
qed simp

lemma climb_cong:
  assumes "heap_ok ns" "a < length ns" "\<And>x. x \<in> set (lineage ns a) \<Longrightarrow> P x = Q x"
  shows "climb ns P (Some a) = climb ns Q (Some a)"
proof -
  have "find P xs = find Q xs" if "\<And>x. x \<in> set xs \<Longrightarrow> P x = Q x" for xs using that by (induction xs) auto
  then show ?thesis using assms by (simp add: climb_lineage)
qed

definition on_view :: "blockNode list \<Rightarrow> chainView \<Rightarrow> nat \<Rightarrow> bool" where
  "on_view ns c a \<longleftrightarrow> a \<in> set (view_list c) \<and> 0 \<le> bn_height (ns ! a)"

lemma FindFork_first:
  assumes h: "heap_ok ns" and c: "view_ok ns c" and a: "a < length ns"
  shows "FindFork ns c (Some a) = Some (find (on_view ns c) (lineage ns a))"
proof -
  let ?H = "cv_height ns c"
  have go: "climb ns (cv_contains ns c) (Some x) = Some (find (on_view ns c) (lineage ns x))" if "x < length ns" for x
  proof -
    have "climb ns (cv_contains ns c) (Some x) = climb ns (on_view ns c) (Some x)"
      using lineage_range [OF h that] contains_view [OF h c] by (intro climb_cong [OF h that]) (auto simp: on_view_def)
    then show ?thesis using climb_lineage [OF h that] by simp
  qed
  have low: "bn_height (ns ! x) \<le> ?H" if "on_view ns c x" for x using that view_below_tip [OF h c] by (simp add: on_view_def)
  show ?thesis
  proof (cases "?H < bn_height (ns ! a)")
    case False
    then show ?thesis using go [OF a] by (simp add: FindFork_def)
  next
    case True
    show ?thesis
    proof (cases "?H < 0")
      case H: True
      then have "find (on_view ns c) (lineage ns a) = None" using low by (force simp: find_None_iff on_view_def)
      then show ?thesis using True H by (simp add: FindFork_def Ancestor_def)
    next
      case H: False
      let ?r = "find (\<lambda>n. bn_height (ns ! n) = ?H) (lineage ns a)"
      have A: "Ancestor ns a ?H = Some ?r" using H True climb_lineage [OF h a] by (simp add: Ancestor_def)
      show ?thesis
      proof (cases ?r)
        case None
        have "\<not> on_view ns c x" if x: "x \<in> set (lineage ns a)" for x
          using lineage_height [OF h a x, of ?H] low [of x] None True by (auto simp: find_None_iff)
        then have "find (on_view ns c) (lineage ns a) = None" by (simp add: find_None_iff)
        then show ?thesis using True A None by (simp add: FindFork_def)
      next
        case (Some r)
        then obtain ys zs where r: "lineage ns a = ys @ r # zs" "bn_height (ns ! r) = ?H" using find_split [OF Some] by auto
        have "\<not> on_view ns c y" if "y \<in> set ys" for y
          using lineage_decreasing [OF h a] low [of y] that r by (auto simp: sorted_wrt_append)
        then have "find (on_view ns c) ys = None" by (simp add: find_None_iff)
        then have "find (on_view ns c) (lineage ns a) = find (on_view ns c) (lineage ns r)"
          using r lineage_suffix [OF h a r(1)] by (simp add: find_append)
        moreover have "r < length ns" using lineage_range [OF h a, of r] r by simp
        ultimately show ?thesis using True A Some go [of r] by (simp add: FindFork_def)
      qed
    qed
  qed
qed

text \<open>What is left and what is joined.\<close>

lemma getReorganizeNodes_split:
  assumes h: "heap_ok ns" and c: "view_ok ns c" "view_list c \<noteq> []" and a: "a < length ns"
    and f: "FindFork ns c (Some a) = Some (Some f)"
  shows "\<exists>detach attach keep. getReorganizeNodes ns c a = Some (detach, attach) \<and> view_list c = detach @ f # keep
    \<and> lineage ns a = rev attach @ lineage ns f \<and> set attach \<inter> set (view_list c) = {} \<and> f < length ns"
proof -
  have "find (on_view ns c) (lineage ns a) = Some f" using FindFork_first [OF h c(1) a] f by simp
  from find_split [OF this] obtain ys zs where ys: "lineage ns a = ys @ f # zs" "on_view ns c f" "\<forall>y \<in> set ys. \<not> on_view ns c y"
    by blast
  obtain t xs where t: "view_list c = t # xs" using c(2) by (cases "view_list c") auto
  have tn: "t < length ns" using c(1) t by (simp add: view_ok_def)
  obtain us vs where v: "view_list c = us @ f # vs" using ys(2) by (metis on_view_def split_list)
  obtain ws where w: "lineage ns t = view_list c @ ws" using view_lineage [OF h c(1) t] by blast
  have "f \<notin> set us" using lineage_decreasing [OF h tn] v w by (auto simp: sorted_wrt_append)
  then have d: "takeWhile (\<lambda>x. Some x \<noteq> Some f) (lineage ns t) = us" using v w by (auto simp: takeWhile_append)
  have dec: "bn_height (ns ! f) < bn_height (ns ! y) \<and> y \<noteq> f" if "y \<in> set ys" for y
    using lineage_decreasing [OF h a] that ys(1) by (auto simp: sorted_wrt_append)
  then have u: "takeWhile (\<lambda>x. Some x \<noteq> Some f) (lineage ns a) = ys" using ys(1) by (auto simp: takeWhile_append)
  have "getReorganizeNodes ns c a = Some (us, rev ys)"
    using f path_until_lineage [OF h a, of "Some f"] path_until_lineage [OF h tn, of "Some f"] d u t
    by (simp add: getReorganizeNodes_def view_tip)
  moreover have "lineage ns a = rev (rev ys) @ lineage ns f" using ys(1) lineage_suffix [OF h a ys(1)] by simp
  moreover have "set (rev ys) \<inter> set (view_list c) = {}" using ys(2,3) dec by (fastforce simp: on_view_def)
  moreover have "f < length ns" using lineage_range [OF h a, of f] ys(1) by simp
  ultimately show ?thesis using v by blast
qed

section \<open>Moving the tip\<close>

lemma cv_nodes_new:
  assumes h: "heap_ok ns" and c: "view_ok ns c" and a: "a < length ns" "cv_tip c = None \<or> bn_parent (ns ! a) = cv_tip c"
  shows "cv_nodes c (bn_height (ns ! a)) = None"
proof (rule ccontr)
  assume "cv_nodes c (bn_height (ns ! a)) \<noteq> None"
  then obtain e where e: "e \<in> set (cv_queue c)" "bn_height (ns ! (cv_elems c ! e)) = bn_height (ns ! a)"
    using c by (auto simp: view_ok_def)
  then have v: "cv_elems c ! e \<in> set (view_list c)" by (auto simp: view_list_def)
  then obtain t xs where t: "view_list c = t # xs" by (cases "view_list c") auto
  then have "bn_parent (ns ! a) = Some t" using a(2) by (simp add: view_tip)
  then have "bn_height (ns ! a) = bn_height (ns ! t) + 1" using heap_okD [OF h a(1)] by blast
  then show False using view_below_tip [OF h c v] t e(2) by (simp add: cv_height_def view_tip)
qed

text \<open>The invariant without the limit, which is exceeded between the two halves of \<^verbatim>\<open>setTip\<close>.\<close>

definition view_links :: "blockNode list \<Rightarrow> chainView \<Rightarrow> bool" where
  "view_links ns c \<longleftrightarrow> distinct (cv_queue c) \<and> set (cv_queue c) \<subseteq> {..<length (cv_elems c)}
     \<and> set (view_list c) \<subseteq> {..<length ns} \<and> chained ns (view_list c)
     \<and> (\<forall>h e. cv_nodes c h = Some e \<longleftrightarrow> e \<in> set (cv_queue c) \<and> bn_height (ns ! (cv_elems c ! e)) = h)"

lemma view_ok_links: "view_ok ns c \<longleftrightarrow> view_links ns c \<and> length (cv_queue c) \<le> blockNodeCacheLimit"
  by (auto simp: view_ok_def view_links_def)

lemma push_links:
  assumes h: "heap_ok ns" and c: "view_ok ns c" and a: "a < length ns" "cv_tip c = None \<or> bn_parent (ns ! a) = cv_tip c"
    and d: "d = c\<lparr>cv_queue := length (cv_elems c) # cv_queue c, cv_elems := cv_elems c @ [a],
      cv_nodes := (cv_nodes c)(bn_height (ns ! a) := Some (length (cv_elems c)))\<rparr>"
  shows "view_links ns d" "view_list d = a # view_list c"
proof -
  let ?e = "length (cv_elems c)"
  have e: "e < length (cv_elems c)" if "e \<in> set (cv_queue c)" for e using c that by (auto simp: view_ok_def)
  show l: "view_list d = a # view_list c" using e by (auto simp: d view_list_def nth_append)
  have "chained ns (a # view_list c)"
    using a(2) c by (cases "view_list c") (auto simp: view_ok_def view_tip view_list_def)
  moreover have "(cv_nodes d k = Some x) = (x \<in> set (cv_queue d) \<and> bn_height (ns ! (cv_elems d ! x)) = k)" for k x
  proof (cases "x = ?e")
    case True
    have "cv_nodes c k \<noteq> Some ?e" using c e by (auto simp: view_ok_def)
    then show ?thesis using True by (auto simp: d)
  next
    case False
    have n: "(cv_nodes c k = Some x) = (x \<in> set (cv_queue c) \<and> bn_height (ns ! (cv_elems c ! x)) = k)"
      using c by (simp add: view_ok_def)
    have "(cv_elems c @ [a]) ! x = cv_elems c ! x" if "x \<in> set (cv_queue c)" using e [OF that] by (simp add: nth_append)
    then show ?thesis using False n cv_nodes_new [OF h c a] by (auto simp: d)
  qed
  ultimately show "view_links ns d" using c a(1) e l unfolding view_links_def view_ok_def by (auto simp: d intro: less_SucI)
qed

lemma chained_butlast: "chained ns xs \<Longrightarrow> chained ns (butlast xs)"
proof (induction ns xs rule: chained.induct)
  case (1 ns x y zs)
  then show ?case by (cases zs) auto
qed auto

lemma evict_links:
  assumes c: "view_links ns c" "cv_queue c \<noteq> []"
    and d: "d = c\<lparr>cv_queue := butlast (cv_queue c),
      cv_nodes := (cv_nodes c)(bn_height (ns ! (cv_elems c ! last (cv_queue c))) := None)\<rparr>"
  shows "view_links ns d" "view_list d = butlast (view_list c)"
proof -
  let ?e = "last (cv_queue c)"
  show l: "view_list d = butlast (view_list c)" by (simp add: d view_list_def map_butlast)
  have q: "cv_queue c = butlast (cv_queue c) @ [?e]" using c(2) by simp
  have dist: "distinct (butlast (cv_queue c) @ [?e])" using c(1) q by (simp add: view_links_def)
  have mem: "x \<in> set (cv_queue c) \<longleftrightarrow> x \<in> set (butlast (cv_queue c)) \<or> x = ?e" for x
    by (subst q) auto
  have n: "(cv_nodes c k = Some x) = (x \<in> set (cv_queue c) \<and> bn_height (ns ! (cv_elems c ! x)) = k)" for k x
    using c(1) by (simp add: view_links_def)
  have "(cv_nodes d k = Some x) = (x \<in> set (cv_queue d) \<and> bn_height (ns ! (cv_elems d ! x)) = k)" for k x
  proof (cases "k = bn_height (ns ! (cv_elems c ! ?e))")
    case True
    then have "cv_nodes c k = Some ?e" using n mem by simp
    then show ?thesis using True n [of k x] mem dist by (auto simp: d)
  next
    case False
    then show ?thesis using n [of k x] mem by (auto simp: d)
  qed
  moreover have "set (butlast (view_list c)) \<subseteq> set (view_list c)" by (auto dest: in_set_butlastD)
  ultimately show "view_links ns d"
    using c(1) dist chained_butlast [of ns "view_list c"] unfolding view_links_def l
    by (auto simp: d dest: in_set_butlastD)
qed

text \<open>The new tip goes on top; when the limit is reached the lowest node falls out at the bottom.\<close>

lemma setTip_view:
  assumes h: "heap_ok ns" and c: "view_ok ns c"
    and a: "a < length ns" "cv_tip c = None \<or> bn_parent (ns ! a) = cv_tip c"
  shows "view_ok ns (setTip ns a c) \<and> view_list (setTip ns a c) = take blockNodeCacheLimit (a # view_list c)"
proof -
  define d where "d = c\<lparr>cv_queue := length (cv_elems c) # cv_queue c, cv_elems := cv_elems c @ [a],
      cv_nodes := (cv_nodes c)(bn_height (ns ! a) := Some (length (cv_elems c)))\<rparr>"
  note l = push_links [OF h c a d_def]
  have q: "cv_queue c \<noteq> [] \<longrightarrow> bn_parent (ns ! a) = cv_tip c" using a(2) by (cases "cv_queue c") (auto simp: cv_tip_def)
  have n: "length (view_list c) \<le> blockNodeCacheLimit" "length (cv_queue c) = length (view_list c)"
    "cv_queue d \<noteq> []" "length (cv_queue d) = Suc (length (view_list c))"
    using c by (simp_all add: view_ok_def view_list_def d_def)
  show ?thesis
  proof (cases "length (cv_queue d) > blockNodeCacheLimit")
    case False
    then have "setTip ns a c = d" using q by (auto simp: setTip_def Let_def d_def)
    then show ?thesis using False n l by (simp add: view_ok_links)
  next
    case True
    let ?d = "d\<lparr>cv_queue := butlast (cv_queue d),
      cv_nodes := (cv_nodes d)(bn_height (ns ! (cv_elems d ! last (cv_queue d))) := None)\<rparr>"
    have s: "setTip ns a c = ?d" using q True by (auto simp: setTip_def Let_def d_def)
    have "length (view_list c) = blockNodeCacheLimit" using True n by simp
    then show ?thesis
      using evict_links [OF l(1) n(3) refl] n l(2) by (simp add: s view_ok_links butlast_conv_take)
  qed
qed

lemma delTip_view:
  assumes h: "heap_ok ns" and c: "view_ok ns c" "view_list c = a # xs"
  shows "\<exists>c'. delTip ns a c = (Ok (), c') \<and> view_ok ns c' \<and> view_list c' = xs"
proof -
  obtain e es where q: "cv_queue c = e # es" "cv_elems c ! e = a" "map (\<lambda>e. cv_elems c ! e) es = xs"
    using c(2) by (cases "cv_queue c") (auto simp: view_list_def)
  have n: "cv_nodes c (bn_height (ns ! a)) = Some e" using c(1) q by (auto simp: view_ok_def)
  let ?c = "c\<lparr>cv_queue := es, cv_nodes := (cv_nodes c)(bn_height (ns ! a) := None)\<rparr>"
  have d: "delTip ns a c = (Ok (), ?c)" using n q by (simp add: delTip_def cv_tip_def)
  have u: "bn_height (ns ! (cv_elems c ! x)) \<noteq> bn_height (ns ! a)" if "x \<in> set es" for x
  proof
    assume "bn_height (ns ! (cv_elems c ! x)) = bn_height (ns ! a)"
    then have "cv_nodes c (bn_height (ns ! a)) = Some x" using c(1) q that by (auto simp: view_ok_def)
    then show False using n c(1) q that by (auto simp: view_ok_def)
  qed
  have "chained ns xs" using c by (cases xs) (auto simp: view_ok_def)
  moreover have "(cv_nodes ?c k = Some x) = (x \<in> set (cv_queue ?c) \<and> bn_height (ns ! (cv_elems ?c ! x)) = k)" for k x
  proof -
    have "(cv_nodes c k = Some x) = (x \<in> set (cv_queue c) \<and> bn_height (ns ! (cv_elems c ! x)) = k)"
      using c(1) by (simp add: view_ok_def)
    then show ?thesis using u [of x] q by auto
  qed
  moreover have "view_list ?c = xs" using q by (simp add: view_list_def)
  ultimately have "view_ok ns ?c" using c q unfolding view_ok_def by auto
  then show ?thesis using d q by (simp add: view_list_def)
qed

end
