(* ===== verification/Orphan_Pool.thy ===== *)
theory Orphan_Pool
  imports Block_View "HOL-Library.AList"
begin

text \<open>
  The pool of blocks whose parent is not known yet, \<^verbatim>\<open>blockchain/orphanpool.go\<close>.  The order in which
  the code ranges over the map of orphans and the readings of the clock are arguments.
\<close>

section \<open>The pool\<close>

record orphanBlock =
  ob_block :: Block
  ob_expiration :: int
  ob_broadcast :: bool
  ob_pid :: string
  ob_sequence :: int

text \<open>\<open>op_orphans\<close> binds each hash once; a hash without children has the empty list in \<open>op_prev\<close>.\<close>

record OrphanPool =
  op_orphans :: "(bytes \<times> orphanBlock) list"
  op_prev :: "bytes \<Rightarrow> orphanBlock list"
  op_oldest :: "orphanBlock option"

definition orphanExpirationTime :: int where
  "orphanExpirationTime = 600"

definition NewOrphanPool :: OrphanPool where
  "NewOrphanPool = \<lparr>op_orphans = [], op_prev = (\<lambda>_. []), op_oldest = None\<rparr>"

definition IsKnownOrphan :: "bytes \<Rightarrow> OrphanPool \<Rightarrow> bool" where
  "IsKnownOrphan hash op \<longleftrightarrow> map_of (op_orphans op) hash \<noteq> None"

definition GetOrphanRoot :: "bytes \<Rightarrow> OrphanPool \<Rightarrow> bytes option" where
  "GetOrphanRoot hash op =
    map_option fst (while_option (\<lambda>(root, prev). map_of (op_orphans op) prev \<noteq> None)
      (\<lambda>(root, prev). (prev, bk_ParentHash (ob_block (the (map_of (op_orphans op) prev))))) (hash, hash))"

definition removeOrphanBlock :: "hash_env \<Rightarrow> orphanBlock \<Rightarrow> OrphanPool \<Rightarrow> OrphanPool" where
  "removeOrphanBlock E orphan op =
    (let orphanHash = block_Hash E (ob_block orphan); prevHash = bk_ParentHash (ob_block orphan) in
     op\<lparr>op_orphans := AList.delete orphanHash (op_orphans op),
        op_prev := (op_prev op)(prevHash := filter (\<lambda>ob. block_Hash E (ob_block ob) \<noteq> orphanHash) (op_prev op prevHash))\<rparr>)"

definition RemoveOrphanBlockByHash :: "hash_env \<Rightarrow> bytes \<Rightarrow> OrphanPool \<Rightarrow> OrphanPool" where
  "RemoveOrphanBlockByHash E hash op =
    (case map_of (op_orphans op) hash of None \<Rightarrow> op | Some orphan \<Rightarrow> removeOrphanBlock E orphan op)"

definition RemoveOrphanBlock2 :: "hash_env \<Rightarrow> Block \<Rightarrow> int \<Rightarrow> bool \<Rightarrow> string \<Rightarrow> int \<Rightarrow> OrphanPool \<Rightarrow> OrphanPool" where
  "RemoveOrphanBlock2 E block expiration broadcast pid sequence =
    removeOrphanBlock E \<lparr>ob_block = block, ob_expiration = expiration, ob_broadcast = broadcast,
      ob_pid = pid, ob_sequence = sequence\<rparr>"

text \<open>One round of the loop of \<^verbatim>\<open>AddOrphanBlock\<close>, at the entry of a hash, if it is still there.\<close>

definition visit_orphan :: "hash_env \<Rightarrow> (bytes \<Rightarrow> int) \<Rightarrow> bytes \<Rightarrow> OrphanPool \<Rightarrow> OrphanPool" where
  "visit_orphan E clock hash op =
    (case map_of (op_orphans op) hash of
       None \<Rightarrow> op
     | Some ob \<Rightarrow>
        if clock hash > ob_expiration ob then removeOrphanBlock E ob op
        else if op_oldest op = None \<or> ob_expiration ob < ob_expiration (the (op_oldest op))
             then op\<lparr>op_oldest := Some ob\<rparr> else op)"

definition AddOrphanBlock :: "hash_env \<Rightarrow> nat \<Rightarrow> bytes list \<Rightarrow> (bytes \<Rightarrow> int) \<Rightarrow> int
    \<Rightarrow> bool \<Rightarrow> Block \<Rightarrow> string \<Rightarrow> int \<Rightarrow> (OrphanPool, unit) op" where
  "AddOrphanBlock E maxOrphanBlocks order clock now broadcast block pid sequence op =
    (let op1 = fold (visit_orphan E clock) order op;
         oBlock = \<lparr>ob_block = block, ob_expiration = now + orphanExpirationTime, ob_broadcast = broadcast,
                   ob_pid = pid, ob_sequence = sequence\<rparr>;
         add = (\<lambda>op. op\<lparr>op_orphans := AList.update (block_Hash E block) oBlock (op_orphans op),
                op_prev := (op_prev op)(bk_ParentHash block := op_prev op (bk_ParentHash block) @ [oBlock])\<rparr>)
     in if length (op_orphans op1) + 1 > maxOrphanBlocks then
          (case op_oldest op1 of
             None \<Rightarrow> (Panic, op1)
           | Some oldest \<Rightarrow> (Ok (), add ((removeOrphanBlock E oldest op1)\<lparr>op_oldest := None\<rparr>)))
        else (Ok (), add op1))"

definition getChildOrphanCount :: "bytes \<Rightarrow> OrphanPool \<Rightarrow> nat" where
  "getChildOrphanCount hash op = length (op_prev op hash)"

definition getChildOrphan :: "bytes \<Rightarrow> nat \<Rightarrow> OrphanPool \<Rightarrow> orphanBlock option" where
  "getChildOrphan hash index op = (if index \<ge> length (op_prev op hash) then None else Some (op_prev op hash ! index))"

text \<open>
  \<^verbatim>\<open>ProcessOrphans\<close>, over the call that accepts a block into the chain.  The inner loop runs over
  the children of a hash, the outer one over the hashes of the blocks that have been accepted.
\<close>

fun child_loop :: "hash_env \<Rightarrow> (orphanBlock \<Rightarrow> ('c, unit) op) \<Rightarrow> nat \<Rightarrow> bytes \<Rightarrow> nat \<Rightarrow> nat \<Rightarrow> bytes list
    \<Rightarrow> ('c \<times> OrphanPool, bytes list) op" where
  "child_loop E accept 0 hash cnt i hs = panicO"
| "child_loop E accept (Suc f) hash cnt i hs =
    (if i < cnt then
       (\<lambda>(c, op). case getChildOrphan hash i op of
          None \<Rightarrow> child_loop E accept f hash cnt (i + 1) hs (c, op)
        | Some orphan \<Rightarrow>
            let op' = removeOrphanBlock E orphan op in
            (case accept orphan c of
               (Ok _, c') \<Rightarrow> child_loop E accept f hash cnt i (hs @ [block_Hash E (ob_block orphan)]) (c', op')
             | (Fail e, c') \<Rightarrow> (Fail e, (c', op'))
             | (Panic, c') \<Rightarrow> (Panic, (c', op'))))
     else returnO hs)"

fun orphan_loop :: "hash_env \<Rightarrow> (orphanBlock \<Rightarrow> ('c, unit) op) \<Rightarrow> nat \<Rightarrow> bytes list \<Rightarrow> ('c \<times> OrphanPool, unit) op" where
  "orphan_loop E accept f [] = returnO ()"
| "orphan_loop E accept 0 (h # hs) = panicO"
| "orphan_loop E accept (Suc f) (h # hs) =
    (\<lambda>(c, op).
      let cnt = getChildOrphanCount h op in
      andThen (child_loop E accept (2 * cnt + 1) h cnt 0 hs) (orphan_loop E accept f) (c, op))"

definition ProcessOrphans :: "hash_env \<Rightarrow> (orphanBlock \<Rightarrow> ('c, unit) op) \<Rightarrow> bytes \<Rightarrow> ('c \<times> OrphanPool, unit) op" where
  "ProcessOrphans E accept hash s = orphan_loop E accept (length (op_orphans (snd s)) + 1) [hash] s"

section \<open>The invariant\<close>

text \<open>The hashes of the blocks that are around tell their parents apart.\<close>

definition hash_parent :: "hash_env \<Rightarrow> Block set \<Rightarrow> bool" where
  "hash_parent E B \<longleftrightarrow> (\<forall>b \<in> B. \<forall>b' \<in> B. block_Hash E b = block_Hash E b' \<longrightarrow> bk_ParentHash b = bk_ParentHash b')"

definition ob_hash :: "hash_env \<Rightarrow> orphanBlock \<Rightarrow> bytes" where
  "ob_hash E ob = block_Hash E (ob_block ob)"

definition ob_parent :: "orphanBlock \<Rightarrow> bytes" where
  "ob_parent ob = bk_ParentHash (ob_block ob)"

definition orphans_of :: "OrphanPool \<Rightarrow> orphanBlock set" where
  "orphans_of op = snd ` set (op_orphans op)"

text \<open>Every orphan is bound to its hash, and listed once, under the hash of its parent.\<close>

definition pool_ok :: "hash_env \<Rightarrow> Block set \<Rightarrow> OrphanPool \<Rightarrow> bool" where
  "pool_ok E B op \<longleftrightarrow> distinct (map fst (op_orphans op)) \<and> (\<forall>(h, ob) \<in> set (op_orphans op). h = ob_hash E ob)
     \<and> (\<forall>p. distinct (op_prev op p) \<and> set (op_prev op p) = {ob \<in> orphans_of op. ob_parent ob = p})
     \<and> ob_block ` (orphans_of op \<union> set_option (op_oldest op)) \<subseteq> B"

lemma pool_okD:
  assumes "pool_ok E B op"
  shows "distinct (map fst (op_orphans op))"
    and "(h, ob) \<in> set (op_orphans op) \<Longrightarrow> h = ob_hash E ob"
    and "distinct (op_prev op p)" and "set (op_prev op p) = {ob \<in> orphans_of op. ob_parent ob = p}"
    and "ob \<in> orphans_of op \<Longrightarrow> ob_block ob \<in> B" and "op_oldest op = Some ob \<Longrightarrow> ob_block ob \<in> B"
proof -
  note u = assms [unfolded pool_ok_def]
  show "distinct (map fst (op_orphans op))" using u by (elim conjE)
  show "(h, ob) \<in> set (op_orphans op) \<Longrightarrow> h = ob_hash E ob" using u by (elim conjE) (drule (1) bspec, simp)
  show "distinct (op_prev op p)" "set (op_prev op p) = {ob \<in> orphans_of op. ob_parent ob = p}" using u by (elim conjE, simp)+
  show "ob \<in> orphans_of op \<Longrightarrow> ob_block ob \<in> B" "op_oldest op = Some ob \<Longrightarrow> ob_block ob \<in> B"
    using conjunct2 [OF conjunct2 [OF conjunct2 [OF u]]] by auto
qed

lemma pool_ok_keys:
  assumes "pool_ok E B op" shows "(h, ob) \<in> set (op_orphans op) \<longleftrightarrow> ob \<in> orphans_of op \<and> h = ob_hash E ob"
proof
  assume k: "(h, ob) \<in> set (op_orphans op)"
  then show "ob \<in> orphans_of op \<and> h = ob_hash E ob" using pool_okD(2) [OF assms k] by (force simp: orphans_of_def)
next
  assume k: "ob \<in> orphans_of op \<and> h = ob_hash E ob"
  then obtain h' where "(h', ob) \<in> set (op_orphans op)" by (auto simp: orphans_of_def)
  then show "(h, ob) \<in> set (op_orphans op)" using pool_okD(2) [OF assms] k by blast
qed

lemma pool_ok_lookup: "pool_ok E B op \<Longrightarrow> map_of (op_orphans op) h = Some ob \<longleftrightarrow> ob \<in> orphans_of op \<and> ob_hash E ob = h"
  using pool_ok_keys [of E B op h ob] pool_okD(1) [of E B op] by auto

lemma pool_ok_inj: "pool_ok E B op \<Longrightarrow> a \<in> orphans_of op \<Longrightarrow> b \<in> orphans_of op \<Longrightarrow> ob_hash E a = ob_hash E b \<Longrightarrow> a = b"
  using pool_ok_lookup [of E B op "ob_hash E b" a] pool_ok_lookup [of E B op "ob_hash E b" b] by simp

lemma remove_simps [simp]:
  "op_orphans (removeOrphanBlock E ob op) = filter (\<lambda>p. fst p \<noteq> ob_hash E ob) (op_orphans op)"
  "op_prev (removeOrphanBlock E ob op) =
    (op_prev op)(ob_parent ob := filter (\<lambda>x. ob_hash E x \<noteq> ob_hash E ob) (op_prev op (ob_parent ob)))"
  "op_oldest (removeOrphanBlock E ob op) = op_oldest op"
  by (auto simp: removeOrphanBlock_def Let_def AList.delete_eq ob_hash_def ob_parent_def intro!: filter_cong)

lemma orphans_remove:
  assumes "pool_ok E B op"
  shows "orphans_of (removeOrphanBlock E ob op) = {x \<in> orphans_of op. ob_hash E x \<noteq> ob_hash E ob}"
proof -
  have "orphans_of (removeOrphanBlock E ob op) = snd ` {p \<in> set (op_orphans op). fst p \<noteq> ob_hash E ob}"
    by (simp add: orphans_of_def)
  also have "\<dots> = {x \<in> orphans_of op. ob_hash E x \<noteq> ob_hash E ob}"
  proof (intro set_eqI iffI)
    fix x assume "x \<in> snd ` {p \<in> set (op_orphans op). fst p \<noteq> ob_hash E ob}"
    then obtain h where "(h, x) \<in> set (op_orphans op)" "h \<noteq> ob_hash E ob" by auto
    then show "x \<in> {x \<in> orphans_of op. ob_hash E x \<noteq> ob_hash E ob}" using pool_ok_keys [OF assms, of h x] by simp
  next
    fix x assume "x \<in> {x \<in> orphans_of op. ob_hash E x \<noteq> ob_hash E ob}"
    then have "(ob_hash E x, x) \<in> {p \<in> set (op_orphans op). fst p \<noteq> ob_hash E ob}"
      using pool_ok_keys [OF assms, of "ob_hash E x" x] by simp
    then show "x \<in> snd ` {p \<in> set (op_orphans op). fst p \<noteq> ob_hash E ob}" by (rule rev_image_eqI) simp
  qed
  finally show ?thesis .
qed

lemma remove_orphan_ok:
  assumes H: "hash_parent E B" and p: "pool_ok E B op" and ob: "ob_block ob \<in> B"
  shows "pool_ok E B (removeOrphanBlock E ob op)"
proof -
  let ?op = "removeOrphanBlock E ob op"
  note r = orphans_remove [OF p, of ob]
  have same: "ob_parent x = ob_parent ob" if "x \<in> orphans_of op" "ob_hash E x = ob_hash E ob" for x
  proof -
    have "ob_block x \<in> B" using pool_okD(5) [OF p] that(1) .
    then show ?thesis using that(2) H ob unfolding hash_parent_def ob_hash_def ob_parent_def by blast
  qed
  have prev: "distinct (op_prev op q) \<and> set (op_prev op q) = {x \<in> orphans_of op. ob_parent x = q}" for q
    by (intro conjI pool_okD(3,4) [OF p])
  have "distinct (map fst (op_orphans ?op))" using pool_okD(1) [OF p] by (simp add: distinct_map_filter)
  moreover have "\<forall>(h, ob) \<in> set (op_orphans ?op). h = ob_hash E ob" using pool_okD(2) [OF p] by auto
  moreover have "distinct (op_prev ?op q) \<and> set (op_prev ?op q) = {x \<in> orphans_of ?op. ob_parent x = q}" for q
  proof (cases "q = ob_parent ob")
    case True
    then show ?thesis using prev [of q] r by auto
  next
    case False
    then show ?thesis using prev [of q] r same by auto
  qed
  moreover have "ob_block ` (orphans_of ?op \<union> set_option (op_oldest ?op)) \<subseteq> B"
    unfolding r using pool_okD(5,6) [OF p] by auto
  ultimately show ?thesis unfolding pool_ok_def by blast
qed

lemma remove_shorter:
  assumes "pool_ok E B op" "ob \<in> orphans_of op"
  shows "length (op_orphans (removeOrphanBlock E ob op)) < length (op_orphans op)"
proof -
  have "(ob_hash E ob, ob) \<in> set (op_orphans op)" using assms pool_ok_keys by blast
  then show ?thesis using length_filter_less [of "(ob_hash E ob, ob)" "op_orphans op"] by simp
qed

section \<open>Adding\<close>

definition fresh_oldest :: "OrphanPool \<Rightarrow> bool" where
  "fresh_oldest op \<longleftrightarrow> set_option (op_oldest op) \<subseteq> orphans_of op"

lemma visit_orphan_ok:
  assumes H: "hash_parent E B" and p: "pool_ok E B op"
  shows "pool_ok E B (visit_orphan E clock h op) \<and> orphans_of (visit_orphan E clock h op) \<subseteq> orphans_of op
    \<and> (fresh_oldest op \<longrightarrow> fresh_oldest (visit_orphan E clock h op)
         \<or> length (op_orphans (visit_orphan E clock h op)) < length (op_orphans op))
    \<and> length (op_orphans (visit_orphan E clock h op)) \<le> length (op_orphans op)
    \<and> (\<forall>x \<in> orphans_of op. clock (ob_hash E x) \<le> ob_expiration x \<longrightarrow> x \<in> orphans_of (visit_orphan E clock h op))
    \<and> (\<forall>x \<in> orphans_of (visit_orphan E clock h op). ob_hash E x = h \<longrightarrow> clock h \<le> ob_expiration x \<and> op_oldest (visit_orphan E clock h op) \<noteq> None)
    \<and> (op_oldest op \<noteq> None \<longrightarrow> op_oldest (visit_orphan E clock h op) \<noteq> None)"
proof (cases "map_of (op_orphans op) h")
  case None
  then have "\<not> (ob \<in> orphans_of op \<and> ob_hash E ob = h)" for ob using pool_ok_lookup [OF p, of h ob] by auto
  then show ?thesis using None p by (auto simp: visit_orphan_def)
next
  case (Some ob)
  then have ob: "ob \<in> orphans_of op" "ob_hash E ob = h" using pool_ok_lookup [OF p] by auto
  then have b: "ob_block ob \<in> B" using pool_okD(5) [OF p] by blast
  show ?thesis
  proof (cases "clock h > ob_expiration ob")
    case True
    have v: "visit_orphan E clock h op = removeOrphanBlock E ob op" using Some True by (simp add: visit_orphan_def)
    have "x = ob" if "x \<in> orphans_of op" "ob_hash E x = h" for x using pool_ok_inj [OF p that(1) ob(1)] that ob by simp
    then have "\<forall>x \<in> orphans_of op. clock (ob_hash E x) \<le> ob_expiration x \<longrightarrow> ob_hash E x \<noteq> h" using True by force
    then show ?thesis unfolding v using remove_orphan_ok [OF H p b] orphans_remove [OF p, of ob] remove_shorter [OF p ob(1)] ob(2)
      by auto
  next
    case False
    let ?op = "visit_orphan E clock h op"
    have v: "?op = op \<or> ?op = op\<lparr>op_oldest := Some ob\<rparr>" "op_oldest ?op \<noteq> None" using Some False by (auto simp: visit_orphan_def)
    have "x = ob" if "x \<in> orphans_of op" "ob_hash E x = h" for x using pool_ok_inj [OF p that(1) ob(1)] that ob by simp
    then have "\<forall>x \<in> orphans_of op. ob_hash E x = h \<longrightarrow> clock h \<le> ob_expiration x" using False by auto
    moreover have of: "orphans_of (op\<lparr>op_oldest := Some ob\<rparr>) = orphans_of op" by (simp add: orphans_of_def)
    moreover have "fresh_oldest (op\<lparr>op_oldest := Some ob\<rparr>)" using ob(1) of by (simp add: fresh_oldest_def)
    moreover have "pool_ok E B (op\<lparr>op_oldest := Some ob\<rparr>)"
      using p b pool_okD(5) [OF p] unfolding pool_ok_def of by auto
    ultimately show ?thesis using v(2) p by (intro conjI; use v(1) in \<open>elim disjE; simp\<close>)
  qed
qed

lemma visit_all_ok:
  assumes H: "hash_parent E B"
  shows "pool_ok E B op \<Longrightarrow> op' = fold (visit_orphan E clock) order op \<Longrightarrow>
    pool_ok E B op' \<and> orphans_of op' \<subseteq> orphans_of op
    \<and> (fresh_oldest op \<longrightarrow> fresh_oldest op' \<or> length (op_orphans op') < length (op_orphans op))
    \<and> length (op_orphans op') \<le> length (op_orphans op)
    \<and> (\<forall>x \<in> orphans_of op. clock (ob_hash E x) \<le> ob_expiration x \<longrightarrow> x \<in> orphans_of op')
    \<and> (\<forall>x \<in> orphans_of op'. ob_hash E x \<in> set order \<longrightarrow> clock (ob_hash E x) \<le> ob_expiration x \<and> op_oldest op' \<noteq> None)
    \<and> (op_oldest op \<noteq> None \<longrightarrow> op_oldest op' \<noteq> None)"
proof (induction order arbitrary: op)
  case (Cons h order)
  let ?op1 = "visit_orphan E clock h op"
  note v = visit_orphan_ok [OF H Cons.prems(1), of clock h]
  have p1: "pool_ok E B ?op1" using v by blast
  have e: "op' = fold (visit_orphan E clock) order ?op1" using Cons.prems(2) by simp
  note r = Cons.IH [OF p1 e]
  have "clock (ob_hash E x) \<le> ob_expiration x \<and> op_oldest op' \<noteq> None"
    if "x \<in> orphans_of op'" "ob_hash E x \<in> set (h # order)" for x
    using r v that by auto
  moreover have "fresh_oldest op' \<or> length (op_orphans op') < length (op_orphans op)" if "fresh_oldest op"
  proof -
    have "fresh_oldest ?op1 \<or> length (op_orphans ?op1) < length (op_orphans op)" using v that by blast
    moreover have "length (op_orphans op') \<le> length (op_orphans ?op1)" "length (op_orphans ?op1) \<le> length (op_orphans op)"
      using r v by blast+
    ultimately show ?thesis using r by fastforce
  qed
  moreover have "length (op_orphans op') \<le> length (op_orphans op)" using r v le_trans by blast
  moreover have "x \<in> orphans_of op'" if "x \<in> orphans_of op" "clock (ob_hash E x) \<le> ob_expiration x" for x
    using r v that by blast
  ultimately show ?case using r v by blast
qed simp

definition add_orphan :: "hash_env \<Rightarrow> orphanBlock \<Rightarrow> OrphanPool \<Rightarrow> OrphanPool" where
  "add_orphan E ob op = op\<lparr>op_orphans := AList.update (ob_hash E ob) ob (op_orphans op),
     op_prev := (op_prev op)(ob_parent ob := op_prev op (ob_parent ob) @ [ob])\<rparr>"

lemma update_new_key: "k \<notin> fst ` set xs \<Longrightarrow> AList.update k v xs = xs @ [(k, v)]"
  by (induction xs) auto

lemma add_orphan_ok:
  assumes p: "pool_ok E B op" and ob: "ob_block ob \<in> B" "\<not> IsKnownOrphan (ob_hash E ob) op"
  shows "pool_ok E B (add_orphan E ob op) \<and> orphans_of (add_orphan E ob op) = insert ob (orphans_of op)
    \<and> length (op_orphans (add_orphan E ob op)) = Suc (length (op_orphans op))"
proof -
  have k: "ob_hash E ob \<notin> fst ` set (op_orphans op)" using ob(2) by (simp add: IsKnownOrphan_def map_of_eq_None_iff)
  have u: "op_orphans (add_orphan E ob op) = op_orphans op @ [(ob_hash E ob, ob)]"
    using update_new_key [OF k] by (simp add: add_orphan_def)
  then have o: "orphans_of (add_orphan E ob op) = insert ob (orphans_of op)" by (simp add: orphans_of_def)
  have n: "ob \<notin> orphans_of op" using pool_ok_lookup [OF p] ob(2) by (auto simp: IsKnownOrphan_def)
  have "distinct (map fst (op_orphans (add_orphan E ob op)))" using u k pool_okD(1) [OF p] by simp
  moreover have "\<forall>(h, x) \<in> set (op_orphans (add_orphan E ob op)). h = ob_hash E x" using u pool_okD(2) [OF p] by auto
  moreover have "distinct (op_prev (add_orphan E ob op) q)
      \<and> set (op_prev (add_orphan E ob op) q) = {x \<in> orphans_of (add_orphan E ob op). ob_parent x = q}" for q
    using pool_okD(3,4) [OF p, of q] n unfolding o by (auto simp: add_orphan_def)
  moreover have "ob_block ` (orphans_of (add_orphan E ob op) \<union> set_option (op_oldest (add_orphan E ob op))) \<subseteq> B"
    unfolding o using pool_okD(5,6) [OF p] ob(1) by (auto simp: add_orphan_def)
  ultimately show ?thesis using o u unfolding pool_ok_def by simp
qed

lemma AddOrphanBlock_eq:
  "AddOrphanBlock E m order clock now broadcast block pid sequence op =
    (let op1 = fold (visit_orphan E clock) order op;
         ob = \<lparr>ob_block = block, ob_expiration = now + orphanExpirationTime, ob_broadcast = broadcast, ob_pid = pid, ob_sequence = sequence\<rparr>
     in if length (op_orphans op1) + 1 > m
        then (case op_oldest op1 of None \<Rightarrow> (Panic, op1)
              | Some oldest \<Rightarrow> (Ok (), add_orphan E ob ((removeOrphanBlock E oldest op1)\<lparr>op_oldest := None\<rparr>)))
        else (Ok (), add_orphan E ob op1))"
  by (simp add: AddOrphanBlock_def add_orphan_def Let_def ob_hash_def ob_parent_def split: option.split)

lemma forget_oldest:
  assumes p: "pool_ok E B op"
  shows "pool_ok E B (op\<lparr>op_oldest := None\<rparr>) \<and> orphans_of (op\<lparr>op_oldest := None\<rparr>) = orphans_of op"
proof -
  have o: "orphans_of (op\<lparr>op_oldest := None\<rparr>) = orphans_of op" by (simp add: orphans_of_def)
  then show ?thesis using p pool_okD(5) [OF p] unfolding pool_ok_def o by auto
qed

lemma AddOrphanBlock_ok:
  assumes H: "hash_parent E B" and p: "pool_ok E B op" and b: "block \<in> B" "\<not> IsKnownOrphan (block_Hash E block) op"
    and m: "0 < m" and order: "fst ` set (op_orphans op) \<subseteq> set order"
  shows "\<exists>op' ob. AddOrphanBlock E m order clock now broadcast block pid sequence op = (Ok (), op') \<and> pool_ok E B op'
    \<and> ob_block ob = block \<and> ob \<in> orphans_of op'
    \<and> (\<forall>x \<in> orphans_of op'. x = ob \<or> x \<in> orphans_of op \<and> clock (ob_hash E x) \<le> ob_expiration x)
    \<and> (fresh_oldest op \<and> length (op_orphans op) \<le> m \<longrightarrow> length (op_orphans op') \<le> m)
    \<and> (length (op_orphans op) < m \<longrightarrow>
        (\<forall>x \<in> orphans_of op. clock (ob_hash E x) \<le> ob_expiration x \<longrightarrow> x \<in> orphans_of op'))"
proof -
  let ?op1 = "fold (visit_orphan E clock) order op"
  let ?ob = "\<lparr>ob_block = block, ob_expiration = now + orphanExpirationTime, ob_broadcast = broadcast, ob_pid = pid, ob_sequence = sequence\<rparr>"
  note v = visit_all_ok [OF H p refl, of clock order]
  have p1: "pool_ok E B ?op1" and sub: "orphans_of ?op1 \<subseteq> orphans_of op"
    and len: "length (op_orphans ?op1) \<le> length (op_orphans op)" using v by blast+
  have new: "\<not> IsKnownOrphan (ob_hash E ?ob) op'" if "pool_ok E B op'" "orphans_of op' \<subseteq> orphans_of op" for op'
    using b(2) that pool_ok_lookup [OF p] pool_ok_lookup [OF that(1)] by (fastforce simp: IsKnownOrphan_def ob_hash_def)
  have vis: "ob_hash E x \<in> set order" if "x \<in> orphans_of op" for x
    using order pool_ok_keys [OF p, of "ob_hash E x" x] that by force
  have live: "clock (ob_hash E x) \<le> ob_expiration x" if "x \<in> orphans_of ?op1" for x using v vis that sub by blast
  have kept: "x \<in> orphans_of ?op1" if "x \<in> orphans_of op" "clock (ob_hash E x) \<le> ob_expiration x" for x using v that by blast
  show ?thesis
  proof (cases "length (op_orphans ?op1) + 1 > m")
    case False
    note a = add_orphan_ok [OF p1 _ new [OF p1 sub]]
    have "AddOrphanBlock E m order clock now broadcast block pid sequence op = (Ok (), add_orphan E ?ob ?op1)"
      using False by (simp add: AddOrphanBlock_eq Let_def)
    then show ?thesis using a b(1) False live kept sub by (intro exI [of _ "add_orphan E ?ob ?op1"] exI [of _ ?ob]) auto
  next
    case True
    then have "op_orphans ?op1 \<noteq> []" using m by auto
    then obtain x where "x \<in> orphans_of ?op1" unfolding orphans_of_def by (metis image_is_empty set_empty ex_in_conv)
    then have "op_oldest ?op1 \<noteq> None" using v vis sub by blast
    then obtain old where old: "op_oldest ?op1 = Some old" by blast
    let ?op2 = "(removeOrphanBlock E old ?op1)\<lparr>op_oldest := None\<rparr>"
    have p2: "pool_ok E B (removeOrphanBlock E old ?op1)" using remove_orphan_ok [OF H p1 pool_okD(6) [OF p1 old]] .
    note f = forget_oldest [OF p2]
    have sub2: "orphans_of ?op2 \<subseteq> orphans_of ?op1" using f orphans_remove [OF p1, of old] by auto
    note a = add_orphan_ok [OF conjunct1 [OF f] _ new [OF conjunct1 [OF f] subset_trans [OF sub2 sub]]]
    have "AddOrphanBlock E m order clock now broadcast block pid sequence op = (Ok (), add_orphan E ?ob ?op2)"
      using True old by (simp add: AddOrphanBlock_eq Let_def)
    moreover have "length (op_orphans (add_orphan E ?ob ?op2)) \<le> m" if f: "fresh_oldest op" "length (op_orphans op) \<le> m"
    proof -
      have "fresh_oldest ?op1" using v f True by auto
      then have "old \<in> orphans_of ?op1" using old by (simp add: fresh_oldest_def)
      then have "length (op_orphans ?op2) < length (op_orphans ?op1)" using remove_shorter [OF p1] by simp
      then show ?thesis using a b(1) len f(2) by simp
    qed
    moreover have "\<not> length (op_orphans op) < m" using True len by simp
    ultimately show ?thesis using a b(1) live sub sub2 by (intro exI [of _ "add_orphan E ?ob ?op2"] exI [of _ ?ob]) auto
  qed
qed

section \<open>Accepting orphans\<close>

text \<open>
  A child is taken out of the pool before it is accepted, so that both loops end: the rounds of the
  inner one are bounded by twice the number of children, those of the outer one by the number
  of orphans.  \<open>I op\<close> is what holds of the chain while \<open>op\<close> is the pool;
  \<open>P\<close> says whether accepting may panic.
\<close>

definition accepts :: "bool \<Rightarrow> hash_env \<Rightarrow> Block set \<Rightarrow> (orphanBlock \<Rightarrow> ('c, unit) op) \<Rightarrow> (OrphanPool \<Rightarrow> 'c \<Rightarrow> bool) \<Rightarrow> bool" where
  "accepts P E B accept I \<longleftrightarrow> (\<forall>op ob c. pool_ok E B op \<longrightarrow> ob \<in> orphans_of op \<longrightarrow> I op c \<longrightarrow>
     (case accept ob c of (Ok _, c') \<Rightarrow> I (removeOrphanBlock E ob op) c' | (Fail e, c') \<Rightarrow> True | (Panic, c') \<Rightarrow> P))"

lemma child_loop_ok:
  assumes H: "hash_parent E B" and A: "accepts P E B accept I"
  shows "pool_ok E B op \<Longrightarrow> I op c \<Longrightarrow> length (op_prev op h) + (cnt - i) < f \<Longrightarrow>
    child_loop E accept f h cnt i hs (c, op) = (r, (c', op')) \<Longrightarrow>
    pool_ok E B op' \<and> orphans_of op' \<subseteq> orphans_of op \<and> (r = Panic \<longrightarrow> P)
    \<and> (\<forall>hs'. r = Ok hs' \<longrightarrow> I op' c' \<and> length hs' + length (op_orphans op') \<le> length hs + length (op_orphans op))"
proof (induction f arbitrary: i hs c op)
  case (Suc f)
  show ?case
  proof (cases "i < cnt")
    case False
    then show ?thesis using Suc.prems by auto
  next
    case i: True
    show ?thesis
    proof (cases "getChildOrphan h i op")
      case None
      then have "child_loop E accept f h cnt (i + 1) hs (c, op) = (r, (c', op'))" using Suc.prems(4) i by simp
      then show ?thesis using Suc.IH [of op c "i + 1" hs] Suc.prems i by simp
    next
      case (Some ob)
      then have m: "ob \<in> set (op_prev op h)" by (auto simp: getChildOrphan_def split: if_splits)
      then have ob: "ob \<in> orphans_of op" "ob_parent ob = h" using pool_okD(4) [OF Suc.prems(1), of h] by auto
      let ?op = "removeOrphanBlock E ob op"
      have p: "pool_ok E B ?op" using remove_orphan_ok [OF H Suc.prems(1) pool_okD(5) [OF Suc.prems(1) ob(1)]] .
      have sub: "orphans_of ?op \<subseteq> orphans_of op" using orphans_remove [OF Suc.prems(1), of ob] by auto
      have len: "length (op_orphans ?op) < length (op_orphans op)" using remove_shorter [OF Suc.prems(1) ob(1)] .
      have sh: "length (op_prev ?op h) < length (op_prev op h)"
        using length_filter_less [OF m, of "\<lambda>x. ob_hash E x \<noteq> ob_hash E ob"] ob(2) by simp
      obtain ra ca where a: "accept ob c = (ra, ca)" by fastforce
      have acc: "case ra of Ok _ \<Rightarrow> I ?op ca | Fail e \<Rightarrow> True | Panic \<Rightarrow> P"
        using A [unfolded accepts_def, rule_format, OF Suc.prems(1) ob(1) Suc.prems(2)] a by (simp split: outcome.splits)
      show ?thesis
      proof (cases ra)
        case (Ok u)
        have "child_loop E accept f h cnt i (hs @ [block_Hash E (ob_block ob)]) (ca, ?op) = (r, (c', op'))"
          using Suc.prems(4) i Some a Ok by simp
        from Suc.IH [OF p _ _ this] acc Ok sh Suc.prems(3)
        show ?thesis using sub len by auto
      next
        case (Fail e)
        then show ?thesis using Suc.prems(4) i Some a p sub by auto
      next
        case Panic
        then show ?thesis using acc Suc.prems(4) i Some a p sub by auto
      qed
    qed
  qed
qed simp

lemma orphan_loop_ok:
  assumes H: "hash_parent E B" and A: "accepts P E B accept I"
  shows "pool_ok E B op \<Longrightarrow> I op c \<Longrightarrow> length hs + length (op_orphans op) \<le> f \<Longrightarrow>
    orphan_loop E accept f hs (c, op) = (r, (c', op')) \<Longrightarrow>
    pool_ok E B op' \<and> orphans_of op' \<subseteq> orphans_of op \<and> (r = Panic \<longrightarrow> P) \<and> (r = Ok () \<longrightarrow> I op' c')"
proof (induction f arbitrary: hs c op)
  case 0
  then show ?case by (cases hs) auto
next
  case (Suc f)
  show ?case
  proof (cases hs)
    case Nil
    then show ?thesis using Suc.prems by auto
  next
    case (Cons h hs')
    let ?cnt = "getChildOrphanCount h op"
    obtain r1 c1 op1 where l: "child_loop E accept (2 * ?cnt + 1) h ?cnt 0 hs' (c, op) = (r1, (c1, op1))" by (metis surj_pair)
    have "length (op_prev op h) + (?cnt - 0) < 2 * ?cnt + 1" by (simp add: getChildOrphanCount_def)
    note k = child_loop_ok [OF H A Suc.prems(1,2) this l]
    show ?thesis
    proof (cases r1)
      case (Ok hs1)
      then have "orphan_loop E accept f hs1 (c1, op1) = (r, (c', op'))" using Suc.prems(4) Cons l by (simp add: Let_def)
      moreover have "length hs1 + length (op_orphans op1) \<le> f" using k Ok Suc.prems(3) Cons by fastforce
      ultimately show ?thesis using Suc.IH [of op1 c1 hs1] k Ok by blast
    next
      case (Fail e)
      then show ?thesis using Suc.prems(4) Cons l k by (auto simp: Let_def)
    next
      case Panic
      then show ?thesis using Suc.prems(4) Cons l k by (auto simp: Let_def)
    qed
  qed
qed

lemma ProcessOrphans_ok:
  assumes H: "hash_parent E B" and A: "accepts P E B accept I" and p: "pool_ok E B op" "I op c"
    and r: "ProcessOrphans E accept hash (c, op) = (r, (c', op'))"
  shows "pool_ok E B op' \<and> orphans_of op' \<subseteq> orphans_of op \<and> (r = Panic \<longrightarrow> P) \<and> (r = Ok () \<longrightarrow> I op' c')"
  using orphan_loop_ok [OF H A p, of "[hash]" "length (op_orphans op) + 1"] r by (simp add: ProcessOrphans_def)

end
