(* ===== verification/Block_Exec.thy ===== *)
theory Block_Exec
  imports Block_View Merkle Version_Store "HOL-Library.AList"
begin

text \<open>
  Executing a block, \<^verbatim>\<open>util.PreExecBlock\<close> and \<^verbatim>\<open>util.ExecBlock\<close> with the helpers of \<^verbatim>\<open>util/exec.go\<close>.  The
  requests to the state store go to its message handler; the answers of the pool, the executor,
  the chain and the consensus module are fields of \<open>exec_env\<close>.
\<close>

section \<open>Messages\<close>

record ReceiptData =
  rd_Ty :: int
  rd_Logs :: "(int \<times> bytes) list"

record ExecReceipt =
  er_Ty :: int
  er_KV :: "kv list"
  er_Logs :: "(int \<times> bytes) list"

definition ExecErr :: int where
  "ExecErr = 0"

record BlockDetail =
  bd_Block :: Block
  bd_Receipts :: "ReceiptData list"
  bd_KV :: "kv list"
  bd_PrevStatusHash :: "bytes option"

record exec_env =
  ee_hash :: hash_env
  ee_tx :: tx_env
  ee_cfg :: tx_cfg
  ee_ncpu :: int
  ee_mavl :: mavl_env
  ee_TxsExist :: "bytes list \<Rightarrow> (int \<times> bool list) outcome"
  ee_TxHashList :: "int \<Rightarrow> bytes list \<Rightarrow> int list \<Rightarrow> bytes list outcome"
  ee_ExecTxList :: "bytes option \<Rightarrow> Block \<Rightarrow> ExecReceipt list outcome"
  ee_CheckBlock :: "BlockDetail \<Rightarrow> unit outcome"

definition reply :: "'a outcome \<Rightarrow> ('s, 'a) op" where
  "reply r s = (r, s)"

section \<open>Signatures and duplicates\<close>

definition checkSign :: "tx_env \<Rightarrow> Transaction \<Rightarrow> bool" where
  "checkSign env tx =
    (case TxSignature tx of None \<Rightarrow> False
     | Some s \<Rightarrow> te_CheckSign env (te_Encode env (tx\<lparr>TxSignature := None\<rparr>)) (Execer tx) s)"

definition VerifySignature :: "exec_env \<Rightarrow> Block \<Rightarrow> Transaction list \<Rightarrow> bool" where
  "VerifySignature E block txs \<longleftrightarrow>
    (case bk_Signature block of None \<Rightarrow> True | Some s \<Rightarrow> te_CheckSign (ee_tx E) (block_Hash (ee_hash E) block) [] s)
    \<and> (\<forall>tx \<in> set txs. checkSign (ee_tx E) tx)"

fun DelDupTx :: "tx_env \<Rightarrow> Transaction list \<Rightarrow> Transaction list" where
  "DelDupTx env [] = []"
| "DelDupTx env (tx # txs) =
    (if tx_Hash env tx \<in> set (map (tx_Hash env) txs) then DelDupTx env txs else tx # DelDupTx env txs)"

definition CheckTxDup :: "exec_env \<Rightarrow> Transaction list \<Rightarrow> int \<Rightarrow> Transaction list outcome" where
  "CheckTxDup E txs height =
    (let txs = (if tc_IsFork (ee_cfg E) height ''ForkCheckTxDup'' then DelDupTx (ee_tx E) txs else txs) in
     case ee_TxHashList E height (map (tx_Hash (ee_tx E)) txs) (map Expire txs) of
       Ok dups \<Rightarrow> Ok (filter (\<lambda>tx. tx_Hash (ee_tx E) tx \<notin> set dups) txs)
     | Fail e \<Rightarrow> Fail e
     | Panic \<Rightarrow> Panic)"

text \<open>A key that comes again keeps its place and takes the later pair.\<close>

definition DelDupKey :: "kv list \<Rightarrow> kv list" where
  "DelDupKey kvs = fold (\<lambda>(k, v). AList.update k v) kvs []"

definition tx_title :: "Transaction \<Rightarrow> string" where
  "tx_title tx = (case GetParaExecTitleName (Execer tx) of None \<Rightarrow> ''main'' | Some t \<Rightarrow> t)"

definition TransactionSort :: "Transaction list \<Rightarrow> Transaction list" where
  "TransactionSort txs =
    concat (map (\<lambda>t. filter (\<lambda>tx. tx_title tx = t) txs) (sort (remdups (map tx_title txs))))"

section \<open>Requests to the store\<close>

text \<open>
  The state root of the parent is nil or a byte string, which the store tells apart. The state hash of a
  block is a byte string field, in which an empty string stands for nil.
\<close>

definition ExecKVMemSet :: "exec_env \<Rightarrow> bytes option \<Rightarrow> int \<Rightarrow> kv list \<Rightarrow> (mavl_store, bytes) op" where
  "ExecKVMemSet E prevStateRoot height kvset =
    andThen (processMessage (ee_mavl E) (\<lambda>_. None)
      (EventStoreMemSet \<lparr>ss_StateHash = prevStateRoot, ss_KV = kvset, ss_Height = height\<rparr> False))
    (\<lambda>r. case r of ReplyHash h \<Rightarrow> returnO (raw h) | ReplyErr e \<Rightarrow> failO e | _ \<Rightarrow> panicO)"

definition ExecKVSetCommit :: "exec_env \<Rightarrow> bytes \<Rightarrow> (mavl_store, unit) op" where
  "ExecKVSetCommit E hash =
    andThen (processMessage (ee_mavl E) (\<lambda>_. None) (EventStoreCommit (nilable hash) False))
    (\<lambda>r. case r of ReplyHash h \<Rightarrow> returnO () | ReplyErr e \<Rightarrow> failO e | _ \<Rightarrow> panicO)"

definition ExecKVSetRollback :: "exec_env \<Rightarrow> bytes \<Rightarrow> (mavl_store, unit) op" where
  "ExecKVSetRollback E hash =
    andThen (processMessage (ee_mavl E) (\<lambda>_. None) (EventStoreRollback (nilable hash)))
    (\<lambda>r. case r of ReplyHash h \<Rightarrow> returnO () | ReplyErr e \<Rightarrow> failO e | _ \<Rightarrow> panicO)"

section \<open>The block\<close>

text \<open>The transactions that the pool does not know, which have to be verified.\<close>

definition unverified :: "Transaction list \<Rightarrow> int \<times> bool list \<Rightarrow> Transaction list outcome" where
  "unverified txs r =
    (case r of (existCount, flags) \<Rightarrow>
      if existCount > 0 then
        (if int (length txs) < existCount \<or> (\<exists>i < length flags. length txs \<le> i \<and> \<not> flags ! i) then Panic
         else Ok (map fst (filter (\<lambda>(tx, exist). \<not> exist) (zip txs flags))))
      else Ok txs)"

definition check_signatures :: "exec_env \<Rightarrow> Block \<Rightarrow> unit outcome" where
  "check_signatures E block =
    (case ee_TxsExist E (map (tx_Hash (ee_tx E)) (bk_Txs block)) of
       Ok r \<Rightarrow>
         (case unverified (bk_Txs block) r of
            Ok txs \<Rightarrow> if VerifySignature E block txs then Ok () else Fail ErrSign
          | Fail e \<Rightarrow> Fail e
          | Panic \<Rightarrow> Panic)
     | Fail e \<Rightarrow> Fail e
     | Panic \<Rightarrow> Panic)"

text \<open>The duplicate check and the execution; both run on the transactions as they came.\<close>

definition exec_txs :: "exec_env \<Rightarrow> bytes option \<Rightarrow> Block \<Rightarrow> bool \<Rightarrow> (Block \<times> ExecReceipt list) outcome" where
  "exec_txs E prevStateRoot block errReturn =
    (case CheckTxDup E (bk_Txs block) (bk_Height block) of
       Ok txs \<Rightarrow>
         if errReturn \<and> length txs \<noteq> length (bk_Txs block) then Fail ErrTxDup
         else
           let block = (if length txs \<noteq> length (bk_Txs block) then block\<lparr>bk_Txs := txs\<rparr> else block) in
           (case ee_ExecTxList E prevStateRoot block of
              Ok rs \<Rightarrow> Ok (block, rs)
            | Fail e \<Rightarrow> Fail e
            | Panic \<Rightarrow> Panic)
     | Fail e \<Rightarrow> Fail e
     | Panic \<Rightarrow> Panic)"

text \<open>The loop over the receipts: what stays in the block, what is dropped, the logs and the writes.\<close>

fun pick_txs :: "bool \<Rightarrow> Transaction list \<Rightarrow> ExecReceipt list
    \<Rightarrow> (Transaction list \<times> Transaction list \<times> ReceiptData list \<times> kv list) outcome" where
  "pick_txs errReturn txs [] = Ok ([], [], [], [])"
| "pick_txs errReturn [] (r # rs) = Panic"
| "pick_txs errReturn (tx # txs) (r # rs) =
    (if er_Ty r = ExecErr \<and> errReturn then Fail ErrBlockExec
     else
       (case pick_txs errReturn txs rs of
          Ok (keep, dels, rdata, kvset) \<Rightarrow>
            Ok (if er_Ty r = ExecErr then (keep, tx # dels, rdata, kvset)
                else (tx # keep, dels, \<lparr>rd_Ty = er_Ty r, rd_Logs = er_Logs r\<rparr> # rdata, er_KV r @ kvset))
        | Fail e \<Rightarrow> Fail e
        | Panic \<Rightarrow> Panic))"

definition block_TxHash :: "exec_env \<Rightarrow> Block \<Rightarrow> bytes outcome" where
  "block_TxHash E block =
    (let height = (if tc_IsPara (ee_cfg E) then bk_MainHeight block else bk_Height block) in
     if \<not> tc_IsFork (ee_cfg E) height ''ForkRootHash'' then CalcMerkleRootCache (ee_tx E) (ee_ncpu E) (bk_Txs block)
     else CalcMerkleRoot (ee_tx E) (ee_cfg E) (ee_ncpu E) height (TransactionSort (bk_Txs block)))"

definition PreExecBlock :: "exec_env \<Rightarrow> bytes option \<Rightarrow> Block \<Rightarrow> bool \<Rightarrow> bool \<Rightarrow> (mavl_store, BlockDetail \<times> Transaction list) op" where
  "PreExecBlock E prevStateRoot block errReturn checkblock =
    andThen (reply (if errReturn \<and> bk_Height block > 0 then check_signatures E block else Ok ())) (\<lambda>_.
    andThen (reply (exec_txs E prevStateRoot block errReturn)) (\<lambda>(block, receipts).
    andThen (reply (pick_txs errReturn (bk_Txs block) receipts)) (\<lambda>(txs, deltxs, rdata, kvset).
    let block = block\<lparr>bk_Txs := txs\<rparr> in
    andThen (reply (block_TxHash E block)) (\<lambda>txHash.
    if errReturn \<and> txHash \<noteq> bk_TxHash block then failO ErrCheckTxHash
    else
      let block = block\<lparr>bk_TxHash := txHash\<rparr>; kvset = DelDupKey kvset in
      andThen (ExecKVMemSet E prevStateRoot (bk_Height block) kvset) (\<lambda>stateHash.
      if errReturn \<and> bk_StateHash block \<noteq> stateHash then
        (\<lambda>s. case ExecKVSetRollback E stateHash s of
           (Panic, s') \<Rightarrow> (Panic, s') | (_, s') \<Rightarrow> (Fail ErrCheckStateHash, s'))
      else
        let block = block\<lparr>bk_StateHash := stateHash\<rparr>;
            detail = \<lparr>bd_Block = block, bd_Receipts = rdata, bd_KV = [], bd_PrevStatusHash = None\<rparr> in
        andThen (reply (if bk_Height block > 0 \<and> checkblock then ee_CheckBlock E detail else Ok ())) (\<lambda>_.
          returnO (detail\<lparr>bd_KV := kvset, bd_PrevStatusHash := prevStateRoot\<rparr>, deltxs)))))))"

definition ExecBlock :: "exec_env \<Rightarrow> bytes option \<Rightarrow> Block \<Rightarrow> bool \<Rightarrow> bool \<Rightarrow> (mavl_store, BlockDetail \<times> Transaction list) op" where
  "ExecBlock E prevStateRoot block errReturn checkblock =
    andThen (PreExecBlock E prevStateRoot block errReturn checkblock) (\<lambda>(detail, deltx).
    andThen (ExecKVSetCommit E (bk_StateHash (bd_Block detail))) (\<lambda>_. returnO (detail, deltx)))"

section \<open>Blocks of other nodes\<close>

text \<open>The executor answers one receipt for each transaction.\<close>

definition receipts_ok :: "exec_env \<Rightarrow> bool" where
  "receipts_ok E \<longleftrightarrow> (\<forall>p b rs. ee_ExecTxList E p b = Ok rs \<longrightarrow> length rs = length (bk_Txs b))"

text \<open>
  The tree with a given root hash, and that the writes of a block, on the state before it, lead to a
  tree of the universe.
\<close>

definition root_of :: "mavl_env \<Rightarrow> bytes option \<Rightarrow> mtree option \<Rightarrow> bool" where
  "root_of C p R \<longleftrightarrow> (case R of None \<Rightarrow> p = None \<or> p = Some emptyRoot | Some T \<Rightarrow> last_bytes 32 (raw p) = mhash C T)"

definition block_writes :: "ExecReceipt list \<Rightarrow> kv list" where
  "block_writes rs = concat (map er_KV rs)"

definition writes_in :: "exec_env \<Rightarrow> mtree set \<Rightarrow> bytes option \<Rightarrow> Block \<Rightarrow> bool" where
  "writes_in E U p b \<longleftrightarrow> (\<forall>rs R. ee_ExecTxList E p b = Ok rs \<longrightarrow> set_option R \<subseteq> U \<longrightarrow> root_of (ee_mavl E) p R \<longrightarrow>
     set_option (m_put_all (DelDupKey (block_writes rs)) R) \<subseteq> U)"

lemma version_root_of: "version C d p R \<Longrightarrow> root_of C p R"
  by (auto simp: version_def root_of_def raw_def stored_hash split: option.splits)

lemma fold_update_lookup:
  "map_of (fold (\<lambda>(k, v). AList.update k v) kvs acc) k = (case map_of (rev kvs) k of None \<Rightarrow> map_of acc k | Some v \<Rightarrow> Some v)"
  by (induction kvs arbitrary: acc) (auto simp: AList.update_conv' map_add_def split: option.split)

lemma fold_update_distinct:
  "distinct (map fst acc) \<Longrightarrow> distinct (map fst (fold (\<lambda>(k, v). AList.update k v) kvs acc))"
  by (induction kvs arbitrary: acc) (auto simp: distinct_update)

lemma DelDupKey_lookup: "map_of (DelDupKey kvs) k = map_of (rev kvs) k"
  by (simp add: DelDupKey_def fold_update_lookup split: option.split)

lemma DelDupKey_distinct: "distinct (map fst (DelDupKey kvs))"
  by (simp add: DelDupKey_def fold_update_distinct)

lemma reply_Ok: "andThen (reply r) f s = (Ok y, s') \<longleftrightarrow> (\<exists>x. r = Ok x \<and> f x s = (Ok y, s'))"
  by (cases r) (auto simp: reply_def andThen_def)

lemma reply_value [simp]: "reply r s = (Ok x, s') \<longleftrightarrow> r = Ok x \<and> s' = s"
  by (cases r) (auto simp: reply_def)

lemma returnO_value [simp]: "returnO y s = (Ok x, s') \<longleftrightarrow> x = y \<and> s' = s"
  by (auto simp: returnO_def)

lemma failO_value [simp]: "failO e s \<noteq> (Ok x, s')"
  by (simp add: failO_def)

lemma rollback_no_value [simp]:
  "(case q of (Panic, s1) \<Rightarrow> (Panic, s1) | (_, s1) \<Rightarrow> (Fail e, s1)) \<noteq> (Ok x, s')"
  by (cases q; cases "fst q") auto

lemma exec_txs_peer:
  "exec_txs E p b True = Ok (b', rs) \<Longrightarrow> b' = b \<and> ee_ExecTxList E p b = Ok rs"
  by (auto simp: exec_txs_def Let_def split: outcome.splits if_splits)

lemma pick_txs_peer:
  "length rs = length txs \<Longrightarrow> pick_txs True txs rs = Ok (keep, dels, rdata, kvset) \<Longrightarrow>
    keep = txs \<and> kvset = block_writes rs \<and> (\<forall>r \<in> set rs. er_Ty r \<noteq> ExecErr)"
proof (induction rs arbitrary: txs keep dels rdata kvset)
  case (Cons r rs)
  then obtain tx ts where "txs = tx # ts" by (cases txs) auto
  then show ?case using Cons by (auto simp: block_writes_def split: if_splits outcome.splits)
qed (simp add: block_writes_def)

lemma ExecKVMemSet_Ok:
  "ExecKVMemSet E p ht kvs s = (Ok h, s') \<longleftrightarrow>
    (\<exists>g. st_MemSet (ee_mavl E) \<lparr>ss_StateHash = p, ss_KV = kvs, ss_Height = ht\<rparr> s = (Ok g, s') \<and> h = raw g)"
  by (auto simp: ExecKVMemSet_def processMessage_def reply_hash_def andThen_def split: prod.splits outcome.splits)

lemma ExecKVSetCommit_Ok:
  assumes "ExecKVSetCommit E h s = (Ok (), s')"
  shows "\<exists>g. st_Commit (ee_mavl E) (nilable h) s = (Ok g, s')"
  using assms by (auto simp: ExecKVSetCommit_def processMessage_def andThen_def split: prod.splits outcome.splits if_splits)

lemma st_Commit_raw:
  "raw a = raw b \<Longrightarrow> st_Commit C a s = (Ok g, s') \<Longrightarrow> \<exists>g. st_Commit C b s = (Ok g, s')"
  by (auto simp: st_Commit_def split: option.splits outcome.splits prod.splits if_splits)

lemma raw_nilable [simp]: "raw (nilable h) = h"
  by (simp add: nilable_def raw_def)

lemma version_nilable:
  assumes C: "env_ok C" and v: "version C d h R" shows "version C d (nilable (raw h)) R"
proof (cases R)
  case None
  then show ?thesis using v by (auto simp: version_def nilable_def raw_def emptyRoot_def)
next
  case (Some T)
  then obtain b where b: "h = Some b" "stored C False (kd_map d) b T" using v by (auto simp: version_def)
  then have "b \<noteq> []" using stored_hash [OF b(2)] mhash_length [OF env_okD(3) [OF C], of T] by (auto simp: last_bytes_def)
  then show ?thesis using b v by (simp add: nilable_def raw_def)
qed

lemma PreExecBlock_peer:
  assumes r: "PreExecBlock E p b True cb s = (Ok (d, del), s')" and E: "receipts_ok E"
  shows "bd_Block d = b \<and> (\<exists>rs g. ee_ExecTxList E p b = Ok rs \<and> (\<forall>r \<in> set rs. er_Ty r \<noteq> ExecErr) \<and> raw g = bk_StateHash b
    \<and> st_MemSet (ee_mavl E) \<lparr>ss_StateHash = p, ss_KV = DelDupKey (block_writes rs), ss_Height = bk_Height b\<rparr> s = (Ok g, s'))"
proof -
  obtain q where "exec_txs E p b True = Ok q" using r unfolding PreExecBlock_def reply_Ok by blast
  then obtain b1 rs where x: "exec_txs E p b True = Ok (b1, rs)" by (cases q) simp
  have b1: "b1 = b" "ee_ExecTxList E p b = Ok rs" using exec_txs_peer [OF x] by auto
  obtain txs dels rdata kvset where k: "pick_txs True (bk_Txs b) rs = Ok (txs, dels, rdata, kvset)"
    using r x b1(1) unfolding PreExecBlock_def reply_Ok by (auto simp: reply_Ok)
  have "length rs = length (bk_Txs b)" using E b1(2) by (simp add: receipts_ok_def)
  from pick_txs_peer [OF this k] have t: "txs = bk_Txs b" "kvset = block_writes rs" "\<forall>r \<in> set rs. er_Ty r \<noteq> ExecErr" by auto
  show ?thesis using r x b1 k t unfolding PreExecBlock_def
    by (auto simp: andThen_Ok_iff ExecKVMemSet_Ok Let_def split: if_splits)
qed

lemma ExecBlock_peer:
  assumes C: "env_ok (ee_mavl E)" and s: "store_ok (ee_mavl E) U s" and E: "receipts_ok E" "writes_in E U p b"
    and h: "version (ee_mavl E) (st_db s) p R" and r: "ExecBlock E p b True cb s = (Ok (d, del), s')"
  shows "bd_Block d = b \<and> store_ok (ee_mavl E) U s' \<and> grows (ee_mavl E) U (st_db s) (st_db s')
    \<and> (\<exists>rs. ee_ExecTxList E p b = Ok rs \<and> (\<forall>r \<in> set rs. er_Ty r \<noteq> ExecErr)
        \<and> version (ee_mavl E) (st_db s') (nilable (bk_StateHash b)) (m_put_all (DelDupKey (block_writes rs)) R))"
proof -
  let ?C = "ee_mavl E"
  obtain s1 where r1: "PreExecBlock E p b True cb s = (Ok (d, del), s1)" "ExecKVSetCommit E (bk_StateHash (bd_Block d)) s1 = (Ok (), s')"
    using r by (auto simp: ExecBlock_def andThen_Ok_iff)
  obtain rs g where x: "bd_Block d = b" "ee_ExecTxList E p b = Ok rs" "raw g = bk_StateHash b"
    "st_MemSet ?C \<lparr>ss_StateHash = p, ss_KV = DelDupKey (block_writes rs), ss_Height = bk_Height b\<rparr> s = (Ok g, s1)"
    "\<forall>r \<in> set rs. er_Ty r \<noteq> ExecErr"
    using PreExecBlock_peer [OF r1(1) E(1)] by blast
  obtain g' where "st_Commit ?C (nilable (bk_StateHash b)) s1 = (Ok g', s')" using ExecKVSetCommit_Ok [OF r1(2)] x(1) by auto
  then obtain g'' where c: "st_Commit ?C g s1 = (Ok g'', s')" using st_Commit_raw [of "nilable (bk_StateHash b)" g] x(3) by fastforce
  let ?b = "(bk_Height b, DelDupKey (block_writes rs))"
  have "set_option R \<subseteq> U" using version_readable [OF C s h] by blast
  then have U: "set_option (upd_batch ?b R) \<subseteq> U" using E(2) x(2) version_root_of [OF h] by (simp add: writes_in_def)
  have put: "st_put ?C p ?b s = (Ok g'', s')" using x(4) c by (simp add: st_put_def)
  then have v: "store_ok ?C U s' \<and> grows ?C U (st_db s) (st_db s') \<and> version ?C (st_db s') g'' (upd_batch ?b R)"
    using st_put_version [OF C s h U] by auto
  have "g'' = g" using c by (auto simp: st_Commit_def split: option.splits outcome.splits prod.splits if_splits)
  then have "version ?C (st_db s') (nilable (bk_StateHash b)) (upd_batch ?b R)"
    using v version_nilable [OF C, of "st_db s'" g] x(3) by simp
  then show ?thesis using v x(1,2,5) by auto
qed

end
