(* ===== verification/Block_Props.thy ===== *)
theory Block_Props
  imports Orphan_Pool Block_Exec Mavl_Props
begin

text \<open>The properties of the block tree, of the pool of orphans and of the execution of blocks.\<close>

section \<open>Moving along the tree\<close>

definition leave_nodes :: "blockNode list \<Rightarrow> nat list \<Rightarrow> chainView \<Rightarrow> chainView" where
  "leave_nodes ns xs c = fold (\<lambda>n c. snd (delTip ns n c)) xs c"

definition join_nodes :: "blockNode list \<Rightarrow> nat list \<Rightarrow> chainView \<Rightarrow> chainView" where
  "join_nodes ns xs c = fold (setTip ns) xs c"

lemma leave_nodes_view:
  "heap_ok ns \<Longrightarrow> view_ok ns c \<Longrightarrow> view_list c = xs @ ys \<Longrightarrow> view_ok ns (leave_nodes ns xs c) \<and> view_list (leave_nodes ns xs c) = ys"
proof (induction xs arbitrary: c)
  case (Cons x xs)
  then obtain c' where "delTip ns x c = (Ok (), c')" "view_ok ns c'" "view_list c' = xs @ ys"
    using delTip_view [of ns c x "xs @ ys"] by auto
  then show ?case using Cons.IH [of c'] Cons.prems(1) by (simp add: leave_nodes_def)
qed (simp add: leave_nodes_def)

lemma join_nodes_view:
  "heap_ok ns \<Longrightarrow> view_ok ns c \<Longrightarrow> view_list c \<noteq> [] \<Longrightarrow> set xs \<subseteq> {..<length ns} \<Longrightarrow>
    chained ns (rev xs @ [hd (view_list c)]) \<Longrightarrow>
    view_ok ns (join_nodes ns xs c) \<and> view_list (join_nodes ns xs c) = take blockNodeCacheLimit (rev xs @ view_list c)"
proof (induction xs arbitrary: c)
  case Nil
  then show ?case by (simp add: join_nodes_def view_ok_def view_list_def)
next
  case (Cons x xs)
  obtain t r where t: "view_list c = t # r" using Cons.prems(3) by (cases "view_list c") auto
  have l: "chained ns (rev xs @ [x])" "bn_parent (ns ! x) = Some t"
    using Cons.prems(5) t linked_append [of ns "rev xs" x "[t]"] by auto
  let ?c = "setTip ns x c"
  have s: "view_ok ns ?c" "view_list ?c = take blockNodeCacheLimit (x # view_list c)"
    using setTip_view [OF Cons.prems(1,2), of x] Cons.prems(4) l t by (auto simp: view_tip)
  have "view_list ?c \<noteq> []" "hd (view_list ?c) = x" unfolding s(2) by (simp_all add: blockNodeCacheLimit_def)
  then have "view_ok ns (join_nodes ns xs ?c) \<and>
      view_list (join_nodes ns xs ?c) = take blockNodeCacheLimit (rev xs @ take blockNodeCacheLimit (x # view_list c))"
    using Cons.IH [OF Cons.prems(1) s(1)] Cons.prems(4) l(1) s(2) by simp
  then show ?case by (simp add: join_nodes_def take_append min_def)
qed

text \<open>C38: Switching to another branch is planned right.  Whenever the search for the fork finds a
  block, that block is on the best chain, the blocks to leave are exactly those above it on the best
  chain, the blocks to join are exactly the ancestors of the new tip above it, in the order in which
  they are connected, and none of these was on the best chain.  Taking the tip back along the first
  list and forward along the second turns the view into the lineage of the new tip on
  top of the common part, of which it keeps the topmost 10240 nodes (the limit of the view; below
  it nothing falls out), and keeps the view well formed.\<close>

theorem reorganize_plan:
  assumes h: "heap_ok ns" and c: "view_ok ns c" "view_list c \<noteq> []" and a: "a < length ns"
    and f: "FindFork ns c (Some a) = Some (Some f)"
  shows "\<exists>detach attach keep. getReorganizeNodes ns c a = Some (detach, attach) \<and> view_list c = detach @ f # keep
    \<and> lineage ns a = rev attach @ lineage ns f \<and> set attach \<inter> set (view_list c) = {}
    \<and> view_ok ns (join_nodes ns attach (leave_nodes ns detach c))
    \<and> view_list (join_nodes ns attach (leave_nodes ns detach c)) = take blockNodeCacheLimit (rev attach @ f # keep)"
proof -
  obtain detach attach keep where p: "getReorganizeNodes ns c a = Some (detach, attach)" "view_list c = detach @ f # keep"
    "lineage ns a = rev attach @ lineage ns f" "set attach \<inter> set (view_list c) = {}" "f < length ns"
    using getReorganizeNodes_split [OF h c a f] by blast
  let ?c = "leave_nodes ns detach c"
  have l: "view_ok ns ?c \<and> view_list ?c = f # keep" using leave_nodes_view [OF h c(1) p(2)] .
  then obtain zs where "lineage ns f = (f # keep) @ zs" using view_lineage [OF h, of ?c f keep] by auto
  then have e: "lineage ns a = rev attach @ f # keep @ zs" using p(3) by simp
  have "chained ns (rev attach @ [f])" using lineage_linked [OF h a] linked_append [of ns "rev attach" f "keep @ zs"] e by simp
  moreover have "set attach \<subseteq> {..<length ns}" using lineage_range [OF h a] e by auto
  ultimately have "view_ok ns (join_nodes ns attach ?c) \<and>
      view_list (join_nodes ns attach ?c) = take blockNodeCacheLimit (rev attach @ f # keep)"
    using join_nodes_view [of ns ?c attach] h l by simp
  then show ?thesis using p by blast
qed

definition sample_node :: "nat option \<Rightarrow> int \<Rightarrow> blockNode" where
  "sample_node p ht = \<lparr>bn_parent = p, bn_hash = [], bn_Difficulty = 1, bn_height = ht, bn_statehash = [],
     bn_broadcast = False, bn_pid = ''peer'', bn_sequence = 0, bn_BlockTime = 0\<rparr>"

definition sample_heap :: "blockNode list" where
  "sample_heap = [sample_node None 0, sample_node (Some 0) 1, sample_node (Some 1) 2, sample_node (Some 1) 2, sample_node (Some 3) 3]"

definition sample_view :: chainView where
  "sample_view = setTip sample_heap 2 (setTip sample_heap 1 (newChainView sample_heap 0))"

lemma sample_heap_ok: "heap_ok sample_heap"
proof -
  have "a < 5 \<Longrightarrow> bn_parent (sample_heap ! a) = Some p \<Longrightarrow> p < a \<and> bn_height (sample_heap ! a) = bn_height (sample_heap ! p) + 1" for a p
    by (auto simp: sample_heap_def sample_node_def less_Suc_eq numeral_eq_Suc)
  then show ?thesis by (auto simp: heap_ok_def sample_heap_def)
qed

lemma sample_view_ok: "view_ok sample_heap sample_view \<and> view_list sample_view = [2, 1, 0]"
proof -
  let ?e = "\<lparr>cv_nodes = (\<lambda>_. None), cv_queue = [], cv_elems = []\<rparr>"
  have n: "length sample_heap = 5" "bn_parent (sample_heap ! 1) = Some 0" "bn_parent (sample_heap ! 2) = Some 1"
    by (simp_all add: sample_heap_def sample_node_def)
  have "view_ok sample_heap ?e \<and> view_list ?e = []" by (simp add: view_ok_def view_list_def)
  then have s0: "view_ok sample_heap (newChainView sample_heap 0) \<and> view_list (newChainView sample_heap 0) = [0]"
    using setTip_view [OF sample_heap_ok, of ?e 0] n by (simp add: newChainView_def cv_tip_def blockNodeCacheLimit_def)
  then have s1: "view_ok sample_heap (setTip sample_heap 1 (newChainView sample_heap 0))
      \<and> view_list (setTip sample_heap 1 (newChainView sample_heap 0)) = [1, 0]"
    using setTip_view [OF sample_heap_ok, of "newChainView sample_heap 0" 1] n
    by (auto simp: view_tip blockNodeCacheLimit_def view_list_def)
  then show ?thesis
    using setTip_view [OF sample_heap_ok, of "setTip sample_heap 1 (newChainView sample_heap 0)" 2] n
    by (auto simp: sample_view_def view_tip blockNodeCacheLimit_def view_list_def)
qed

lemma sample_lineage: "lineage sample_heap 4 = [4, 3, 1, 0]" "lineage sample_heap 1 = [1, 0]"
  by (simp_all add: lineage.simps sample_heap_def sample_node_def)

theorem reorganize_plan_witness:
  "getReorganizeNodes sample_heap sample_view 4 = Some ([2], [3, 4])
    \<and> view_list (join_nodes sample_heap [3, 4] (leave_nodes sample_heap [2] sample_view)) = [4, 3, 1, 0]"
proof -
  have "FindFork sample_heap sample_view (Some 4) = Some (Some 1)"
    using FindFork_first [OF sample_heap_ok, of sample_view 4] sample_view_ok sample_lineage
    by (simp add: on_view_def) (simp add: sample_heap_def sample_node_def)
  moreover have "4 < length sample_heap" by (simp add: sample_heap_def)
  ultimately obtain detach attach keep where
    p: "getReorganizeNodes sample_heap sample_view 4 = Some (detach, attach)" "[2, 1, 0] = detach @ 1 # keep"
      "[4, 3, 1, 0] = rev attach @ [1, 0]"
      "view_list (join_nodes sample_heap attach (leave_nodes sample_heap detach sample_view)) = take blockNodeCacheLimit (rev attach @ 1 # keep)"
    using reorganize_plan [OF sample_heap_ok, of sample_view 4 1] sample_view_ok sample_lineage by force
  have dk: "detach = [2] \<and> keep = [0]" using p(2) by (auto simp: Cons_eq_append_conv)
  have "rev attach = [4, 3]" using p(3) by (metis append.simps append_same_eq)
  then have "attach = [3, 4]" by (simp add: rev_swap)
  then show ?thesis using p(1,4) dk by (simp add: blockNodeCacheLimit_def)
qed

section \<open>Orphans\<close>

text \<open>C39: Taking a block in keeps the pool of orphans consistent.  When the block is not known yet,
  the call succeeds; afterwards every orphan is still bound to its hash and listed exactly once
  under the hash of its parent, the new block is there, and every other orphan was there before and
  has not expired.  Below the limit no unexpired orphan is lost.  If the remembered oldest orphan
  is still in the pool, the pool does not grow past the limit.\<close>

theorem add_orphan_keeps_pool:
  assumes "hash_parent E B" "pool_ok E B op" "block \<in> B" "\<not> IsKnownOrphan (block_Hash E block) op"
    and "0 < maxOrphanBlocks" "fst ` set (op_orphans op) \<subseteq> set order"
  shows "\<exists>op' ob. AddOrphanBlock E maxOrphanBlocks order clock now broadcast block pid sequence op = (Ok (), op')
    \<and> pool_ok E B op' \<and> IsKnownOrphan (block_Hash E block) op' \<and> ob_block ob = block
    \<and> (\<forall>x \<in> orphans_of op'. x = ob \<or> x \<in> orphans_of op \<and> clock (ob_hash E x) \<le> ob_expiration x)
    \<and> (length (op_orphans op) < maxOrphanBlocks \<longrightarrow>
        (\<forall>x \<in> orphans_of op. clock (ob_hash E x) \<le> ob_expiration x \<longrightarrow> x \<in> orphans_of op'))
    \<and> (fresh_oldest op \<and> length (op_orphans op) \<le> maxOrphanBlocks \<longrightarrow> length (op_orphans op') \<le> maxOrphanBlocks)"
proof -
  obtain op' ob where a: "AddOrphanBlock E maxOrphanBlocks order clock now broadcast block pid sequence op = (Ok (), op')"
    "pool_ok E B op'" "ob_block ob = block" "ob \<in> orphans_of op'"
    "\<forall>x \<in> orphans_of op'. x = ob \<or> x \<in> orphans_of op \<and> clock (ob_hash E x) \<le> ob_expiration x"
    "fresh_oldest op \<and> length (op_orphans op) \<le> maxOrphanBlocks \<longrightarrow> length (op_orphans op') \<le> maxOrphanBlocks"
    "length (op_orphans op) < maxOrphanBlocks \<longrightarrow>
      (\<forall>x \<in> orphans_of op. clock (ob_hash E x) \<le> ob_expiration x \<longrightarrow> x \<in> orphans_of op')"
    using AddOrphanBlock_ok [OF assms, of clock now broadcast pid sequence] by blast
  have "IsKnownOrphan (block_Hash E block) op'"
    using pool_ok_lookup [OF a(2), of "block_Hash E block" ob] a(3,4) by (auto simp: IsKnownOrphan_def ob_hash_def)
  then show ?thesis using a by blast
qed

definition sample_hash :: hash_env where
  "sample_hash = \<lparr>he_Sha256 = (\<lambda>b. b), he_HeaderBytes = (\<lambda>h. hd_ParentHash h @ hd_TxHash h), he_IsFork = (\<lambda>_ _. True)\<rparr>"

definition orphan_block :: "bytes \<Rightarrow> bytes \<Rightarrow> Block" where
  "orphan_block p t = \<lparr>bk_Version = 0, bk_ParentHash = p, bk_TxHash = t, bk_StateHash = [], bk_Height = 1, bk_BlockTime = 0,
     bk_Difficulty = 0, bk_MainHash = [], bk_MainHeight = 0, bk_Signature = None, bk_Txs = []\<rparr>"

definition orphan :: "bytes \<Rightarrow> bytes \<Rightarrow> int \<Rightarrow> orphanBlock" where
  "orphan p t e = \<lparr>ob_block = orphan_block p t, ob_expiration = e, ob_broadcast = False, ob_pid = ''peer'', ob_sequence = 0\<rparr>"

definition sample_pool :: OrphanPool where
  "sample_pool = \<lparr>op_orphans = [(''pa'', orphan ''p'' ''a'' 600), (''pb'', orphan ''p'' ''b'' 900)],
     op_prev = (\<lambda>_. [])(''p'' := [orphan ''p'' ''a'' 600, orphan ''p'' ''b'' 900]), op_oldest = None\<rparr>"

lemmas orphan_sample_defs = orphan_block_def orphan_def sample_hash_def block_Hash_def HashNew_def
  getHeaderHashNew_def getHeaderHashOld_def

lemma orphan_sample_hash [simp]: "block_Hash sample_hash (orphan_block p t) = p @ t"
  by (simp add: orphan_sample_defs)

lemma orphan_sample_ob [simp]:
  "ob_hash sample_hash (orphan p t e) = p @ t" "ob_parent (orphan p t e) = p" "ob_block (orphan p t e) = orphan_block p t"
  "ob_expiration (orphan p t e) = e" "bk_ParentHash (orphan_block p t) = p"
  by (simp_all add: ob_hash_def ob_parent_def orphan_def) (simp_all add: orphan_block_def)

lemma orphan_inj [simp]: "orphan p t e = orphan p' t' e' \<longleftrightarrow> p = p' \<and> t = t' \<and> e = e'"
  by (auto simp: orphan_def orphan_block_def)

theorem add_orphan_keeps_pool_witness:
  "\<exists>op'. AddOrphanBlock sample_hash 2 [''pb'', ''pa''] (\<lambda>_. 700) 700 True (orphan_block ''q'' ''c'') ''peer'' 0 sample_pool = (Ok (), op')
    \<and> IsKnownOrphan ''qc'' op' \<and> orphan ''p'' ''a'' 600 \<notin> orphans_of op' \<and> length (op_orphans op') \<le> 2"
proof -
  let ?B = "{orphan_block ''p'' ''a'', orphan_block ''p'' ''b'', orphan_block ''q'' ''c''}"
  have os: "orphans_of sample_pool = {orphan ''p'' ''a'' 600, orphan ''p'' ''b'' 900}" by (simp add: orphans_of_def sample_pool_def)
  have "hash_parent sample_hash ?B" by (simp add: hash_parent_def)
  moreover have "pool_ok sample_hash ?B sample_pool"
    unfolding pool_ok_def os by (auto simp: sample_pool_def)
  moreover have "\<not> IsKnownOrphan (block_Hash sample_hash (orphan_block ''q'' ''c'')) sample_pool"
    by (simp add: IsKnownOrphan_def sample_pool_def)
  moreover have "fresh_oldest sample_pool" "length (op_orphans sample_pool) = 2"
    by (simp_all add: fresh_oldest_def sample_pool_def)
  ultimately obtain op' ob where a: "AddOrphanBlock sample_hash 2 [''pb'', ''pa''] (\<lambda>_. 700) 700 True (orphan_block ''q'' ''c'') ''peer'' 0 sample_pool = (Ok (), op')"
    "IsKnownOrphan ''qc'' op'" "ob_block ob = orphan_block ''q'' ''c''" "length (op_orphans op') \<le> 2"
    "\<forall>x \<in> orphans_of op'. x = ob \<or> x \<in> orphans_of sample_pool \<and> 700 \<le> ob_expiration x"
    using add_orphan_keeps_pool [of sample_hash ?B sample_pool "orphan_block ''q'' ''c''" 2 "[''pb'', ''pa'']" "\<lambda>_. 700" 700 True "''peer''" 0]
    by (auto simp: sample_pool_def)
  have "orphan ''p'' ''a'' 600 \<notin> orphans_of op'"
  proof
    assume "orphan ''p'' ''a'' 600 \<in> orphans_of op'"
    then have "orphan ''p'' ''a'' 600 = ob" using a(5) by auto
    then show False using a(3) by (auto simp: orphan_block_def)
  qed
  then show ?thesis using a by blast
qed

text \<open>
  The remembered oldest orphan may have left the pool, as happens when its parent arrives.  At the
  limit its removal does nothing, and the pool grows past the limit.
\<close>

lemma stale_oldest_overflows:
  "length (op_orphans (snd (AddOrphanBlock sample_hash 2 [''pa'', ''pb''] (\<lambda>_. 10) 10 True (orphan_block ''q'' ''c'') ''peer'' 0
     (sample_pool\<lparr>op_oldest := Some (orphan ''r'' ''d'' 500)\<rparr>)))) = 3"
  by (simp add: AddOrphanBlock_eq Let_def visit_orphan_def sample_pool_def add_orphan_def ob_hash_def)

section \<open>The state after a block\<close>

lemma map_of_rev_distinct: "distinct (map fst xs) \<Longrightarrow> map_of (rev xs) = map_of xs"
  by (subst map_of_inject_set) (simp_all add: rev_map [symmetric])

text \<open>C40: Executing a block of another node leads to the state that its header names.  If the parent's
  state hash is a readable version and the call succeeds, the block is taken as it came, no receipt
  is an error, and reading the block's own state hash afterwards gives for every key the last value
  that its receipts write, or the value of the parent's state; the parent's state stays readable.\<close>

theorem peer_block_state:
  assumes C: "env_ok (ee_mavl E)" and s: "store_ok (ee_mavl E) U s" and E: "receipts_ok E" "writes_in E U p b"
    and h: "version (ee_mavl E) (st_db s) p R" and r: "ExecBlock E p b True checkblock s = (Ok (d, del), s')"
  shows "bd_Block d = b \<and> (\<exists>rs. ee_ExecTxList E p b = Ok rs \<and> (\<forall>x \<in> set rs. er_Ty x \<noteq> ExecErr)
      \<and> (\<forall>ks. \<exists>s''. st_Get (ee_mavl E) \<lparr>sg_StateHash = nilable (bk_StateHash b), sg_Keys = ks\<rparr> s'
          = (Ok (map (last_write (concat (map er_KV rs)) (bindings R)) ks), s'')))
    \<and> (\<forall>ks. \<exists>s''. st_Get (ee_mavl E) \<lparr>sg_StateHash = p, sg_Keys = ks\<rparr> s' = (Ok (map (look_up (bindings R)) ks), s''))"
proof -
  let ?C = "ee_mavl E"
  obtain rs where x: "bd_Block d = b" "store_ok ?C U s'" "grows ?C U (st_db s) (st_db s')" "ee_ExecTxList E p b = Ok rs"
    "\<forall>x \<in> set rs. er_Ty x \<noteq> ExecErr" "version ?C (st_db s') (nilable (bk_StateHash b)) (m_put_all (DelDupKey (block_writes rs)) R)"
    using ExecBlock_peer [OF C s E h r] by blast
  have d: "db_ok ?C U (st_db s)" using s by (simp add: store_ok_def)
  let ?R = "m_put_all (DelDupKey (block_writes rs)) R"
  have "set_option ?R \<subseteq> U" using version_readable [OF C x(2,6)] by blast
  then have "look_up (bindings ?R) = last_write (DelDupKey (block_writes rs)) (bindings R)"
    using look_up_put_all [OF version_ok_tree [OF d h]] put_all_bound d by (auto simp: db_ok_def)
  also have "\<dots> = last_write (concat (map er_KV rs)) (bindings R)"
    using DelDupKey_lookup [of "block_writes rs"] DelDupKey_distinct [of "block_writes rs"]
    by (auto simp: last_write_def block_writes_def map_of_rev_distinct)
  finally have l: "look_up (bindings ?R) = last_write (concat (map er_KV rs)) (bindings R)" .
  have "version ?C (st_db s') p R" using x(3) h by (simp add: grows_def)
  then have old: "\<exists>s''. st_Get ?C \<lparr>sg_StateHash = p, sg_Keys = ks\<rparr> s' = (Ok (map (look_up (bindings R)) ks), s'')" for ks
    using st_Get_store_ok [OF C x(2), of "\<lparr>sg_StateHash = p, sg_Keys = ks\<rparr>" R] by auto
  have "\<exists>s''. st_Get ?C \<lparr>sg_StateHash = nilable (bk_StateHash b), sg_Keys = ks\<rparr> s'
      = (Ok (map (last_write (concat (map er_KV rs)) (bindings R)) ks), s'')" for ks
    using st_Get_store_ok [OF C x(2), of "\<lparr>sg_StateHash = nilable (bk_StateHash b), sg_Keys = ks\<rparr>" ?R] x(6) l by auto
  then show ?thesis using x(1,4,5) old by blast
qed

definition sample_exec :: exec_env where
  "sample_exec = \<lparr>ee_hash = sample_hash, ee_tx = sample_env, ee_cfg = \<lparr>tc_IsFork = \<lambda>_ _. False, tc_TxHeight = False, tc_IsPara = False\<rparr>,
     ee_ncpu = 2, ee_mavl = sample_mavl, ee_TxsExist = (\<lambda>_. Ok (0, [])), ee_TxHashList = (\<lambda>_ _ _. Ok []),
     ee_ExecTxList = (\<lambda>p b. if p = Some sample_root then Ok (map (\<lambda>_. \<lparr>er_Ty = 2, er_KV = batch2, er_Logs = []\<rparr>) (bk_Txs b)) else Fail ErrBlockExec),
     ee_CheckBlock = (\<lambda>_. Ok ())\<rparr>"

definition sample_peer_block :: Block where
  "sample_peer_block = (orphan_block ''p'' ''coin'')\<lparr>bk_StateHash := mhash sample_mavl tree2,
     bk_Txs := [(sample_tx ''coins'')\<lparr>TxSignature := Some sample_sig\<rparr>]\<rparr>"

lemma sample_peer_block_sel [simp]:
  "bk_StateHash sample_peer_block = mhash sample_mavl tree2" "bk_Height sample_peer_block = 1"
  "bk_Txs sample_peer_block = [(sample_tx ''coins'')\<lparr>TxSignature := Some sample_sig\<rparr>]"
  by (simp_all add: sample_peer_block_def orphan_block_def)

lemma sample_peer_tx:
  "block_TxHash sample_exec sample_peer_block = Ok (bk_TxHash sample_peer_block)" "check_signatures sample_exec sample_peer_block = Ok ()"
  "CheckTxDup sample_exec (bk_Txs sample_peer_block) 1 = Ok (bk_Txs sample_peer_block)"
  by code_simp+

lemma sample_peer_writes: "DelDupKey (block_writes [\<lparr>er_Ty = 2, er_KV = batch2, er_Logs = []\<rparr>]) = batch2"
  by code_simp

lemma sample_root_only:
  assumes "set_option R \<subseteq> set trees" "root_of sample_mavl (Some sample_root) R" shows "R = Some tree1"
proof (cases R)
  case None
  then show ?thesis using assms(2) trees_distinct(2) sample_env_ok mhash_length [OF env_okD(3) [OF sample_env_ok], of tree1]
    by (auto simp: root_of_def raw_def sample_root_def trees_def)
next
  case (Some T)
  then have "mhash sample_mavl T = mhash sample_mavl tree1"
    using assms(2) mhash_length [OF env_okD(3) [OF sample_env_ok], of tree1] by (auto simp: root_of_def raw_def sample_root_def last_bytes_def split: if_splits)
  then show ?thesis
    using assms(1) Some universe_inj [OF env_okD(3) [OF sample_env_ok] trees_universe _ trees_mem(1)] by simp
qed

lemma nilable_root [simp]: "nilable (mhash sample_mavl T) = Some (mhash sample_mavl T)"
  using mhash_length [OF env_okD(3) [OF sample_env_ok], of T] by (auto simp: nilable_def)

lemma sample_exec_laws:
  "receipts_ok sample_exec \<and> writes_in sample_exec (set trees) (Some sample_root) sample_peer_block"
proof -
  have "set_option (m_put_all batch2 R) \<subseteq> set trees" if "set_option R \<subseteq> set trees" "root_of sample_mavl (Some sample_root) R" for R
    using sample_root_only [OF that] by (simp add: batches)
  then show ?thesis by (auto simp: receipts_ok_def writes_in_def sample_exec_def sample_peer_writes split: if_splits)
qed

lemma sample_exec_runs:
  "\<exists>d del s'. ExecBlock sample_exec (Some sample_root) sample_peer_block True True sample_st = (Ok (d, del), s')"
proof -
  let ?q = "\<lparr>ss_StateHash = Some sample_root, ss_KV = batch2, ss_Height = 1\<rparr>" and ?h = "mhash sample_mavl tree2"
  obtain s1 t where s1: "st_MemSet sample_mavl ?q sample_st = (Ok (Some ?h), s1)" "store_ok sample_mavl (set trees) s1"
    "st_trees s1 ?h = Some (Some t)" "pending_tree sample_mavl (st_db s1) ?h t tree2"
    using st_MemSet_version [OF sample_env_ok sample_st_ok [THEN conjunct1], of ?q "Some tree1" tree2]
      sample_st_ok by (auto simp: batches)
  obtain s2 where s2: "st_Commit sample_mavl (Some ?h) s1 = (Ok (Some ?h), s2)"
    using st_Commit_pending [OF sample_env_ok s1(2,3) trees_mem(2) s1(4)] by blast
  have m: "ExecKVMemSet sample_exec (Some sample_root) 1 batch2 sample_st = (Ok ?h, s1)"
    using s1(1) by (auto simp: ExecKVMemSet_Ok sample_exec_def)
  have c: "ExecKVSetCommit sample_exec ?h s1 = (Ok (), s2)"
    using s2 by (simp add: ExecKVSetCommit_def processMessage_def reply_hash_def sample_exec_def andThen_def)
  have x: "exec_txs sample_exec (Some sample_root) sample_peer_block True = Ok (sample_peer_block, [\<lparr>er_Ty = 2, er_KV = batch2, er_Logs = []\<rparr>])"
    using sample_peer_tx(3) by (simp add: exec_txs_def sample_exec_def)
  have w: "DelDupKey batch2 = batch2" using sample_peer_writes by (simp add: block_writes_def)
  have t: "sample_peer_block\<lparr>bk_Txs := bk_Txs sample_peer_block\<rparr> = sample_peer_block" by simp
  then have b: "sample_peer_block\<lparr>bk_Txs := [(sample_tx ''coins'')\<lparr>TxSignature := Some sample_sig\<rparr>]\<rparr> = sample_peer_block"
    by (simp only: sample_peer_block_sel)
  have cb: "ee_CheckBlock sample_exec z = Ok ()" for z by (simp add: sample_exec_def)
  have "\<exists>d del. PreExecBlock sample_exec (Some sample_root) sample_peer_block True True sample_st = (Ok (d, del), s1) \<and> bk_StateHash (bd_Block d) = ?h"
    unfolding PreExecBlock_def using sample_peer_tx(1,2) x m
    by (simp add: andThen_Ok_iff w ExecErr_def Let_def b cb)
  then show ?thesis using c by (auto simp: ExecBlock_def andThen_Ok_iff)
qed

theorem peer_block_state_witness:
  "\<exists>d del s' s''. ExecBlock sample_exec (Some sample_root) sample_peer_block True True sample_st = (Ok (d, del), s')
    \<and> st_Get sample_mavl \<lparr>sg_StateHash = Some (mhash sample_mavl tree2), sg_Keys = [''a'', ''b'']\<rparr> s' = (Ok [''1'', ''3''], s'')"
proof -
  obtain d del s' where r: "ExecBlock sample_exec (Some sample_root) sample_peer_block True True sample_st = (Ok (d, del), s')"
    using sample_exec_runs by blast
  have m: "ee_mavl sample_exec = sample_mavl" by (simp add: sample_exec_def)
  have v: "version sample_mavl (st_db sample_st) (Some sample_root) (Some tree1)"
    using sample_st_ok by simp
  have "\<forall>ks. \<exists>s''. st_Get sample_mavl \<lparr>sg_StateHash = Some (mhash sample_mavl tree2), sg_Keys = ks\<rparr> s'
      = (Ok (map (last_write batch2 (leaves tree1)) ks), s'')"
    using peer_block_state [of sample_exec "set trees" sample_st "Some sample_root" sample_peer_block "Some tree1" True d del s',
        unfolded m, OF sample_env_ok sample_st_ok [THEN conjunct1] sample_exec_laws [THEN conjunct1] sample_exec_laws [THEN conjunct2] v r]
    by (auto simp: sample_exec_def)
  from this [rule_format, of "[''a'', ''b'']"] show ?thesis using r by (auto simp: last_write_def look_up_def batch2_def tree1_def)
qed

end
