(* ===== verification/Skip_List.thy ===== *)
theory Skip_List
  imports Dpos_Prelude
begin

text \<open>
  The skip list of \<^verbatim>\<open>common/skiplist/skiplist.go\<close>. Nodes live in an explicit store from addresses
  to nodes, since every node is reached through several links: one per level, and the backward link.
  A node's links are a list as long as its height; reading or writing a link that the node
  does not have, or following a nil pointer, panics as in the code. This theory has the
  operations; \<open>Skip_List_Inv\<close> shows that they implement a sorted list.
\<close>

section \<open>Values and nodes\<close>

record 'v SkipValue =
  Score :: int
  SValue :: "'v option" \<comment> \<open>an interface value, possibly nil\<close>

definition BigC :: int where "BigC = -1"
definition SmallC :: int where "SmallC = 1"
definition EqualC :: int where "EqualC = 0"

definition Compare :: "'v SkipValue \<Rightarrow> 'v SkipValue \<Rightarrow> int" where
  "Compare v value =
     (if Score v > Score value then BigC else if Score v = Score value then EqualC else SmallC)"

lemmas compare_consts = BigC_def SmallC_def EqualC_def

record 'v skipListNode =
  sn_next :: "nat option list"
  sn_prev :: "nat option"
  sn_Value :: "'v SkipValue"

record 'v SkipList =
  sl_header :: nat
  sl_tail :: "nat option"
  sl_findcount :: int
  sl_count :: int
  sl_level :: nat
  sl_nodes :: "nat \<Rightarrow> 'v skipListNode option" \<comment> \<open>the allocated nodes\<close>
  sl_fresh :: nat \<comment> \<open>the next address to allocate\<close>

definition maxLevel :: nat where "maxLevel = 32"

section \<open>Access to nodes\<close>

definition deref :: "nat \<Rightarrow> ('v SkipList, 'v skipListNode) op" where
  "deref x s = (case sl_nodes s x of None \<Rightarrow> (Panic, s) | Some n \<Rightarrow> (Ok n, s))"

definition getNext :: "nat \<Rightarrow> nat \<Rightarrow> ('v SkipList, nat option) op" where
  "getNext x i = andThen (deref x) (\<lambda>n. if i < length (sn_next n) then returnO (sn_next n ! i) else panicO)"

definition putNode :: "nat \<Rightarrow> 'v skipListNode \<Rightarrow> ('v SkipList, unit) op" where
  "putNode x n s = (Ok (), s\<lparr>sl_nodes := (sl_nodes s)(x \<mapsto> n)\<rparr>)"

definition setNext :: "nat \<Rightarrow> nat \<Rightarrow> nat option \<Rightarrow> ('v SkipList, unit) op" where
  "setNext x i y = andThen (deref x) (\<lambda>n.
     if i < length (sn_next n) then putNode x (n\<lparr>sn_next := (sn_next n)[i := y]\<rparr>) else panicO)"

definition setPrev :: "nat \<Rightarrow> nat option \<Rightarrow> ('v SkipList, unit) op" where
  "setPrev x y = andThen (deref x) (\<lambda>n. putNode x (n\<lparr>sn_prev := y\<rparr>))"

definition newskipListNode :: "nat \<Rightarrow> 'v SkipValue \<Rightarrow> ('v SkipList, nat) op" where
  "newskipListNode level value s =
     (Ok (sl_fresh s),
      s\<lparr>sl_nodes := (sl_nodes s)(sl_fresh s \<mapsto> \<lparr>sn_next = replicate level None, sn_prev = None, sn_Value = value\<rparr>),
        sl_fresh := Suc (sl_fresh s)\<rparr>)"

section \<open>The list\<close>

definition NewSkipList :: "'v SkipValue \<Rightarrow> 'v SkipList" where
  "NewSkipList mn =
     \<lparr>sl_header = 0, sl_tail = None, sl_findcount = 0, sl_count = 0, sl_level = 1,
      sl_nodes = [0 \<mapsto> \<lparr>sn_next = replicate maxLevel None, sn_prev = None, sn_Value = mn\<rparr>],
      sl_fresh = 1\<rparr>"

text \<open>
  \<open>rnd k\<close> is the result of the \<open>k\<close>-th call of \<^verbatim>\<open>rand.Int() & 0xFFFF\<close>; the bound is the
  integer part of \<open>0.35 * 0xFFFF\<close>.
\<close>

function level_from :: "(nat \<Rightarrow> int) \<Rightarrow> nat \<Rightarrow> nat" where
  "level_from rnd level =
     (if maxLevel \<le> level then level
      else if rnd (level - 1) < 22937
      then (if Suc level = maxLevel then Suc level else level_from rnd (Suc level))
      else level)"
  by pat_completeness auto
termination by (relation "measure (\<lambda>(rnd, level). maxLevel - level)") auto

declare level_from.simps [simp del]

definition randomLevel :: "(nat \<Rightarrow> int) \<Rightarrow> nat" where
  "randomLevel rnd = level_from rnd 1"

definition sl_Len :: "'v SkipList \<Rightarrow> int" where "sl_Len s = sl_count s"
definition sl_Level :: "'v SkipList \<Rightarrow> nat" where "sl_Level s = sl_level s"
definition sl_FindCount :: "'v SkipList \<Rightarrow> int" where "sl_FindCount s = sl_findcount s"

text \<open>
  The inner loop: follow the links of one level as long as the next value satisfies the test. It
  returns the node where it stops and the number of links followed. Fuel bounds the number of
  links; one more than the number of allocated nodes is always enough, because links do not
  form a cycle.
\<close>

fun hop :: "nat \<Rightarrow> ('v SkipValue \<Rightarrow> bool) \<Rightarrow> nat \<Rightarrow> nat \<Rightarrow> ('v SkipList, nat \<times> nat) op" where
  "hop 0 test i x = panicO"
| "hop (Suc fuel) test i x = andThen (getNext x i) (\<lambda>nx.
     case nx of
       None \<Rightarrow> returnO (x, 0)
     | Some y \<Rightarrow> andThen (deref y) (\<lambda>n.
         if test (sn_Value n)
         then andThen (hop fuel test i y) (\<lambda>(z, k). returnO (z, Suc k))
         else returnO (x, 0)))"

text \<open>
  The outer loop, from the highest level down: the node where the search ends, the number of links
  followed, and for every level the node where its inner loop stopped (the array \<open>update\<close>).
\<close>

fun descend :: "('v SkipValue \<Rightarrow> bool) \<Rightarrow> nat \<Rightarrow> nat \<Rightarrow> ('v SkipList, nat \<times> nat \<times> nat list) op" where
  "descend test 0 x = returnO (x, 0, [])"
| "descend test (Suc i) x = (\<lambda>s.
     andThen (hop (Suc (sl_fresh s)) test i x) (\<lambda>(y, k).
     andThen (descend test i y) (\<lambda>(z, m, update). returnO (z, k + m, update @ [y]))) s)"

definition sl_find :: "'v SkipValue \<Rightarrow> ('v SkipList, nat) op" where
  "sl_find value s =
     andThen (descend (\<lambda>v. Compare v value < 0) (sl_level s) (sl_header s))
       (\<lambda>(x, k, _) s'. (Ok x, s'\<lparr>sl_findcount := sl_findcount s' + int k\<rparr>)) s"

definition sl_Find :: "'v SkipValue \<Rightarrow> ('v SkipList, 'v SkipValue option) op" where
  "sl_Find value =
     andThen (sl_find value) (\<lambda>x. andThen (getNext x 0) (\<lambda>nx.
       case nx of
         None \<Rightarrow> returnO None
       | Some y \<Rightarrow> andThen (deref y) (\<lambda>n. returnO (if Compare (sn_Value n) value = 0 then Some (sn_Value n) else None))))"

definition FindGreaterOrEqual :: "'v SkipValue \<Rightarrow> ('v SkipList, 'v SkipValue option) op" where
  "FindGreaterOrEqual value =
     andThen (sl_find value) (\<lambda>x. andThen (getNext x 0) (\<lambda>nx.
       case nx of None \<Rightarrow> returnO None | Some y \<Rightarrow> andThen (deref y) (\<lambda>n. returnO (Some (sn_Value n)))))"

text \<open>The loop of \<open>Insert\<close> that links the new node \<open>x\<close> into the levels from \<open>i\<close> on.\<close>

fun link_loop :: "nat \<Rightarrow> nat \<Rightarrow> nat list \<Rightarrow> ('v SkipList, unit) op" where
  "link_loop x i [] = returnO ()"
| "link_loop x i (u # us) =
     andThen (getNext u i) (\<lambda>nx. andThen (setNext x i nx) (\<lambda>_. andThen (setNext u i (Some x)) (\<lambda>_.
       link_loop x (Suc i) us)))"

definition sl_Insert :: "(nat \<Rightarrow> int) \<Rightarrow> 'v SkipValue \<Rightarrow> ('v SkipList, int) op" where
  "sl_Insert rnd value s0 =
     andThen (descend (\<lambda>v. Compare v value \<le> 0) (sl_level s0) (sl_header s0)) (\<lambda>(_, _, update0).
       let level = randomLevel rnd;
           update = update0 @ replicate (level - sl_level s0) (sl_header s0)
       in andThen (\<lambda>s. (Ok (), s\<lparr>sl_level := max level (sl_level s0)\<rparr>)) (\<lambda>_.
          andThen (newskipListNode level value) (\<lambda>x.
          andThen (link_loop x 0 (take level update)) (\<lambda>_.
          andThen (if update ! 0 \<noteq> sl_header s0 then setPrev x (Some (update ! 0)) else returnO ()) (\<lambda>_.
          andThen (getNext x 0) (\<lambda>nx.
          andThen (case nx of Some y \<Rightarrow> setPrev y (Some x) | None \<Rightarrow> (\<lambda>s. (Ok (), s\<lparr>sl_tail := Some x\<rparr>))) (\<lambda>_ s.
            (Ok 1, s\<lparr>sl_count := sl_count s + 1\<rparr>)))))))) s0"

text \<open>The loop of \<open>Delete\<close> that unlinks the node \<open>x\<close> from the levels from \<open>i\<close> on.\<close>

fun unlink_loop :: "nat \<Rightarrow> nat \<Rightarrow> nat list \<Rightarrow> ('v SkipList, unit) op" where
  "unlink_loop x i [] = returnO ()"
| "unlink_loop x i (u # us) =
     andThen (getNext u i) (\<lambda>nx.
     andThen (if nx = Some x then andThen (getNext x i) (\<lambda>y. setNext u i y) else returnO ()) (\<lambda>_.
       unlink_loop x (Suc i) us))"

fun shrink_loop :: "nat \<Rightarrow> ('v SkipList, unit) op" where
  "shrink_loop level s =
     (if level > 1 then
        andThen (getNext (sl_header s) (level - 1)) (\<lambda>nx.
          case nx of
            None \<Rightarrow> (\<lambda>s. shrink_loop (level - 1) s)
          | Some y \<Rightarrow> (\<lambda>s. (Ok (), s\<lparr>sl_level := level\<rparr>))) s
      else (Ok (), s\<lparr>sl_level := level\<rparr>))"

declare shrink_loop.simps [simp del]

definition sl_Delete :: "'v SkipValue option \<Rightarrow> ('v SkipList, int) op" where
  "sl_Delete v s0 =
     (case v of None \<Rightarrow> (Ok 0, s0)
      | Some value \<Rightarrow>
        andThen (descend (\<lambda>w. Compare w value < 0) (sl_level s0) (sl_header s0)) (\<lambda>(x0, _, update).
        andThen (getNext x0 0) (\<lambda>nx.
          case nx of
            None \<Rightarrow> returnO 0
          | Some x \<Rightarrow> andThen (deref x) (\<lambda>n.
              if Compare (sn_Value n) value \<noteq> 0 then returnO 0
              else andThen (unlink_loop x 0 update) (\<lambda>_.
                   andThen (getNext x 0) (\<lambda>nx2.
                   andThen (deref x) (\<lambda>n2.
                   andThen (case nx2 of Some y \<Rightarrow> setPrev y (sn_prev n2) | None \<Rightarrow> (\<lambda>s. (Ok (), s\<lparr>sl_tail := sn_prev n2\<rparr>))) (\<lambda>_.
                   andThen (\<lambda>s. shrink_loop (sl_level s) s) (\<lambda>_ s.
                     (Ok 1, s\<lparr>sl_count := sl_count s - 1\<rparr>))))))))) s0)"

text \<open>
  \<open>Walk\<close> calls the callback on the values in order until it answers false; a nil callback ends
  the walk at the first node. \<open>'c\<close> is the state of the closure.
\<close>

fun walk_nodes :: "nat \<Rightarrow> ('v SkipValue \<Rightarrow> 'c \<Rightarrow> bool \<times> 'c) \<Rightarrow> nat option \<Rightarrow> 'c \<Rightarrow> ('v SkipList, 'c) op" where
  "walk_nodes 0 cb e c = panicO"
| "walk_nodes (Suc fuel) cb e c =
     (case e of
        None \<Rightarrow> returnO c
      | Some x \<Rightarrow> andThen (deref x) (\<lambda>n.
          case cb (sn_Value n) c of
            (False, c') \<Rightarrow> returnO c'
          | (True, c') \<Rightarrow> andThen (getNext x 0) (\<lambda>e'. walk_nodes fuel cb e' c')))"

definition sl_WalkS :: "('v SkipValue \<Rightarrow> 'c \<Rightarrow> bool \<times> 'c) option \<Rightarrow> 'c \<Rightarrow> ('v SkipList, 'c) op" where
  "sl_WalkS cb c s =
     (case cb of
        None \<Rightarrow> (Ok c, s)
      | Some f \<Rightarrow> andThen (getNext (sl_header s) 0) (\<lambda>e. walk_nodes (Suc (sl_fresh s)) f e c) s)"

definition sl_Walk :: "('v option \<Rightarrow> 'c \<Rightarrow> bool \<times> 'c) option \<Rightarrow> 'c \<Rightarrow> ('v SkipList, 'c) op" where
  "sl_Walk cb = sl_WalkS (map_option (\<lambda>f v. f (SValue v)) cb)"

section \<open>Iterators\<close>

text \<open>An iterator is the address of its node, nil when it has none.\<close>

definition nodePrev :: "nat option \<Rightarrow> ('v SkipList, nat option) op" where
  "nodePrev node = (case node of None \<Rightarrow> returnO None | Some x \<Rightarrow> andThen (deref x) (\<lambda>n. returnO (sn_prev n)))"

definition nodeNext :: "nat option \<Rightarrow> ('v SkipList, nat option) op" where
  "nodeNext node = (case node of None \<Rightarrow> returnO None | Some x \<Rightarrow> getNext x 0)"

definition it_First :: "nat option \<Rightarrow> ('v SkipList, 'v SkipValue option \<times> nat option) op" where
  "it_First node s =
     andThen (getNext (sl_header s) 0) (\<lambda>nx.
       case nx of None \<Rightarrow> returnO (None, node) | Some x \<Rightarrow> andThen (deref x) (\<lambda>n. returnO (Some (sn_Value n), Some x))) s"

definition it_Last :: "nat option \<Rightarrow> ('v SkipList, 'v SkipValue option \<times> nat option) op" where
  "it_Last node s =
     (case sl_tail s of
        None \<Rightarrow> (Ok (None, node), s)
      | Some x \<Rightarrow> andThen (deref x) (\<lambda>n. returnO (Some (sn_Value n), Some x)) s)"

definition it_Value :: "nat option \<Rightarrow> ('v SkipList, 'v SkipValue) op" where
  "it_Value node = (case node of None \<Rightarrow> panicO | Some x \<Rightarrow> andThen (deref x) (\<lambda>n. returnO (sn_Value n)))"

definition it_Seek :: "'v SkipValue \<Rightarrow> nat option \<Rightarrow> ('v SkipList, 'v SkipValue option \<times> nat option) op" where
  "it_Seek value node =
     andThen (sl_find value) (\<lambda>x. andThen (getNext x 0) (\<lambda>nx.
       case nx of None \<Rightarrow> returnO (None, node) | Some y \<Rightarrow> andThen (deref y) (\<lambda>n. returnO (Some (sn_Value n), Some y))))"

definition GetIterator :: "('v SkipList, nat option) op" where
  "GetIterator = andThen (it_First None) (\<lambda>(_, node). returnO node)"

end
