(* ===== verification/Skip_List_Inv.thy ===== *)
theory Skip_List_Inv
  imports Skip_List List_Map
begin

text \<open>
  The invariant of the skip list and the meaning of its operations. A ghost list of addresses gives the
  order of the nodes; the nodes of height above \<open>i\<close> are chained at level \<open>i\<close>. Every operation
  returns, keeps the invariant and acts on the values as the corresponding operation
  on a list sorted by falling score.
\<close>

section \<open>Views of the store\<close>

definition ht :: "'v SkipList \<Rightarrow> nat \<Rightarrow> nat" where
  "ht s a = (case sl_nodes s a of None \<Rightarrow> 0 | Some n \<Rightarrow> length (sn_next n))"

definition nxt :: "'v SkipList \<Rightarrow> nat \<Rightarrow> nat \<Rightarrow> nat option option" where
  "nxt s i a = (case sl_nodes s a of None \<Rightarrow> None | Some n \<Rightarrow> if i < length (sn_next n) then Some (sn_next n ! i) else None)"

definition prv :: "'v SkipList \<Rightarrow> nat \<Rightarrow> nat option" where
  "prv s a = (case sl_nodes s a of None \<Rightarrow> None | Some n \<Rightarrow> sn_prev n)"

definition vl :: "'v SkipList \<Rightarrow> nat \<Rightarrow> 'v SkipValue option" where
  "vl s a = map_option sn_Value (sl_nodes s a)"

abbreviation sc :: "'v SkipList \<Rightarrow> nat \<Rightarrow> int" where
  "sc s a \<equiv> Score (the (vl s a))"

text \<open>Two stores with the same nodes up to the links.\<close>

definition same_nodes :: "'v SkipList \<Rightarrow> 'v SkipList \<Rightarrow> bool" where
  "same_nodes s s' \<longleftrightarrow> s' = s\<lparr>sl_nodes := sl_nodes s'\<rparr> \<and> ht s' = ht s \<and> prv s' = prv s \<and> vl s' = vl s"

lemma view_update [simp]:
  "ht (s\<lparr>sl_findcount := k\<rparr>) = ht s" "ht (s\<lparr>sl_level := l\<rparr>) = ht s" "ht (s\<lparr>sl_tail := t\<rparr>) = ht s" "ht (s\<lparr>sl_count := k\<rparr>) = ht s"
  "nxt (s\<lparr>sl_findcount := k\<rparr>) = nxt s" "nxt (s\<lparr>sl_level := l\<rparr>) = nxt s" "nxt (s\<lparr>sl_tail := t\<rparr>) = nxt s" "nxt (s\<lparr>sl_count := k\<rparr>) = nxt s"
  "prv (s\<lparr>sl_findcount := k\<rparr>) = prv s" "prv (s\<lparr>sl_level := l\<rparr>) = prv s" "prv (s\<lparr>sl_tail := t\<rparr>) = prv s" "prv (s\<lparr>sl_count := k\<rparr>) = prv s"
  "vl (s\<lparr>sl_findcount := k\<rparr>) = vl s" "vl (s\<lparr>sl_level := l\<rparr>) = vl s" "vl (s\<lparr>sl_tail := t\<rparr>) = vl s" "vl (s\<lparr>sl_count := k\<rparr>) = vl s"
  by (simp_all add: ht_def nxt_def prv_def vl_def fun_eq_iff)

lemma same_nodes_refl [simp]: "same_nodes s s"
  by (simp add: same_nodes_def)

lemma same_nodes_trans: "same_nodes s t \<Longrightarrow> same_nodes t u \<Longrightarrow> same_nodes s u"
  by (auto simp: same_nodes_def) (metis SkipList.surjective SkipList.update_convs(6))

lemma same_nodesD:
  assumes "same_nodes s s'"
  shows "sl_header s' = sl_header s" "sl_tail s' = sl_tail s" "sl_count s' = sl_count s" "sl_level s' = sl_level s"
    "sl_fresh s' = sl_fresh s" "sl_findcount s' = sl_findcount s" "ht s' = ht s" "prv s' = prv s" "vl s' = vl s"
  using assms unfolding same_nodes_def by (metis SkipList.select_convs SkipList.update_convs(6) SkipList.surjective)+

lemma ht_alive: "0 < ht s a \<Longrightarrow> \<exists>n. sl_nodes s a = Some n"
  by (auto simp: ht_def split: option.splits)

lemma deref_alive: "vl s a = Some v \<Longrightarrow> \<exists>n. deref a s = (Ok n, s) \<and> sn_Value n = v \<and> sn_prev n = prv s a"
  by (auto simp: deref_def vl_def prv_def)

lemma getNext_nxt: "nxt s i x = Some y \<Longrightarrow> getNext x i s = (Ok y, s)"
  by (auto simp: getNext_def deref_def nxt_def split: option.splits if_splits)

lemma nxt_ht: "i < ht s x \<longleftrightarrow> nxt s i x \<noteq> None"
  by (auto simp: nxt_def ht_def split: option.splits)

lemma setNext_effect:
  assumes "i < ht s x"
  shows "\<exists>s'. setNext x i y s = (Ok (), s') \<and> same_nodes s s' \<and> (\<forall>j. nxt s' j = (if j = i then (nxt s i)(x := Some y) else nxt s j))"
proof -
  obtain n where n: "sl_nodes s x = Some n" "i < length (sn_next n)" using assms by (auto simp: ht_def split: option.splits)
  let ?s = "s\<lparr>sl_nodes := (sl_nodes s)(x \<mapsto> n\<lparr>sn_next := (sn_next n)[i := y]\<rparr>)\<rparr>"
  have "setNext x i y s = (Ok (), ?s)" using n by (simp add: setNext_def deref_def putNode_def)
  moreover have "same_nodes s ?s" using n by (auto simp: same_nodes_def ht_def prv_def vl_def)
  moreover have "nxt ?s j = (if j = i then (nxt s i)(x := Some y) else nxt s j)" for j
    using n by (auto simp: nxt_def fun_eq_iff)
  ultimately show ?thesis by blast
qed

section \<open>Chains\<close>

fun chain :: "('a \<Rightarrow> 'a option option) \<Rightarrow> 'a \<Rightarrow> 'a list \<Rightarrow> bool" where
  "chain nx x [] \<longleftrightarrow> nx x = Some None"
| "chain nx x (y # ys) \<longleftrightarrow> nx x = Some (Some y) \<and> chain nx y ys"

lemma chain_append: "chain nx x (ys @ z # zs) \<Longrightarrow> chain nx z zs"
  by (induction ys arbitrary: x) auto

lemma chain_last: "chain nx x (ys @ zs) \<Longrightarrow> chain nx (last (x # ys)) zs"
  by (induction ys arbitrary: x) auto

lemma chain_cong: "\<forall>y\<in>set (x # ys). nx' y = nx y \<Longrightarrow> chain nx' x ys = chain nx x ys"
  by (induction ys arbitrary: x) auto

lemma chain_insert:
  assumes "chain nx x (ys @ zs)" and "distinct (x # ys @ zs)" and "a \<notin> set (x # ys @ zs)" and "u = last (x # ys)"
  shows "chain (nx(a := nx u, u := Some (Some a))) x (ys @ a # zs)"
  using assms
proof (induction ys arbitrary: x)
  case Nil
  then have "chain (nx(a := nx u, u := Some (Some a))) a zs = chain (nx(a := nx u)) a zs"
    by (intro chain_cong) auto
  moreover have "chain (nx(a := nx u)) a zs"
  proof (cases zs)
    case (Cons z zs')
    then have "chain (nx(a := nx u)) z zs' = chain nx z zs'" using Nil by (intro chain_cong) auto
    then show ?thesis using Nil Cons by simp
  qed (use Nil in simp)
  ultimately show ?case using Nil by (simp add: fun_upd_def)
next
  case (Cons y ys)
  have "x \<noteq> u" using Cons.prems by (metis distinct.simps(2) last.simps last_in_set list.distinct(1) append_Cons Un_iff set_append)
  then show ?case using Cons by auto
qed

lemma chain_delete:
  assumes "chain nx x (ys @ a # zs)" and "distinct (x # ys @ a # zs)" and "u = last (x # ys)"
  shows "chain (nx(u := nx a)) x (ys @ zs)"
  using assms
proof (induction ys arbitrary: x)
  case Nil
  show ?case
  proof (cases zs)
    case (Cons z zs')
    then have "chain (nx(u := nx a)) z zs' = chain nx z zs'" using Nil by (intro chain_cong) auto
    moreover have "u = x" "nx a = Some (Some z)" "chain nx z zs'" using Nil Cons by auto
    ultimately show ?thesis using Cons by (auto simp: fun_upd_def)
  qed (use Nil in simp)
next
  case (Cons y ys)
  have "x \<noteq> u" using Cons.prems by (metis distinct.simps(2) last.simps last_in_set list.distinct(1) append_Cons Un_iff set_append)
  then show ?case using Cons by simp
qed

section \<open>The search\<close>

lemma hop_chain:
  assumes "chain (nxt s i) x (ys @ zs)" and "\<forall>y\<in>set (ys @ zs). vl s y \<noteq> None"
    and "\<forall>y\<in>set ys. test (the (vl s y))" and "zs \<noteq> [] \<longrightarrow> \<not> test (the (vl s (hd zs)))" and "length ys < fuel"
  shows "hop fuel test i x s = (Ok (last (x # ys), length ys), s)"
  using assms
proof (induction ys arbitrary: x fuel)
  case Nil
  then obtain f where f: "fuel = Suc f" by (cases fuel) auto
  show ?case
  proof (cases zs)
    case Nil
    then show ?thesis using f Nil.prems getNext_nxt [of s i x None] by simp
  next
    case (Cons z zs')
    then obtain v where v: "vl s z = Some v" using Nil.prems by auto
    obtain n where "deref z s = (Ok n, s)" "sn_Value n = v" using deref_alive [OF v] by blast
    then show ?thesis using f v Cons Nil.prems getNext_nxt [of s i x "Some z"] by simp
  qed
next
  case (Cons y ys)
  then obtain f where f: "fuel = Suc f" by (cases fuel) auto
  obtain v where v: "vl s y = Some v" using Cons.prems by auto
  obtain n where "deref y s = (Ok n, s)" "sn_Value n = v" using deref_alive [OF v] by blast
  moreover have "hop f test i y s = (Ok (last (y # ys), length ys), s)" using Cons f by auto
  ultimately show ?case using f v Cons.prems getNext_nxt [of s i x "Some y"] by simp
qed

section \<open>The invariant\<close>

definition lv :: "'v SkipList \<Rightarrow> nat list \<Rightarrow> nat \<Rightarrow> nat list" where
  "lv s as i = filter (\<lambda>a. i < ht s a) as"

definition back_links :: "'v SkipList \<Rightarrow> nat list \<Rightarrow> bool" where
  "back_links s as \<longleftrightarrow> (\<forall>k<length as. prv s (as ! k) = (if k = 0 then None else Some (as ! (k - 1)))) \<and>
     sl_tail s = (if as = [] then None else Some (last as))"

definition sl_inv :: "'v SkipList \<Rightarrow> nat list \<Rightarrow> bool" where
  "sl_inv s as \<longleftrightarrow>
     distinct (sl_header s # as) \<and>
     (\<forall>a\<in>set (sl_header s # as). vl s a \<noteq> None \<and> a < sl_fresh s) \<and>
     ht s (sl_header s) = maxLevel \<and> 1 \<le> sl_level s \<and> sl_level s \<le> maxLevel \<and>
     (\<forall>a\<in>set as. 1 \<le> ht s a \<and> ht s a \<le> sl_level s) \<and>
     (\<forall>i<maxLevel. chain (nxt s i) (sl_header s) (lv s as i)) \<and>
     back_links s as \<and> sl_count s = int (length as) \<and>
     sorted_wrt (\<lambda>a b. sc s a \<ge> sc s b) as \<and>
     (sl_level s = 1 \<or> lv s as (sl_level s - 1) \<noteq> [])"

lemma sl_invD:
  assumes "sl_inv s as"
  shows "distinct (sl_header s # as)" "\<And>a. a \<in> set (sl_header s # as) \<Longrightarrow> vl s a \<noteq> None \<and> a < sl_fresh s"
    "ht s (sl_header s) = maxLevel" "1 \<le> sl_level s" "sl_level s \<le> maxLevel"
    "\<And>a. a \<in> set as \<Longrightarrow> 1 \<le> ht s a \<and> ht s a \<le> sl_level s"
    "\<And>i. i < maxLevel \<Longrightarrow> chain (nxt s i) (sl_header s) (lv s as i)"
    "back_links s as" "sl_count s = int (length as)" "sorted_wrt (\<lambda>a b. sc s a \<ge> sc s b) as"
    "sl_level s = 1 \<or> lv s as (sl_level s - 1) \<noteq> []"
  using assms by (auto simp: sl_inv_def)

lemma lv_append: "lv s (as @ bs) i = lv s as i @ lv s bs i"
  by (simp add: lv_def)

lemma lv_0: "sl_inv s (as @ bs) \<Longrightarrow> lv s as 0 = as \<and> lv s bs 0 = bs"
  using sl_invD(6) [of s "as @ bs"] by (force simp: lv_def filter_id_conv)

lemma lv_above: "sl_inv s (as @ bs) \<Longrightarrow> sl_level s \<le> i \<Longrightarrow> lv s as i = [] \<and> lv s bs i = []"
  using sl_invD(6) [of s "as @ bs"] by (force simp: lv_def filter_empty_conv)

lemma length_fresh: "sl_inv s as \<Longrightarrow> length as < sl_fresh s"
proof -
  assume i: "sl_inv s as"
  have "set (sl_header s # as) \<subseteq> {..<sl_fresh s}" using sl_invD(2) [OF i] by auto
  then have "card (set (sl_header s # as)) \<le> card {..<sl_fresh s}" by (intro card_mono) auto
  then show ?thesis using distinct_card [OF sl_invD(1) [OF i]] by simp
qed

text \<open>
  The search with a test that holds of a prefix \<open>P\<close> of the nodes: it stops, at every level, at the last
  node of the prefix that the level has.
\<close>

definition stop :: "'v SkipList \<Rightarrow> nat list \<Rightarrow> nat \<Rightarrow> nat" where
  "stop s P j = last (sl_header s # lv s P j)"

lemma stop_in: "stop s P j \<in> set (sl_header s # P)"
  by (auto simp: stop_def lv_def dest: last_in_set)

lemma stop_ht: "ht s (sl_header s) = maxLevel \<Longrightarrow> j < maxLevel \<Longrightarrow> j < ht s (stop s P j)"
  using last_in_set [of "lv s P j"] by (auto simp: stop_def lv_def)

lemma hop_stop:
  assumes inv: "sl_inv s (P @ Q)" and P: "\<forall>a\<in>set P. test (the (vl s a))" and Q: "\<forall>a\<in>set Q. \<not> test (the (vl s a))"
    and x: "x \<in> set (sl_header s # P)" "j < ht s x" and j: "j < maxLevel"
  shows "\<exists>k. hop (Suc (sl_fresh s)) test j x s = (Ok (stop s P j, k), s)"
proof -
  have "x \<in> set (sl_header s # lv s P j)" using x by (auto simp: lv_def)
  then obtain us vs where split: "sl_header s # lv s P j = us @ x # vs" by (meson split_list)
  have "chain (nxt s j) (sl_header s) (lv s P j @ lv s Q j)" using sl_invD(7) [OF inv j] by (simp add: lv_append)
  then have c: "chain (nxt s j) x (vs @ lv s Q j)"
    using split chain_append [of "nxt s j" "sl_header s" "tl us" x "vs @ lv s Q j"] by (cases us) auto
  have vs: "set vs \<subseteq> set (lv s P j)" using split by (cases us) auto
  have "length vs \<le> length (lv s P j)" using split by (cases us) auto
  also have "\<dots> \<le> length (P @ Q)" by (simp add: lv_def le_trans [OF length_filter_le])
  finally have len: "length vs < Suc (sl_fresh s)" using length_fresh [OF inv] by simp
  have alive: "\<forall>y\<in>set (vs @ lv s Q j). vl s y \<noteq> None"
    using sl_invD(2) [OF inv] vs by (auto simp: lv_def)
  have "hop (Suc (sl_fresh s)) test j x s = (Ok (last (x # vs), length vs), s)"
  proof (rule hop_chain [OF c alive _ _ len])
    show "\<forall>y\<in>set vs. test (the (vl s y))" using vs P by (auto simp: lv_def)
    show "lv s Q j \<noteq> [] \<longrightarrow> \<not> test (the (vl s (hd (lv s Q j))))"
      using Q hd_in_set [of "lv s Q j"] by (auto simp: lv_def)
  qed
  moreover have "last (x # vs) = stop s P j" unfolding stop_def split by simp
  ultimately show ?thesis by auto
qed

lemma descend_stop:
  assumes inv: "sl_inv s (P @ Q)" and P: "\<forall>a\<in>set P. test (the (vl s a))" and Q: "\<forall>a\<in>set Q. \<not> test (the (vl s a))"
  shows "x \<in> set (sl_header s # P) \<Longrightarrow> i \<le> ht s x \<Longrightarrow> i \<le> maxLevel \<Longrightarrow>
    \<exists>m. descend test i x s = (Ok (if i = 0 then x else stop s P 0, m, map (stop s P) [0..<i]), s)"
proof (induction i arbitrary: x)
  case (Suc i)
  obtain k where k: "hop (Suc (sl_fresh s)) test i x s = (Ok (stop s P i, k), s)"
    using hop_stop [OF inv P Q Suc.prems(1), of i] Suc.prems(2,3) by (meson Suc_le_lessD)
  have "i \<le> ht s (stop s P i)" using stop_ht [OF sl_invD(3) [OF inv], of i P] Suc.prems(3) by simp
  then obtain m where "descend test i (stop s P i) s = (Ok (if i = 0 then stop s P i else stop s P 0, m, map (stop s P) [0..<i]), s)"
    using Suc.IH [OF stop_in] Suc.prems(3) by (meson Suc_leD)
  then show ?case using k by simp
qed simp

text \<open>The nodes split into those before and those from the place of a value.\<close>

lemma sorted_split:
  assumes "sorted_wrt R xs" and "\<And>a b. R a b \<Longrightarrow> p b \<Longrightarrow> p a"
  shows "xs = filter p xs @ filter (\<lambda>a. \<not> p a) xs"
  using assms(1)
proof (induction xs)
  case (Cons a xs)
  show ?case
  proof (cases "p a")
    case False
    then have none: "\<forall>b\<in>set xs. \<not> p b" using Cons.prems assms(2) by auto
    then have "filter p xs = []" "filter (\<lambda>a. \<not> p a) xs = xs" by (auto simp: filter_empty_conv filter_id_conv)
    then show ?thesis using False by simp
  qed (use Cons in simp)
qed simp

lemma split_greater:
  assumes "sl_inv s as"
  obtains P Q where "as = P @ Q" "P = filter (\<lambda>a. sc s a > v) as" "Q = filter (\<lambda>a. \<not> sc s a > v) as"
  using sorted_split [OF sl_invD(10) [OF assms], of "\<lambda>a. sc s a > v"] by fastforce

lemma split_geq:
  assumes "sl_inv s as"
  obtains P Q where "as = P @ Q" "P = filter (\<lambda>a. sc s a \<ge> v) as" "Q = filter (\<lambda>a. \<not> sc s a \<ge> v) as"
  using sorted_split [OF sl_invD(10) [OF assms], of "\<lambda>a. sc s a \<ge> v"] by fastforce

lemma stop_0: "sl_inv s (P @ Q) \<Longrightarrow> stop s P 0 = last (sl_header s # P)"
  using lv_0 [of s P Q] by (simp add: stop_def)

lemma nxt_stop:
  assumes "sl_inv s (P @ Q)"
  shows "nxt s 0 (stop s P 0) = Some (case Q of [] \<Rightarrow> None | q # _ \<Rightarrow> Some q)"
proof -
  have "chain (nxt s 0) (sl_header s) (P @ Q)"
    using sl_invD(7) [OF assms, of 0] lv_0 [OF assms] by (simp add: maxLevel_def lv_append)
  from chain_last [OF this] have "chain (nxt s 0) (stop s P 0) Q" by (simp only: stop_0 [OF assms])
  then show ?thesis by (cases Q) auto
qed

lemmas next_stop = getNext_nxt [OF nxt_stop]

lemma search_header:
  assumes inv: "sl_inv s (P @ Q)" and P: "\<forall>a\<in>set P. test (the (vl s a))" and Q: "\<forall>a\<in>set Q. \<not> test (the (vl s a))"
  shows "\<exists>m. descend test (sl_level s) (sl_header s) s = (Ok (stop s P 0, m, map (stop s P) [0..<sl_level s]), s)"
  using descend_stop [OF inv P Q, of "sl_header s" "sl_level s"] sl_invD(3-5) [OF inv] by auto

section \<open>Finding\<close>

lemma sl_inv_findcount: "sl_inv (s\<lparr>sl_findcount := k\<rparr>) as = sl_inv s as"
  by (simp add: sl_inv_def lv_def back_links_def)

text \<open>The values in list order, and the first value that does not precede a given score.\<close>

definition vals :: "'v SkipList \<Rightarrow> nat list \<Rightarrow> 'v SkipValue list" where
  "vals s as = map (\<lambda>a. the (vl s a)) as"

definition at_or_below :: "int \<Rightarrow> 'v SkipValue list \<Rightarrow> 'v SkipValue option" where
  "at_or_below v xs = find (\<lambda>x. Score x \<le> v) xs"

lemma find_filter: "find p xs = (case filter p xs of [] \<Rightarrow> None | y # ys \<Rightarrow> Some y)"
  by (induction xs) auto

lemma sl_find_next:
  assumes inv: "sl_inv s as"
  shows "\<exists>x k Q. sl_find value s = (Ok x, s\<lparr>sl_findcount := k\<rparr>) \<and> Q = filter (\<lambda>a. \<not> sc s a > Score value) as \<and>
    getNext x 0 (s\<lparr>sl_findcount := k\<rparr>) = (Ok (case Q of [] \<Rightarrow> None | q # _ \<Rightarrow> Some q), s\<lparr>sl_findcount := k\<rparr>)"
proof -
  obtain P Q where pq: "as = P @ Q" "P = filter (\<lambda>a. sc s a > Score value) as" "Q = filter (\<lambda>a. \<not> sc s a > Score value) as"
    by (rule split_greater [OF inv])
  let ?test = "\<lambda>v. Compare v value < 0"
  have test: "\<forall>a\<in>set P. ?test (the (vl s a))" "\<forall>a\<in>set Q. \<not> ?test (the (vl s a))"
    unfolding pq(2,3) by (auto simp: Compare_def compare_consts)
  note inv' = inv [unfolded pq(1)]
  obtain m where m: "descend ?test (sl_level s) (sl_header s) s = (Ok (stop s P 0, m, map (stop s P) [0..<sl_level s]), s)"
    using search_header [OF inv' test] by blast
  let ?s = "s\<lparr>sl_findcount := sl_findcount s + int m\<rparr>"
  have "sl_find value s = (Ok (stop s P 0), ?s)" using m by (simp add: sl_find_def)
  moreover have "getNext (stop s P 0) 0 ?s = (Ok (case Q of [] \<Rightarrow> None | q # _ \<Rightarrow> Some q), ?s)"
    using next_stop [of ?s P Q] inv' by (simp add: sl_inv_findcount stop_def lv_def)
  ultimately show ?thesis using pq(3) by blast
qed

lemma vals_alive: "sl_inv s as \<Longrightarrow> a \<in> set as \<Longrightarrow> \<exists>n. deref a (s\<lparr>sl_findcount := k\<rparr>) = (Ok n, s\<lparr>sl_findcount := k\<rparr>) \<and> sn_Value n = the (vl s a)"
  using sl_invD(2) [of s as a] by (auto simp: deref_def vl_def)

lemma at_or_below_vals:
  "at_or_below v (vals s as) = (case filter (\<lambda>a. \<not> sc s a > v) as of [] \<Rightarrow> None | q # _ \<Rightarrow> Some (the (vl s q)))"
  unfolding at_or_below_def vals_def by (induction as) auto

lemma FindGreaterOrEqual_spec:
  assumes inv: "sl_inv s as"
  shows "\<exists>k. FindGreaterOrEqual value s = (Ok (at_or_below (Score value) (vals s as)), s\<lparr>sl_findcount := k\<rparr>)"
proof -
  obtain x k Q where f: "sl_find value s = (Ok x, s\<lparr>sl_findcount := k\<rparr>)" "Q = filter (\<lambda>a. \<not> sc s a > Score value) as"
    "getNext x 0 (s\<lparr>sl_findcount := k\<rparr>) = (Ok (case Q of [] \<Rightarrow> None | q # _ \<Rightarrow> Some q), s\<lparr>sl_findcount := k\<rparr>)"
    using sl_find_next [OF inv] by blast
  show ?thesis
  proof (cases Q)
    case Nil
    then show ?thesis using f(1,3) at_or_below_vals [of "Score value" s as, folded f(2)] by (auto simp: FindGreaterOrEqual_def)
  next
    case (Cons q Q')
    have "q \<in> set as" using Cons f(2) by (metis filter_is_subset list.set_intros(1) subsetD)
    then obtain n where "deref q (s\<lparr>sl_findcount := k\<rparr>) = (Ok n, s\<lparr>sl_findcount := k\<rparr>)" "sn_Value n = the (vl s q)"
      using vals_alive [OF inv] by blast
    then show ?thesis using f(1,3) Cons at_or_below_vals [of "Score value" s as, folded f(2)] by (auto simp: FindGreaterOrEqual_def)
  qed
qed

lemma find_equal:
  assumes "sorted_wrt (\<lambda>a b. f a \<ge> f b) as"
  shows "find (\<lambda>a. f a = v) as = (case filter (\<lambda>a. \<not> f a > (v :: int)) as of [] \<Rightarrow> None | q # _ \<Rightarrow> if f q = v then Some q else None)"
  using assms
proof (induction as)
  case (Cons a as)
  have "find (\<lambda>a. f a = v) as = None" if "f a < v" using Cons.prems that by (force simp: find_None_iff)
  then show ?case using Cons by auto
qed simp

lemma find_map: "find p (map f xs) = map_option f (find (\<lambda>x. p (f x)) xs)"
  by (induction xs) auto

lemma sl_Find_spec:
  assumes inv: "sl_inv s as"
  shows "\<exists>k. sl_Find value s = (Ok (find (\<lambda>x. Score x = Score value) (vals s as)), s\<lparr>sl_findcount := k\<rparr>)"
proof -
  obtain x k Q where f: "sl_find value s = (Ok x, s\<lparr>sl_findcount := k\<rparr>)" "Q = filter (\<lambda>a. \<not> sc s a > Score value) as"
    "getNext x 0 (s\<lparr>sl_findcount := k\<rparr>) = (Ok (case Q of [] \<Rightarrow> None | q # _ \<Rightarrow> Some q), s\<lparr>sl_findcount := k\<rparr>)"
    using sl_find_next [OF inv] by blast
  have eq: "find (\<lambda>x. Score x = Score value) (vals s as) =
      (case Q of [] \<Rightarrow> None | q # _ \<Rightarrow> if sc s q = Score value then Some (the (vl s q)) else None)"
    unfolding vals_def find_map find_equal [OF sl_invD(10) [OF inv]] f(2) [symmetric] by (auto split: list.split)
  show ?thesis
  proof (cases Q)
    case Nil
    then show ?thesis using f(1,3) eq by (auto simp: sl_Find_def)
  next
    case (Cons q Q')
    have "q \<in> set as" using Cons f(2) by (metis filter_is_subset list.set_intros(1) subsetD)
    then obtain n where "deref q (s\<lparr>sl_findcount := k\<rparr>) = (Ok n, s\<lparr>sl_findcount := k\<rparr>)" "sn_Value n = the (vl s q)"
      using vals_alive [OF inv] by blast
    then show ?thesis using f(1,3) Cons eq by (auto simp: sl_Find_def Compare_def compare_consts)
  qed
qed

section \<open>Inserting\<close>

lemma level_from_bounds: "level \<le> maxLevel \<Longrightarrow> level \<le> level_from rnd level \<and> level_from rnd level \<le> maxLevel"
proof (induction rnd level rule: level_from.induct)
  case (1 rnd level)
  then show ?case by (subst (1 2) level_from.simps) auto
qed

lemma randomLevel_bounds: "1 \<le> randomLevel rnd \<and> randomLevel rnd \<le> maxLevel"
  using level_from_bounds [of 1 rnd] by (simp add: randomLevel_def maxLevel_def)

lemma link_loop_effect:
  assumes "\<forall>j<length us. i + j < ht s (us ! j) \<and> us ! j \<noteq> x" and "i + length us \<le> ht s x"
  shows "\<exists>s'. link_loop x i us s = (Ok (), s') \<and> same_nodes s s' \<and>
    (\<forall>j. nxt s' j = (if i \<le> j \<and> j < i + length us
      then (nxt s j)(x := nxt s j (us ! (j - i)), us ! (j - i) := Some (Some x)) else nxt s j))"
  using assms
proof (induction us arbitrary: i s)
  case (Cons u us)
  have u: "i < ht s u" "u \<noteq> x" using Cons.prems(1) [rule_format, of 0] by auto
  then obtain y where y: "nxt s i u = Some y" by (auto simp: nxt_ht)
  have "i < ht s x" using Cons.prems(2) by simp
  from setNext_effect [OF this, of y]
  obtain s1 where s1: "setNext x i y s = (Ok (), s1)" "same_nodes s s1" "\<And>j. nxt s1 j = (if j = i then (nxt s i)(x := Some y) else nxt s j)" by blast
  have "i < ht s1 u" using u(1) same_nodesD(7) [OF s1(2)] by simp
  from setNext_effect [OF this, of "Some x"]
  obtain s2 where s2: "setNext u i (Some x) s1 = (Ok (), s2)" "same_nodes s1 s2"
    "\<And>j. nxt s2 j = (if j = i then (nxt s1 i)(u := Some (Some x)) else nxt s1 j)" by blast
  have hts: "ht s2 = ht s" using same_nodesD(7) [OF s1(2)] same_nodesD(7) [OF s2(2)] by simp
  have "\<forall>j<length us. Suc i + j < ht s2 (us ! j) \<and> us ! j \<noteq> x" "Suc i + length us \<le> ht s2 x"
    using Cons.prems(1) [rule_format, of "Suc j" for j] Cons.prems(2) hts by auto
  from Cons.IH [OF this]
  obtain s3 where s3: "link_loop x (Suc i) us s2 = (Ok (), s3)" "same_nodes s2 s3"
    "\<And>j. nxt s3 j = (if Suc i \<le> j \<and> j < Suc i + length us
      then (nxt s2 j)(x := nxt s2 j (us ! (j - Suc i)), us ! (j - Suc i) := Some (Some x)) else nxt s2 j)" by blast
  have "link_loop x i (u # us) s = (Ok (), s3)" using y s1(1) s2(1) s3(1) getNext_nxt [OF y] by simp
  moreover have "same_nodes s s3" using s1(2) s2(2) s3(2) by (blast intro: same_nodes_trans)
  moreover have "nxt s3 j = (if i \<le> j \<and> j < i + length (u # us)
      then (nxt s j)(x := nxt s j ((u # us) ! (j - i)), (u # us) ! (j - i) := Some (Some x)) else nxt s j)" for j
  proof (cases "j = i")
    case True
    then show ?thesis using s3(3) [of j] s2(3) [of j] s1(3) [of j] y by simp
  next
    case False
    have "j - i = Suc (j - Suc i)" if "Suc i \<le> j" using that by simp
    then show ?thesis using False s3(3) [of j] s2(3) [of j] s1(3) [of j] by auto
  qed
  ultimately show ?case by blast
qed auto

lemma setPrev_effect:
  assumes "0 < ht s x"
  shows "\<exists>s'. setPrev x y s = (Ok (), s') \<and> s' = s\<lparr>sl_nodes := sl_nodes s'\<rparr> \<and> ht s' = ht s \<and> nxt s' = nxt s \<and> vl s' = vl s \<and>
    prv s' = (prv s)(x := y)"
proof -
  obtain n where n: "sl_nodes s x = Some n" using ht_alive [OF assms] by blast
  let ?s = "s\<lparr>sl_nodes := (sl_nodes s)(x \<mapsto> n\<lparr>sn_prev := y\<rparr>)\<rparr>"
  have "setPrev x y s = (Ok (), ?s)" using n by (simp add: setPrev_def deref_def putNode_def)
  moreover have "ht ?s = ht s" "nxt ?s = nxt s" "vl ?s = vl s" "prv ?s = (prv s)(x := y)"
    using n by (auto simp: ht_def nxt_def vl_def prv_def fun_eq_iff)
  ultimately show ?thesis by (intro exI [of _ ?s]) auto
qed

lemma back_links_insert:
  assumes "back_links s (P @ Q)" and "distinct (P @ x # Q)"
    and "prv s' = (case Q of [] \<Rightarrow> id | q # _ \<Rightarrow> (\<lambda>f. f(q := Some x))) ((prv s)(x := if P = [] then None else Some (last P)))"
    and "sl_tail s' = (if Q = [] then Some x else sl_tail s)"
  shows "back_links s' (P @ x # Q)"
  unfolding back_links_def
proof (intro conjI allI impI)
  fix k assume k: "k < length (P @ x # Q)"
  have old: "prv s ((P @ Q) ! j) = (if j = 0 then None else Some ((P @ Q) ! (j - 1)))" if "j < length (P @ Q)" for j
    using assms(1) that by (simp add: back_links_def)
  consider "k < length P" | "k = length P" | "k = Suc (length P)" | j where "k = length P + 2 + j"
    by (metis add.commute add_2_eq_Suc less_antisym linorder_neqE_nat nat_less_le not_less_eq le_Suc_ex Suc_leI)
  then show "prv s' ((P @ x # Q) ! k) = (if k = 0 then None else Some ((P @ x # Q) ! (k - 1)))"
  proof cases
    case 1
    then have "P ! k \<noteq> x" "P ! k \<notin> set Q" using assms(2) nth_mem [of k P] by (auto simp: disjoint_iff)
    then show ?thesis using 1 old [of k] assms(3) by (cases Q) (auto simp: nth_append)
  next
    case 2
    then show ?thesis using assms(2,3) by (cases Q) (auto simp: nth_append last_conv_nth)
  next
    case 3
    then show ?thesis using assms(3) k by (cases Q) (auto simp: nth_append)
  next
    case 4
    then obtain q Q' where Q: "Q = q # Q'" "j < length Q'" using k by (cases Q) auto
    have "Q' ! j \<noteq> x" "Q' ! j \<noteq> q" using assms(2) Q nth_mem [of j Q'] by auto
    then show ?thesis using 4 Q old [of "length P + Suc j"] assms(3) by (auto simp: nth_append nth_Cons split: nat.splits)
  qed
next
  show "sl_tail s' = (if P @ x # Q = [] then None else Some (last (P @ x # Q)))"
    using assms(1,4) by (auto simp: back_links_def)
qed

lemma insert_inv:
  assumes inv: "sl_inv s (P @ Q)" and x: "x = sl_fresh s" and L: "1 \<le> L" "L \<le> maxLevel"
    and flds: "sl_header s' = sl_header s" "sl_fresh s' = Suc (sl_fresh s)" "sl_level s' = max L (sl_level s)" "sl_count s' = sl_count s + 1"
    and ht: "ht s' = (ht s)(x := L)" and vl: "vl s' = (vl s)(x := Some v)"
    and nx: "\<And>j. j < L \<Longrightarrow> nxt s' j = (nxt s j)(x := nxt s j (stop s P j), stop s P j := Some (Some x))"
      "\<And>j. L \<le> j \<Longrightarrow> nxt s' j = (nxt s j)(x := None)"
    and links: "prv s' = (case Q of [] \<Rightarrow> id | q # _ \<Rightarrow> (\<lambda>f. f(q := Some x))) ((prv s)(x := if P = [] then None else Some (last P)))"
      "sl_tail s' = (if Q = [] then Some x else sl_tail s)"
    and sc: "\<forall>a\<in>set P. sc s a \<ge> Score v" "\<forall>a\<in>set Q. sc s a < Score v"
  shows "sl_inv s' (P @ x # Q)"
proof -
  note I = sl_invD [OF inv]
  have fresh: "x \<notin> set (sl_header s # P @ Q)" using I(2) x by (metis less_irrefl)
  have dist: "distinct (sl_header s # P @ x # Q)" using I(1) fresh by auto
  have lv: "lv s' as j = lv s as j" if "x \<notin> set as" for as j
    using that unfolding lv_def by (intro filter_cong) (auto simp: ht)
  have lvs: "lv s' (P @ x # Q) j = lv s P j @ (if j < L then [x] else []) @ lv s Q j" for j
  proof -
    have "lv s' (P @ x # Q) j = lv s' P j @ lv s' [x] j @ lv s' Q j" by (simp add: lv_def)
    then show ?thesis using lv fresh by (simp add: lv_def ht)
  qed
  have chains: "chain (nxt s' j) (sl_header s) (lv s' (P @ x # Q) j)" if j: "j < maxLevel" for j
  proof -
    have old: "chain (nxt s j) (sl_header s) (lv s P j @ lv s Q j)" using I(7) [OF j] by (simp add: lv_append)
    have d: "distinct (sl_header s # lv s P j @ lv s Q j)" "x \<notin> set (sl_header s # lv s P j @ lv s Q j)"
      using I(1) fresh by (auto simp: lv_def)
    show ?thesis
    proof (cases "j < L")
      case True
      then show ?thesis using chain_insert [OF old d, of "stop s P j"] by (simp add: lvs nx(1) stop_def)
    next
      case False
      then have "chain (nxt s' j) (sl_header s) (lv s P j @ lv s Q j) = chain (nxt s j) (sl_header s) (lv s P j @ lv s Q j)"
        using d(2) nx(2) [of j] by (intro chain_cong) auto
      then show ?thesis using False old by (simp add: lvs)
    qed
  qed
  have sorted: "sorted_wrt (\<lambda>a b. Score (the (vl s' a)) \<ge> Score (the (vl s' b))) (P @ x # Q)"
  proof -
    have "sorted_wrt (\<lambda>a b. Score (the (vl s' a)) \<ge> Score (the (vl s' b))) (P @ Q)"
      using I(10) by (rule sorted_wrt_mono_rel [rotated]) (use fresh in \<open>auto simp: vl\<close>)
    then show ?thesis using sc fresh by (auto simp: sorted_wrt_append vl intro: less_imp_le order_trans [OF less_imp_le])
  qed
  have top: "sl_level s' = 1 \<or> lv s' (P @ x # Q) (sl_level s' - 1) \<noteq> []"
    unfolding lvs using I(11) [unfolded lv_append] I(4) L(1) by (auto simp: flds max_def)
  have heights: "\<forall>a\<in>set (P @ x # Q). 1 \<le> ht s' a \<and> ht s' a \<le> sl_level s'"
    using I(6) L(1) by (fastforce simp: ht flds)
  have alive: "\<forall>a\<in>set (sl_header s # P @ x # Q). vl s' a \<noteq> None \<and> a < sl_fresh s'"
    using I(2) x by (fastforce simp: vl flds less_Suc_eq)
  have bl: "back_links s' (P @ x # Q)" by (rule back_links_insert [OF I(8) _ links]) (use dist in simp)
  show ?thesis
    unfolding sl_inv_def flds(1)
    using dist alive heights chains bl sorted top I(3,4,5,9) L fresh by (simp add: flds ht)
qed

lemma newskipListNode_effect:
  assumes "x = sl_fresh s"
  shows "\<exists>s'. newskipListNode L v s = (Ok x, s') \<and> s' = s\<lparr>sl_nodes := sl_nodes s', sl_fresh := Suc x\<rparr> \<and>
    ht s' = (ht s)(x := L) \<and> vl s' = (vl s)(x := Some v) \<and> prv s' = (prv s)(x := None) \<and>
    (\<forall>j. nxt s' j = (nxt s j)(x := if j < L then Some None else None))"
  using assms by (auto simp: newskipListNode_def ht_def vl_def prv_def nxt_def fun_eq_iff)

lemma updates_take:
  assumes inv: "sl_inv s (P @ Q)" and L: "1 \<le> L" "L \<le> maxLevel"
  shows "take L (map (stop s P) [0..<sl_level s] @ replicate (L - sl_level s) (sl_header s)) = map (stop s P) [0..<L]"
proof (rule nth_equalityI)
  fix i assume "i < length (take L (map (stop s P) [0..<sl_level s] @ replicate (L - sl_level s) (sl_header s)))"
  then have i: "i < L" by simp
  show "take L (map (stop s P) [0..<sl_level s] @ replicate (L - sl_level s) (sl_header s)) ! i = map (stop s P) [0..<L] ! i"
  proof (cases "i < sl_level s")
    case True
    then show ?thesis using i by (simp add: nth_append)
  next
    case False
    then have "lv s P i = []" using lv_above [OF inv, of i] by simp
    then show ?thesis using i False by (simp add: nth_append stop_def)
  qed
qed simp

text \<open>The place of a value: behind all values of at least its score.\<close>

definition insert_value :: "'v SkipValue \<Rightarrow> 'v SkipValue list \<Rightarrow> 'v SkipValue list" where
  "insert_value v xs = filter (\<lambda>x. Score x \<ge> Score v) xs @ v # filter (\<lambda>x. \<not> Score x \<ge> Score v) xs"

lemma sl_Insert_spec:
  assumes inv: "sl_inv s as"
  shows "\<exists>s' as'. sl_Insert rnd value s = (Ok 1, s') \<and> sl_inv s' as' \<and> vals s' as' = insert_value value (vals s as)"
proof -
  obtain P Q where pq: "as = P @ Q" "P = filter (\<lambda>a. sc s a \<ge> Score value) as" "Q = filter (\<lambda>a. \<not> sc s a \<ge> Score value) as"
    by (rule split_geq [OF inv])
  let ?test = "\<lambda>v. Compare v value \<le> 0"
  have test: "\<forall>a\<in>set P. ?test (the (vl s a))" "\<forall>a\<in>set Q. \<not> ?test (the (vl s a))"
    unfolding pq(2,3) by (auto simp: Compare_def compare_consts)
  note inv' = inv [unfolded pq(1)]
  note I = sl_invD [OF inv']
  define L x where "L = randomLevel rnd" and "x = sl_fresh s"
  have L: "1 \<le> L" "L \<le> maxLevel" using randomLevel_bounds [of rnd] by (auto simp: L_def)
  obtain m where m: "descend ?test (sl_level s) (sl_header s) s = (Ok (stop s P 0, m, map (stop s P) [0..<sl_level s]), s)"
    using search_header [OF inv' test] by blast
  let ?s1 = "s\<lparr>sl_level := max L (sl_level s)\<rparr>"
  obtain s2 where s2: "newskipListNode L value ?s1 = (Ok x, s2)" "s2 = ?s1\<lparr>sl_nodes := sl_nodes s2, sl_fresh := Suc x\<rparr>"
    "ht s2 = (ht s)(x := L)" "vl s2 = (vl s)(x := Some value)" "prv s2 = (prv s)(x := None)"
    "\<And>j. nxt s2 j = (nxt s j)(x := if j < L then Some None else None)"
    using newskipListNode_effect [of x ?s1 L "value"] by (auto simp: x_def)
  have away: "stop s P j \<noteq> x" for j using stop_in [of s P j] I(2) by (fastforce simp: x_def)
  have "\<forall>j<length (map (stop s P) [0..<L]). 0 + j < ht s2 (map (stop s P) [0..<L] ! j) \<and> map (stop s P) [0..<L] ! j \<noteq> x"
    using L(2) away stop_ht [OF I(3)] by (auto simp: s2(3))
  from link_loop_effect [OF this]
  obtain s3 where s3: "link_loop x 0 (map (stop s P) [0..<L]) s2 = (Ok (), s3)" "same_nodes s2 s3"
    "\<And>j. nxt s3 j = (if j < L then (nxt s2 j)(x := nxt s2 j (stop s P j), stop s P j := Some (Some x)) else nxt s2 j)"
    by (auto simp: s2(3))
  have f3: "sl_header s3 = sl_header s" "sl_tail s3 = sl_tail s" "sl_count s3 = sl_count s" "sl_level s3 = max L (sl_level s)"
    "sl_fresh s3 = Suc x" "ht s3 = (ht s)(x := L)" "vl s3 = (vl s)(x := Some value)" "prv s3 = (prv s)(x := None)"
    using same_nodesD [OF s3(2)] s2(3-5) by (simp_all, (subst s2(2), simp)+)
  have stop0: "stop s P 0 = (if P = [] then sl_header s else last P)" using stop_0 [OF inv'] by simp
  have lastP: "P \<noteq> [] \<Longrightarrow> last P \<noteq> sl_header s" using I(1) by (metis Un_iff distinct.simps(2) last_in_set set_append)
  obtain s4 where s4: "(if stop s P 0 \<noteq> sl_header s then setPrev x (Some (stop s P 0)) else returnO ()) s3 = (Ok (), s4)"
    "s4 = s3\<lparr>sl_nodes := sl_nodes s4\<rparr>" "ht s4 = ht s3" "nxt s4 = nxt s3" "vl s4 = vl s3"
    "prv s4 = (prv s)(x := if P = [] then None else Some (last P))"
    using setPrev_effect [of s3 x "Some (last P)"] L(1) stop0 lastP f3 by (cases "P = []") (auto simp: fun_eq_iff)
  have f4: "sl_header s4 = sl_header s" "sl_tail s4 = sl_tail s" "sl_count s4 = sl_count s" "sl_level s4 = max L (sl_level s)" "sl_fresh s4 = Suc x"
    using f3 by (subst s4(2), simp)+
  have "nxt s4 0 x = Some (case Q of [] \<Rightarrow> None | q # _ \<Rightarrow> Some q)"
    using L(1) away away [symmetric] nxt_stop [OF inv'] by (simp add: s4(4) s3(3) s2(6))
  note next4 = getNext_nxt [OF this]
  obtain s5 where s5: "(case (case Q of [] \<Rightarrow> None | q # _ \<Rightarrow> Some q) of Some y \<Rightarrow> setPrev y (Some x) | None \<Rightarrow> (\<lambda>s. (Ok (), s\<lparr>sl_tail := Some x\<rparr>))) s4 = (Ok (), s5)"
    "sl_header s5 = sl_header s" "sl_tail s5 = (if Q = [] then Some x else sl_tail s)" "sl_count s5 = sl_count s"
    "sl_level s5 = max L (sl_level s)" "sl_fresh s5 = Suc x" "ht s5 = (ht s)(x := L)" "vl s5 = (vl s)(x := Some value)" "nxt s5 = nxt s3"
    "prv s5 = (case Q of [] \<Rightarrow> id | q # _ \<Rightarrow> (\<lambda>f. f(q := Some x))) ((prv s)(x := if P = [] then None else Some (last P)))"
  proof (cases Q)
    case Nil
    then show ?thesis using that [of "s4\<lparr>sl_tail := Some x\<rparr>"] f4 f3 s4 by simp
  next
    case (Cons q Q')
    then have "0 < ht s4 q" using I(6) [of q] f3(6) s4(3) L(1) by (auto simp: Suc_le_eq)
    from setPrev_effect [OF this, of "Some x"]
    obtain s5 where "setPrev q (Some x) s4 = (Ok (), s5)" "s5 = s4\<lparr>sl_nodes := sl_nodes s5\<rparr>" "ht s5 = ht s4" "nxt s5 = nxt s4" "vl s5 = vl s4"
      "prv s5 = (prv s4)(q := Some x)" by blast
    then show ?thesis using that [of s5] Cons f4 f3 s4(3-6) by simp (metis SkipList.select_convs SkipList.surjective SkipList.update_convs(6))
  qed
  let ?s = "s5\<lparr>sl_count := sl_count s5 + 1\<rparr>"
  have first: "(map (stop s P) [0..<sl_level s] @ replicate (L - sl_level s) (sl_header s)) ! 0 = stop s P 0"
    using I(4) by (simp add: nth_append)
  have "sl_Insert rnd value s = (Ok 1, ?s)"
    using m s2(1) s3(1) s4(1) next4 s5(1) unfolding sl_Insert_def Let_def L_def [symmetric]
    by (cases "stop s P 0 = sl_header s") (simp_all add: updates_take [OF inv' L] first del: take_append)
  moreover have "sl_inv ?s (P @ x # Q)"
  proof (rule insert_inv [OF inv' x_def L, where v = "value"])
    show "nxt ?s j = (nxt s j)(x := nxt s j (stop s P j), stop s P j := Some (Some x))" if "j < L" for j
      using that away [of j] by (simp add: s5(9) s3(3) s2(6))
    show "nxt ?s j = (nxt s j)(x := None)" if "L \<le> j" for j
      using that by (simp add: s5(9) s3(3) s2(6))
    show "\<forall>a\<in>set P. sc s a \<ge> Score value" "\<forall>a\<in>set Q. sc s a < Score value"
      unfolding pq(2,3) by auto
  qed (simp_all add: s5 x_def [symmetric])
  moreover have "vals ?s (P @ x # Q) = insert_value value (vals s as)"
  proof -
    have "x \<notin> set (P @ Q)" using I(2) x_def by (metis less_irrefl list.set_intros(2))
    then have "vals ?s (P @ x # Q) = vals s P @ value # vals s Q" by (auto simp: vals_def s5(8))
    also have "vals s P = filter (\<lambda>v. Score v \<ge> Score value) (vals s as)"
      unfolding vals_def filter_map comp_def by (subst pq(2)) simp
    also have "vals s Q = filter (\<lambda>v. \<not> Score v \<ge> Score value) (vals s as)"
      unfolding vals_def filter_map comp_def by (subst pq(3)) simp
    finally show ?thesis by (simp add: insert_value_def)
  qed
  ultimately show ?thesis by blast
qed

section \<open>Deleting\<close>

lemma unlink_loop_effect:
  assumes "\<forall>j<length us. i + j < ht s (us ! j) \<and> (nxt s (i + j) (us ! j) = Some (Some x) \<longrightarrow> i + j < ht s x)"
  shows "\<exists>s'. unlink_loop x i us s = (Ok (), s') \<and> same_nodes s s' \<and>
    (\<forall>j. nxt s' j = (if i \<le> j \<and> j < i + length us \<and> nxt s j (us ! (j - i)) = Some (Some x)
      then (nxt s j)(us ! (j - i) := nxt s j x) else nxt s j))"
  using assms
proof (induction us arbitrary: i s)
  case (Cons u us)
  have u: "i < ht s u" "nxt s i u = Some (Some x) \<Longrightarrow> i < ht s x" using Cons.prems [rule_format, of 0] by auto
  then obtain y where y: "nxt s i u = Some y" by (auto simp: nxt_ht)
  obtain s1 where s1: "(if y = Some x then andThen (getNext x i) (\<lambda>y. setNext u i y) else returnO ()) s = (Ok (), s1)" "same_nodes s s1"
    "\<And>j. nxt s1 j = (if j = i \<and> nxt s i u = Some (Some x) then (nxt s i)(u := nxt s i x) else nxt s j)"
  proof (cases "y = Some x")
    case True
    then obtain z where z: "nxt s i x = Some z" using u(2) y by (auto simp: nxt_ht)
    from setNext_effect [OF u(1), of z] that show ?thesis using True y z getNext_nxt [OF z] by auto
  next
    case False
    then show ?thesis using that [of s] y by simp
  qed
  have hts: "ht s1 = ht s" using same_nodesD(7) [OF s1(2)] .
  have "\<forall>j<length us. Suc i + j < ht s1 (us ! j) \<and> (nxt s1 (Suc i + j) (us ! j) = Some (Some x) \<longrightarrow> Suc i + j < ht s1 x)"
    using Cons.prems [rule_format, of "Suc j" for j] hts s1(3) by auto
  from Cons.IH [OF this]
  obtain s2 where s2: "unlink_loop x (Suc i) us s1 = (Ok (), s2)" "same_nodes s1 s2"
    "\<And>j. nxt s2 j = (if Suc i \<le> j \<and> j < Suc i + length us \<and> nxt s1 j (us ! (j - Suc i)) = Some (Some x)
      then (nxt s1 j)(us ! (j - Suc i) := nxt s1 j x) else nxt s1 j)" by blast
  have "unlink_loop x i (u # us) s = (Ok (), s2)" using getNext_nxt [OF y] s1(1) s2(1) by simp
  moreover have "same_nodes s s2" using s1(2) s2(2) by (rule same_nodes_trans)
  moreover have "nxt s2 j = (if i \<le> j \<and> j < i + length (u # us) \<and> nxt s j ((u # us) ! (j - i)) = Some (Some x)
      then (nxt s j)((u # us) ! (j - i) := nxt s j x) else nxt s j)" for j
  proof (cases "j = i")
    case True
    then show ?thesis using s2(3) [of j] s1(3) [of j] by simp
  next
    case False
    have "j - i = Suc (j - Suc i)" if "Suc i \<le> j" using that by simp
    then show ?thesis using False s2(3) [of j] s1(3) [of j] by auto
  qed
  ultimately show ?case by blast
qed auto

lemma shrink_loop_effect:
  assumes "ht s (sl_header s) = maxLevel" and "1 \<le> l" "l \<le> maxLevel"
  shows "\<exists>l'. shrink_loop l s = (Ok (), s\<lparr>sl_level := l'\<rparr>) \<and> 1 \<le> l' \<and> l' \<le> l \<and>
    (\<forall>j. l' \<le> j \<and> j < l \<longrightarrow> nxt s j (sl_header s) = Some None) \<and>
    (l' = 1 \<or> nxt s (l' - 1) (sl_header s) \<noteq> Some None)"
  using assms(2,3)
proof (induction l)
  case (Suc l)
  show ?case
  proof (cases "1 < Suc l")
    case False
    then show ?thesis using Suc.prems by (auto simp: shrink_loop.simps [of "Suc 0"] intro!: exI [of _ "Suc l"])
  next
    case True
    obtain y where y: "nxt s l (sl_header s) = Some y" using Suc.prems assms(1) nxt_ht [of l s "sl_header s"] by auto
    show ?thesis
    proof (cases y)
      case None
      then obtain l' where "shrink_loop l s = (Ok (), s\<lparr>sl_level := l'\<rparr>)" "1 \<le> l'" "l' \<le> l"
        "\<forall>j. l' \<le> j \<and> j < l \<longrightarrow> nxt s j (sl_header s) = Some None" "l' = 1 \<or> nxt s (l' - 1) (sl_header s) \<noteq> Some None"
        using Suc True by auto
      then show ?thesis using True None getNext_nxt [OF y] y
        by (auto simp: shrink_loop.simps [of "Suc l"] less_Suc_eq intro!: exI [of _ l'])
    next
      case (Some z)
      then show ?thesis using True getNext_nxt [OF y] y
        by (auto simp: shrink_loop.simps [of "Suc l"] intro!: exI [of _ "Suc l"])
    qed
  qed
qed simp

lemma back_links_delete:
  assumes "back_links s (P @ x # Q)" and "distinct (P @ x # Q)"
    and "prv s' = (case Q of [] \<Rightarrow> prv s | q # _ \<Rightarrow> (prv s)(q := prv s x))"
    and "sl_tail s' = (if Q = [] then prv s x else sl_tail s)"
  shows "back_links s' (P @ Q)"
  unfolding back_links_def
proof (intro conjI allI impI)
  have old: "prv s ((P @ x # Q) ! j) = (if j = 0 then None else Some ((P @ x # Q) ! (j - 1)))" if "j < length (P @ x # Q)" for j
    using assms(1) that by (simp add: back_links_def)
  have px: "prv s x = (if P = [] then None else Some (last P))" using old [of "length P"] by (simp add: nth_append last_conv_nth)
  then show "sl_tail s' = (if P @ Q = [] then None else Some (last (P @ Q)))"
    using assms(1,4) by (auto simp: back_links_def)
  fix k assume k: "k < length (P @ Q)"
  consider "k < length P" | "k = length P" | j where "k = length P + Suc j"
    by (metis add_Suc_right less_imp_Suc_add linorder_neqE_nat)
  then show "prv s' ((P @ Q) ! k) = (if k = 0 then None else Some ((P @ Q) ! (k - 1)))"
  proof cases
    case 1
    then have "P ! k \<notin> set Q" using assms(2) nth_mem [of k P] by (auto simp: disjoint_iff)
    then show ?thesis using 1 old [of k] assms(3) by (cases Q) (auto simp: nth_append)
  next
    case 2
    then show ?thesis using k px assms(3) by (cases Q) (auto simp: nth_append last_conv_nth)
  next
    case 3
    then obtain q Q' where Q: "Q = q # Q'" "j < length Q'" using k by (cases Q) auto
    have "Q' ! j \<noteq> q" using assms(2) Q nth_mem [of j Q'] by auto
    then show ?thesis using 3 Q old [of "length P + Suc (Suc j)"] assms(3) by (auto simp: nth_append nth_Cons split: nat.splits)
  qed
qed

lemma delete_inv:
  assumes inv: "sl_inv s (P @ x # Q)"
    and flds: "sl_header s' = sl_header s" "sl_fresh s' = sl_fresh s" "sl_count s' = sl_count s - 1" "ht s' = ht s" "vl s' = vl s"
    and nx: "\<And>j. nxt s' j = (if j < ht s x then (nxt s j)(stop s P j := nxt s j x) else nxt s j)"
    and links: "prv s' = (case Q of [] \<Rightarrow> prv s | q # _ \<Rightarrow> (prv s)(q := prv s x))" "sl_tail s' = (if Q = [] then prv s x else sl_tail s)"
    and level: "1 \<le> sl_level s'" "sl_level s' \<le> sl_level s" "\<And>j. sl_level s' \<le> j \<Longrightarrow> j < sl_level s \<Longrightarrow> nxt s' j (sl_header s) = Some None"
      "sl_level s' = 1 \<or> nxt s' (sl_level s' - 1) (sl_header s) \<noteq> Some None"
  shows "sl_inv s' (P @ Q)"
proof -
  note I = sl_invD [OF inv]
  have lvs: "lv s' as j = lv s as j" for as j by (simp add: lv_def flds)
  have chains: "chain (nxt s' j) (sl_header s) (lv s (P @ Q) j)" if j: "j < maxLevel" for j
  proof (cases "j < ht s x")
    case True
    then have old: "chain (nxt s j) (sl_header s) (lv s P j @ x # lv s Q j)" using I(7) [OF j] by (simp add: lv_def)
    have d: "distinct (sl_header s # lv s P j @ x # lv s Q j)" using I(1) by (auto simp: lv_def)
    show ?thesis using True chain_delete [OF old d, of "stop s P j"] by (simp add: nx stop_def lv_append)
  next
    case False
    then show ?thesis using I(7) [OF j] by (simp add: nx lv_def)
  qed
  have heights: "1 \<le> ht s a \<and> ht s a \<le> sl_level s'" if a: "a \<in> set (P @ Q)" for a
  proof (rule conjI)
    show one: "1 \<le> ht s a" using I(6) a by auto
    show "ht s a \<le> sl_level s'"
    proof (rule ccontr)
      assume "\<not> ht s a \<le> sl_level s'"
      then have j: "sl_level s' \<le> ht s a - 1" "ht s a - 1 < sl_level s" "ht s a - 1 < maxLevel" using I(5) I(6) [of a] a one by auto
      have "a \<in> set (lv s (P @ Q) (ht s a - 1))" using a one by (auto simp: lv_def)
      then show False using chains [OF j(3)] level(3) [OF j(1,2)] by (cases "lv s (P @ Q) (ht s a - 1)") auto
    qed
  qed
  have top: "sl_level s' = 1 \<or> lv s (P @ Q) (sl_level s' - 1) \<noteq> []"
    using level(4) chains [of "sl_level s' - 1"] level(1,2) I(5) by (cases "lv s (P @ Q) (sl_level s' - 1)") auto
  have sorted: "sorted_wrt (\<lambda>a b. sc s a \<ge> sc s b) (P @ Q)" using I(10) by (auto simp: sorted_wrt_append)
  have bl: "back_links s' (P @ Q)" by (rule back_links_delete [OF I(8) _ links]) (use I(1) in simp)
  show ?thesis
    unfolding sl_inv_def flds lvs
    using I(1,2,3,5,9) heights chains top sorted bl level(1,2) by auto
qed

text \<open>Removing the first value of a score.\<close>

fun del_first :: "int \<Rightarrow> 'v SkipValue list \<Rightarrow> 'v SkipValue list" where
  "del_first v [] = []"
| "del_first v (x # xs) = (if Score x = v then xs else x # del_first v xs)"

lemma del_first_append: "\<forall>x\<in>set xs. Score x \<noteq> v \<Longrightarrow> del_first v (xs @ ys) = xs @ del_first v ys"
  by (induction xs) auto

lemma nxt_before:
  assumes inv: "sl_inv s (P @ x # Q)" and j: "j < maxLevel"
  shows "nxt s j (stop s P j) = Some (Some x) \<longleftrightarrow> j < ht s x"
proof -
  have c: "chain (nxt s j) (stop s P j) (lv s (x # Q) j)"
    using chain_last sl_invD(7) [OF inv j] unfolding lv_append stop_def by fast
  have x: "x \<notin> set Q" using sl_invD(1) [OF inv] by auto
  show ?thesis
  proof (cases "j < ht s x")
    case True
    then show ?thesis using c by (simp add: lv_def)
  next
    case False
    then show ?thesis using c x by (cases "lv s Q j") (auto simp: lv_def filter_eq_Cons_iff)
  qed
qed

lemma sl_Delete_found:
  assumes inv: "sl_inv s (P @ x # Q)" and P: "\<forall>a\<in>set P. sc s a > Score value" and x: "sc s x = Score value"
  shows "\<exists>s'. sl_Delete (Some value) s = (Ok 1, s') \<and> sl_inv s' (P @ Q) \<and> vl s' = vl s"
proof -
  note I = sl_invD [OF inv]
  let ?test = "\<lambda>v. Compare v value < 0"
  have Q: "\<forall>a\<in>set Q. sc s a \<le> Score value" using I(10) x by (auto simp: sorted_wrt_append)
  have test: "\<forall>a\<in>set P. ?test (the (vl s a))" "\<forall>a\<in>set (x # Q). \<not> ?test (the (vl s a))"
    using P x Q by (auto simp: Compare_def compare_consts)
  obtain m where m: "descend ?test (sl_level s) (sl_header s) s = (Ok (stop s P 0, m, map (stop s P) [0..<sl_level s]), s)"
    using search_header [OF inv test] by blast
  obtain v where v: "vl s x = Some v" using I(2) [of x] by auto
  obtain n where n: "deref x s = (Ok n, s)" "sn_Value n = v" using deref_alive [OF v] by blast
  have lvl: "j < maxLevel" if "j < sl_level s" for j using that I(5) by simp
  have pre: "\<forall>j<length (map (stop s P) [0..<sl_level s]). 0 + j < ht s (map (stop s P) [0..<sl_level s] ! j) \<and>
      (nxt s (0 + j) (map (stop s P) [0..<sl_level s] ! j) = Some (Some x) \<longrightarrow> 0 + j < ht s x)"
    using lvl stop_ht [OF I(3)] nxt_before [OF inv] by auto
  obtain s1 where s1: "unlink_loop x 0 (map (stop s P) [0..<sl_level s]) s = (Ok (), s1)" "same_nodes s s1"
    "\<And>j. nxt s1 j = (if j < sl_level s \<and> nxt s j (map (stop s P) [0..<sl_level s] ! j) = Some (Some x)
      then (nxt s j)(map (stop s P) [0..<sl_level s] ! j := nxt s j x) else nxt s j)"
    using unlink_loop_effect [OF pre] unfolding diff_zero by auto
  have nx1: "nxt s1 j = (if j < ht s x then (nxt s j)(stop s P j := nxt s j x) else nxt s j)" for j
    using s1(3) [of j] nxt_before [OF inv, of j] lvl [of j] I(6) [of x] by auto
  note f1 = same_nodesD [OF s1(2)]
  have "nxt s 0 x = Some (case Q of [] \<Rightarrow> None | q # _ \<Rightarrow> Some q)"
    using nxt_stop [of s "P @ [x]" Q] stop_0 [of s "P @ [x]" Q] inv by simp
  moreover have "stop s P 0 \<noteq> x" using stop_in [of s P 0] I(1) by auto
  ultimately have "nxt s1 0 x = Some (case Q of [] \<Rightarrow> None | q # _ \<Rightarrow> Some q)" using nx1 [of 0] by simp
  note next1 = getNext_nxt [OF this]
  obtain n1 where n1: "deref x s1 = (Ok n1, s1)" "sn_prev n1 = prv s x" using deref_alive [of s1 x v] v f1 by auto
  obtain s2 where s2: "(case (case Q of [] \<Rightarrow> None | q # _ \<Rightarrow> Some q) of Some y \<Rightarrow> setPrev y (prv s x) | None \<Rightarrow> (\<lambda>s'. (Ok (), s'\<lparr>sl_tail := prv s x\<rparr>))) s1 = (Ok (), s2)"
    "sl_header s2 = sl_header s" "sl_fresh s2 = sl_fresh s" "sl_count s2 = sl_count s" "sl_level s2 = sl_level s"
    "ht s2 = ht s" "vl s2 = vl s" "nxt s2 = nxt s1"
    "prv s2 = (case Q of [] \<Rightarrow> prv s | q # _ \<Rightarrow> (prv s)(q := prv s x))" "sl_tail s2 = (if Q = [] then prv s x else sl_tail s)"
  proof (cases Q)
    case Nil
    then show ?thesis using that [of "s1\<lparr>sl_tail := prv s x\<rparr>"] f1 by simp
  next
    case (Cons q Q')
    then have "0 < ht s1 q" using I(6) [of q] f1 by (auto simp: Suc_le_eq)
    from setPrev_effect [OF this, of "prv s x"]
    obtain s2 where "setPrev q (prv s x) s1 = (Ok (), s2)" "s2 = s1\<lparr>sl_nodes := sl_nodes s2\<rparr>" "ht s2 = ht s1" "nxt s2 = nxt s1" "vl s2 = vl s1"
      "prv s2 = (prv s1)(q := prv s x)" by blast
    then show ?thesis using that [of s2] Cons f1 by simp (metis SkipList.select_convs SkipList.surjective SkipList.update_convs(6))
  qed
  obtain l' where l': "shrink_loop (sl_level s2) s2 = (Ok (), s2\<lparr>sl_level := l'\<rparr>)" "1 \<le> l'" "l' \<le> sl_level s2"
    "\<forall>j. l' \<le> j \<and> j < sl_level s2 \<longrightarrow> nxt s2 j (sl_header s2) = Some None" "l' = 1 \<or> nxt s2 (l' - 1) (sl_header s2) \<noteq> Some None"
    using shrink_loop_effect [of s2 "sl_level s2"] I(3-5) s2 by auto
  let ?s = "s2\<lparr>sl_level := l', sl_count := sl_count s2 - 1\<rparr>"
  have "sl_Delete (Some value) s = (Ok 1, ?s)"
    using m next_stop [OF inv] n v x s1(1) next1 n1 s2(1) l'(1)
    by (cases Q) (simp_all add: sl_Delete_def Compare_def compare_consts)
  moreover have "sl_inv ?s (P @ Q)"
    by (rule delete_inv [OF inv]) (use l' in \<open>auto simp: s2 nx1\<close>)
  ultimately show ?thesis using s2(7) by auto
qed

lemma sl_Delete_spec:
  assumes inv: "sl_inv s as"
  shows "\<exists>s' as'. sl_Delete (Some value) s = (Ok (if Score value \<in> Score ` set (vals s as) then 1 else 0), s') \<and> sl_inv s' as' \<and>
    vals s' as' = del_first (Score value) (vals s as)"
proof -
  obtain P Q where pq: "as = P @ Q" "P = filter (\<lambda>a. sc s a > Score value) as" "Q = filter (\<lambda>a. \<not> sc s a > Score value) as"
    by (rule split_greater [OF inv])
  have P: "\<forall>a\<in>set P. sc s a > Score value" by (subst pq(2)) simp
  have Pv: "\<forall>v\<in>set (vals s P). Score v \<noteq> Score value" using P by (auto simp: vals_def)
  have vpq: "vals s as = vals s P @ vals s Q" by (simp add: pq(1) vals_def)
  note inv' = inv [unfolded pq(1)]
  show ?thesis
  proof (cases "\<exists>x Q'. Q = x # Q' \<and> sc s x = Score value")
    case True
    then obtain x Q' where x: "Q = x # Q'" "sc s x = Score value" by blast
    obtain s' where s': "sl_Delete (Some value) s = (Ok 1, s')" "sl_inv s' (P @ Q')" "vl s' = vl s"
      using sl_Delete_found [of s P x Q' "value"] inv' x P by auto
    have "vals s' (P @ Q') = del_first (Score value) (vals s as)"
      unfolding vpq del_first_append [OF Pv] using x by (simp add: vals_def s'(3))
    moreover have "Score value \<in> Score ` set (vals s as)" unfolding vpq using x by (auto simp: vals_def)
    ultimately show ?thesis using s' by auto
  next
    case False
    have Q: "\<forall>a\<in>set Q. sc s a \<le> Score value" by (subst pq(3)) auto
    have Qs: "sorted_wrt (\<lambda>a b. sc s a \<ge> sc s b) Q" using sl_invD(10) [OF inv'] by (simp add: sorted_wrt_append)
    have lt: "\<forall>a\<in>set Q. sc s a < Score value"
    proof (cases Q)
      case (Cons q Q')
      then have "sc s q < Score value" "\<forall>a\<in>set Q'. sc s a \<le> sc s q" using False Q Qs by (auto simp: less_le)
      then show ?thesis using Cons by auto
    qed simp
    have "del_first (Score value) (vals s as) = vals s as"
      unfolding vpq del_first_append [OF Pv] using lt by (induction Q) (auto simp: vals_def)
    moreover have "Score value \<notin> Score ` set (vals s as)" unfolding vpq using P lt by (auto simp: vals_def)
    moreover have "sl_Delete (Some value) s = (Ok 0, s)"
    proof -
      let ?test = "\<lambda>v. Compare v value < 0"
      have test: "\<forall>a\<in>set P. ?test (the (vl s a))" "\<forall>a\<in>set Q. \<not> ?test (the (vl s a))"
        using P Q by (auto simp: Compare_def compare_consts)
      obtain m where m: "descend ?test (sl_level s) (sl_header s) s = (Ok (stop s P 0, m, map (stop s P) [0..<sl_level s]), s)"
        using search_header [OF inv' test] by blast
      show ?thesis
      proof (cases Q)
        case Nil
        then show ?thesis using m next_stop [OF inv'] by (simp add: sl_Delete_def)
      next
        case (Cons q Q')
        then obtain v where v: "vl s q = Some v" using sl_invD(2) [OF inv', of q] by auto
        obtain n where "deref q s = (Ok n, s)" "sn_Value n = v" using deref_alive [OF v] by blast
        then show ?thesis using m next_stop [OF inv'] Cons lt v by (simp add: sl_Delete_def Compare_def compare_consts)
      qed
    qed
    ultimately show ?thesis using inv by auto
  qed
qed

section \<open>The other operations\<close>

lemma NewSkipList_inv: "sl_inv (NewSkipList mn) []"
  by (auto simp: sl_inv_def NewSkipList_def vl_def ht_def nxt_def lv_def back_links_def maxLevel_def)

lemma walk_nodes_chain:
  assumes "chain (nxt s 0) x as" and "\<forall>a\<in>set as. vl s a \<noteq> None" and "length as < fuel"
  shows "\<exists>e. nxt s 0 x = Some e \<and> walk_nodes fuel f e c s = (Ok (walk_values f (vals s as) c), s)"
  using assms
proof (induction as arbitrary: x fuel c)
  case Nil
  then show ?case by (cases fuel) (auto simp: vals_def)
next
  case (Cons a as)
  then obtain fu where fuel: "fuel = Suc fu" "length as < fu" by (cases fuel) auto
  obtain v where v: "vl s a = Some v" using Cons.prems(2) by auto
  obtain n where n: "deref a s = (Ok n, s)" "sn_Value n = v" using deref_alive [OF v] by blast
  obtain go c' where cb: "f v c = (go, c')" by fastforce
  obtain e where e: "nxt s 0 a = Some e" "walk_nodes fu f e c' s = (Ok (walk_values f (vals s as) c'), s)"
    using Cons.IH [of a fu c'] Cons.prems fuel by auto
  show ?case using Cons.prems(1) n v cb e getNext_nxt [OF e(1)] fuel by (cases go) (simp_all add: vals_def)
qed

lemma sl_WalkS_spec:
  assumes inv: "sl_inv s as"
  shows "sl_WalkS (Some f) c s = (Ok (walk_values f (vals s as) c), s)"
proof -
  have c: "chain (nxt s 0) (sl_header s) as" using sl_invD(7) [OF inv, of 0] lv_0 [of s as "[]"] inv by (simp add: maxLevel_def)
  have alive: "\<forall>a\<in>set as. vl s a \<noteq> None" using sl_invD(2) [OF inv] by auto
  have len: "length as < Suc (sl_fresh s)" using length_fresh [OF inv] by simp
  obtain e where "nxt s 0 (sl_header s) = Some e" "walk_nodes (Suc (sl_fresh s)) f e c s = (Ok (walk_values f (vals s as) c), s)"
    using walk_nodes_chain [OF c alive len, of f c] by blast
  then show ?thesis using getNext_nxt [of s 0 "sl_header s" e] by (simp add: sl_WalkS_def)
qed

lemma sl_header_next:
  assumes inv: "sl_inv s as"
  shows "getNext (sl_header s) 0 s = (Ok (case as of [] \<Rightarrow> None | a # _ \<Rightarrow> Some a), s)"
  using next_stop [of s "[]" as] inv by (simp add: stop_def lv_def)

lemma it_First_spec:
  assumes inv: "sl_inv s as"
  shows "it_First node s = (Ok (case as of [] \<Rightarrow> (None, node) | a # _ \<Rightarrow> (vl s a, Some a)), s)"
  using sl_header_next [OF inv] sl_invD(2) [OF inv, of "hd as"]
  by (cases as) (auto simp: it_First_def deref_def vl_def)

lemma it_Last_spec:
  assumes inv: "sl_inv s as"
  shows "it_Last node s = (Ok (if as = [] then (None, node) else (vl s (last as), Some (last as))), s)"
  using sl_invD(8) [OF inv] sl_invD(2) [OF inv, of "last as"]
  by (auto simp: it_Last_def back_links_def deref_def vl_def)

lemma nodePrev_spec:
  assumes inv: "sl_inv s as" and k: "k < length as"
  shows "nodePrev (Some (as ! k)) s = (Ok (if k = 0 then None else Some (as ! (k - 1))), s)"
  using sl_invD(8) [OF inv] sl_invD(2) [OF inv, of "as ! k"] k
  by (auto simp: nodePrev_def back_links_def deref_def vl_def prv_def)

lemma nodeNext_spec:
  assumes inv: "sl_inv s as" and k: "k < length as"
  shows "nodeNext (Some (as ! k)) s = (Ok (if Suc k < length as then Some (as ! Suc k) else None), s)"
proof -
  have split: "as = take (Suc k) as @ drop (Suc k) as" by simp
  have "sl_inv s (take (Suc k) as @ drop (Suc k) as)" using inv by simp
  note next_stop [OF this] stop_0 [OF this]
  moreover have "last (sl_header s # take (Suc k) as) = as ! k" using k by (simp add: take_Suc_conv_app_nth)
  moreover have "(case drop (Suc k) as of [] \<Rightarrow> None | q # _ \<Rightarrow> Some q) = (if Suc k < length as then Some (as ! Suc k) else None)"
    by (auto simp: Cons_nth_drop_Suc [symmetric] split: list.split)
  ultimately show ?thesis by (simp add: nodeNext_def)
qed

end
