(* ===== verification/Score_List.thy ===== *)
theory Score_List
  imports Skip_List_Inv
begin

text \<open>
  The contract of the skip list: a list of values sorted by falling score. The locale
  \<open>score_list\<close> states what a client relies on, the skip list is an instance of it, and any
  sequence of calls answers as the sorted list does.
\<close>

section \<open>The contract\<close>

lemma sorted_distinct_strict:
  "sorted_wrt (\<lambda>x y. Score x \<ge> Score y) xs \<Longrightarrow> distinct (map Score xs) \<Longrightarrow> sorted_wrt (\<lambda>x y. Score x > Score y) xs"
  by (induction xs) (auto simp: less_le image_iff)

locale score_list =
  fixes rep :: "'s \<Rightarrow> 'v SkipValue list \<Rightarrow> bool"
    and find_op :: "'v SkipValue \<Rightarrow> ('s, 'v SkipValue option) op"
    and insert_op :: "(nat \<Rightarrow> int) \<Rightarrow> 'v SkipValue \<Rightarrow> ('s, int) op"
    and delete_op :: "'v SkipValue option \<Rightarrow> ('s, int) op"
    and last_op :: "('s, 'v SkipValue option) op"
    and first_op :: "('s, 'v SkipValue option) op"
  assumes rep_sorted: "rep s xs \<Longrightarrow> sorted_wrt (\<lambda>x y. Score x \<ge> Score y) xs"
    and rep_find: "rep s xs \<Longrightarrow> \<exists>s'. find_op v s = (Ok (find (\<lambda>x. Score x = Score v) xs), s') \<and> rep s' xs"
    and rep_insert: "rep s xs \<Longrightarrow> \<exists>s'. insert_op rnd v s = (Ok 1, s') \<and> rep s' (insert_value v xs)"
    and rep_delete: "rep s xs \<Longrightarrow> \<exists>s'. delete_op (Some v) s =
      (Ok (if Score v \<in> Score ` set xs then 1 else 0), s') \<and> rep s' (del_first (Score v) xs)"
    and rep_last: "rep s xs \<Longrightarrow> last_op s = (Ok (if xs = [] then None else Some (last xs)), s)"
    and rep_first: "rep s xs \<Longrightarrow> first_op s = (Ok (if xs = [] then None else Some (hd xs)), s)"
begin

text \<open>
  A client that looks a score up before it inserts keeps the scores distinct; then the list is a
  finite map from scores to values, in strictly falling order.
\<close>

definition keyed :: "'s \<Rightarrow> 'v SkipValue list \<Rightarrow> bool" where
  "keyed s xs \<longleftrightarrow> rep s xs \<and> distinct (map Score xs)"

lemma keyed_strict: "keyed s xs \<Longrightarrow> sorted_wrt (\<lambda>x y. Score x > Score y) xs"
  using rep_sorted sorted_distinct_strict by (auto simp: keyed_def)

lemma keyed_find:
  assumes "keyed s xs"
  shows "\<exists>s'. find_op v s = (Ok (find (\<lambda>x. Score x = Score v) xs), s') \<and> keyed s' xs"
  using rep_find assms by (fastforce simp: keyed_def)

lemma keyed_insert:
  assumes "keyed s xs" and "find (\<lambda>x. Score x = Score v) xs = None"
  shows "\<exists>s'. insert_op rnd v s = (Ok 1, s') \<and> keyed s' (insert_value v xs)"
proof -
  have "distinct (map Score (insert_value v xs))"
    using assms by (auto simp: keyed_def insert_value_def find_None_iff distinct_map inj_on_def)
  then show ?thesis using rep_insert [of s xs rnd v] assms(1) by (auto simp: keyed_def)
qed

lemma keyed_delete:
  assumes "keyed s (xs @ x # ys)" and "Score v = Score x"
  shows "\<exists>s'. delete_op (Some v) s = (Ok 1, s') \<and> keyed s' (xs @ ys)"
proof -
  have "\<forall>y\<in>set xs. Score y \<noteq> Score x" using assms(1) by (auto simp: keyed_def image_iff dest: sym)
  then have "del_first (Score x) (xs @ x # ys) = xs @ ys" by (simp add: del_first_append)
  then show ?thesis using rep_delete [of s "xs @ x # ys" v] assms by (auto simp: keyed_def)
qed

end

section \<open>The skip list is an instance\<close>

definition sl_rep :: "'v SkipList \<Rightarrow> 'v SkipValue list \<Rightarrow> bool" where
  "sl_rep s xs \<longleftrightarrow> (\<exists>as. sl_inv s as \<and> vals s as = xs)"

definition sl_Last :: "('v SkipList, 'v SkipValue option) op" where
  "sl_Last = andThen GetIterator (\<lambda>it. andThen (it_Last it) (\<lambda>(v, _). returnO v))"

definition sl_First :: "('v SkipList, 'v SkipValue option) op" where
  "sl_First = andThen GetIterator (\<lambda>it. andThen (it_First it) (\<lambda>(v, _). returnO v))"

lemma sl_inv_vals: "sl_inv s as \<Longrightarrow> a \<in> set as \<Longrightarrow> vl s a = Some (the (vl s a))"
  using sl_invD(2) [of s as a] by auto

lemma GetIterator_spec: "sl_inv s as \<Longrightarrow> \<exists>it. GetIterator s = (Ok it, s)"
  by (auto simp: GetIterator_def it_First_spec split: list.split)

interpretation skip: score_list sl_rep sl_Find sl_Insert sl_Delete sl_Last sl_First
proof unfold_locales
  fix s :: "'v SkipList" and xs v rnd
  assume "sl_rep s xs"
  then obtain as where as: "sl_inv s as" "vals s as = xs" by (auto simp: sl_rep_def)
  show "sorted_wrt (\<lambda>x y. Score x \<ge> Score y) xs"
    using sl_invD(10) [OF as(1)] as(2) by (auto simp: vals_def sorted_wrt_map)
  show "\<exists>s'. sl_Find v s = (Ok (find (\<lambda>x. Score x = Score v) xs), s') \<and> sl_rep s' xs"
    using sl_Find_spec [OF as(1), of v] as by (auto simp: sl_rep_def sl_inv_findcount vals_def)
  show "\<exists>s'. sl_Insert rnd v s = (Ok 1, s') \<and> sl_rep s' (insert_value v xs)"
    using sl_Insert_spec [OF as(1), of rnd v] as(2) by (auto simp: sl_rep_def)
  show "\<exists>s'. sl_Delete (Some v) s = (Ok (if Score v \<in> Score ` set xs then 1 else 0), s') \<and> sl_rep s' (del_first (Score v) xs)"
    using sl_Delete_spec [OF as(1), of v] as(2) by (auto simp: sl_rep_def)
  obtain it where it: "GetIterator s = (Ok it, s)" using GetIterator_spec [OF as(1)] by blast
  show "sl_Last s = (Ok (if xs = [] then None else Some (last xs)), s)"
    using it as sl_inv_vals [OF as(1), of "last as"] by (auto simp: sl_Last_def it_Last_spec vals_def last_map)
  show "sl_First s = (Ok (if xs = [] then None else Some (hd xs)), s)"
    using it as sl_inv_vals [OF as(1), of "hd as"] by (cases as) (auto simp: sl_First_def it_First_spec vals_def)
qed

section \<open>Sequences of calls\<close>

datatype 'v sl_call =
    CallInsert "nat \<Rightarrow> int" "'v SkipValue" \<comment> \<open>the random draws and the value\<close>
  | CallDelete "'v SkipValue option"
  | CallFind "'v SkipValue"
  | CallFindGreaterOrEqual "'v SkipValue"

datatype 'v sl_answer = AnsInt int | AnsValue "'v SkipValue option"

fun sl_exec :: "'v sl_call \<Rightarrow> ('v SkipList, 'v sl_answer) op" where
  "sl_exec (CallInsert rnd v) = andThen (sl_Insert rnd v) (\<lambda>i. returnO (AnsInt i))"
| "sl_exec (CallDelete v) = andThen (sl_Delete v) (\<lambda>i. returnO (AnsInt i))"
| "sl_exec (CallFind v) = andThen (sl_Find v) (\<lambda>r. returnO (AnsValue r))"
| "sl_exec (CallFindGreaterOrEqual v) = andThen (FindGreaterOrEqual v) (\<lambda>r. returnO (AnsValue r))"

fun sl_run :: "'v sl_call list \<Rightarrow> ('v SkipList, 'v sl_answer list) op" where
  "sl_run [] = returnO []"
| "sl_run (c # cs) = andThen (sl_exec c) (\<lambda>r. andThen (sl_run cs) (\<lambda>rs. returnO (r # rs)))"

text \<open>The same calls on a list sorted by falling score.\<close>

fun list_exec :: "'v sl_call \<Rightarrow> 'v SkipValue list \<Rightarrow> 'v sl_answer \<times> 'v SkipValue list" where
  "list_exec (CallInsert rnd v) xs = (AnsInt 1, insert_value v xs)"
| "list_exec (CallDelete None) xs = (AnsInt 0, xs)"
| "list_exec (CallDelete (Some v)) xs = (AnsInt (if Score v \<in> Score ` set xs then 1 else 0), del_first (Score v) xs)"
| "list_exec (CallFind v) xs = (AnsValue (find (\<lambda>x. Score x = Score v) xs), xs)"
| "list_exec (CallFindGreaterOrEqual v) xs = (AnsValue (find (\<lambda>x. Score x \<le> Score v) xs), xs)"

fun list_run :: "'v sl_call list \<Rightarrow> 'v SkipValue list \<Rightarrow> 'v sl_answer list \<times> 'v SkipValue list" where
  "list_run [] xs = ([], xs)"
| "list_run (c # cs) xs =
     (case list_exec c xs of (r, xs1) \<Rightarrow> case list_run cs xs1 of (rs, xs2) \<Rightarrow> (r # rs, xs2))"

lemma sl_exec_refines:
  assumes "sl_rep s xs"
  shows "\<exists>s'. sl_exec c s = (Ok (fst (list_exec c xs)), s') \<and> sl_rep s' (snd (list_exec c xs))"
proof (cases c)
  case (CallInsert rnd v)
  then show ?thesis using skip.rep_insert [OF assms, of rnd v] by auto
next
  case (CallDelete v)
  then show ?thesis
  proof (cases v)
    case None
    then show ?thesis using CallDelete assms by (simp add: sl_Delete_def)
  next
    case (Some w)
    then show ?thesis using CallDelete skip.rep_delete [OF assms, of w] by auto
  qed
next
  case (CallFind v)
  then show ?thesis using skip.rep_find [OF assms, of v] by auto
next
  case (CallFindGreaterOrEqual v)
  obtain as where as: "sl_inv s as" "vals s as = xs" using assms by (auto simp: sl_rep_def)
  obtain k where "FindGreaterOrEqual v s = (Ok (find (\<lambda>x. Score x \<le> Score v) xs), s\<lparr>sl_findcount := k\<rparr>)"
    using FindGreaterOrEqual_spec [OF as(1), of v] as(2) by (auto simp: at_or_below_def)
  moreover have "sl_rep (s\<lparr>sl_findcount := k\<rparr>) xs" using as by (auto simp: sl_rep_def sl_inv_findcount vals_def)
  ultimately show ?thesis using CallFindGreaterOrEqual by auto
qed

lemma sl_run_refines:
  "sl_rep s xs \<Longrightarrow> \<exists>s'. sl_run cs s = (Ok (fst (list_run cs xs)), s') \<and> sl_rep s' (snd (list_run cs xs))"
proof (induction cs arbitrary: s xs)
  case (Cons c cs)
  obtain s1 where "sl_exec c s = (Ok (fst (list_exec c xs)), s1)" "sl_rep s1 (snd (list_exec c xs))"
    using sl_exec_refines [OF Cons.prems] by blast
  moreover from Cons.IH [OF this(2)] obtain s2 where "sl_run cs s1 = (Ok (fst (list_run cs (snd (list_exec c xs)))), s2)"
    "sl_rep s2 (snd (list_run cs (snd (list_exec c xs))))" by blast
  ultimately show ?case by (auto simp: split_def)
qed auto

text \<open>
  C24: The skip list behaves as a list sorted by falling score. From an empty skip list, every
  sequence of insertions, deletions and searches, whatever the random levels, returns without a panic and
  gives the answers that the sorted list gives; afterwards walking the skip list visits exactly the
  values of the sorted list in its order, its length is theirs, and its level is between 1 and 32.
\<close>
theorem skip_list_refines_sorted_list:
  "\<exists>s. sl_run cs (NewSkipList mn) = (Ok (fst (list_run cs [])), s) \<and>
    sl_WalkS (Some (\<lambda>v vs. (True, vs @ [v]))) [] s = (Ok (snd (list_run cs [])), s) \<and>
    sl_Len s = int (length (snd (list_run cs []))) \<and> 1 \<le> sl_Level s \<and> sl_Level s \<le> 32 \<and>
    sorted_wrt (\<lambda>x y. Score x \<ge> Score y) (snd (list_run cs []))"
proof -
  have "sl_rep (NewSkipList mn) []" using NewSkipList_inv [of mn] by (auto simp: sl_rep_def vals_def)
  from sl_run_refines [OF this, of cs]
  obtain s where s: "sl_run cs (NewSkipList mn) = (Ok (fst (list_run cs [])), s)" "sl_rep s (snd (list_run cs []))" by blast
  then obtain as where as: "sl_inv s as" "vals s as = snd (list_run cs [])" by (auto simp: sl_rep_def)
  have collect: "walk_values (\<lambda>v vs. (True, vs @ [v])) ys acc = acc @ ys" for ys acc :: "'a SkipValue list"
    by (induction ys arbitrary: acc) auto
  have "length (vals s as) = length as" by (simp add: vals_def)
  then show ?thesis
    using s sl_WalkS_spec [OF as(1), of "\<lambda>v vs. (True, vs @ [v])" "[]"] sl_invD(4,5,9) [OF as(1)] as(2) skip.rep_sorted [OF s(2)]
    by (auto simp: collect sl_Len_def sl_Level_def maxLevel_def)
qed

end
