(* ===== verification/Score_Queue.thy ===== *)
theory Score_Queue
  imports Score_List "HOL-Library.AList"
begin

text \<open>
  The bounded priority queue of \<^verbatim>\<open>common/skiplist/queue.go\<close>: a skip list with one linked list per
  score, in arrival order, and a map from hashes to list elements. A list is an identity into
  the store \<open>q_lists\<close>, an element a pair of an identity and its item. The lemmas show that it
  is a list of items sorted by falling score, stable in arrival order, that drops its last item
  for a better one when it is full.
\<close>

section \<open>The queue\<close>

text \<open>The interface \<open>Scorer\<close> of the items.\<close>

record 'i scorer =
  it_GetScore :: "'i \<Rightarrow> int"
  it_Hash :: "'i \<Rightarrow> string"
  it_Compare :: "'i \<Rightarrow> 'i \<Rightarrow> int"
  it_ByteSize :: "'i \<Rightarrow> int"

type_synonym 'i element = "nat \<times> 'i"

record 'i Queue =
  q_txMap :: "(string \<times> 'i element) list"
  q_txList :: "nat SkipList"
  q_maxsize :: int
  q_cacheBytes :: int
  q_lists :: "nat \<Rightarrow> 'i element list" \<comment> \<open>the linked lists by identity\<close>
  q_nlist :: nat \<comment> \<open>the next list identity\<close>
  q_nelem :: nat \<comment> \<open>the next element identity\<close>

definition NewQueue :: "int \<Rightarrow> 'i Queue" where
  "NewQueue maxsize =
     \<lparr>q_txMap = [], q_txList = NewSkipList \<lparr>Score = -1, SValue = None\<rparr>, q_maxsize = maxsize, q_cacheBytes = 0,
      q_lists = (\<lambda>_. []), q_nlist = 0, q_nelem = 0\<rparr>"

definition onList :: "(nat SkipList, 'a) op \<Rightarrow> ('i Queue, 'a) op" where
  "onList m q = (case m (q_txList q) of (r, l) \<Rightarrow> (r, q\<lparr>q_txList := l\<rparr>))"

definition CreateSkipValue :: "'i scorer \<Rightarrow> 'i \<Rightarrow> nat SkipValue" where
  "CreateSkipValue S item = \<lparr>Score = it_GetScore S item, SValue = None\<rparr>"

text \<open>\<^verbatim>\<open>value.Value.(*list.List)\<close>: a nil value panics.\<close>

definition asList :: "nat SkipValue \<Rightarrow> ('i Queue, nat) op" where
  "asList v = (case SValue v of None \<Rightarrow> panicO | Some l \<Rightarrow> returnO l)"

definition newList :: "('i Queue, nat) op" where
  "newList q = (Ok (q_nlist q), q\<lparr>q_lists := (q_lists q)(q_nlist q := []), q_nlist := Suc (q_nlist q)\<rparr>)"

definition pushBack :: "nat \<Rightarrow> 'i \<Rightarrow> ('i Queue, 'i element) op" where
  "pushBack l item q =
     (Ok (q_nelem q, item),
      q\<lparr>q_lists := (q_lists q)(l := q_lists q l @ [(q_nelem q, item)]), q_nelem := Suc (q_nelem q)\<rparr>)"

definition listRemove :: "nat \<Rightarrow> 'i element \<Rightarrow> ('i Queue, unit) op" where
  "listRemove l e q = (Ok (), q\<lparr>q_lists := (q_lists q)(l := filter (\<lambda>(i, _). i \<noteq> fst e) (q_lists q l))\<rparr>)"

definition insertSkipValue :: "'i scorer \<Rightarrow> (nat \<Rightarrow> int) \<Rightarrow> 'i \<Rightarrow> ('i Queue, 'i element) op" where
  "insertSkipValue S rnd item =
     (let skvalue = CreateSkipValue S item in
      andThen (onList (sl_Find skvalue)) (\<lambda>value.
        andThen (case value of
            None \<Rightarrow> andThen newList (\<lambda>l. andThen (onList (sl_Insert rnd (skvalue\<lparr>SValue := Some l\<rparr>))) (\<lambda>_. returnO l))
          | Some v \<Rightarrow> asList v) (\<lambda>l. pushBack l item)))"

definition deleteSkipValue :: "'i scorer \<Rightarrow> 'i element option \<Rightarrow> ('i Queue, unit) op" where
  "deleteSkipValue S el =
     (case el of
        None \<Rightarrow> returnO ()
      | Some item \<Rightarrow>
          andThen (onList (sl_Find (CreateSkipValue S (snd item)))) (\<lambda>value.
            case value of
              None \<Rightarrow> failO ErrNotFound
            | Some v \<Rightarrow> andThen (asList v) (\<lambda>l. andThen (listRemove l item) (\<lambda>_ q.
                if q_lists q l = [] then andThen (onList (sl_Delete (Some v))) (\<lambda>_. returnO ()) q else (Ok (), q)))))"

definition q_MaxSize :: "'i Queue \<Rightarrow> int" where "q_MaxSize q = q_maxsize q"

definition q_Exist :: "'i Queue \<Rightarrow> string \<Rightarrow> bool" where
  "q_Exist q h = (map_of (q_txMap q) h \<noteq> None)"

definition q_GetItem :: "'i Queue \<Rightarrow> string \<Rightarrow> 'i outcome" where
  "q_GetItem q h = (case map_of (q_txMap q) h of Some k \<Rightarrow> Ok (snd k) | None \<Rightarrow> Fail ErrNotFound)"

definition q_GetCacheBytes :: "'i Queue \<Rightarrow> int" where "q_GetCacheBytes q = q_cacheBytes q"

definition q_Insert :: "'i scorer \<Rightarrow> (nat \<Rightarrow> int) \<Rightarrow> string \<Rightarrow> 'i \<Rightarrow> ('i Queue, unit) op" where
  "q_Insert S rnd h item q =
     andThen (insertSkipValue S rnd item) (\<lambda>e q'. (Ok (), q'\<lparr>q_txMap := AList.update h e (q_txMap q')\<rparr>))
       (q\<lparr>q_cacheBytes := i64 (q_cacheBytes q + it_ByteSize S item)\<rparr>)"

definition q_Remove :: "'i scorer \<Rightarrow> string \<Rightarrow> ('i Queue, unit) op" where
  "q_Remove S h q =
     (case map_of (q_txMap q) h of
        None \<Rightarrow> (Fail ErrNotFound, q)
      | Some elm \<Rightarrow>
          andThen (deleteSkipValue S (Some elm)) (\<lambda>_ q'. (Ok (), q'\<lparr>q_cacheBytes := i64 (q_cacheBytes q' - it_ByteSize S (snd elm))\<rparr>))
            (q\<lparr>q_txMap := AList.delete h (q_txMap q)\<rparr>))"

definition q_Size :: "'i Queue \<Rightarrow> int" where
  "q_Size q = int (length (q_txMap q))"

definition listBack :: "nat SkipValue option \<Rightarrow> ('i Queue, 'i) op" where
  "listBack tq = (case tq of None \<Rightarrow> panicO | Some v \<Rightarrow>
     andThen (asList v) (\<lambda>l q. case q_lists q l of [] \<Rightarrow> (Panic, q) | es \<Rightarrow> (Ok (snd (last es)), q)))"

definition listFront :: "nat SkipValue option \<Rightarrow> ('i Queue, 'i) op" where
  "listFront tq = (case tq of None \<Rightarrow> panicO | Some v \<Rightarrow>
     andThen (asList v) (\<lambda>l q. case q_lists q l of [] \<Rightarrow> (Panic, q) | e # es \<Rightarrow> (Ok (snd e), q)))"

definition q_Last :: "('i Queue, 'i option) op" where
  "q_Last q =
     (if q_Size q = 0 then (Ok None, q)
      else andThen (onList sl_Last) (\<lambda>tq. andThen (listBack tq) (\<lambda>i. returnO (Some i))) q)"

definition q_First :: "('i Queue, 'i option) op" where
  "q_First q =
     (if q_Size q = 0 then (Ok None, q)
      else andThen (onList sl_First) (\<lambda>tq. andThen (listFront tq) (\<lambda>i. returnO (Some i))) q)"

definition q_Push :: "'i scorer \<Rightarrow> (nat \<Rightarrow> int) \<Rightarrow> 'i \<Rightarrow> ('i Queue, unit) op" where
  "q_Push S rnd item q =
     (let h = it_Hash S item; sv = CreateSkipValue S item in
      if q_Exist q h then (Fail ErrTxExist, q)
      else andThen
        (if q_Size q \<ge> q_maxsize q then
           andThen q_Last (\<lambda>last.
             case last of
               None \<Rightarrow> panicO
             | Some tail \<Rightarrow>
                 let cmp = Compare sv (CreateSkipValue S tail) in
                 if cmp = BigC \<or> cmp = EqualC \<and> it_Compare S item tail = BigC
                 then q_Remove S (it_Hash S tail) else failO ErrMemFull)
         else returnO ())
        (\<lambda>_. q_Insert S rnd h item) q)"

text \<open>The callback of \<open>Walk\<close> on one list: it counts the items and stops at the given count.\<close>

fun walk_items :: "int \<Rightarrow> ('i \<Rightarrow> 'c \<Rightarrow> bool \<times> 'c) \<Rightarrow> 'i element list \<Rightarrow> int \<times> 'c \<Rightarrow> bool \<times> int \<times> 'c" where
  "walk_items n cb [] (i, c) = (True, i, c)"
| "walk_items n cb (e # es) (i, c) =
     (case cb (snd e) c of
        (False, c') \<Rightarrow> (False, i, c')
      | (True, c') \<Rightarrow> if i + 1 = n then (False, i + 1, c') else walk_items n cb es (i + 1, c'))"

text \<open>A nil list value would panic in the callback; the invariant excludes it.\<close>

definition q_Walk :: "int \<Rightarrow> ('i \<Rightarrow> 'c \<Rightarrow> bool \<times> 'c) \<Rightarrow> 'c \<Rightarrow> ('i Queue, 'c) op" where
  "q_Walk n cb c q =
     (case sl_Walk (Some (\<lambda>v st.
         case (v, st) of
           (Some l, Some ic) \<Rightarrow> (case walk_items n cb (q_lists q l) ic of (go, ic') \<Rightarrow> (go, Some ic'))
         | _ \<Rightarrow> (False, None))) (Some (0, c)) (q_txList q) of
        (Ok (Some (i, c')), l) \<Rightarrow> (Ok c', q\<lparr>q_txList := l\<rparr>)
      | (_, l) \<Rightarrow> (Panic, q\<lparr>q_txList := l\<rparr>))"

section \<open>The items in order\<close>

definition group_of :: "'i Queue \<Rightarrow> nat SkipValue \<Rightarrow> 'i element list" where
  "group_of q x = (case SValue x of None \<Rightarrow> [] | Some l \<Rightarrow> q_lists q l)"

definition elems :: "'i Queue \<Rightarrow> nat SkipValue list \<Rightarrow> 'i element list" where
  "elems q xs = concat (map (group_of q) xs)"

definition group_ok :: "'i scorer \<Rightarrow> 'i Queue \<Rightarrow> nat SkipValue \<Rightarrow> bool" where
  "group_ok S q x \<longleftrightarrow> (\<exists>l<q_nlist q. SValue x = Some l) \<and> group_of q x \<noteq> [] \<and>
     (\<forall>e\<in>set (group_of q x). it_GetScore S (snd e) = Score x)"

text \<open>The skip list and the linked lists fit together.\<close>

definition q_core :: "'i scorer \<Rightarrow> 'i Queue \<Rightarrow> nat SkipValue list \<Rightarrow> bool" where
  "q_core S q xs \<longleftrightarrow> skip.keyed (q_txList q) xs \<and> (\<forall>x\<in>set xs. group_ok S q x) \<and> distinct (map SValue xs) \<and>
     distinct (map fst (elems q xs)) \<and> (\<forall>e\<in>set (elems q xs). fst e < q_nelem q)"

lemma group_of_lists: "q_lists q' = q_lists q \<Longrightarrow> group_of q' = group_of q"
  by (rule ext) (simp add: group_of_def split: option.split)

lemma elems_lists: "q_lists q' = q_lists q \<Longrightarrow> elems q' = elems q"
  using group_of_lists [of q' q] by (intro ext) (simp add: elems_def)

lemma q_core_lists:
  assumes "q_lists q' = q_lists q" "q_nlist q' = q_nlist q" "q_nelem q' = q_nelem q" "q_txList q' = q_txList q"
  shows "q_core S q' = q_core S q"
  by (simp add: q_core_def group_ok_def fun_eq_iff group_of_lists [OF assms(1)] elems_lists [OF assms(1)] assms(2-))

lemma elems_filter:
  assumes "\<forall>x\<in>set xs. \<forall>e\<in>set (group_of q x). it_GetScore S (snd e) = Score x"
  shows "elems q (filter (\<lambda>x. p (Score x)) xs) = filter (\<lambda>e. p (it_GetScore S (snd e))) (elems q xs)"
  using assms
proof (induction xs)
  case (Cons x xs)
  have "filter (\<lambda>e. p (it_GetScore S (snd e))) (group_of q x) = (if p (Score x) then group_of q x else [])"
    using Cons.prems by (auto simp: filter_id_conv filter_empty_conv)
  then show ?case using Cons by (auto simp: elems_def)
qed (simp add: elems_def)

lemma group_scores: "group_ok S q x \<Longrightarrow> \<forall>e\<in>set (group_of q x). it_GetScore S (snd e) = Score x"
  by (simp add: group_ok_def)

lemma elems_cong: "(\<And>x. x \<in> set xs \<Longrightarrow> group_of q' x = group_of q x) \<Longrightarrow> elems q' xs = elems q xs"
  by (simp add: elems_def cong: map_cong)

lemma elems_append: "elems q (xs @ ys) = elems q xs @ elems q ys"
  by (simp add: elems_def)

definition place :: "'i scorer \<Rightarrow> 'i element \<Rightarrow> 'i element list \<Rightarrow> 'i element list" where
  "place S e es =
     filter (\<lambda>d. it_GetScore S (snd d) \<ge> it_GetScore S (snd e)) es @ e #
     filter (\<lambda>d. \<not> it_GetScore S (snd d) \<ge> it_GetScore S (snd e)) es"

text \<open>The parts of the queue that inserting and deleting in the lists leave alone.\<close>

definition same_book :: "'i Queue \<Rightarrow> 'i Queue \<Rightarrow> bool" where
  "same_book q q' \<longleftrightarrow> q_txMap q' = q_txMap q \<and> q_maxsize q' = q_maxsize q \<and> q_cacheBytes q' = q_cacheBytes q"

lemma keyed_split:
  assumes "skip.keyed s xs" and "find (\<lambda>x. Score x = c) xs = Some x"
  obtains A B where "xs = A @ x # B" "Score x = c" "filter (\<lambda>y. Score y \<ge> c) xs = A @ [x]" "filter (\<lambda>y. \<not> Score y \<ge> c) xs = B"
proof -
  have x: "x \<in> set xs" "Score x = c" using assms(2) by (auto simp: find_Some_iff)
  then obtain A B where ab: "xs = A @ x # B" by (meson split_list)
  have "\<forall>y\<in>set A. Score y > c" "\<forall>y\<in>set B. Score y < c"
    using skip.keyed_strict [OF assms(1)] x(2) unfolding ab by (auto simp: sorted_wrt_append)
  then have "filter (\<lambda>y. Score y \<ge> c) A = A" "filter (\<lambda>y. Score y \<ge> c) B = []"
    "filter (\<lambda>y. \<not> Score y \<ge> c) A = []" "filter (\<lambda>y. \<not> Score y \<ge> c) B = B"
    by (auto simp: filter_id_conv filter_empty_conv)
  then show thesis using that [of A B] ab x(2) by simp
qed

lemma insert_found:
  assumes core: "q_core S q xs" and f: "find (\<lambda>x. Score x = it_GetScore S item) xs = Some x"
    and keyed: "skip.keyed l' xs" and e: "e = (q_nelem q, item)"
  shows "\<exists>q'. andThen (asList x) (\<lambda>l. pushBack l item) (q\<lparr>q_txList := l'\<rparr>) = (Ok e, q') \<and> q_core S q' xs \<and>
    elems q' xs = place S e (elems q xs) \<and> same_book q q' \<and> q_nelem q' = Suc (q_nelem q)"
proof -
  obtain A B where ab: "xs = A @ x # B" "Score x = it_GetScore S item"
    "filter (\<lambda>y. Score y \<ge> it_GetScore S item) xs = A @ [x]" "filter (\<lambda>y. \<not> Score y \<ge> it_GetScore S item) xs = B"
    using core f by (auto simp: q_core_def intro: keyed_split)
  have ok: "\<forall>y\<in>set xs. group_ok S q y" and dist: "distinct (map SValue xs)" and ids: "distinct (map fst (elems q xs))"
    "\<forall>e\<in>set (elems q xs). fst e < q_nelem q" using core by (auto simp: q_core_def)
  obtain l where l: "SValue x = Some l" "l < q_nlist q" using ok ab(1) by (auto simp: group_ok_def)
  let ?q = "q\<lparr>q_txList := l', q_lists := (q_lists q)(l := q_lists q l @ [e]), q_nelem := Suc (q_nelem q)\<rparr>"
  have run: "andThen (asList x) (\<lambda>l. pushBack l item) (q\<lparr>q_txList := l'\<rparr>) = (Ok e, ?q)"
    by (simp add: asList_def l(1) pushBack_def e)
  have others: "group_of ?q y = group_of q y" if "y \<in> set (A @ B)" for y
    using dist that l(1) unfolding ab(1) by (auto simp: group_of_def image_iff split: option.split)
  have this_: "group_of ?q x = group_of q x @ [e]" by (simp add: group_of_def l(1))
  have scores: "\<forall>y\<in>set xs. \<forall>e\<in>set (group_of q y). it_GetScore S (snd e) = Score y" using ok group_scores by blast
  have place: "elems ?q xs = place S e (elems q xs)"
  proof -
    have "elems ?q xs = elems q A @ (group_of q x @ [e]) @ elems q B"
      using others this_ unfolding ab(1) by (simp add: elems_def cong: map_cong)
    also have "\<dots> = elems q (A @ [x]) @ e # elems q B" by (simp add: elems_def)
    also have "\<dots> = place S e (elems q xs)"
      using elems_filter [OF scores, of "\<lambda>c. c \<ge> it_GetScore S item"] elems_filter [OF scores, of "\<lambda>c. \<not> c \<ge> it_GetScore S item"]
      unfolding ab(3,4) place_def e by simp
    finally show ?thesis .
  qed
  have groups: "\<forall>y\<in>set xs. group_ok S ?q y"
  proof
    fix y assume y: "y \<in> set xs"
    then have old: "group_ok S q y" using ok by blast
    show "group_ok S ?q y"
    proof (cases "y = x")
      case True
      then show ?thesis using old this_ ab(2) e by (auto simp: group_ok_def)
    next
      case False
      then have "group_of ?q y = group_of q y" using others y ab(1) by auto
      then show ?thesis using old by (simp add: group_ok_def)
    qed
  qed
  have "set (elems ?q xs) = insert e (set (elems q xs))" unfolding place place_def by auto
  moreover have "distinct (map fst (elems ?q xs))"
    using ids unfolding place place_def by (auto simp: e distinct_map inj_on_def)
  ultimately have "q_core S ?q xs" using groups dist keyed ids(2) e by (auto simp: q_core_def)
  then show ?thesis using run place by (auto simp: same_book_def)
qed

lemma insert_new:
  assumes core: "q_core S q xs" and f: "find (\<lambda>x. Score x = it_GetScore S item) xs = None"
    and keyed: "skip.keyed l' xs" and e: "e = (q_nelem q, item)"
  shows "\<exists>q' xs'. andThen (andThen newList (\<lambda>l. andThen (onList (sl_Insert rnd (CreateSkipValue S item\<lparr>SValue := Some l\<rparr>))) (\<lambda>_. returnO l)))
      (\<lambda>l. pushBack l item) (q\<lparr>q_txList := l'\<rparr>) = (Ok e, q') \<and> q_core S q' xs' \<and>
    elems q' xs' = place S e (elems q xs) \<and> same_book q q' \<and> q_nelem q' = Suc (q_nelem q)"
proof -
  define v where "v = \<lparr>Score = it_GetScore S item, SValue = Some (q_nlist q)\<rparr>"
  have v: "CreateSkipValue S item\<lparr>SValue := Some (q_nlist q)\<rparr> = v" by (simp add: v_def CreateSkipValue_def)
  have ok: "\<forall>y\<in>set xs. group_ok S q y" and dist: "distinct (map SValue xs)" and ids: "distinct (map fst (elems q xs))"
    "\<forall>e\<in>set (elems q xs). fst e < q_nelem q" using core by (auto simp: q_core_def)
  obtain l2 where l2: "sl_Insert rnd v l' = (Ok 1, l2)" "skip.keyed l2 (insert_value v xs)"
    using skip.keyed_insert [OF keyed, of v rnd] f by (auto simp: v_def)
  let ?q = "q\<lparr>q_txList := l2, q_lists := (q_lists q)(q_nlist q := [e]), q_nlist := Suc (q_nlist q), q_nelem := Suc (q_nelem q)\<rparr>"
  have run: "andThen (andThen newList (\<lambda>l. andThen (onList (sl_Insert rnd (CreateSkipValue S item\<lparr>SValue := Some l\<rparr>))) (\<lambda>_. returnO l)))
      (\<lambda>l. pushBack l item) (q\<lparr>q_txList := l'\<rparr>) = (Ok e, ?q)"
    using l2(1) by (simp add: andThen_def newList_def v onList_def pushBack_def e)
  have others: "group_of ?q y = group_of q y" if "y \<in> set xs" for y
    using ok that by (auto simp: group_ok_def group_of_def split: option.split)
  have new: "group_of ?q v = [e]" by (simp add: group_of_def v_def)
  have scores: "\<forall>y\<in>set xs. \<forall>e\<in>set (group_of q y). it_GetScore S (snd e) = Score y" using ok group_scores by blast
  have place: "elems ?q (insert_value v xs) = place S e (elems q xs)"
  proof -
    have same: "elems ?q (filter p xs) = elems q (filter p xs)" for p by (rule elems_cong) (use others in auto)
    have "elems ?q (insert_value v xs) =
        elems ?q (filter (\<lambda>x. Score x \<ge> it_GetScore S item) xs) @ e # elems ?q (filter (\<lambda>x. \<not> Score x \<ge> it_GetScore S item) xs)"
      using new by (simp add: insert_value_def elems_def v_def)
    moreover have "it_GetScore S (snd e) = it_GetScore S item" by (simp add: e)
    ultimately show ?thesis
      using elems_filter [OF scores, of "\<lambda>c. c \<ge> it_GetScore S item"] elems_filter [OF scores, of "\<lambda>c. \<not> c \<ge> it_GetScore S item"]
      unfolding same place_def by simp
  qed
  have sub: "set (insert_value v xs) = insert v (set xs)" by (auto simp: insert_value_def)
  have groups: "\<forall>y\<in>set (insert_value v xs). group_ok S ?q y"
  proof
    fix y assume "y \<in> set (insert_value v xs)"
    then consider "y = v" | "y \<in> set xs" "group_ok S q y" using sub ok by auto
    then show "group_ok S ?q y"
    proof cases
      case 1
      then show ?thesis using new by (auto simp: group_ok_def v_def e)
    next
      case 2
      then show ?thesis using others by (auto simp: group_ok_def less_Suc_eq)
    qed
  qed
  have "Some (q_nlist q) \<notin> SValue ` set xs" using ok by (auto simp: group_ok_def)
  then have dist': "distinct (map SValue (insert_value v xs))"
    using dist by (auto simp: insert_value_def v_def distinct_map inj_on_def)
  have "set (elems ?q (insert_value v xs)) = insert e (set (elems q xs))" unfolding place place_def by auto
  moreover have "distinct (map fst (elems ?q (insert_value v xs)))"
    using ids unfolding place place_def by (auto simp: e distinct_map inj_on_def)
  ultimately have "q_core S ?q (insert_value v xs)" using groups dist' l2(2) ids(2) e by (auto simp: q_core_def)
  then show ?thesis using run place by (auto simp: same_book_def)
qed

lemma insertSkipValue_spec:
  assumes core: "q_core S q xs" and e: "e = (q_nelem q, item)"
  shows "\<exists>q' xs'. insertSkipValue S rnd item q = (Ok e, q') \<and> q_core S q' xs' \<and>
    elems q' xs' = place S e (elems q xs) \<and> same_book q q' \<and> q_nelem q' = Suc (q_nelem q)"
proof -
  have "skip.keyed (q_txList q) xs" using core by (simp add: q_core_def)
  from skip.keyed_find [OF this, of "CreateSkipValue S item"]
  obtain l' where l': "sl_Find (CreateSkipValue S item) (q_txList q) = (Ok (find (\<lambda>x. Score x = it_GetScore S item) xs), l')" "skip.keyed l' xs"
    by (auto simp: CreateSkipValue_def)
  have found: "onList (sl_Find (CreateSkipValue S item)) q = (Ok (find (\<lambda>x. Score x = it_GetScore S item) xs), q\<lparr>q_txList := l'\<rparr>)"
    by (simp add: onList_def l'(1))
  show ?thesis
  proof (cases "find (\<lambda>x. Score x = it_GetScore S item) xs")
    case None
    then show ?thesis using insert_new [OF core None l'(2) e, of rnd] found by (simp add: insertSkipValue_def Let_def)
  next
    case (Some x)
    then show ?thesis using insert_found [OF core Some l'(2) e] found by (auto simp: insertSkipValue_def Let_def)
  qed
qed

lemma deleteSkipValue_spec:
  assumes core: "q_core S q xs" and e: "e \<in> set (elems q xs)"
  shows "\<exists>q' xs'. deleteSkipValue S (Some e) q = (Ok (), q') \<and> q_core S q' xs' \<and>
    elems q' xs' = filter (\<lambda>d. fst d \<noteq> fst e) (elems q xs) \<and> same_book q q' \<and> q_nelem q' = q_nelem q"
proof -
  have ok: "\<forall>y\<in>set xs. group_ok S q y" and dist: "distinct (map SValue xs)" and ids: "distinct (map fst (elems q xs))"
    "\<forall>e\<in>set (elems q xs). fst e < q_nelem q" and keyed: "skip.keyed (q_txList q) xs" using core by (auto simp: q_core_def)
  obtain x where x: "x \<in> set xs" "e \<in> set (group_of q x)" using e by (auto simp: elems_def)
  then have sc: "Score x = it_GetScore S (snd e)" using ok group_scores by force
  have f: "find (\<lambda>y. Score y = it_GetScore S (snd e)) xs = Some x"
  proof -
    obtain A B where ab: "xs = A @ x # B" using x(1) by (meson split_list)
    then have "\<forall>y\<in>set A. Score y \<noteq> Score x" using skip.keyed_strict [OF keyed] by (fastforce simp: sorted_wrt_append)
    then have "find (\<lambda>y. Score y = Score x) A = None" by (auto simp: find_None_iff)
    moreover have "find p (A @ x # B) = Some x" if "find p A = None" "p x" for p using that by (induction A) auto
    ultimately show ?thesis using ab sc by simp
  qed
  obtain A B where ab: "xs = A @ x # B" using x(1) by (meson split_list)
  obtain l where l: "SValue x = Some l" "l < q_nlist q" using ok x(1) by (auto simp: group_ok_def)
  from skip.keyed_find [OF keyed, of "CreateSkipValue S (snd e)"]
  obtain l' where l': "sl_Find (CreateSkipValue S (snd e)) (q_txList q) = (Ok (Some x), l')" "skip.keyed l' xs"
    using f by (auto simp: CreateSkipValue_def)
  let ?es = "filter (\<lambda>(i, _). i \<noteq> fst e) (q_lists q l)"
  let ?q = "q\<lparr>q_txList := l', q_lists := (q_lists q)(l := ?es)\<rparr>"
  have others: "group_of ?q y = group_of q y" if "y \<in> set (A @ B)" for y
    using dist that l(1) unfolding ab by (auto simp: group_of_def image_iff split: option.split)
  have this_: "group_of ?q x = filter (\<lambda>d. fst d \<noteq> fst e) (group_of q x)" by (simp add: group_of_def l(1) case_prod_unfold)
  have gone: "filter (\<lambda>d. fst d \<noteq> fst e) (elems q ys) = elems q ys" if "ys = A \<or> ys = B" for ys
  proof -
    have "distinct (map fst (elems q A @ group_of q x @ elems q B))" using ids(1) by (simp add: ab elems_def)
    moreover have "fst e \<in> fst ` set (group_of q x)" using x(2) by simp
    ultimately have "fst e \<notin> fst ` set (elems q ys)" using that by (auto simp del: set_map simp flip: set_map)
    then show ?thesis by (intro filter_True ballI) (metis image_eqI)
  qed
  have rest: "elems ?q xs = filter (\<lambda>d. fst d \<noteq> fst e) (elems q xs)"
  proof -
    have "elems ?q xs = elems q A @ filter (\<lambda>d. fst d \<noteq> fst e) (group_of q x) @ elems q B"
      using others this_ unfolding ab by (simp add: elems_def cong: map_cong)
    then show ?thesis using gone unfolding ab by (simp add: elems_def)
  qed
  have start: "deleteSkipValue S (Some e) q = (if ?es = [] then andThen (onList (sl_Delete (Some x))) (\<lambda>_. returnO ()) ?q else (Ok (), ?q))"
    using l by (simp add: deleteSkipValue_def onList_def l'(1) asList_def listRemove_def andThen_def)
  have ids': "distinct (map fst (elems ?q xs))" "\<forall>e\<in>set (elems ?q xs). fst e < q_nelem q"
    using ids unfolding rest by (auto simp: distinct_map inj_on_def)
  have group': "group_ok S ?q y" if "y \<in> set xs" "y = x \<longrightarrow> ?es \<noteq> []" for y
  proof (cases "y = x")
    case True
    then have "group_of ?q y \<noteq> []" using that(2) this_ by (simp add: group_of_def l(1))
    moreover have "\<forall>d\<in>set (group_of ?q y). it_GetScore S (snd d) = Score y"
      using True this_ ok x(1) group_scores [of S q x] by simp
    ultimately show ?thesis using True l by (simp add: group_ok_def)
  next
    case False
    then have "group_of ?q y = group_of q y" using others that(1) ab by auto
    then show ?thesis using ok that(1) by (auto simp: group_ok_def)
  qed
  show ?thesis
  proof (cases "?es = []")
    case False
    then have "q_core S ?q xs" using group' ids' dist l'(2) by (auto simp: q_core_def)
    then show ?thesis using start False rest by (intro exI [of _ ?q] exI [of _ xs]) (simp add: same_book_def)
  next
    case True
    obtain l2 where l2: "sl_Delete (Some x) l' = (Ok 1, l2)" "skip.keyed l2 (A @ B)"
      using skip.keyed_delete [of l' A x B x] l'(2) ab by auto
    let ?q2 = "?q\<lparr>q_txList := l2\<rparr>"
    have g: "group_of ?q2 = group_of ?q" by (rule group_of_lists) simp
    have "group_of ?q x = []" using True by (simp add: group_of_def l(1))
    then have "elems ?q (A @ B) = elems ?q xs" by (simp add: ab elems_def)
    moreover have "elems ?q2 = elems ?q" by (rule elems_lists) simp
    ultimately have e2: "elems ?q2 (A @ B) = elems ?q xs" by simp
    have "group_ok S ?q2 y" if "y \<in> set (A @ B)" for y
    proof -
      have "y \<noteq> x" using that dist ab by auto
      then show ?thesis using group' [of y] that ab unfolding group_ok_def g by simp
    qed
    then have "q_core S ?q2 (A @ B)" using ids' dist l2(2) unfolding q_core_def e2 unfolding ab by auto
    then show ?thesis using start True rest l2(1) e2
      by (intro exI [of _ ?q2] exI [of _ "A @ B"]) (simp add: same_book_def onList_def andThen_def)
  qed
qed

section \<open>The queue as a list of items\<close>

text \<open>
  \<open>q_rep S q its\<close>: the queue holds the items \<open>its\<close> in this order, the map finds exactly them by
  their hash, and the byte count is theirs.
\<close>

definition book_ok :: "'i scorer \<Rightarrow> 'i Queue \<Rightarrow> 'i element list \<Rightarrow> bool" where
  "book_ok S q es \<longleftrightarrow> distinct (map fst (q_txMap q)) \<and> set (q_txMap q) = (\<lambda>e. (it_Hash S (snd e), e)) ` set es \<and>
     distinct (map (\<lambda>e. it_Hash S (snd e)) es) \<and> q_cacheBytes q = i64 (\<Sum>e\<leftarrow>es. it_ByteSize S (snd e))"

definition q_rep :: "'i scorer \<Rightarrow> 'i Queue \<Rightarrow> 'i list \<Rightarrow> bool" where
  "q_rep S q its \<longleftrightarrow> (\<exists>xs. q_core S q xs \<and> book_ok S q (elems q xs) \<and> map snd (elems q xs) = its)"

definition put_item :: "'i scorer \<Rightarrow> 'i \<Rightarrow> 'i list \<Rightarrow> 'i list" where
  "put_item S item its =
     filter (\<lambda>d. it_GetScore S d \<ge> it_GetScore S item) its @ item # filter (\<lambda>d. \<not> it_GetScore S d \<ge> it_GetScore S item) its"

lemma map_of_book:
  assumes "book_ok S q es"
  shows "map_of (q_txMap q) h = Some e \<longleftrightarrow> e \<in> set es \<and> it_Hash S (snd e) = h"
  using assms map_of_eq_Some_iff [of "q_txMap q" h e] by (auto simp: book_ok_def)

lemma map_of_book_None:
  assumes "book_ok S q es"
  shows "map_of (q_txMap q) h = None \<longleftrightarrow> h \<notin> (\<lambda>e. it_Hash S (snd e)) ` set es"
  using assms by (auto simp: book_ok_def map_of_eq_None_iff image_iff)

lemma length_book:
  assumes "book_ok S q es"
  shows "length (q_txMap q) = length es"
proof -
  have d: "distinct (q_txMap q)" "distinct es" using assms by (auto simp: book_ok_def distinct_map)
  have "card (set (q_txMap q)) = card (set es)"
    using assms by (auto simp: book_ok_def intro!: card_image inj_onI)
  then show ?thesis using d by (simp add: distinct_card)
qed

lemma i64_of_i64 [simp]: "i64 (i64 x + y) = i64 (x + y)" "i64 (i64 x - y) = i64 (x - y)" "i64 (y + i64 x) = i64 (y + x)"
  by (simp_all add: i64_def mod_simps algebra_simps)

lemma sum_place:
  "(\<Sum>d\<leftarrow>place S e es. f d) = f e + (\<Sum>d\<leftarrow>es. f d :: int)"
  by (induction es) (auto simp: place_def)

lemma q_Insert_spec:
  assumes rep: "q_rep S q its" and new: "it_Hash S item \<notin> it_Hash S ` set its"
  shows "\<exists>q'. q_Insert S rnd (it_Hash S item) item q = (Ok (), q') \<and> q_rep S q' (put_item S item its) \<and> q_maxsize q' = q_maxsize q"
proof -
  obtain xs where xs: "q_core S q xs" "book_ok S q (elems q xs)" "map snd (elems q xs) = its" using rep by (auto simp: q_rep_def)
  let ?q = "q\<lparr>q_cacheBytes := i64 (q_cacheBytes q + it_ByteSize S item)\<rparr>" and ?e = "(q_nelem q, item)"
  have el: "elems ?q = elems q" by (rule elems_lists) simp
  have core: "q_core S ?q xs" using xs(1) q_core_lists [of ?q q S] by simp
  from insertSkipValue_spec [OF core, of ?e item rnd]
  obtain q1 xs' where q1: "insertSkipValue S rnd item ?q = (Ok ?e, q1)" "q_core S q1 xs'" "elems q1 xs' = place S ?e (elems q xs)"
    "same_book ?q q1" by (auto simp: el)
  let ?q2 = "q1\<lparr>q_txMap := AList.update (it_Hash S item) ?e (q_txMap q1)\<rparr>"
  have m1: "q_txMap q1 = q_txMap q" "q_maxsize q1 = q_maxsize q" "q_cacheBytes q1 = i64 (q_cacheBytes q + it_ByteSize S item)"
    using q1(4) by (auto simp: same_book_def)
  have el2: "elems ?q2 = elems q1" by (rule elems_lists) simp
  have core2: "q_core S ?q2 xs'" using q1(2) q_core_lists [of ?q2 q1 S] by simp
  have fresh: "it_Hash S item \<notin> (\<lambda>e. it_Hash S (snd e)) ` set (elems q xs)" using new unfolding xs(3) [symmetric] by (simp add: image_image)
  then have upd: "AList.update (it_Hash S item) ?e (q_txMap q) = q_txMap q @ [(it_Hash S item, ?e)]"
    using map_of_book_None [OF xs(2)] by (intro update_new) (simp add: map_of_eq_None_iff)
  have "book_ok S ?q2 (place S ?e (elems q xs))"
    unfolding book_ok_def
  proof (intro conjI)
    show "distinct (map fst (q_txMap ?q2))"
      using xs(2) map_of_book_None [OF xs(2)] fresh by (auto simp: m1 upd book_ok_def map_of_eq_None_iff)
    show "set (q_txMap ?q2) = (\<lambda>e. (it_Hash S (snd e), e)) ` set (place S ?e (elems q xs))"
      using xs(2) by (auto simp: m1 upd book_ok_def place_def)
    show "distinct (map (\<lambda>e. it_Hash S (snd e)) (place S ?e (elems q xs)))"
      using xs(2) fresh by (auto simp: book_ok_def place_def distinct_map inj_on_def image_iff)
    show "q_cacheBytes ?q2 = i64 (\<Sum>e\<leftarrow>place S ?e (elems q xs). it_ByteSize S (snd e))"
      using xs(2) by (simp add: m1 sum_place book_ok_def algebra_simps)
  qed
  moreover have "map snd (place S ?e (elems q xs)) = put_item S item its"
    unfolding xs(3) [symmetric] by (simp add: place_def put_item_def filter_map comp_def)
  ultimately have "q_rep S ?q2 (put_item S item its)" using core2 q1(3) by (auto simp: q_rep_def el2)
  then show ?thesis using q1(1) m1(2) by (auto simp: q_Insert_def)
qed

lemma sum_without:
  assumes "distinct (map g es)" and "e \<in> set es" and "g e = h"
  shows "(\<Sum>d\<leftarrow>es. f d) = (\<Sum>d\<leftarrow>filter (\<lambda>d. g d \<noteq> h) es. f d) + (f e :: int)"
proof -
  obtain A B where ab: "es = A @ e # B" using assms(2) by (meson split_list)
  then have "filter (\<lambda>d. g d \<noteq> h) A = A" "filter (\<lambda>d. g d \<noteq> h) B = B"
    using assms(1,3) by (auto simp: filter_id_conv image_iff)
  then show ?thesis using assms(3) by (simp add: ab)
qed

lemma q_Remove_spec:
  assumes rep: "q_rep S q its"
  shows "\<exists>q'. q_Remove S h q = (if h \<in> it_Hash S ` set its then Ok () else Fail ErrNotFound, q') \<and>
    q_rep S q' (filter (\<lambda>i. it_Hash S i \<noteq> h) its) \<and> q_maxsize q' = q_maxsize q"
proof -
  obtain xs where xs: "q_core S q xs" "book_ok S q (elems q xs)" "map snd (elems q xs) = its" using rep by (auto simp: q_rep_def)
  have hs: "it_Hash S ` set its = (\<lambda>e. it_Hash S (snd e)) ` set (elems q xs)" unfolding xs(3) [symmetric] by (simp add: image_image)
  show ?thesis
  proof (cases "map_of (q_txMap q) h")
    case None
    then have "h \<notin> it_Hash S ` set its" using map_of_book_None [OF xs(2)] hs by simp
    moreover from this have "filter (\<lambda>i. it_Hash S i \<noteq> h) its = its" by (intro filter_True) auto
    ultimately show ?thesis using None rep by (auto simp: q_Remove_def)
  next
    case (Some e)
    then have e: "e \<in> set (elems q xs)" "it_Hash S (snd e) = h" using map_of_book [OF xs(2)] by auto
    then have found: "h \<in> it_Hash S ` set its" using hs by auto
    let ?q = "q\<lparr>q_txMap := AList.delete h (q_txMap q)\<rparr>"
    have el: "elems ?q = elems q" by (rule elems_lists) simp
    have core: "q_core S ?q xs" using xs(1) q_core_lists [of ?q q S] by simp
    from deleteSkipValue_spec [OF core, of e] e(1)
    obtain q1 xs' where q1: "deleteSkipValue S (Some e) ?q = (Ok (), q1)" "q_core S q1 xs'"
      "elems q1 xs' = filter (\<lambda>d. fst d \<noteq> fst e) (elems q xs)" "same_book ?q q1" by (auto simp: el)
    let ?q2 = "q1\<lparr>q_cacheBytes := i64 (q_cacheBytes q1 - it_ByteSize S (snd e))\<rparr>"
    have m1: "q_txMap q1 = AList.delete h (q_txMap q)" "q_maxsize q1 = q_maxsize q" "q_cacheBytes q1 = q_cacheBytes q"
      using q1(4) by (auto simp: same_book_def)
    have el2: "elems ?q2 = elems q1" by (rule elems_lists) simp
    have core2: "q_core S ?q2 xs'" using q1(2) q_core_lists [of ?q2 q1 S] by simp
    have d: "distinct (map fst (elems q xs))" "distinct (map (\<lambda>e. it_Hash S (snd e)) (elems q xs))"
      using xs(1,2) by (auto simp: q_core_def book_ok_def)
    have same: "fst d \<noteq> fst e \<longleftrightarrow> it_Hash S (snd d) \<noteq> h" if "d \<in> set (elems q xs)" for d
      using d e that unfolding distinct_map inj_on_def by blast
    have es: "elems q1 xs' = filter (\<lambda>d. it_Hash S (snd d) \<noteq> h) (elems q xs)"
      unfolding q1(3) using same by (intro filter_cong) auto
    note total = sum_without [OF d(2) e]
    have "book_ok S ?q2 (elems q1 xs')"
      unfolding book_ok_def
    proof (intro conjI)
      show "distinct (map fst (q_txMap ?q2))" using xs(2) by (simp add: m1 book_ok_def distinct_delete)
      show "set (q_txMap ?q2) = (\<lambda>e. (it_Hash S (snd e), e)) ` set (elems q1 xs')"
        using xs(2) by (auto simp: m1 book_ok_def es AList.delete_eq)
      show "distinct (map (\<lambda>e. it_Hash S (snd e)) (elems q1 xs'))" using d(2) by (auto simp: es distinct_map inj_on_def)
      show "q_cacheBytes ?q2 = i64 (\<Sum>e\<leftarrow>elems q1 xs'. it_ByteSize S (snd e))"
        using xs(2) total [of "\<lambda>d. it_ByteSize S (snd d)"] by (simp add: m1 book_ok_def es)
    qed
    moreover have "map snd (elems q1 xs') = filter (\<lambda>i. it_Hash S i \<noteq> h) its"
      unfolding xs(3) [symmetric] es by (simp add: filter_map comp_def)
    ultimately have "q_rep S ?q2 (filter (\<lambda>i. it_Hash S i \<noteq> h) its)" using core2 by (auto simp: q_rep_def el2)
    then show ?thesis using q1(1) m1(2) Some found by (auto simp: q_Remove_def)
  qed
qed

lemma q_rep_length: "q_rep S q its \<Longrightarrow> q_Size q = int (length its)"
  by (auto simp: q_rep_def q_Size_def dest: length_book)

lemma q_rep_exist:
  assumes "q_rep S q its"
  shows "q_Exist q h \<longleftrightarrow> h \<in> it_Hash S ` set its"
proof -
  obtain xs where xs: "book_ok S q (elems q xs)" "map snd (elems q xs) = its" using assms by (auto simp: q_rep_def)
  show ?thesis unfolding q_Exist_def map_of_book_None [OF xs(1)] xs(2) [symmetric] by (simp add: image_image)
qed

lemma last_concat: "xss \<noteq> [] \<Longrightarrow> last xss \<noteq> [] \<Longrightarrow> last (concat xss) = last (last xss)"
  by (induction xss rule: rev_induct) auto

lemma q_Last_spec:
  assumes rep: "q_rep S q its"
  shows "q_Last q = (Ok (if its = [] then None else Some (last its)), q)"
proof (cases "its = []")
  case True
  then show ?thesis using q_rep_length [OF rep] by (simp add: q_Last_def)
next
  case False
  obtain xs where xs: "q_core S q xs" "map snd (elems q xs) = its" using rep by (auto simp: q_rep_def)
  have ne: "xs \<noteq> []" using xs(2) False by (auto simp: elems_def)
  have "group_ok S q (last xs)" "skip.keyed (q_txList q) xs" using xs(1) ne by (auto simp: q_core_def)
  then obtain l where l: "SValue (last xs) = Some l" "group_of q (last xs) \<noteq> []" "sl_rep (q_txList q) xs"
    by (auto simp: group_ok_def skip.keyed_def)
  have "elems q xs \<noteq> []" using False xs(2) by auto
  then have "last its = snd (last (elems q xs))" using xs(2) last_map by metis
  also have "last (elems q xs) = last (q_lists q l)"
    using last_concat [of "map (group_of q) xs"] ne l by (simp add: elems_def last_map group_of_def)
  finally have "last its = snd (last (q_lists q l))" .
  then show ?thesis
    using q_rep_length [OF rep] False ne l skip.rep_last [OF l(3)]
    by (auto simp: q_Last_def onList_def listBack_def asList_def group_of_def andThen_def split: list.split)
qed

lemma q_First_spec:
  assumes rep: "q_rep S q its"
  shows "q_First q = (Ok (if its = [] then None else Some (hd its)), q)"
proof (cases "its = []")
  case True
  then show ?thesis using q_rep_length [OF rep] by (simp add: q_First_def)
next
  case False
  obtain xs where xs: "q_core S q xs" "map snd (elems q xs) = its" using rep by (auto simp: q_rep_def)
  then obtain x ys where x: "xs = x # ys" using False by (cases xs) (auto simp: elems_def)
  have "group_ok S q x" "skip.keyed (q_txList q) xs" using xs(1) x by (auto simp: q_core_def)
  then obtain l where l: "SValue x = Some l" "group_of q x \<noteq> []" "sl_rep (q_txList q) xs"
    by (auto simp: group_ok_def skip.keyed_def)
  have "hd its = snd (hd (q_lists q l))"
    using l False xs(2) x by (cases "q_lists q l") (auto simp: elems_def group_of_def)
  then show ?thesis
    using q_rep_length [OF rep] False l skip.rep_first [OF l(3)] x
    by (auto simp: q_First_def onList_def listFront_def asList_def group_of_def andThen_def split: list.split)
qed

text \<open>The specification of a push on the list of items.\<close>

definition push_items :: "'i scorer \<Rightarrow> int \<Rightarrow> 'i \<Rightarrow> 'i list \<Rightarrow> unit outcome \<times> 'i list" where
  "push_items S maxsize item its =
     (if it_Hash S item \<in> it_Hash S ` set its then (Fail ErrTxExist, its)
      else if int (length its) < maxsize then (Ok (), put_item S item its)
      else if its = [] then (Panic, its)
      else if it_GetScore S item > it_GetScore S (last its) \<or>
              it_GetScore S item = it_GetScore S (last its) \<and> it_Compare S item (last its) = BigC
      then (Ok (), put_item S item (butlast its))
      else (Fail ErrMemFull, its))"

lemma q_rep_distinct: "q_rep S q its \<Longrightarrow> distinct (map (it_Hash S) its)"
  by (auto simp: q_rep_def book_ok_def comp_def)

lemma remove_last:
  assumes "distinct (map f its)" and "its \<noteq> []"
  shows "filter (\<lambda>i. f i \<noteq> f (last its)) its = butlast its"
  using assms by (induction its rule: rev_induct) (auto simp: filter_id_conv image_iff)

lemma q_Push_spec:
  assumes rep: "q_rep S q its"
  shows "\<exists>q'. q_Push S rnd item q = (fst (push_items S (q_maxsize q) item its), q') \<and>
    q_rep S q' (snd (push_items S (q_maxsize q) item its)) \<and> q_maxsize q' = q_maxsize q"
proof -
  consider "it_Hash S item \<in> it_Hash S ` set its" | "it_Hash S item \<notin> it_Hash S ` set its" "int (length its) < q_maxsize q"
    | "it_Hash S item \<notin> it_Hash S ` set its" "\<not> int (length its) < q_maxsize q" by blast
  then show ?thesis
  proof cases
    case 1
    then show ?thesis using rep q_rep_exist [OF rep] by (simp add: q_Push_def push_items_def)
  next
    case 2
    then show ?thesis
      using q_Insert_spec [OF rep 2(1), of rnd] q_rep_exist [OF rep] q_rep_length [OF rep] by (auto simp: q_Push_def push_items_def)
  next
    case 3
    show ?thesis
    proof (cases "its = []")
      case True
      then show ?thesis using 3 rep q_rep_exist [OF rep] q_rep_length [OF rep] q_Last_spec [OF rep]
        by (auto simp: q_Push_def push_items_def andThen_def)
    next
      case False
      let ?t = "last its"
      let ?better = "it_GetScore S item > it_GetScore S ?t \<or> it_GetScore S item = it_GetScore S ?t \<and> it_Compare S item ?t = BigC"
      have cmp: "(Compare (CreateSkipValue S item) (CreateSkipValue S ?t) = BigC \<or>
          Compare (CreateSkipValue S item) (CreateSkipValue S ?t) = EqualC \<and> it_Compare S item ?t = BigC) \<longleftrightarrow> ?better"
        by (auto simp: Compare_def CreateSkipValue_def compare_consts)
      have start: "q_Push S rnd item q = andThen (if ?better then q_Remove S (it_Hash S ?t) else failO ErrMemFull)
          (\<lambda>_. q_Insert S rnd (it_Hash S item) item) q"
        using 3 False q_rep_exist [OF rep] q_rep_length [OF rep] q_Last_spec [OF rep] unfolding cmp [symmetric]
        by (simp add: q_Push_def Let_def andThen_def)
      show ?thesis
      proof (cases ?better)
        case False
        then show ?thesis using start 3 rep \<open>its \<noteq> []\<close> by (auto simp: push_items_def)
      next
        case True
        obtain q1 where q1: "q_Remove S (it_Hash S ?t) q = (Ok (), q1)" "q_rep S q1 (butlast its)" "q_maxsize q1 = q_maxsize q"
          using q_Remove_spec [OF rep, of "it_Hash S ?t"] remove_last [OF q_rep_distinct [OF rep] False] False by auto
        have "it_Hash S item \<notin> it_Hash S ` set (butlast its)" using 3(1) by (auto dest: in_set_butlastD)
        from q_Insert_spec [OF q1(2) this, of rnd]
        show ?thesis using start True 3 False q1 by (auto simp: push_items_def)
      qed
    qed
  qed
qed

lemma walk_items_append:
  "walk_items n cb (es @ ds) ic =
    (case walk_items n cb es ic of (False, ic') \<Rightarrow> (False, ic') | (True, ic') \<Rightarrow> walk_items n cb ds ic')"
proof (induction es arbitrary: ic)
  case Nil
  then show ?case by (cases ic) simp
next
  case (Cons e es)
  obtain i c where ic: "ic = (i, c)" by (cases ic)
  then show ?case using Cons by (auto split: prod.split bool.split)
qed

lemma q_Walk_spec:
  assumes core: "q_core S q xs"
  shows "q_Walk n cb c q = (Ok (snd (snd (walk_items n cb (elems q xs) (0, c)))), q)"
proof -
  let ?f = "\<lambda>v st. case (v, st) of (Some l, Some ic) \<Rightarrow> (case walk_items n cb (q_lists q l) ic of (go, ic') \<Rightarrow> (go, Some ic')) | _ \<Rightarrow> (False, None)"
  have "sl_rep (q_txList q) xs" using core by (simp add: q_core_def skip.keyed_def)
  then obtain as where as: "sl_inv (q_txList q) as" "vals (q_txList q) as = xs" by (auto simp: sl_rep_def)
  have walk: "walk_values (\<lambda>v. ?f (SValue v)) ys (Some ic) = Some (snd (walk_items n cb (elems q ys) ic))" if "\<forall>y\<in>set ys. group_ok S q y" for ys ic
    using that
  proof (induction ys arbitrary: ic)
    case Nil
    then show ?case by (cases ic) (simp add: elems_def)
  next
    case (Cons y ys)
    obtain l where l: "SValue y = Some l" using Cons.prems by (auto simp: group_ok_def)
    obtain go ic' where w: "walk_items n cb (q_lists q l) ic = (go, ic')" by (rule prod.exhaust)
    have e: "elems q (y # ys) = q_lists q l @ elems q ys" using l by (simp add: elems_def group_of_def)
    show ?case unfolding e walk_items_append using w l Cons by (cases go) simp_all
  qed
  have "sl_Walk (Some ?f) (Some (0, c)) (q_txList q) = (Ok (Some (snd (walk_items n cb (elems q xs) (0, c)))), q_txList q)"
    using sl_WalkS_spec [OF as(1), of "\<lambda>v. ?f (SValue v)" "Some (0, c)"] walk [of xs] core as(2) by (simp add: sl_Walk_def q_core_def)
  then show ?thesis by (simp add: q_Walk_def split: prod.split)
qed

lemma walk_items_collect:
  "n \<le> 0 \<or> i < n \<Longrightarrow> snd (snd (walk_items n (\<lambda>x acc. (True, acc @ [x])) es (i, acc))) =
    acc @ map snd (if n \<le> 0 then es else take (nat (n - i)) es)" if "0 \<le> i"
  using that
proof (induction es arbitrary: i acc)
  case (Cons e es)
  show ?case
  proof (cases "i + 1 = n")
    case True
    then show ?thesis using Cons.prems by auto
  next
    case False
    then have "n \<le> 0 \<or> i + 1 < n" using Cons.prems by auto
    moreover have "nat (n - i) = Suc (nat (n - (i + 1)))" if "0 < n" using that Cons.prems False by auto
    ultimately show ?thesis using Cons False by auto
  qed
qed simp

section \<open>Sequences of calls\<close>

datatype 'i q_call = CallPush "nat \<Rightarrow> int" 'i | CallRemove string

fun q_exec :: "'i scorer \<Rightarrow> 'i q_call \<Rightarrow> ('i Queue, unit) op" where
  "q_exec S (CallPush rnd item) = q_Push S rnd item"
| "q_exec S (CallRemove h) = q_Remove S h"

fun q_run :: "'i scorer \<Rightarrow> 'i q_call list \<Rightarrow> 'i Queue \<Rightarrow> unit outcome list \<times> 'i Queue" where
  "q_run S [] q = ([], q)"
| "q_run S (c # cs) q = (case q_exec S c q of (r, q1) \<Rightarrow> case q_run S cs q1 of (rs, q2) \<Rightarrow> (r # rs, q2))"

fun items_exec :: "'i scorer \<Rightarrow> int \<Rightarrow> 'i q_call \<Rightarrow> 'i list \<Rightarrow> unit outcome \<times> 'i list" where
  "items_exec S maxsize (CallPush rnd item) its = push_items S maxsize item its"
| "items_exec S maxsize (CallRemove h) its =
     (if h \<in> it_Hash S ` set its then (Ok (), filter (\<lambda>i. it_Hash S i \<noteq> h) its) else (Fail ErrNotFound, its))"

fun items_run :: "'i scorer \<Rightarrow> int \<Rightarrow> 'i q_call list \<Rightarrow> 'i list \<Rightarrow> unit outcome list \<times> 'i list" where
  "items_run S maxsize [] its = ([], its)"
| "items_run S maxsize (c # cs) its =
     (case items_exec S maxsize c its of (r, its1) \<Rightarrow> case items_run S maxsize cs its1 of (rs, its2) \<Rightarrow> (r # rs, its2))"

lemma q_exec_refines:
  assumes rep: "q_rep S q its"
  shows "\<exists>q'. q_exec S c q = (fst (items_exec S (q_maxsize q) c its), q') \<and> q_rep S q' (snd (items_exec S (q_maxsize q) c its)) \<and>
    q_maxsize q' = q_maxsize q"
proof (cases c)
  case (CallPush rnd item)
  then show ?thesis using q_Push_spec [OF rep, of rnd item] by simp
next
  case (CallRemove h)
  have "filter (\<lambda>i. it_Hash S i \<noteq> h) its = its" if "h \<notin> it_Hash S ` set its" using that by (intro filter_True) auto
  then show ?thesis using CallRemove q_Remove_spec [OF rep, of h] by auto
qed

lemma q_run_refines:
  "q_rep S q its \<Longrightarrow> q_maxsize q = m \<Longrightarrow> \<exists>q'. q_run S cs q = (fst (items_run S m cs its), q') \<and>
    q_rep S q' (snd (items_run S m cs its)) \<and> q_maxsize q' = m"
proof (induction cs arbitrary: q its)
  case (Cons c cs)
  obtain q1 where q1: "q_exec S c q = (fst (items_exec S m c its), q1)" "q_rep S q1 (snd (items_exec S m c its))" "q_maxsize q1 = m"
    using q_exec_refines [OF Cons.prems(1), of c] Cons.prems(2) by auto
  from Cons.IH [OF this(2,3)] q1(1) show ?case by (auto simp: split_def)
qed auto

lemma NewQueue_rep: "q_rep S (NewQueue m) []"
proof -
  have "sl_rep (NewSkipList \<lparr>Score = -1, SValue = None\<rparr>) []" using NewSkipList_inv by (auto simp: sl_rep_def vals_def)
  then have "q_core S (NewQueue m) []" by (simp add: q_core_def NewQueue_def skip.keyed_def elems_def)
  then show ?thesis by (auto simp: q_rep_def NewQueue_def elems_def book_ok_def i64_def intro!: exI [of _ "[]"])
qed

lemma length_put_item: "length (put_item S item its) = Suc (length its)"
  by (induction its) (auto simp: put_item_def)

lemma items_exec_bound:
  "0 < m \<Longrightarrow> int (length its) \<le> m \<Longrightarrow> int (length (snd (items_exec S m c its))) \<le> m \<and> fst (items_exec S m c its) \<noteq> Panic"
  by (cases c) (auto simp: push_items_def length_put_item intro: order_trans [OF of_nat_mono [OF length_filter_le]])

lemma items_run_bound:
  "0 < m \<Longrightarrow> int (length its) \<le> m \<Longrightarrow> int (length (snd (items_run S m cs its))) \<le> m \<and> Panic \<notin> set (fst (items_run S m cs its))"
proof (induction cs arbitrary: its)
  case (Cons c cs)
  have "int (length (snd (items_exec S m c its))) \<le> m" "fst (items_exec S m c its) \<noteq> Panic"
    using items_exec_bound [OF Cons.prems] by auto
  with Cons.IH [OF Cons.prems(1) this(1)] show ?case by (auto simp: split_def)
qed auto

lemma sorted_constant: "\<forall>e\<in>set es. f e = (c :: int) \<Longrightarrow> sorted_wrt (\<lambda>a b. f a \<ge> f b) es"
  by (induction es) auto

lemma q_rep_sorted:
  assumes "q_rep S q its"
  shows "sorted_wrt (\<lambda>a b. it_GetScore S a \<ge> it_GetScore S b) its"
proof -
  obtain xs where xs: "q_core S q xs" "map snd (elems q xs) = its" using assms by (auto simp: q_rep_def)
  have "skip.keyed (q_txList q) xs" "\<forall>x\<in>set xs. group_ok S q x" using xs(1) by (auto simp: q_core_def)
  from skip.keyed_strict [OF this(1)] this(2)
  have "sorted_wrt (\<lambda>a b. it_GetScore S (snd a) \<ge> it_GetScore S (snd b)) (elems q xs)"
  proof (induction xs)
    case (Cons x xs)
    have eq: "\<forall>e\<in>set (group_of q y). it_GetScore S (snd e) = Score y" if "y \<in> set (x # xs)" for y
      using Cons.prems(2) that group_scores by blast
    have "it_GetScore S (snd a) \<ge> it_GetScore S (snd b)" if ab: "a \<in> set (group_of q x)" "b \<in> set (elems q xs)" for a b
    proof -
      obtain y where "y \<in> set xs" "b \<in> set (group_of q y)" using ab(2) by (auto simp: elems_def)
      then show ?thesis using eq [of x] eq [of y] ab(1) Cons.prems(1) by (auto intro: less_imp_le)
    qed
    moreover have "sorted_wrt (\<lambda>a b. it_GetScore S (snd a) \<ge> it_GetScore S (snd b)) (group_of q x)"
      by (rule sorted_constant [where c = "Score x"]) (use eq [of x] in simp)
    ultimately show ?case using Cons by (simp add: elems_def sorted_wrt_append)
  qed (simp add: elems_def)
  then show ?thesis using xs(2) by (auto simp: sorted_wrt_map)
qed

text \<open>
  C25: The priority queue is a bounded list sorted by falling score, stable in arrival order.
  From an empty queue of positive capacity, every sequence of pushes and removals answers
  as the list does: a known hash is refused, a full queue drops its last item for a better one and
  refuses the others, an unknown hash is not found. No call panics, the size stays within the capacity,
  a walk visits the items in order up to the requested number, the first and last item are
  found, and the byte count is the sum over the items, modulo the wrap-around.
\<close>
theorem queue_refines_bounded_list:
  assumes "0 < maxsize"
  shows "\<exists>q its. q_run S cs (NewQueue maxsize) = (fst (items_run S maxsize cs []), q) \<and> its = snd (items_run S maxsize cs []) \<and>
    Panic \<notin> set (fst (items_run S maxsize cs [])) \<and> q_Size q = int (length its) \<and> int (length its) \<le> maxsize \<and>
    sorted_wrt (\<lambda>a b. it_GetScore S a \<ge> it_GetScore S b) its \<and> distinct (map (it_Hash S) its) \<and>
    q_Walk n (\<lambda>i acc. (True, acc @ [i])) [] q = (Ok (if n \<le> 0 then its else take (nat n) its), q) \<and>
    q_First q = (Ok (if its = [] then None else Some (hd its)), q) \<and>
    q_Last q = (Ok (if its = [] then None else Some (last its)), q) \<and>
    q_GetCacheBytes q = i64 (\<Sum>i\<leftarrow>its. it_ByteSize S i)"
proof -
  have "q_maxsize (NewQueue maxsize) = maxsize" by (simp add: NewQueue_def)
  from q_run_refines [OF NewQueue_rep this, of S cs]
  obtain q where q: "q_run S cs (NewQueue maxsize) = (fst (items_run S maxsize cs []), q)" "q_rep S q (snd (items_run S maxsize cs []))" by blast
  then obtain xs where xs: "q_core S q xs" "book_ok S q (elems q xs)" "map snd (elems q xs) = snd (items_run S maxsize cs [])"
    by (auto simp: q_rep_def)
  have "q_Walk n (\<lambda>i acc. (True, acc @ [i])) [] q =
      (Ok (if n \<le> 0 then snd (items_run S maxsize cs []) else take (nat n) (snd (items_run S maxsize cs []))), q)"
    using q_Walk_spec [OF xs(1), of n "\<lambda>i acc. (True, acc @ [i])" "[]"] walk_items_collect [of 0 n "elems q xs" "[]"]
    by (auto simp: xs(3) [symmetric] take_map)
  moreover have "q_GetCacheBytes q = i64 (\<Sum>i\<leftarrow>snd (items_run S maxsize cs []). it_ByteSize S i)"
    unfolding xs(3) [symmetric] using xs(2) by (simp add: book_ok_def q_GetCacheBytes_def comp_def)
  ultimately show ?thesis
    using q q_rep_length [OF q(2)] items_run_bound [of maxsize "[]" S cs] assms q_rep_sorted [OF q(2)] q_rep_distinct [OF q(2)]
      q_First_spec [OF q(2)] q_Last_spec [OF q(2)]
    by (intro exI [of _ q] exI [of _ "snd (items_run S maxsize cs [])"]) auto
qed

definition toy_scorer :: "int scorer" where
  "toy_scorer = \<lparr>it_GetScore = (\<lambda>i. i), it_Hash = (\<lambda>i. replicate (nat i) (CHR ''h'')), it_Compare = (\<lambda>a b. 0), it_ByteSize = (\<lambda>i. 10)\<rparr>"

theorem queue_refines_bounded_list_witness:
  "\<exists>q. q_run toy_scorer [CallPush (\<lambda>_. 0) 5, CallPush (\<lambda>_. 1) 3, CallPush (\<lambda>_. 2) 9] (NewQueue 2) = ([Ok (), Ok (), Ok ()], q) \<and>
    q_Walk 0 (\<lambda>i acc. (True, acc @ [i])) [] q = (Ok [9, 5], q)"
proof -
  have "items_run toy_scorer 2 [CallPush (\<lambda>_. 0) 5, CallPush (\<lambda>_. 1) 3, CallPush (\<lambda>_. 2) 9] [] = ([Ok (), Ok (), Ok ()], [9, 5])"
    by (simp add: push_items_def put_item_def toy_scorer_def)
  then show ?thesis
    using queue_refines_bounded_list [of 2 toy_scorer "[CallPush (\<lambda>_. 0) 5, CallPush (\<lambda>_. 1) 3, CallPush (\<lambda>_. 2) 9]" 0] by auto
qed

end
