(* ===== verification/Spec2Isabelle.thy ===== *)
theory Spec2Isabelle
  imports Account_Store Exec_LocalDB Mavl_Props Mempool_Props Merkle_Branch Merkle_Child Block_Props Score_Queue
begin

text \<open>
  A verification of the state, account, state-store, transaction-pool and Merkle-tree core of the
  dplatformos blockchain node (Go). A node receives transactions into a pool, a consensus module packs them into blocks,
  the executor runs them on a state database and a local database, and the chain stores the blocks
  with their Merkle roots. The theories follow that structure; every definition carries the name
  of the Go function it translates, with a prefix where several types share a method name.

  \<^bold>\<open>Conventions\<close> (theory \<open>Dpos_Prelude\<close>). A byte slice or Go string is a HOL string; a slice
  that the code compares with nil is an option. A fallible function returns an \<open>outcome\<close>: \<open>Ok\<close> with a value,
  \<open>Fail\<close> with an error of the code, or \<open>Panic\<close>. A stateful method is an \<open>op\<close> from a state to an
  outcome and the new state, so that a failure keeps the changes made before it. Arithmetic on \<^verbatim>\<open>int64\<close> and
  \<^verbatim>\<open>int32\<close> passes through \<open>i64\<close> and \<open>i32\<close>, which wrap around.

  \<^bold>\<open>State and accounts.\<close>
  \<^item> \<open>KV_Interface\<close>: the locale of a key-value store that accounts rely on, and what follows from it.
  \<^item> \<open>State_DB\<close> (\<^verbatim>\<open>executor/statedb.go\<close>): the state database with its cache, its transaction cache and the store
    behind them, and its interpretation of the locale.
  \<^item> \<open>Account\<close>, \<open>Exec_Account\<close> (\<^verbatim>\<open>account/account.go\<close>, \<^verbatim>\<open>account/genesis.go\<close>, \<^verbatim>\<open>account/execaccount.go\<close>): balances
    of addresses and of addresses inside contracts, every operation with its receipt.
  \<^item> \<open>Ledger\<close>, \<open>Ledger_Calls\<close>, \<open>Ledger_Safety\<close>: the abstract ledger (a map from addresses to balances and
    frozen amounts), the specification of each call on it, the refinement, and the ledger's invariants.
  \<^item> \<open>Account_Store\<close>: the composition of accounts and state database. Shown: the ledger stays sound (no
    negative balance, contract deposits covered), calls refine the ledger specification, coins are conserved except by
    mint, burn and issue, withdrawals that pass their check succeed, receipts list every write, and past the fork
    \<^verbatim>\<open>ForkExecRollback\<close> a rolled-back transaction leaves no trace.

  \<^bold>\<open>Local database.\<close>
  \<^item> \<open>Local_DB\<close> (\<^verbatim>\<open>common/db/localdb.go\<close>): the cache of the chain side over the main database.
  \<^item> \<open>Chain_Local\<close> (\<^verbatim>\<open>blockchain/localdb.go\<close>, \<^verbatim>\<open>common/common.go\<close>): the handle table and the message handlers. The
    search for a free handle runs with fuel one more than the number of handles in use, which is enough to find one.
  \<^item> \<open>Exec_LocalDB\<close> (\<^verbatim>\<open>executor/localdb.go\<close>): the executor side that buffers writes and sends them on
    commit. Shown: what any transaction and its commit do to the chain side and to what the executor reads; and
    the defect that a write rolled back on the executor side is published by a later commit.

  \<^bold>\<open>Transactions.\<close>
  \<^item> \<open>Tx\<close> (\<^verbatim>\<open>types/tx.go\<close>): hashes, fees, expiry, groups. The wire format, SHA-256, addresses of public
    keys and signature checks are the fields of \<open>tx_env\<close>; configuration values are \<open>tx_cfg\<close>. Shown: two groups
    that pass the check with the same header hash have the same transactions, and a created group passes the check.

  \<^bold>\<open>Transaction pool.\<close>
  \<^item> \<open>List_Map\<close> (\<^verbatim>\<open>common/listmap\<close>): a map in insertion order, with the locale \<open>ordered_map\<close>.
  \<^item> \<open>Mempool_Cache\<close>, \<open>Mempool_Index\<close> (\<^verbatim>\<open>system/mempool\<close>): the index by sender, the latest transactions, the
    short-hash index, the simple queue behind the locale \<open>queue_cache\<close>, the cache over them and its invariant.
  \<^item> \<open>Mempool\<close>, \<open>Mempool_Events\<close>: the pool, the checks on the way in, all message handlers, and an
    inductive step relation in which checks, pushes, expiry and blocks interleave.
  \<^item> \<open>Mempool_Props\<close>: in every reachable state the indices agree with the queue and hold only signed
    transactions; no handler panics; the exact answers of push and of the block builder's
    request; removal undoes a push; the fee rate offered stays in its bounds.

  \<^bold>\<open>Merkle trees\<close> (\<^verbatim>\<open>common/merkle/merkle.go\<close>).
  \<^item> \<open>Merkle\<close>: the functions. The final loop of the constant-space calculator has fuel 64: every round moves to
    a higher level and levels stay below 33, and the theorems show that it returns.
  \<^item> \<open>Merkle_Root\<close>: the chunked root equals the sequential root.
  \<^item> \<open>Merkle_Branch\<close>: the constant-space calculator returns the same root for each of its flags, and its branch leads back to it.
  \<^item> \<open>Merkle_Child\<close>: the children of the two-layer root tile the block.

  \<^bold>\<open>State store\<close> (\<^verbatim>\<open>system/store\<close>), the versioned Merkle AVL tree that holds the state of every block.
  \<^item> \<open>Mavl_Shape\<close>: the specification, balanced search trees without hashes or storage: insertion, removal and
    rotations on them, their sorted bindings, and the bound on the height.
  \<^item> \<open>Mavl_Node\<close> (\<^verbatim>\<open>mavl/db/node.go\<close>, \<^verbatim>\<open>tree.go\<close>, \<^verbatim>\<open>proof.go\<close>): the code. A \<open>world\<close> is a tree with its write batch and the
    database with the node cache behind it. Nodes below a persisted one are loaded on demand. The record \<open>mavl_env\<close>
    holds what is outside of the repository: SHA-256, the protobuf messages and the eviction of the ARC cache. The
    recursive calls on nodes have a fuel of one more than the height field of the node they start at.
  \<^item> \<open>Mavl_Repr\<close>: when a node, in memory or in the database, represents a tree of the specification; reading and
    iterating return what the specification says. \<open>Mavl_Update\<close>: setting and removing, with the rotations.
    \<open>Mavl_Save\<close>: hashing and saving. The set of trees that a run uses is a \<open>universe\<close>: the encodings of their
    node messages are different and SHA-256 does not collide on them; that the hashes of whole trees are different is proved.
  \<^item> \<open>Mavl_Tree\<close>: the calls on trees and on whole batches, as functional refinements: a root hash that has been
    returned stands for a version, and no call changes the versions there are.
  \<^item> \<open>Mavl_Proof\<close>: proofs of bindings, complete and, for steps of positive height, sound; and how a leaf can be
    passed off as an inner node.
  \<^item> \<open>Mavl_Store\<close>, \<open>Mavl_Query\<close> (\<^verbatim>\<open>mavl/mavl.go\<close>, \<^verbatim>\<open>base.go\<close>): the store with its pending trees, the message
    handler, range and list queries. \<open>Mavl_Handler\<close>: the handler as a step relation and its invariant.
  \<^item> \<open>Version_Store\<close>: the locale of a versioned store, with the database calls and the two-phase calls as instances.
  \<^item> \<open>Mavl_Sample\<close>: a concrete environment for the witnesses. \<open>Mavl_Props\<close>: the properties. Shown: after a chain of
    blocks every root hash reads the state of its block; reachable stores are well-formed; rolling back leaves the
    database as it was; trees stay sorted and balanced, and report their size and a logarithmic height after any calls; equal root hashes mean equal contents; proofs; pages of a
    range; the fuel is enough and more of it changes nothing.

  \<^bold>\<open>Difficulty\<close> (\<open>Difficulty\<close>, \<^verbatim>\<open>common/difficulty\<close>): the compact form of targets on 32-bit words and the work of a block.
  Shown: the round trip on normalised forms, and bounds of the work.

  \<^bold>\<open>Blocks and the best chain.\<close>
  \<^item> \<open>Block_View\<close> (\<^verbatim>\<open>types/block.go\<close>, \<^verbatim>\<open>blockchain/blockindex.go\<close>, \<^verbatim>\<open>blockchain/chainview.go\<close>): block hashes, the index of block
    nodes, the view of the best chain and the plan of a reorganisation. Nodes live in a list and refer to each other
    by position. The loops along the parents are \<open>while_option\<close>; they are shown to end on a heap in which a parent
    is made before its child.
  \<^item> \<open>Orphan_Pool\<close> (\<^verbatim>\<open>blockchain/orphanpool.go\<close>): blocks whose parent is missing. The loops of \<^verbatim>\<open>ProcessOrphans\<close> have a
    fuel of twice the number of children and of the number of orphans; the theorems show that it is enough.
  \<^item> \<open>Block_Exec\<close> (\<^verbatim>\<open>util/util.go\<close>, \<^verbatim>\<open>util/exec.go\<close>): executing a block over the message handler of the state store. The answers of
    the pool, the executor, the chain and the consensus module are the fields of \<open>exec_env\<close>.
  \<^item> \<open>Block_Props\<close>. Shown: the plan of a reorganisation leaves and joins the right blocks, also when the view is at its limit; taking an orphan in keeps
    the pool consistent and within its limit, and the defect that a stale reference to the oldest orphan lets it
    grow; a block of another node that is executed without error leads to the state that its header names.

  \<^bold>\<open>Priority queue\<close> (\<^verbatim>\<open>common/skiplist\<close>).
  \<^item> \<open>Skip_List\<close>, \<open>Skip_List_Inv\<close>: the skip list with nodes in an explicit store, and the invariant of its links. A walk
    along the links has a fuel of one more than the number of allocated nodes; the invariant makes it enough.
  \<^item> \<open>Score_List\<close>: the skip list refines a list sorted by falling score. \<open>Score_Queue\<close>: the bounded queue over it.

  \<^bold>\<open>Not modelled.\<close> Pruning of old leaf versions and the in-memory hash tree of the state store are off by default and
  left out; so are MVCC values outside of the tree. Third-party code (protobuf, hash functions, signature schemes, key-value backends, the network
  library) is a parameter. Goroutines, channels and timers appear only as interleavings of handlers. The wallet, the
  remote interfaces, the network, command-line tools and configuration parsing are input and output around such code.
\<close>

end
